(* ===== verification/Coh_Prelude.thy ===== *)
theory Coh_Prelude
  imports Main "HOL-Library.Word" "HOL-Library.Product_Lexorder"
begin

text \<open>
  What every component of the CoherentDB development shares.

  \<^item> \<open>exn\<close> lists the ways a C++ operation of the repository can leave its normal path: a
    failed \<open>d_assert\<close> or \<open>r_assert\<close> (which abort the process) and the exception classes the
    sources throw. Fallible operations return \<open>exn + 'a\<close>, abbreviated \<open>'a res\<close>.
    \<open>C_assert\<close> is a failed \<open>assert\<close>, \<open>Bad_access\<close> an access through a null or dangling pointer,
    and \<open>Diverges\<close> the result of a loop that was given fuel and used it up.
  \<^item> \<open>d_assert\<close> and \<open>r_assert\<close> model \<open>src/include/debug/asserts.h\<close> in the Debug
    configuration, where both kinds of assertion are compiled in.
  \<^item> \<open>u32_add\<close>, \<open>u64_sub\<close> and their kin are the unsigned C++ operators on \<open>uint32_t\<close>,
    \<open>uint64_t\<close> and \<open>size_t\<close>: natural numbers with the wrap-around written out.
  \<^item> The collections \<open>res_simps\<close> and \<open>uint_simps\<close> carry the facts about them that the
    component proofs use.
\<close>

section \<open>Results\<close>

datatype exn =
    D_assert
  | R_assert
  | Bad_alloc
  | Io_exception
  | Out_of_range
  | Runtime_error
  | Out_of_ram_memory
  | Out_of_total_memory
  | Out_of_session_ram_memory
  | Out_of_session_total_memory
  | Config_exception int string
  | C_assert
  | Bad_access
  | Diverges

type_synonym 'a res = "exn + 'a"

named_theorems res_simps \<open>unfolding and elimination facts of the result type\<close>
named_theorems uint_simps \<open>unsigned arithmetic that does not wrap\<close>

definition bind_res :: "'a res \<Rightarrow> ('a \<Rightarrow> 'b res) \<Rightarrow> 'b res" where
  "bind_res r f = (case r of Inl e \<Rightarrow> Inl e | Inr a \<Rightarrow> f a)"

definition d_assert :: "bool \<Rightarrow> 'a res \<Rightarrow> 'a res" where
  "d_assert c k = (if c then k else Inl D_assert)"

definition r_assert :: "bool \<Rightarrow> 'a res \<Rightarrow> 'a res" where
  "r_assert c k = (if c then k else Inl R_assert)"

text \<open>The plain \<open>assert\<close> of \<open><cassert>\<close>, compiled in unless \<open>NDEBUG\<close> is defined.\<close>

definition c_assert :: "bool \<Rightarrow> 'a res \<Rightarrow> 'a res" where
  "c_assert c k = (if c then k else Inl C_assert)"

definition is_ok :: "'a res \<Rightarrow> bool" where
  "is_ok r = (case r of Inl _ \<Rightarrow> False | Inr _ \<Rightarrow> True)"

lemma bind_res_Inr [simp]: "bind_res (Inr a) f = f a"
  by (simp add: bind_res_def)

lemma bind_res_Inl [simp]: "bind_res (Inl e) f = Inl e"
  by (simp add: bind_res_def)

lemma bind_res_eq_Inr [res_simps]:
  "bind_res r f = Inr b \<longleftrightarrow> (\<exists>a. r = Inr a \<and> f a = Inr b)"
  by (cases r) auto

lemma bind_res_eq_Inl [res_simps]:
  "bind_res r f = Inl e \<longleftrightarrow> r = Inl e \<or> (\<exists>a. r = Inr a \<and> f a = Inl e)"
  by (cases r) auto

lemma bind_res_assoc: "bind_res (bind_res r f) g = bind_res r (\<lambda>x. bind_res (f x) g)"
  by (cases r) simp_all

lemma d_assert_True [simp]: "c \<Longrightarrow> d_assert c k = k"
  by (simp add: d_assert_def)

lemma d_assert_False [simp]: "\<not> c \<Longrightarrow> d_assert c k = Inl D_assert"
  by (simp add: d_assert_def)

lemma d_assert_eq_Inr [res_simps]: "d_assert c k = Inr a \<longleftrightarrow> c \<and> k = Inr a"
  by (simp add: d_assert_def)

lemma r_assert_True [simp]: "c \<Longrightarrow> r_assert c k = k"
  by (simp add: r_assert_def)

lemma r_assert_False [simp]: "\<not> c \<Longrightarrow> r_assert c k = Inl R_assert"
  by (simp add: r_assert_def)

lemma r_assert_eq_Inr [res_simps]: "r_assert c k = Inr a \<longleftrightarrow> c \<and> k = Inr a"
  by (simp add: r_assert_def)

lemma c_assert_True [simp]: "c \<Longrightarrow> c_assert c k = k"
  by (simp add: c_assert_def)

lemma c_assert_False [simp]: "\<not> c \<Longrightarrow> c_assert c k = Inl C_assert"
  by (simp add: c_assert_def)

lemma is_ok_simps [simp]: "is_ok (Inr a)" "\<not> is_ok (Inl e)"
  by (simp_all add: is_ok_def)

section \<open>Unsigned integers of fixed width\<close>

type_synonym u8 = "8 word"

definition u32_max :: nat where "u32_max = 2 ^ 32"
definition u64_max :: nat where "u64_max = 2 ^ 64"

definition u32_add :: "nat \<Rightarrow> nat \<Rightarrow> nat" where
  "u32_add a b = (a + b) mod u32_max"

definition u32_sub :: "nat \<Rightarrow> nat \<Rightarrow> nat" where
  "u32_sub a b = nat ((int a - int b) mod int u32_max)"

definition u32_of :: "nat \<Rightarrow> nat" where
  "u32_of a = a mod u32_max"

definition u64_add :: "nat \<Rightarrow> nat \<Rightarrow> nat" where
  "u64_add a b = (a + b) mod u64_max"

definition u64_sub :: "nat \<Rightarrow> nat \<Rightarrow> nat" where
  "u64_sub a b = nat ((int a - int b) mod int u64_max)"

definition u64_mul :: "nat \<Rightarrow> nat \<Rightarrow> nat" where
  "u64_mul a b = (a * b) mod u64_max"

lemma u32_max_gt [simp]: "0 < u32_max" by (simp add: u32_max_def)
lemma u64_max_gt [simp]: "0 < u64_max" by (simp add: u64_max_def)

lemma u32_max_lt_u64_max [simp]: "u32_max < u64_max"
  by (simp add: u32_max_def u64_max_def)

lemma u32_add_nowrap [uint_simps]: "a + b < u32_max \<Longrightarrow> u32_add a b = a + b"
  by (simp add: u32_add_def)

lemma u64_add_nowrap [uint_simps]: "a + b < u64_max \<Longrightarrow> u64_add a b = a + b"
  by (simp add: u64_add_def)

lemma u64_mul_nowrap [uint_simps]: "a * b < u64_max \<Longrightarrow> u64_mul a b = a * b"
  by (simp add: u64_mul_def)

lemma u32_of_nowrap [uint_simps]: "a < u32_max \<Longrightarrow> u32_of a = a"
  by (simp add: u32_of_def)

lemma u32_sub_nowrap [uint_simps]:
  assumes "b \<le> a" and "a < u32_max"
  shows "u32_sub a b = a - b"
proof -
  have "(int a - int b) mod int u32_max = int a - int b"
    using assms by (intro mod_pos_pos_trivial) auto
  then show ?thesis by (simp add: u32_sub_def)
qed

lemma u64_sub_nowrap [uint_simps]:
  assumes "b \<le> a" and "a < u64_max"
  shows "u64_sub a b = a - b"
proof -
  have "(int a - int b) mod int u64_max = int a - int b"
    using assms by (intro mod_pos_pos_trivial) auto
  then show ?thesis by (simp add: u64_sub_def)
qed

lemma u32_add_lt [simp]: "u32_add a b < u32_max"
  by (simp add: u32_add_def)

lemma u64_add_lt [simp]: "u64_add a b < u64_max"
  by (simp add: u64_add_def)

lemma u64_sub_lt [simp]: "u64_sub a b < u64_max"
  by (simp add: u64_sub_def nat_less_iff)

lemma u64_sub_add_cancel:
  assumes "a < u64_max"
  shows "u64_sub (u64_add a b) b = a"
proof -
  have "(int ((a + b) mod u64_max) - int b) mod int u64_max = int a mod int u64_max"
    by (simp add: zmod_int mod_diff_left_eq)
  also have "\<dots> = int a" using assms by simp
  finally show ?thesis by (simp add: u64_sub_def u64_add_def)
qed

lemma u64_sub_mod: "int (u64_sub a b) = (int a - int b) mod int u64_max"
  by (simp add: u64_sub_def)

lemma u64_sub_add_add: "u64_sub (u64_add a c) (u64_add b c) = u64_sub a b"
proof -
  have "int (u64_sub (u64_add a c) (u64_add b c)) = int (u64_sub a b)"
    by (simp add: u64_sub_mod u64_add_def zmod_int mod_diff_eq)
  then show ?thesis by simp
qed

lemma u64_sub_sub_sub: "u64_sub (u64_sub a c) (u64_sub b c) = u64_sub a b"
proof -
  have "int (u64_sub (u64_sub a c) (u64_sub b c)) = int (u64_sub a b)"
    by (simp add: u64_sub_mod mod_diff_eq)
  then show ?thesis by simp
qed

section \<open>Decimal numbers\<close>

text \<open>\<open>operator<<\<close> of an unsigned integer.\<close>

fun low_digits :: "nat \<Rightarrow> nat list" where
  "low_digits n = n mod 10 # (if n < 10 then [] else low_digits (n div 10))"

declare low_digits.simps [simp del]

definition decimal :: "nat \<Rightarrow> string" where
  "decimal n = rev (map (\<lambda>d. char_of (d + 48)) (low_digits n))"

end
