(* ===== verification/Std_Containers.thy ===== *)
theory Std_Containers
  imports Coh_Prelude
begin

text \<open>
  The ordered associative containers of the C++ standard library, as far as the sources
  use them: \<open>std::set\<close> is a strictly increasing list, \<open>std::map\<close> a list of pairs with
  strictly increasing keys. An iterator is the suffix of the container that starts at the
  element it points to, so \<open>end()\<close> is the empty suffix and the element before an iterator
  is the last one of the matching prefix.

  \<open>ordered_set\<close> and \<open>ordered_map\<close> state the laws the clients rely on; both are
  interpreted on the definitions of this theory.
\<close>

named_theorems container_simps \<open>what the container operations do to the set of elements\<close>

section \<open>std::set\<close>

fun os_insert :: "'a::linorder \<Rightarrow> 'a list \<Rightarrow> 'a list" where
  "os_insert x [] = [x]"
| "os_insert x (y # ys) =
     (if x < y then x # y # ys else if x = y then y # ys else y # os_insert x ys)"

definition os_erase :: "'a \<Rightarrow> 'a list \<Rightarrow> 'a list" where
  "os_erase x s = filter (\<lambda>y. y \<noteq> x) s"

definition os_upper_bound :: "'a::linorder \<Rightarrow> 'a list \<Rightarrow> 'a list" where
  "os_upper_bound x s = dropWhile (\<lambda>y. y \<le> x) s"

definition os_inv :: "'a::linorder list \<Rightarrow> bool" where
  "os_inv s = sorted_wrt (<) s"

lemma set_os_insert [container_simps]: "set (os_insert x s) = insert x (set s)"
  by (induction s) auto

lemma set_os_erase [container_simps]: "set (os_erase x s) = set s - {x}"
  by (auto simp: os_erase_def)

lemma os_inv_Nil [simp]: "os_inv []"
  by (simp add: os_inv_def)

lemma os_inv_insert: "os_inv s \<Longrightarrow> os_inv (os_insert x s)"
  unfolding os_inv_def by (induction s) (auto simp: set_os_insert)

lemma os_inv_erase: "os_inv s \<Longrightarrow> os_inv (os_erase x s)"
  by (simp add: os_inv_def os_erase_def sorted_wrt_filter)

lemma os_upper_bound_Nil: "os_inv s \<Longrightarrow> os_upper_bound x s = [] \<longleftrightarrow> (\<forall>y\<in>set s. y \<le> x)"
  by (simp add: os_upper_bound_def)

lemma os_upper_bound_Cons:
  assumes "os_inv s" and "os_upper_bound x s = y # ys"
  shows "y \<in> set s" and "x < y" and "\<And>z. z \<in> set s \<Longrightarrow> x < z \<Longrightarrow> y \<le> z"
proof -
  have split: "s = takeWhile (\<lambda>y. y \<le> x) s @ y # ys"
    using assms(2) takeWhile_dropWhile_id [of "\<lambda>y. y \<le> x" s] by (simp add: os_upper_bound_def)
  show "y \<in> set s" by (subst split) simp
  show "x < y" using assms(2) by (auto simp: os_upper_bound_def dropWhile_eq_Cons_conv)
  fix z assume "z \<in> set s" and "x < z"
  have srt: "sorted_wrt (<) (takeWhile (\<lambda>y. y \<le> x) s @ y # ys)"
    using assms(1) split unfolding os_inv_def by metis
  have "z \<in> set (takeWhile (\<lambda>y. y \<le> x) s) \<or> z = y \<or> z \<in> set ys"
    using \<open>z \<in> set s\<close> by (subst (asm) split) auto
  then show "y \<le> z"
    using srt \<open>x < z\<close> by (auto simp: sorted_wrt_append dest: set_takeWhileD)
qed

text \<open>\<open>upper_bound\<close> as the query the clients make: the first element above a bound.\<close>

definition os_first_above :: "'a::linorder \<Rightarrow> 'a list \<Rightarrow> 'a option" where
  "os_first_above x s = (case os_upper_bound x s of [] \<Rightarrow> None | y # _ \<Rightarrow> Some y)"

lemma os_first_above_None:
  "os_inv s \<Longrightarrow> os_first_above x s = None \<longleftrightarrow> (\<forall>y\<in>set s. y \<le> x)"
  using os_upper_bound_Nil [of s x] by (cases "os_upper_bound x s") (auto simp: os_first_above_def)

lemma os_first_above_Some:
  "os_inv s \<Longrightarrow> os_first_above x s = Some y \<longleftrightarrow>
     y \<in> set s \<and> x < y \<and> (\<forall>z\<in>set s. x < z \<longrightarrow> y \<le> z)"
proof (cases "os_upper_bound x s")
  case Nil
  assume "os_inv s"
  then have "\<forall>y\<in>set s. y \<le> x" using Nil os_upper_bound_Nil by blast
  with Nil show ?thesis by (auto simp: os_first_above_def)
next
  case (Cons w ws)
  assume "os_inv s"
  note c = os_upper_bound_Cons [OF \<open>os_inv s\<close> Cons]
  show ?thesis
    using Cons c by (auto simp: os_first_above_def intro: antisym)
qed

locale ordered_set =
  fixes empty :: "'s"
    and ins :: "'a::linorder \<Rightarrow> 's \<Rightarrow> 's"
    and era :: "'a \<Rightarrow> 's \<Rightarrow> 's"
    and above :: "'a \<Rightarrow> 's \<Rightarrow> 'a option"
    and elems :: "'s \<Rightarrow> 'a set"
    and invar :: "'s \<Rightarrow> bool"
  assumes elems_empty: "elems empty = {}"
    and elems_ins: "invar s \<Longrightarrow> elems (ins x s) = insert x (elems s)"
    and elems_era: "invar s \<Longrightarrow> elems (era x s) = elems s - {x}"
    and above_Some: "invar s \<Longrightarrow> above x s = Some y \<longleftrightarrow>
          y \<in> elems s \<and> x < y \<and> (\<forall>z\<in>elems s. x < z \<longrightarrow> y \<le> z)"
    and above_None: "invar s \<Longrightarrow> above x s = None \<longleftrightarrow> (\<forall>y\<in>elems s. y \<le> x)"
    and invar_empty: "invar empty"
    and invar_ins: "invar s \<Longrightarrow> invar (ins x s)"
    and invar_era: "invar s \<Longrightarrow> invar (era x s)"
begin

text \<open>The element found is the least one above the bound, so a smaller query finds it too.\<close>

lemma above_between:
  assumes "invar s" and "above x s = Some y" and "x \<le> x'" and "x' < y"
  shows "above x' s = Some y"
  using assms by (auto simp: above_Some intro: order_le_less_trans)

lemma era_ins_fresh:
  assumes "invar s" and "x \<notin> elems s"
  shows "elems (era x (ins x s)) = elems s"
  using assms by (simp add: elems_era elems_ins invar_ins)

end

interpretation std_set: ordered_set "[]" os_insert os_erase os_first_above set os_inv
  by unfold_locales
    (simp_all add: container_simps os_inv_insert os_inv_erase os_first_above_Some
      os_first_above_None)

section \<open>std::map\<close>

fun om_insert :: "'k::linorder \<Rightarrow> 'v \<Rightarrow> ('k \<times> 'v) list \<Rightarrow> ('k \<times> 'v) list" where
  "om_insert k v [] = [(k, v)]"
| "om_insert k v ((k', v') # m) =
     (if k < k' then (k, v) # (k', v') # m
      else if k = k' then (k', v') # m
      else (k', v') # om_insert k v m)"

definition om_erase :: "'k \<Rightarrow> ('k \<times> 'v) list \<Rightarrow> ('k \<times> 'v) list" where
  "om_erase k m = filter (\<lambda>e. fst e \<noteq> k) m"

definition om_find :: "'k \<Rightarrow> ('k \<times> 'v) list \<Rightarrow> 'v option" where
  "om_find k m = map_of m k"

text \<open>
  \<open>om_next k m\<close> is the entry \<open>upper_bound(k)\<close> points to, \<open>om_prev k m\<close> the one just before
  that iterator; \<open>None\<close> stands for \<open>end()\<close> and for an iterator equal to \<open>begin()\<close>.
\<close>

definition om_next :: "'k::linorder \<Rightarrow> ('k \<times> 'v) list \<Rightarrow> ('k \<times> 'v) option" where
  "om_next k m = (case dropWhile (\<lambda>e. fst e \<le> k) m of [] \<Rightarrow> None | e # _ \<Rightarrow> Some e)"

definition om_prev :: "'k::linorder \<Rightarrow> ('k \<times> 'v) list \<Rightarrow> ('k \<times> 'v) option" where
  "om_prev k m = (let pre = takeWhile (\<lambda>e. fst e \<le> k) m
                  in if pre = [] then None else Some (last pre))"

definition om_inv :: "('k::linorder \<times> 'v) list \<Rightarrow> bool" where
  "om_inv m = sorted_wrt (\<lambda>e e'. fst e < fst e') m"

lemma om_inv_Nil [simp]: "om_inv []"
  by (simp add: om_inv_def)

lemma om_inv_Cons: "om_inv ((k, v) # m) \<longleftrightarrow> (\<forall>e\<in>set m. k < fst e) \<and> om_inv m"
  by (auto simp: om_inv_def)

lemma om_inv_distinct: "om_inv m \<Longrightarrow> distinct (map fst m)"
  by (induction m) (auto simp: om_inv_def)

lemma om_inv_unique: "om_inv m \<Longrightarrow> (k, v) \<in> set m \<Longrightarrow> (k, v') \<in> set m \<Longrightarrow> v = v'"
  using om_inv_distinct eq_key_imp_eq_value by metis

lemma om_find_Some [container_simps]: "om_inv m \<Longrightarrow> om_find k m = Some v \<longleftrightarrow> (k, v) \<in> set m"
  by (simp add: om_find_def om_inv_distinct)

lemma om_find_None [container_simps]: "om_find k m = None \<longleftrightarrow> k \<notin> fst ` set m"
  by (simp add: om_find_def map_of_eq_None_iff)

lemma set_om_insert_fresh [container_simps]:
  "k \<notin> fst ` set m \<Longrightarrow> set (om_insert k v m) = insert (k, v) (set m)"
  by (induction k v m rule: om_insert.induct) auto

lemma set_om_insert_present [container_simps]:
  "om_inv m \<Longrightarrow> k \<in> fst ` set m \<Longrightarrow> om_insert k v m = m"
  by (induction k v m rule: om_insert.induct) (force simp: om_inv_def)+

lemma set_om_erase [container_simps]: "set (om_erase k m) = {e \<in> set m. fst e \<noteq> k}"
  by (auto simp: om_erase_def)

lemma om_insert_keys: "fst ` set (om_insert k v m) = insert k (fst ` set m)"
  by (induction k v m rule: om_insert.induct) auto

lemma om_inv_insert: "om_inv m \<Longrightarrow> om_inv (om_insert k v m)"
proof (induction k v m rule: om_insert.induct)
  case (2 k v k' v' m)
  have *: "\<And>e. e \<in> set (om_insert k v m) \<Longrightarrow> fst e = k \<or> (\<exists>e'\<in>set m. fst e = fst e')"
    using om_insert_keys [of k v m] by force
  show ?case
    using 2 * by (fastforce simp: om_inv_Cons)
qed (simp add: om_inv_def)

lemma om_inv_erase: "om_inv m \<Longrightarrow> om_inv (om_erase k m)"
  by (simp add: om_inv_def om_erase_def sorted_wrt_filter)

lemma om_next_Cons:
  "om_next k (e # m) = (if fst e \<le> k then om_next k m else Some e)"
  by (simp add: om_next_def)

lemma om_next_None: "om_next k m = None \<longleftrightarrow> (\<forall>e\<in>set m. fst e \<le> k)"
  by (induction m) (auto simp: om_next_def)

lemma om_next_Some:
  assumes "om_inv m"
  shows "om_next k m = Some e \<longleftrightarrow>
           e \<in> set m \<and> k < fst e \<and> (\<forall>e'\<in>set m. k < fst e' \<longrightarrow> fst e \<le> fst e')"
  using assms
proof (induction m)
  case Nil
  then show ?case by (simp add: om_next_def)
next
  case (Cons d m)
  have lt: "\<forall>e'\<in>set m. fst d < fst e'" and inv: "om_inv m"
    using Cons.prems by (auto simp: om_inv_def)
  show ?case
    using Cons.IH [OF inv] lt by (auto simp: om_next_Cons)
qed

lemma om_prev_None:
  assumes "om_inv m"
  shows "om_prev k m = None \<longleftrightarrow> (\<forall>e\<in>set m. k < fst e)"
  using assms by (cases m) (auto simp: om_prev_def Let_def om_inv_def not_le intro: order_less_trans)

lemma om_prev_Cons:
  "om_prev k (e # m) = (if fst e \<le> k then (case om_prev k m of None \<Rightarrow> Some e | Some d \<Rightarrow> Some d) else None)"
  by (simp add: om_prev_def Let_def)

lemma om_prev_SomeD:
  assumes "om_inv m" and "om_prev k m = Some e"
  shows "e \<in> set m \<and> fst e \<le> k \<and> (\<forall>e'\<in>set m. fst e' \<le> k \<longrightarrow> fst e' \<le> fst e)"
  using assms
proof (induction m)
  case Nil
  then show ?case by (simp add: om_prev_def)
next
  case (Cons d m)
  have lt: "\<forall>e'\<in>set m. fst d < fst e'" and inv: "om_inv m"
    using Cons.prems by (auto simp: om_inv_def)
  show ?case
  proof (cases "om_prev k m")
    case None
    then have "\<forall>e\<in>set m. k < fst e" using om_prev_None [OF inv] by simp
    with None Cons.prems show ?thesis by (auto simp: om_prev_Cons not_le split: if_splits)
  next
    case (Some p)
    with Cons.prems have "om_prev k m = Some e" by (auto simp: om_prev_Cons split: if_splits)
    then show ?thesis using Cons.IH [OF inv] lt by force
  qed
qed

lemma om_prev_Some:
  assumes "om_inv m"
  shows "om_prev k m = Some e \<longleftrightarrow>
           e \<in> set m \<and> fst e \<le> k \<and> (\<forall>e'\<in>set m. fst e' \<le> k \<longrightarrow> fst e' \<le> fst e)"
proof
  assume R: "e \<in> set m \<and> fst e \<le> k \<and> (\<forall>e'\<in>set m. fst e' \<le> k \<longrightarrow> fst e' \<le> fst e)"
  then obtain d where d: "om_prev k m = Some d"
    using om_prev_None [OF assms, of k] by (cases "om_prev k m") auto
  then have "d \<in> set m" and "fst d = fst e"
    using om_prev_SomeD [OF assms d] R by (auto intro: antisym)
  then have "d = e" using R om_inv_unique [OF assms] by (metis prod.collapse)
  with d show "om_prev k m = Some e" by simp
qed (rule om_prev_SomeD [OF assms])

locale ordered_map =
  fixes empty :: "'m"
    and ins :: "'k::linorder \<Rightarrow> 'v \<Rightarrow> 'm \<Rightarrow> 'm"
    and era :: "'k \<Rightarrow> 'm \<Rightarrow> 'm"
    and look :: "'k \<Rightarrow> 'm \<Rightarrow> 'v option"
    and nxt :: "'k \<Rightarrow> 'm \<Rightarrow> ('k \<times> 'v) option"
    and prv :: "'k \<Rightarrow> 'm \<Rightarrow> ('k \<times> 'v) option"
    and elems :: "'m \<Rightarrow> ('k \<times> 'v) set"
    and invar :: "'m \<Rightarrow> bool"
  assumes elems_empty: "elems empty = {}"
    and elems_functional: "invar m \<Longrightarrow> (k, v) \<in> elems m \<Longrightarrow> (k, v') \<in> elems m \<Longrightarrow> v = v'"
    and elems_ins: "invar m \<Longrightarrow> k \<notin> fst ` elems m \<Longrightarrow> elems (ins k v m) = insert (k, v) (elems m)"
    and ins_present: "invar m \<Longrightarrow> k \<in> fst ` elems m \<Longrightarrow> ins k v m = m"
    and elems_era: "invar m \<Longrightarrow> elems (era k m) = {e \<in> elems m. fst e \<noteq> k}"
    and look_Some: "invar m \<Longrightarrow> look k m = Some v \<longleftrightarrow> (k, v) \<in> elems m"
    and nxt_Some: "invar m \<Longrightarrow> nxt k m = Some e \<longleftrightarrow>
          e \<in> elems m \<and> k < fst e \<and> (\<forall>e'\<in>elems m. k < fst e' \<longrightarrow> fst e \<le> fst e')"
    and prv_Some: "invar m \<Longrightarrow> prv k m = Some e \<longleftrightarrow>
          e \<in> elems m \<and> fst e \<le> k \<and> (\<forall>e'\<in>elems m. fst e' \<le> k \<longrightarrow> fst e' \<le> fst e)"
    and invar_empty: "invar empty"
    and invar_ins: "invar m \<Longrightarrow> invar (ins k v m)"
    and invar_era: "invar m \<Longrightarrow> invar (era k m)"
begin

lemma look_ins_same:
  assumes "invar m" and "k \<notin> fst ` elems m"
  shows "look k (ins k v m) = Some v"
  using assms by (simp add: look_Some invar_ins elems_ins)

lemma look_ins_other:
  assumes "invar m" and "k \<noteq> k'"
  shows "look k (ins k' v m) = look k m"
proof (cases "k' \<in> fst ` elems m")
  case True
  with assms show ?thesis by (simp add: ins_present)
next
  case False
  have "look k (ins k' v m) = Some x \<longleftrightarrow> look k m = Some x" for x
    using assms False by (auto simp: look_Some invar_ins elems_ins)
  then show ?thesis by (metis option.exhaust)
qed

lemma look_era_same: "invar m \<Longrightarrow> look k (era k m) = None"
  using look_Some [OF invar_era] elems_era by (cases "look k (era k m)") auto

text \<open>A block that ends where the key starts is the predecessor of the key.\<close>

lemma prv_unique:
  assumes "invar m" and "e \<in> elems m" and "fst e \<le> k"
    and "\<And>e'. e' \<in> elems m \<Longrightarrow> fst e' \<le> k \<Longrightarrow> fst e' \<le> fst e"
  shows "prv k m = Some e"
  using assms by (simp add: prv_Some)

lemma nxt_unique:
  assumes "invar m" and "e \<in> elems m" and "k < fst e"
    and "\<And>e'. e' \<in> elems m \<Longrightarrow> k < fst e' \<Longrightarrow> fst e \<le> fst e'"
  shows "nxt k m = Some e"
  using assms by (simp add: nxt_Some)

end

interpretation std_map: ordered_map "[]" om_insert om_erase om_find om_next om_prev set om_inv
proof unfold_locales
  fix m :: "('k::linorder \<times> 'v) list" and k v v'
  assume "om_inv m" "(k, v) \<in> set m" "(k, v') \<in> set m"
  then show "v = v'" by (rule om_inv_unique)
qed (simp_all add: container_simps om_inv_insert om_inv_erase om_next_Some om_prev_Some)

end
