(* ===== verification/Simulation.thy ===== *)
theory Simulation
  imports Coh_Prelude
begin

text \<open>
  The refinement interface the components share. A component has a step relation on concrete
  states, its contract one on abstract states; both are labelled with what a client sees.
  The locale \<open>simulation\<close> states the obligations of one step and carries them over whole
  histories: every finite run of the component is a run of its contract, and the invariant
  holds all along.
\<close>

inductive run :: "('s \<Rightarrow> 'l \<Rightarrow> 's \<Rightarrow> bool) \<Rightarrow> 's \<Rightarrow> 'l list \<Rightarrow> 's \<Rightarrow> bool"
  for step where
  run_Nil: "run step s [] s"
| run_Cons: "step s l s' \<Longrightarrow> run step s' ls s'' \<Longrightarrow> run step s (l # ls) s''"

inductive_cases run_NilE: "run step s [] s'"
inductive_cases run_ConsE: "run step s (l # ls) s'"
inductive_simps run_Nil_iff [simp]: "run step s [] s'"
inductive_simps run_Cons_iff: "run step s (l # ls) s'"

lemma run_append: "run step s ls s' \<Longrightarrow> run step s' ms s'' \<Longrightarrow> run step s (ls @ ms) s''"
  by (induction rule: run.induct) (auto intro: run.intros)

lemma run_appendD: "run step s (ls @ ms) s'' \<Longrightarrow> \<exists>s'. run step s ls s' \<and> run step s' ms s''"
  by (induction ls arbitrary: s) (simp, metis append_Cons run_Cons_iff)

locale step_invariant =
  fixes step :: "'s \<Rightarrow> 'l \<Rightarrow> 's \<Rightarrow> bool"
    and invar :: "'s \<Rightarrow> bool"
  assumes invar_step: "invar s \<Longrightarrow> step s l s' \<Longrightarrow> invar s'"
begin

lemma invar_run: "run step s ls s' \<Longrightarrow> invar s \<Longrightarrow> invar s'"
  by (induction rule: run.induct) (auto intro: invar_step)

end

locale simulation = step_invariant cstep invar
  for cstep :: "'c \<Rightarrow> 'l \<Rightarrow> 'c \<Rightarrow> bool" and invar :: "'c \<Rightarrow> bool" +
  fixes astep :: "'a \<Rightarrow> 'l \<Rightarrow> 'a \<Rightarrow> bool"
    and abs :: "'c \<Rightarrow> 'a"
  assumes sim_step: "invar c \<Longrightarrow> cstep c l c' \<Longrightarrow> astep (abs c) l (abs c')"
begin

lemma sim_run: "run cstep c ls c' \<Longrightarrow> invar c \<Longrightarrow> run astep (abs c) ls (abs c')"
  by (induction rule: run.induct) (auto intro: run.intros sim_step invar_step)

lemma sim_run_inv:
  assumes "run cstep c ls c'" and "invar c"
  shows "invar c' \<and> run astep (abs c) ls (abs c')"
  using assms invar_run sim_run by blast

end

text \<open>Invariants that relate the state with the history of the labels that led to it.\<close>

locale history_invariant =
  fixes step :: "'s \<Rightarrow> 'l \<Rightarrow> 's \<Rightarrow> bool"
    and hinv :: "'l list \<Rightarrow> 's \<Rightarrow> bool"
  assumes hinv_step: "hinv h s \<Longrightarrow> step s l s' \<Longrightarrow> hinv (h @ [l]) s'"
begin

lemma hinv_run: "run step s ls s' \<Longrightarrow> hinv h s \<Longrightarrow> hinv (h @ ls) s'"
proof (induction arbitrary: h rule: run.induct)
  case (run_Cons s l s' ls s'')
  have "hinv ((h @ [l]) @ ls) s''" using run_Cons.IH [OF hinv_step [OF run_Cons.prems run_Cons.hyps(1)]] .
  then show ?case by simp
qed simp

lemma hinv_run_start: "run step s ls s' \<Longrightarrow> hinv [] s \<Longrightarrow> hinv ls s'"
  using hinv_run [of s ls s' "[]"] by simp

end

end
