(* ===== verification/Memory_Manager.thy ===== *)
theory Memory_Manager
  imports Simulation "HOL-Library.Multiset"
begin

text \<open>
  \<open>src/memory_manager/manager.cpp\<close> and \<open>src/include/memory_manager/manager.h\<close>: the
  process-wide budget of RAM and total bytes. The record has the class's fields; the
  condition variables in \<open>unfreeze_queue\<close> are numbers (their addresses). A blocking
  reservation is cut at its wait: \<open>reserve_ram_bytes\<close> runs up to the first evaluation of
  the loop condition, \<open>reserve_ram_loop\<close> is one evaluation of the loop condition and what
  follows it when it is false, \<open>reserve_ram_timeout\<close> is the exit of the timed variant.
  Every operation runs under the manager's mutex, so a history is a sequence of these steps.
\<close>

record memory_manager =
  mm_ram_reserved_bytes :: nat
  mm_total_reserved_bytes :: nat
  mm_unfreeze_queue :: "nat list"
  mm_ram_limit_bytes :: nat
  mm_total_limit_bytes :: nat
  mm_default_session_ram_limit_bytes :: nat
  mm_default_session_total_limit_bytes :: nat
  mm_max_small_alloc_pages_1024 :: nat
  mm_single_small_alloc_pages :: nat
  mm_page_size :: nat

section \<open>The inline getters\<close>

definition get_page_size :: "memory_manager \<Rightarrow> nat" where
  "get_page_size mm = mm_page_size mm"

definition get_default_session_ram_limit_bytes :: "memory_manager \<Rightarrow> nat" where
  "get_default_session_ram_limit_bytes mm = mm_default_session_ram_limit_bytes mm"

definition get_default_session_total_limit_bytes :: "memory_manager \<Rightarrow> nat" where
  "get_default_session_total_limit_bytes mm = mm_default_session_ram_limit_bytes mm"

definition get_max_small_alloc_bytes :: "memory_manager \<Rightarrow> nat" where
  "get_max_small_alloc_bytes mm =
     u64_mul (mm_max_small_alloc_pages_1024 mm) (mm_page_size mm) div 1024"

definition get_single_small_alloc_bytes :: "memory_manager \<Rightarrow> nat" where
  "get_single_small_alloc_bytes mm = u64_mul (mm_single_small_alloc_pages mm) (mm_page_size mm)"

section \<open>Reservations\<close>

datatype reserve_result = Reserved | Waiting | Timed_out

definition reserve_ram_loop :: "nat \<Rightarrow> nat \<Rightarrow> memory_manager \<Rightarrow> reserve_result \<times> memory_manager" where
  "reserve_ram_loop c bytes mm =
     (if hd (mm_unfreeze_queue mm) \<noteq> c \<or> u64_add (mm_ram_reserved_bytes mm) bytes > mm_ram_limit_bytes mm
      then (Waiting, mm)
      else (Reserved, mm\<lparr>mm_unfreeze_queue := tl (mm_unfreeze_queue mm),
              mm_ram_reserved_bytes := u64_add (mm_ram_reserved_bytes mm) bytes\<rparr>))"

definition reserve_ram_bytes :: "nat \<Rightarrow> nat \<Rightarrow> memory_manager \<Rightarrow> (reserve_result \<times> memory_manager) res" where
  "reserve_ram_bytes c bytes mm =
     (if bytes > mm_ram_limit_bytes mm then Inl Out_of_ram_memory
      else Inr (reserve_ram_loop c bytes (mm\<lparr>mm_unfreeze_queue := mm_unfreeze_queue mm @ [c]\<rparr>)))"

definition try_reserve_ram_bytes :: "nat \<Rightarrow> memory_manager \<Rightarrow> (bool \<times> memory_manager) res" where
  "try_reserve_ram_bytes bytes mm =
     (if bytes > mm_ram_limit_bytes mm then Inl Out_of_ram_memory
      else if u64_add (mm_ram_reserved_bytes mm) bytes > mm_ram_limit_bytes mm then Inr (False, mm)
      else Inr (True, mm\<lparr>mm_ram_reserved_bytes := u64_add (mm_ram_reserved_bytes mm) bytes\<rparr>))"

text \<open>
  \<open>timed_reserve_ram_bytes\<close>: each failed evaluation of the loop condition waits, and the wait
  either is woken (the argument \<open>woken\<close>) and evaluates again, or times out.
\<close>

definition reserve_ram_timeout :: "nat \<Rightarrow> memory_manager \<Rightarrow> reserve_result \<times> memory_manager" where
  "reserve_ram_timeout c mm = (Timed_out, mm\<lparr>mm_unfreeze_queue := remove1 c (mm_unfreeze_queue mm)\<rparr>)"

definition timed_reserve_ram_bytes :: "nat \<Rightarrow> nat \<Rightarrow> bool \<Rightarrow> memory_manager
    \<Rightarrow> (reserve_result \<times> memory_manager) res" where
  "timed_reserve_ram_bytes c bytes woken mm =
     bind_res (reserve_ram_bytes c bytes mm) (\<lambda>(r, mm).
       if r = Waiting \<and> \<not> woken then Inr (reserve_ram_timeout c mm) else Inr (r, mm))"

definition free_ram_bytes :: "nat \<Rightarrow> memory_manager \<Rightarrow> nat option \<times> memory_manager" where
  "free_ram_bytes bytes mm =
     (case mm_unfreeze_queue mm of [] \<Rightarrow> None | c # _ \<Rightarrow> Some c,
      mm\<lparr>mm_ram_reserved_bytes := u64_sub (mm_ram_reserved_bytes mm) bytes\<rparr>)"

definition reserve_total_loop :: "nat \<Rightarrow> nat \<Rightarrow> memory_manager \<Rightarrow> reserve_result \<times> memory_manager" where
  "reserve_total_loop c bytes mm =
     (if hd (mm_unfreeze_queue mm) \<noteq> c \<or> u64_add (mm_total_reserved_bytes mm) bytes > mm_total_limit_bytes mm
      then (Waiting, mm)
      else (Reserved, mm\<lparr>mm_unfreeze_queue := tl (mm_unfreeze_queue mm),
              mm_total_reserved_bytes := u64_add (mm_total_reserved_bytes mm) bytes\<rparr>))"

definition reserve_total_bytes :: "nat \<Rightarrow> nat \<Rightarrow> memory_manager \<Rightarrow> (reserve_result \<times> memory_manager) res" where
  "reserve_total_bytes c bytes mm =
     (if bytes > mm_total_limit_bytes mm then Inl Out_of_total_memory
      else Inr (reserve_total_loop c bytes (mm\<lparr>mm_unfreeze_queue := mm_unfreeze_queue mm @ [c]\<rparr>)))"

definition try_reserve_total_bytes :: "nat \<Rightarrow> memory_manager \<Rightarrow> (bool \<times> memory_manager) res" where
  "try_reserve_total_bytes bytes mm =
     (if bytes > mm_total_limit_bytes mm then Inl Out_of_total_memory
      else if u64_add (mm_total_reserved_bytes mm) bytes > mm_total_limit_bytes mm then Inr (False, mm)
      else Inr (True, mm\<lparr>mm_total_reserved_bytes := u64_add (mm_total_reserved_bytes mm) bytes\<rparr>))"

definition reserve_total_timeout :: "nat \<Rightarrow> memory_manager \<Rightarrow> reserve_result \<times> memory_manager" where
  "reserve_total_timeout c mm = (Timed_out, mm\<lparr>mm_unfreeze_queue := remove1 c (mm_unfreeze_queue mm)\<rparr>)"

definition timed_reserve_total_bytes :: "nat \<Rightarrow> nat \<Rightarrow> bool \<Rightarrow> memory_manager
    \<Rightarrow> (reserve_result \<times> memory_manager) res" where
  "timed_reserve_total_bytes c bytes woken mm =
     bind_res (reserve_total_bytes c bytes mm) (\<lambda>(r, mm).
       if r = Waiting \<and> \<not> woken then Inr (reserve_total_timeout c mm) else Inr (r, mm))"

definition free_total_bytes :: "nat \<Rightarrow> memory_manager \<Rightarrow> nat option \<times> memory_manager" where
  "free_total_bytes bytes mm =
     (case mm_unfreeze_queue mm of [] \<Rightarrow> None | c # _ \<Rightarrow> Some c,
      mm\<lparr>mm_total_reserved_bytes := u64_sub (mm_total_reserved_bytes mm) bytes\<rparr>)"

text \<open>
  The constructor and \<open>init\<close>. The section of the configuration and the page size of the system
  (\<open>sysconf\<close>) are arguments; \<open>init\<close> is given the current value of \<open>instance\<close>.
\<close>

record memory_manager_config =
  cfg_ram_limit_bytes :: nat
  cfg_total_limit_bytes :: nat
  cfg_default_session_ram_limit_bytes :: nat
  cfg_default_session_total_limit_bytes :: nat
  cfg_max_small_alloc_pages_1024 :: nat
  cfg_single_small_alloc_pages :: nat

definition memory_manager_ctor :: "memory_manager_config \<Rightarrow> nat \<Rightarrow> memory_manager" where
  "memory_manager_ctor conf sysconf_pagesize =
     \<lparr>mm_ram_reserved_bytes = 0, mm_total_reserved_bytes = 0, mm_unfreeze_queue = [],
      mm_ram_limit_bytes = cfg_ram_limit_bytes conf, mm_total_limit_bytes = cfg_total_limit_bytes conf,
      mm_default_session_ram_limit_bytes = cfg_default_session_ram_limit_bytes conf,
      mm_default_session_total_limit_bytes = cfg_default_session_total_limit_bytes conf,
      mm_max_small_alloc_pages_1024 = cfg_max_small_alloc_pages_1024 conf,
      mm_single_small_alloc_pages = cfg_single_small_alloc_pages conf, mm_page_size = sysconf_pagesize\<rparr>"

definition memory_manager_init :: "memory_manager_config \<Rightarrow> nat \<Rightarrow> memory_manager option \<Rightarrow> memory_manager res" where
  "memory_manager_init conf sysconf_pagesize inst =
     d_assert (inst = None) (Inr (memory_manager_ctor conf sysconf_pagesize))"

section \<open>The budget contract\<close>

text \<open>
  What the manager promises: the reservations outstanding never exceed the limits. The
  abstract state is the pair of multisets of outstanding reservations.
\<close>

datatype mm_event = Grant_ram nat | Free_ram nat | Grant_total nat | Free_total nat | Mm_none

inductive budget_step :: "nat \<times> nat \<Rightarrow> nat multiset \<times> nat multiset \<Rightarrow> mm_event \<Rightarrow> nat multiset \<times> nat multiset \<Rightarrow> bool"
  for lim where
  bg_grant_ram: "\<Sum>\<^sub># gr + n \<le> fst lim \<Longrightarrow> budget_step lim (gr, gt) (Grant_ram n) (add_mset n gr, gt)"
| bg_free_ram: "n \<in># gr \<Longrightarrow> budget_step lim (gr, gt) (Free_ram n) (gr - {#n#}, gt)"
| bg_grant_total: "\<Sum>\<^sub># gt + n \<le> snd lim \<Longrightarrow> budget_step lim (gr, gt) (Grant_total n) (gr, add_mset n gt)"
| bg_free_total: "n \<in># gt \<Longrightarrow> budget_step lim (gr, gt) (Free_total n) (gr, gt - {#n#})"
| bg_none: "budget_step lim g Mm_none g"

text \<open>
  A step of the manager: one of its critical sections, in any order and by any thread. The
  second component records the reservations granted and not yet freed; the only thing asked of
  the clients is that they free what they were granted.
\<close>

inductive mm_step :: "memory_manager \<times> (nat multiset \<times> nat multiset) \<Rightarrow> mm_event
    \<Rightarrow> memory_manager \<times> (nat multiset \<times> nat multiset) \<Rightarrow> bool" where
  st_reserve_ram: "reserve_ram_bytes c n mm = Inr (Reserved, mm') \<Longrightarrow>
     mm_step (mm, gr, gt) (Grant_ram n) (mm', add_mset n gr, gt)"
| st_wait_ram: "reserve_ram_bytes c n mm = Inr (Waiting, mm') \<Longrightarrow> mm_step (mm, g) Mm_none (mm', g)"
| st_retry_ram: "n \<le> mm_ram_limit_bytes mm \<Longrightarrow> reserve_ram_loop c n mm = (Reserved, mm') \<Longrightarrow>
     mm_step (mm, gr, gt) (Grant_ram n) (mm', add_mset n gr, gt)"
| st_rewait_ram: "reserve_ram_loop c n mm = (Waiting, mm') \<Longrightarrow> mm_step (mm, g) Mm_none (mm', g)"
| st_try_ram: "try_reserve_ram_bytes n mm = Inr (True, mm') \<Longrightarrow>
     mm_step (mm, gr, gt) (Grant_ram n) (mm', add_mset n gr, gt)"
| st_try_ram_no: "try_reserve_ram_bytes n mm = Inr (False, mm') \<Longrightarrow> mm_step (mm, g) Mm_none (mm', g)"
| st_timed_ram: "timed_reserve_ram_bytes c n woken mm = Inr (Reserved, mm') \<Longrightarrow>
     mm_step (mm, gr, gt) (Grant_ram n) (mm', add_mset n gr, gt)"
| st_timed_ram_no: "timed_reserve_ram_bytes c n woken mm = Inr (r, mm') \<Longrightarrow> r \<noteq> Reserved \<Longrightarrow>
     mm_step (mm, g) Mm_none (mm', g)"
| st_timeout_ram: "reserve_ram_timeout c mm = (r, mm') \<Longrightarrow> mm_step (mm, g) Mm_none (mm', g)"
| st_free_ram: "n \<in># gr \<Longrightarrow> free_ram_bytes n mm = (notified, mm') \<Longrightarrow>
     mm_step (mm, gr, gt) (Free_ram n) (mm', gr - {#n#}, gt)"
| st_reserve_total: "reserve_total_bytes c n mm = Inr (Reserved, mm') \<Longrightarrow>
     mm_step (mm, gr, gt) (Grant_total n) (mm', gr, add_mset n gt)"
| st_wait_total: "reserve_total_bytes c n mm = Inr (Waiting, mm') \<Longrightarrow> mm_step (mm, g) Mm_none (mm', g)"
| st_retry_total: "n \<le> mm_total_limit_bytes mm \<Longrightarrow> reserve_total_loop c n mm = (Reserved, mm') \<Longrightarrow>
     mm_step (mm, gr, gt) (Grant_total n) (mm', gr, add_mset n gt)"
| st_rewait_total: "reserve_total_loop c n mm = (Waiting, mm') \<Longrightarrow> mm_step (mm, g) Mm_none (mm', g)"
| st_try_total: "try_reserve_total_bytes n mm = Inr (True, mm') \<Longrightarrow>
     mm_step (mm, gr, gt) (Grant_total n) (mm', gr, add_mset n gt)"
| st_try_total_no: "try_reserve_total_bytes n mm = Inr (False, mm') \<Longrightarrow> mm_step (mm, g) Mm_none (mm', g)"
| st_timed_total: "timed_reserve_total_bytes c n woken mm = Inr (Reserved, mm') \<Longrightarrow>
     mm_step (mm, gr, gt) (Grant_total n) (mm', gr, add_mset n gt)"
| st_timed_total_no: "timed_reserve_total_bytes c n woken mm = Inr (r, mm') \<Longrightarrow> r \<noteq> Reserved \<Longrightarrow>
     mm_step (mm, g) Mm_none (mm', g)"
| st_timeout_total: "reserve_total_timeout c mm = (r, mm') \<Longrightarrow> mm_step (mm, g) Mm_none (mm', g)"
| st_free_total: "n \<in># gt \<Longrightarrow> free_total_bytes n mm = (notified, mm') \<Longrightarrow>
     mm_step (mm, gr, gt) (Free_total n) (mm', gr, gt - {#n#})"

definition mm_inv :: "nat \<times> nat \<Rightarrow> memory_manager \<times> (nat multiset \<times> nat multiset) \<Rightarrow> bool" where
  "mm_inv lim s \<longleftrightarrow> (case s of (mm, gr, gt) \<Rightarrow>
     mm_ram_limit_bytes mm = fst lim \<and> mm_total_limit_bytes mm = snd lim \<and>
     2 * fst lim < u64_max \<and> 2 * snd lim < u64_max \<and>
     mm_ram_reserved_bytes mm = \<Sum>\<^sub># gr \<and> mm_total_reserved_bytes mm = \<Sum>\<^sub># gt \<and>
     \<Sum>\<^sub># gr \<le> fst lim \<and> \<Sum>\<^sub># gt \<le> snd lim)"

text \<open>The three effects a step can have on the counters.\<close>

definition mm_same :: "memory_manager \<Rightarrow> memory_manager \<Rightarrow> bool" where
  "mm_same mm mm' \<longleftrightarrow> (\<exists>q. mm' = mm\<lparr>mm_unfreeze_queue := q\<rparr>)"

definition mm_grant_ram :: "nat \<Rightarrow> memory_manager \<Rightarrow> memory_manager \<Rightarrow> bool" where
  "mm_grant_ram n mm mm' \<longleftrightarrow> n \<le> mm_ram_limit_bytes mm \<and>
     u64_add (mm_ram_reserved_bytes mm) n \<le> mm_ram_limit_bytes mm \<and>
     (\<exists>q. mm' = mm\<lparr>mm_unfreeze_queue := q, mm_ram_reserved_bytes := u64_add (mm_ram_reserved_bytes mm) n\<rparr>)"

definition mm_grant_total :: "nat \<Rightarrow> memory_manager \<Rightarrow> memory_manager \<Rightarrow> bool" where
  "mm_grant_total n mm mm' \<longleftrightarrow> n \<le> mm_total_limit_bytes mm \<and>
     u64_add (mm_total_reserved_bytes mm) n \<le> mm_total_limit_bytes mm \<and>
     (\<exists>q. mm' = mm\<lparr>mm_unfreeze_queue := q, mm_total_reserved_bytes := u64_add (mm_total_reserved_bytes mm) n\<rparr>)"

named_theorems mm_effects \<open>what each critical section does to the counters\<close>

lemma mm_queue_update_id: "mm\<lparr>mm_unfreeze_queue := mm_unfreeze_queue mm\<rparr> = mm" by simp

lemma mm_same_self: "mm_same mm mm"
  unfolding mm_same_def by (metis mm_queue_update_id)

lemma reserve_ram_loop_effect [mm_effects]:
  "reserve_ram_loop c n mm = (r, mm') \<Longrightarrow> r \<noteq> Reserved \<Longrightarrow> mm_same mm mm'"
  "n \<le> mm_ram_limit_bytes mm \<Longrightarrow> reserve_ram_loop c n mm = (Reserved, mm') \<Longrightarrow> mm_grant_ram n mm mm'"
  by (auto simp: reserve_ram_loop_def mm_grant_ram_def mm_same_self split: if_splits)

lemma reserve_total_loop_effect [mm_effects]:
  "reserve_total_loop c n mm = (r, mm') \<Longrightarrow> r \<noteq> Reserved \<Longrightarrow> mm_same mm mm'"
  "n \<le> mm_total_limit_bytes mm \<Longrightarrow> reserve_total_loop c n mm = (Reserved, mm') \<Longrightarrow> mm_grant_total n mm mm'"
  by (auto simp: reserve_total_loop_def mm_grant_total_def mm_same_self split: if_splits)

lemma reserve_ram_effect [mm_effects]:
  "reserve_ram_bytes c n mm = Inr (r, mm') \<Longrightarrow> r \<noteq> Reserved \<Longrightarrow> mm_same mm mm'"
  "reserve_ram_bytes c n mm = Inr (Reserved, mm') \<Longrightarrow> mm_grant_ram n mm mm'"
  by (auto simp: reserve_ram_bytes_def reserve_ram_loop_def mm_grant_ram_def mm_same_def split: if_splits)

lemma reserve_total_effect [mm_effects]:
  "reserve_total_bytes c n mm = Inr (r, mm') \<Longrightarrow> r \<noteq> Reserved \<Longrightarrow> mm_same mm mm'"
  "reserve_total_bytes c n mm = Inr (Reserved, mm') \<Longrightarrow> mm_grant_total n mm mm'"
  by (auto simp: reserve_total_bytes_def reserve_total_loop_def mm_grant_total_def mm_same_def split: if_splits)

lemma try_reserve_ram_effect [mm_effects]:
  "try_reserve_ram_bytes n mm = Inr (False, mm') \<Longrightarrow> mm_same mm mm'"
  "try_reserve_ram_bytes n mm = Inr (True, mm') \<Longrightarrow> mm_grant_ram n mm mm'"
  by (auto simp: try_reserve_ram_bytes_def mm_grant_ram_def mm_same_self split: if_splits intro: exI [of _ "mm_unfreeze_queue mm"])

lemma try_reserve_total_effect [mm_effects]:
  "try_reserve_total_bytes n mm = Inr (False, mm') \<Longrightarrow> mm_same mm mm'"
  "try_reserve_total_bytes n mm = Inr (True, mm') \<Longrightarrow> mm_grant_total n mm mm'"
  by (auto simp: try_reserve_total_bytes_def mm_grant_total_def mm_same_self split: if_splits intro: exI [of _ "mm_unfreeze_queue mm"])

lemma timed_reserve_ram_effect [mm_effects]:
  "timed_reserve_ram_bytes c n woken mm = Inr (r, mm') \<Longrightarrow> r \<noteq> Reserved \<Longrightarrow> mm_same mm mm'"
  "timed_reserve_ram_bytes c n woken mm = Inr (Reserved, mm') \<Longrightarrow> mm_grant_ram n mm mm'"
  by (auto simp: timed_reserve_ram_bytes_def reserve_ram_timeout_def reserve_ram_bytes_def reserve_ram_loop_def
      mm_grant_ram_def mm_same_def res_simps split: if_splits)

lemma timed_reserve_total_effect [mm_effects]:
  "timed_reserve_total_bytes c n woken mm = Inr (r, mm') \<Longrightarrow> r \<noteq> Reserved \<Longrightarrow> mm_same mm mm'"
  "timed_reserve_total_bytes c n woken mm = Inr (Reserved, mm') \<Longrightarrow> mm_grant_total n mm mm'"
  by (auto simp: timed_reserve_total_bytes_def reserve_total_timeout_def reserve_total_bytes_def reserve_total_loop_def
      mm_grant_total_def mm_same_def res_simps split: if_splits)

lemma reserve_timeout_effect [mm_effects]:
  "reserve_ram_timeout c mm = (r, mm') \<Longrightarrow> mm_same mm mm'"
  "reserve_total_timeout c mm = (r, mm') \<Longrightarrow> mm_same mm mm'"
  by (auto simp: reserve_ram_timeout_def reserve_total_timeout_def mm_same_def)

text \<open>One step keeps the invariant and is a step of the contract.\<close>

definition mm_ok :: "nat \<times> nat \<Rightarrow> memory_manager \<times> (nat multiset \<times> nat multiset) \<Rightarrow> mm_event
    \<Rightarrow> memory_manager \<times> (nat multiset \<times> nat multiset) \<Rightarrow> bool" where
  "mm_ok lim s l s' \<longleftrightarrow> mm_inv lim s' \<and> budget_step lim (snd s) l (snd s')"

lemma mm_same_sim:
  assumes "mm_inv lim (mm, g)" and "mm_same mm mm'"
  shows "mm_ok lim (mm, g) Mm_none (mm', g)"
  using assms by (cases g) (auto simp: mm_ok_def mm_inv_def mm_same_def intro: bg_none)

lemma mm_grant_ram_sim:
  assumes inv: "mm_inv lim (mm, gr, gt)" and g: "mm_grant_ram n mm mm'"
  shows "mm_ok lim (mm, gr, gt) (Grant_ram n) (mm', add_mset n gr, gt)"
proof -
  have "u64_add (mm_ram_reserved_bytes mm) n = \<Sum>\<^sub># gr + n"
    using inv g by (intro trans [OF u64_add_nowrap]) (auto simp: mm_inv_def mm_grant_ram_def)
  then show ?thesis using inv g by (auto simp: mm_ok_def mm_inv_def mm_grant_ram_def intro: bg_grant_ram)
qed

lemma mm_grant_total_sim:
  assumes inv: "mm_inv lim (mm, gr, gt)" and g: "mm_grant_total n mm mm'"
  shows "mm_ok lim (mm, gr, gt) (Grant_total n) (mm', gr, add_mset n gt)"
proof -
  have "u64_add (mm_total_reserved_bytes mm) n = \<Sum>\<^sub># gt + n"
    using inv g by (intro trans [OF u64_add_nowrap]) (auto simp: mm_inv_def mm_grant_total_def)
  then show ?thesis using inv g by (auto simp: mm_ok_def mm_inv_def mm_grant_total_def intro: bg_grant_total)
qed

lemma sum_mset_remove: "n \<in># g \<Longrightarrow> \<Sum>\<^sub># g - n = \<Sum>\<^sub># (g - {#n#}) \<and> n \<le> \<Sum>\<^sub># (g::nat multiset)"
  by (auto dest: multi_member_split)

lemma mm_free_ram_sim:
  assumes inv: "mm_inv lim (mm, gr, gt)" and n: "n \<in># gr" and f: "free_ram_bytes n mm = (w, mm')"
  shows "mm_ok lim (mm, gr, gt) (Free_ram n) (mm', gr - {#n#}, gt)"
proof -
  have "u64_sub (mm_ram_reserved_bytes mm) n = \<Sum>\<^sub># (gr - {#n#})"
    using inv sum_mset_remove [OF n] by (intro trans [OF u64_sub_nowrap]) (auto simp: mm_inv_def)
  then show ?thesis
    using inv f sum_mset_remove [OF n] n by (auto simp: mm_ok_def mm_inv_def free_ram_bytes_def intro: bg_free_ram)
qed

lemma mm_free_total_sim:
  assumes inv: "mm_inv lim (mm, gr, gt)" and n: "n \<in># gt" and f: "free_total_bytes n mm = (w, mm')"
  shows "mm_ok lim (mm, gr, gt) (Free_total n) (mm', gr, gt - {#n#})"
proof -
  have "u64_sub (mm_total_reserved_bytes mm) n = \<Sum>\<^sub># (gt - {#n#})"
    using inv sum_mset_remove [OF n] by (intro trans [OF u64_sub_nowrap]) (auto simp: mm_inv_def)
  then show ?thesis
    using inv f sum_mset_remove [OF n] n by (auto simp: mm_ok_def mm_inv_def free_total_bytes_def intro: bg_free_total)
qed

lemma mm_step_sim:
  assumes "mm_step s l s'" and "mm_inv lim s"
  shows "mm_ok lim s l s'"
  using assms
  by (induction rule: mm_step.induct)
    (blast intro: mm_same_sim mm_grant_ram_sim mm_grant_total_sim mm_free_ram_sim mm_free_total_sim mm_effects
      reserve_result.distinct)+

interpretation budget: simulation mm_step "mm_inv lim" "budget_step lim" snd for lim
  by unfold_locales (use mm_step_sim in \<open>unfold mm_ok_def, blast\<close>)+

section \<open>Properties\<close>

text \<open>
  C4. Limit safety: starting from a fresh manager whose limits are at most half of the 64-bit range,
  after any interleaving of blocking, trying and timed reservations, retries, time-outs and frees
  (each client freeing what it was granted) the outstanding reservations are exactly what the
  counters say and never exceed the configured limits.
\<close>

theorem reservations_within_limits:
  assumes "run mm_step (memory_manager_ctor conf page, {#}, {#}) events (mm, gr, gt)"
    and "2 * cfg_ram_limit_bytes conf < u64_max" and "2 * cfg_total_limit_bytes conf < u64_max"
  shows "run (budget_step (cfg_ram_limit_bytes conf, cfg_total_limit_bytes conf)) ({#}, {#}) events (gr, gt) \<and>
    mm_ram_reserved_bytes mm = \<Sum>\<^sub># gr \<and> \<Sum>\<^sub># gr \<le> cfg_ram_limit_bytes conf \<and>
    mm_total_reserved_bytes mm = \<Sum>\<^sub># gt \<and> \<Sum>\<^sub># gt \<le> cfg_total_limit_bytes conf"
proof -
  have "mm_inv (cfg_ram_limit_bytes conf, cfg_total_limit_bytes conf) (memory_manager_ctor conf page, {#}, {#})"
    using assms(2,3) by (simp add: mm_inv_def memory_manager_ctor_def)
  from budget.sim_run_inv [OF assms(1) this] show ?thesis by (simp add: mm_inv_def)
qed

definition sample_conf :: memory_manager_config where
  "sample_conf = \<lparr>cfg_ram_limit_bytes = 100, cfg_total_limit_bytes = 200, cfg_default_session_ram_limit_bytes = 50,
     cfg_default_session_total_limit_bytes = 80, cfg_max_small_alloc_pages_1024 = 512, cfg_single_small_alloc_pages = 1\<rparr>"

theorem reservations_within_limits_witness:
  "\<exists>mm gr gt. run mm_step (memory_manager_ctor sample_conf 4096, {#}, {#}) [Grant_ram 60, Mm_none] (mm, gr, gt) \<and>
     mm_ram_reserved_bytes mm = \<Sum>\<^sub># gr \<and> \<Sum>\<^sub># gr \<le> 100"
proof -
  let ?m0 = "memory_manager_ctor sample_conf 4096"
  let ?m1 = "?m0\<lparr>mm_ram_reserved_bytes := 60\<rparr>" and ?m2 = "?m0\<lparr>mm_ram_reserved_bytes := 60, mm_unfreeze_queue := [5]\<rparr>"
  have "mm_step (?m0, {#}, {#}) (Grant_ram 60) (?m1, {#60#}, {#})"
    by (rule st_try_ram) (simp add: try_reserve_ram_bytes_def memory_manager_ctor_def sample_conf_def u64_add_def u64_max_def)
  moreover have "mm_step (?m1, {#60#}, {#}) Mm_none (?m2, {#60#}, {#})"
    by (rule st_wait_ram [of 5 70]) (simp add: reserve_ram_bytes_def reserve_ram_loop_def memory_manager_ctor_def
        sample_conf_def u64_add_def u64_max_def)
  ultimately have r: "run mm_step (?m0, {#}, {#}) [Grant_ram 60, Mm_none] (?m2, {#60#}, {#})"
    by (auto intro: run.intros)
  have lim: "cfg_ram_limit_bytes sample_conf = 100" "cfg_total_limit_bytes sample_conf = 200"
    by (simp_all add: sample_conf_def)
  have "mm_ram_reserved_bytes ?m2 = \<Sum>\<^sub># {#60#} \<and> \<Sum>\<^sub># {#60::nat#} \<le> 100"
    using reservations_within_limits [OF r] unfolding lim by (simp add: u64_max_def)
  then show ?thesis using r by blast
qed

section \<open>The queue of blocked reservations\<close>

text \<open>
  The same critical sections, labelled with what they do to \<open>unfreeze_queue\<close>. A retry or a time-out comes from a call that is
  blocked, so its condition variable is in the queue; several calls may use the same condition variable.
\<close>

datatype queue_event = Blocked nat | Granted nat | Granted_now nat | Gave_up nat | Gave_up_now nat | Queue_same

inductive queue_step :: "memory_manager \<Rightarrow> queue_event \<Rightarrow> memory_manager \<Rightarrow> bool" where
  qs_ram_now: "reserve_ram_bytes c n mm = Inr (Reserved, mm') \<Longrightarrow> queue_step mm (Granted_now c) mm'"
| qs_ram_wait: "reserve_ram_bytes c n mm = Inr (Waiting, mm') \<Longrightarrow> queue_step mm (Blocked c) mm'"
| qs_ram_retry: "c \<in> set (mm_unfreeze_queue mm) \<Longrightarrow> reserve_ram_loop c n mm = (Reserved, mm') \<Longrightarrow> queue_step mm (Granted c) mm'"
| qs_ram_rewait: "c \<in> set (mm_unfreeze_queue mm) \<Longrightarrow> reserve_ram_loop c n mm = (Waiting, mm') \<Longrightarrow> queue_step mm Queue_same mm'"
| qs_ram_timed_now: "timed_reserve_ram_bytes c n w mm = Inr (Reserved, mm') \<Longrightarrow> queue_step mm (Granted_now c) mm'"
| qs_ram_timed_wait: "timed_reserve_ram_bytes c n w mm = Inr (Waiting, mm') \<Longrightarrow> queue_step mm (Blocked c) mm'"
| qs_ram_timed_out: "timed_reserve_ram_bytes c n w mm = Inr (Timed_out, mm') \<Longrightarrow> queue_step mm (Gave_up_now c) mm'"
| qs_ram_timeout: "c \<in> set (mm_unfreeze_queue mm) \<Longrightarrow> reserve_ram_timeout c mm = (r, mm') \<Longrightarrow> queue_step mm (Gave_up c) mm'"
| qs_ram_try: "try_reserve_ram_bytes n mm = Inr (b, mm') \<Longrightarrow> queue_step mm Queue_same mm'"
| qs_ram_free: "free_ram_bytes n mm = (notified, mm') \<Longrightarrow> queue_step mm Queue_same mm'"
| qs_total_now: "reserve_total_bytes c n mm = Inr (Reserved, mm') \<Longrightarrow> queue_step mm (Granted_now c) mm'"
| qs_total_wait: "reserve_total_bytes c n mm = Inr (Waiting, mm') \<Longrightarrow> queue_step mm (Blocked c) mm'"
| qs_total_retry: "c \<in> set (mm_unfreeze_queue mm) \<Longrightarrow> reserve_total_loop c n mm = (Reserved, mm') \<Longrightarrow> queue_step mm (Granted c) mm'"
| qs_total_rewait: "c \<in> set (mm_unfreeze_queue mm) \<Longrightarrow> reserve_total_loop c n mm = (Waiting, mm') \<Longrightarrow> queue_step mm Queue_same mm'"
| qs_total_timed_now: "timed_reserve_total_bytes c n w mm = Inr (Reserved, mm') \<Longrightarrow> queue_step mm (Granted_now c) mm'"
| qs_total_timed_wait: "timed_reserve_total_bytes c n w mm = Inr (Waiting, mm') \<Longrightarrow> queue_step mm (Blocked c) mm'"
| qs_total_timed_out: "timed_reserve_total_bytes c n w mm = Inr (Timed_out, mm') \<Longrightarrow> queue_step mm (Gave_up_now c) mm'"
| qs_total_timeout: "c \<in> set (mm_unfreeze_queue mm) \<Longrightarrow> reserve_total_timeout c mm = (r, mm') \<Longrightarrow> queue_step mm (Gave_up c) mm'"
| qs_total_try: "try_reserve_total_bytes n mm = Inr (b, mm') \<Longrightarrow> queue_step mm Queue_same mm'"
| qs_total_free: "free_total_bytes n mm = (notified, mm') \<Longrightarrow> queue_step mm Queue_same mm'"

text \<open>The contract: a first-come first-served queue that callers may leave.\<close>

inductive fifo_step :: "nat list \<Rightarrow> queue_event \<Rightarrow> nat list \<Rightarrow> bool" where
  fifo_blocked: "fifo_step q (Blocked c) (q @ [c])"
| fifo_granted: "fifo_step (c # q) (Granted c) q"
| fifo_granted_now: "q = [] \<or> hd q = c \<Longrightarrow> fifo_step q (Granted_now c) (tl (q @ [c]))"
| fifo_gave_up: "c \<in> set q \<Longrightarrow> fifo_step q (Gave_up c) (remove1 c q)"
| fifo_gave_up_now: "fifo_step q (Gave_up_now c) (remove1 c (q @ [c]))"
| fifo_same: "fifo_step q Queue_same q"

inductive_simps fifo_simps:
  "fifo_step q (Blocked c) q'" "fifo_step q (Granted c) q'" "fifo_step q (Granted_now c) q'" "fifo_step q (Gave_up c) q'"
  "fifo_step q (Gave_up_now c) q'" "fifo_step q Queue_same q'"

lemma reserve_loop_queue:
  "reserve_ram_loop c n mm = (Reserved, mm') \<Longrightarrow> hd (mm_unfreeze_queue mm) = c \<and> mm_unfreeze_queue mm' = tl (mm_unfreeze_queue mm)"
  "reserve_total_loop c n mm = (Reserved, mm') \<Longrightarrow> hd (mm_unfreeze_queue mm) = c \<and> mm_unfreeze_queue mm' = tl (mm_unfreeze_queue mm)"
  "reserve_ram_loop c n mm = (Waiting, mm') \<Longrightarrow> mm' = mm" "reserve_total_loop c n mm = (Waiting, mm') \<Longrightarrow> mm' = mm"
  "reserve_ram_loop c n mm \<noteq> (Timed_out, mm')" "reserve_total_loop c n mm \<noteq> (Timed_out, mm')"
  by (auto simp: reserve_ram_loop_def reserve_total_loop_def split: if_splits)

lemma reserve_queue:
  "reserve_ram_bytes c n mm = Inr (Reserved, mm') \<Longrightarrow> fifo_step (mm_unfreeze_queue mm) (Granted_now c) (mm_unfreeze_queue mm')"
  "reserve_total_bytes c n mm = Inr (Reserved, mm') \<Longrightarrow> fifo_step (mm_unfreeze_queue mm) (Granted_now c) (mm_unfreeze_queue mm')"
  "reserve_ram_bytes c n mm = Inr (Waiting, mm') \<Longrightarrow> mm_unfreeze_queue mm' = mm_unfreeze_queue mm @ [c]"
  "reserve_total_bytes c n mm = Inr (Waiting, mm') \<Longrightarrow> mm_unfreeze_queue mm' = mm_unfreeze_queue mm @ [c]"
  "reserve_ram_bytes c n mm \<noteq> Inr (Timed_out, mm')" "reserve_total_bytes c n mm \<noteq> Inr (Timed_out, mm')"
  by (auto simp: reserve_ram_bytes_def reserve_total_bytes_def reserve_loop_queue(5,6) fifo_simps hd_append
      dest: reserve_loop_queue(1-4) split: if_splits)

lemma timed_reserve_queue:
  "timed_reserve_ram_bytes c n w mm = Inr (Reserved, mm') \<Longrightarrow> reserve_ram_bytes c n mm = Inr (Reserved, mm')"
  "timed_reserve_total_bytes c n w mm = Inr (Reserved, mm') \<Longrightarrow> reserve_total_bytes c n mm = Inr (Reserved, mm')"
  "timed_reserve_ram_bytes c n w mm = Inr (Waiting, mm') \<Longrightarrow> reserve_ram_bytes c n mm = Inr (Waiting, mm')"
  "timed_reserve_total_bytes c n w mm = Inr (Waiting, mm') \<Longrightarrow> reserve_total_bytes c n mm = Inr (Waiting, mm')"
  "timed_reserve_ram_bytes c n w mm = Inr (Timed_out, mm') \<Longrightarrow> mm_unfreeze_queue mm' = remove1 c (mm_unfreeze_queue mm @ [c])"
  "timed_reserve_total_bytes c n w mm = Inr (Timed_out, mm') \<Longrightarrow> mm_unfreeze_queue mm' = remove1 c (mm_unfreeze_queue mm @ [c])"
  by (auto simp: timed_reserve_ram_bytes_def timed_reserve_total_bytes_def reserve_ram_timeout_def reserve_total_timeout_def res_simps
      reserve_queue dest!: reserve_queue(3,4) split: if_splits)

lemma queue_step_fifo:
  assumes "queue_step mm l mm'"
  shows "fifo_step (mm_unfreeze_queue mm) l (mm_unfreeze_queue mm')"
  using assms
proof (induction rule: queue_step.induct)
  case (qs_ram_retry c mm n mm')
  then show ?case using reserve_loop_queue(1) [OF qs_ram_retry(2)] by (cases "mm_unfreeze_queue mm") (auto simp: fifo_simps)
next
  case (qs_total_retry c mm n mm')
  then show ?case using reserve_loop_queue(2) [OF qs_total_retry(2)] by (cases "mm_unfreeze_queue mm") (auto simp: fifo_simps)
next
  case (qs_ram_try n mm b mm')
  then show ?case by (auto simp: try_reserve_ram_bytes_def fifo_simps split: if_splits)
next
  case (qs_total_try n mm b mm')
  then show ?case by (auto simp: try_reserve_total_bytes_def fifo_simps split: if_splits)
qed (auto simp: free_ram_bytes_def free_total_bytes_def reserve_ram_timeout_def reserve_total_timeout_def
    fifo_simps(1,4-6) dest: reserve_queue(1-4) timed_reserve_queue reserve_loop_queue(3,4))

interpretation fifo: simulation queue_step "\<lambda>_. True" fifo_step mm_unfreeze_queue
  by unfold_locales (simp_all add: queue_step_fifo)

text \<open>While \<open>c\<close> is neither granted nor gives up, it stays in front of what is not yet in the queue.\<close>

definition ahead :: "nat \<Rightarrow> nat \<Rightarrow> nat list \<Rightarrow> bool" where
  "ahead c d q \<longleftrightarrow> (\<exists>us vs. q = us @ c # vs \<and> d \<notin> set us)"

definition leaves :: "nat \<Rightarrow> queue_event \<Rightarrow> bool" where
  "leaves c l \<longleftrightarrow> l = Granted c \<or> l = Granted_now c \<or> l = Gave_up c \<or> l = Gave_up_now c"

lemma ahead_remove1: "ahead c d q \<Longrightarrow> x \<noteq> c \<Longrightarrow> ahead c d (remove1 x q)"
  unfolding ahead_def by (metis (no_types, lifting) notin_set_remove1 remove1.simps(2) remove1_append)

lemma ahead_append: "ahead c d q \<Longrightarrow> ahead c d (q @ xs)"
  unfolding ahead_def by force

lemma ahead_hd: "ahead c d q \<Longrightarrow> c \<noteq> d \<Longrightarrow> q \<noteq> [] \<and> hd q \<noteq> d"
  by (cases q) (auto simp: ahead_def Cons_eq_append_conv)

lemma ahead_step:
  assumes "fifo_step q l q'" and a: "ahead c d q" and "\<not> leaves c l"
  shows "ahead c d q'"
  using assms(1)
proof (cases rule: fifo_step.cases)
  case (fifo_granted_now x)
  then have "q \<noteq> []" "hd q = x" using a by (auto simp: ahead_def)
  then have "q' = remove1 x (q @ [x])" "x \<noteq> c" using fifo_granted_now assms(3) by (cases q; auto simp: leaves_def)+
  then show ?thesis using a ahead_remove1 ahead_append by metis
next
  case (fifo_granted x)
  then have "q' = remove1 x q" "x \<noteq> c" using assms(3) by (auto simp: leaves_def)
  then show ?thesis using a ahead_remove1 by metis
qed (use a assms(3) ahead_remove1 ahead_append in \<open>auto simp: leaves_def\<close>)

lemma ahead_run: "run fifo_step q ls q' \<Longrightarrow> ahead c d q \<Longrightarrow> \<forall>l \<in> set ls. \<not> leaves c l \<Longrightarrow> ahead c d q'"
  by (induction rule: run.induct) (auto intro: ahead_step)

text \<open>No overtaking in the contract.\<close>

lemma no_overtaking:
  assumes r: "run fifo_step q (Blocked c # e2 @ l # e3) q'" and cd: "c \<noteq> d"
    and l: "l = Granted d \<or> l = Granted_now d" and d: "d \<notin> set q"
  shows "\<exists>l \<in> set e2. leaves c l"
proof (rule ccontr)
  assume no: "\<not> ?thesis"
  obtain q1 q2 where q: "run fifo_step (q @ [c]) e2 q1" "fifo_step q1 l q2"
    using r run_appendD by (fastforce simp: run_Cons_iff fifo_simps)
  have "ahead c d (q @ [c])" using d by (auto simp: ahead_def)
  then have "ahead c d q1" using ahead_run [OF q(1)] no by blast
  then show False using ahead_hd [OF _ cd, of q1] q(2) l by (auto simp: fifo_simps)
qed

text \<open>
  C8. First come, first served: in every interleaving of blocking, timed and trying reservations of both kinds, retries, time-outs
  and frees, \<open>unfreeze_queue\<close> is a queue of the blocked calls in the order of their arrival, and nobody overtakes: when a call
  with the condition variable \<open>d\<close> is granted its bytes, at once or after waiting, then every call with another condition variable
  that was blocked at a time when \<open>d\<close> was not waiting has been granted or has given up in between.
\<close>

theorem blocked_reservations_fifo:
  assumes "run queue_step (memory_manager_ctor conf page) e1 mm" and "run queue_step mm (Blocked c # e2 @ l # e3) mm'"
    and "c \<noteq> d" and "l = Granted d \<or> l = Granted_now d" and "d \<notin> set (mm_unfreeze_queue mm)"
  shows "run fifo_step [] (e1 @ Blocked c # e2 @ l # e3) (mm_unfreeze_queue mm') \<and> (\<exists>l' \<in> set e2. leaves c l')"
proof -
  have 1: "run fifo_step [] e1 (mm_unfreeze_queue mm)" using fifo.sim_run [OF assms(1)] by (simp add: memory_manager_ctor_def)
  have 2: "run fifo_step (mm_unfreeze_queue mm) (Blocked c # e2 @ l # e3) (mm_unfreeze_queue mm')" using fifo.sim_run [OF assms(2)] by simp
  show ?thesis using run_append [OF 1 2] no_overtaking [OF 2 assms(3-5)] by blast
qed

text \<open>Five waits for RAM and six behind it for total bytes; after a free both are granted, five first.\<close>

definition queue_state :: "nat \<Rightarrow> nat \<Rightarrow> nat list \<Rightarrow> memory_manager" where
  "queue_state ram tot q = (memory_manager_ctor sample_conf 4096)\<lparr>mm_ram_reserved_bytes := ram, mm_total_reserved_bytes := tot,
     mm_unfreeze_queue := q\<rparr>"

lemma sample_queue_run:
  "run queue_step (memory_manager_ctor sample_conf 4096) [Queue_same] (queue_state 60 0 [])"
  "run queue_step (queue_state 60 0 []) (Blocked 5 # [Blocked 6, Queue_same, Granted 5] @ Granted 6 # []) (queue_state 70 10 [])"
proof -
  note d = queue_state_def memory_manager_ctor_def sample_conf_def u64_add_def u64_sub_def u64_max_def
  have "queue_step (memory_manager_ctor sample_conf 4096) Queue_same (queue_state 60 0 [])"
    by (rule qs_ram_try [of 60 _ True]) (simp add: try_reserve_ram_bytes_def d)
  then show "run queue_step (memory_manager_ctor sample_conf 4096) [Queue_same] (queue_state 60 0 [])" by (simp add: run_Cons_iff)
  have "queue_step (queue_state 60 0 []) (Blocked 5) (queue_state 60 0 [5])"
    by (rule qs_ram_wait [of 5 70]) (simp add: reserve_ram_bytes_def reserve_ram_loop_def d)
  moreover have "queue_step (queue_state 60 0 [5]) (Blocked 6) (queue_state 60 0 [5, 6])"
    by (rule qs_total_wait [of 6 10]) (simp add: reserve_total_bytes_def reserve_total_loop_def d)
  moreover have "queue_step (queue_state 60 0 [5, 6]) Queue_same (queue_state 0 0 [5, 6])"
    by (rule qs_ram_free [of 60]) (simp add: free_ram_bytes_def d)
  moreover have "queue_step (queue_state 0 0 [5, 6]) (Granted 5) (queue_state 70 0 [6])"
    by (rule qs_ram_retry [of 5 _ 70]) (simp_all add: reserve_ram_loop_def d)
  moreover have "queue_step (queue_state 70 0 [6]) (Granted 6) (queue_state 70 10 [])"
    by (rule qs_total_retry [of 6 _ 10]) (simp_all add: reserve_total_loop_def d)
  ultimately show "run queue_step (queue_state 60 0 []) (Blocked 5 # [Blocked 6, Queue_same, Granted 5] @ Granted 6 # []) (queue_state 70 10 [])"
    by (auto simp: run_Cons_iff)
qed

theorem blocked_reservations_fifo_witness:
  "run fifo_step [] [Queue_same, Blocked 5, Blocked 6, Queue_same, Granted 5, Granted 6] [] \<and>
   (\<exists>l \<in> set [Blocked 6, Queue_same, Granted 5]. leaves 5 l)"
proof -
  have "6 \<notin> set (mm_unfreeze_queue (queue_state 60 0 []))" "mm_unfreeze_queue (queue_state 70 10 []) = []" by (simp_all add: queue_state_def)
  then show ?thesis using blocked_reservations_fifo [OF sample_queue_run, of 6] by simp
qed

end
