(* ===== verification/Sub_Session.thy ===== *)
theory Sub_Session
  imports Std_Containers Memory_Manager
begin

text \<open>
  \<open>src/memory_manager/sub_session.cpp\<close>: the allocator of a memory sub-session. Requests
  above \<open>get_max_small_alloc_bytes\<close> get a region of their own from \<open>mmap\<close>; smaller ones are
  cut, best fit first, out of shared regions whose free space is kept in
  \<open>free_small_chunks\<close> (by address) and \<open>free_small_chunks_inv\<close> (by size).

  \<open>mmap\<close> is not under \<open>src/\<close>: it is the argument \<open>mmap\<close> of \<open>ss_allocate\<close>, a
  function from the requested size to the address of the new region, \<open>None\<close> for
  \<open>MAP_FAILED\<close>. \<open>munmap\<close> shows in the result of \<open>ss_deallocate\<close> as the range
  given back. Addresses and sizes are natural numbers, pointer and \<open>size_t\<close> arithmetic
  is written with the wrapping operators.
\<close>

type_synonym addr = nat
type_synonym chunk = "addr \<times> nat"

section \<open>Data\<close>

record memory_session =
  ms_unfrozen_threads_count :: int
  ms_frozen :: "nat \<Rightarrow> bool option"
  ms_ram_limit_bytes :: nat
  ms_total_limit_bytes :: nat
  ms_ram_allocated_bytes :: nat
  ms_total_allocated_bytes :: nat
  ms_allocs :: "(addr \<times> nat) list"
  ms_default_sub_session :: nat
  ms_sub_sessions :: "nat list"

record memory_sub_session =
  ss_parent :: nat
  ss_frozen :: "nat \<Rightarrow> bool option"
  ss_unfrozen_threads_count :: int
  ss_allocated_bytes :: nat
  ss_allocs :: "chunk list"
  ss_small_allocs :: "chunk list"
  ss_free_small_chunks :: "chunk list"
  ss_free_small_chunks_inv :: "(nat \<times> addr) list"

section \<open>Operations\<close>

definition add_alloc :: "nat \<Rightarrow> addr \<Rightarrow> nat \<Rightarrow> memory_sub_session \<times> memory_session
    \<Rightarrow> memory_sub_session \<times> memory_session" where
  "add_alloc self p bytes st = (case st of (ss, ms) \<Rightarrow>
     (ss\<lparr>ss_allocated_bytes := u64_add (ss_allocated_bytes ss) bytes,
         ss_allocs := om_insert p bytes (ss_allocs ss)\<rparr>,
      ms\<lparr>ms_ram_allocated_bytes := u64_add (ms_ram_allocated_bytes ms) bytes,
         ms_total_allocated_bytes := u64_add (ms_total_allocated_bytes ms) bytes,
         ms_allocs := om_insert p self (ms_allocs ms)\<rparr>))"

definition remove_alloc :: "nat \<Rightarrow> addr \<Rightarrow> memory_sub_session \<times> memory_session
    \<Rightarrow> (memory_sub_session \<times> memory_session) res" where
  "remove_alloc self p st = (case st of (ss, ms) \<Rightarrow>
     (case om_find p (ss_allocs ss) of
        None \<Rightarrow> Inl D_assert
      | Some bytes \<Rightarrow>
          Inr (ss\<lparr>ss_allocated_bytes := u64_sub (ss_allocated_bytes ss) bytes,
                  ss_allocs := om_erase p (ss_allocs ss)\<rparr>,
               ms\<lparr>ms_ram_allocated_bytes := u64_sub (ms_ram_allocated_bytes ms) bytes,
                  ms_total_allocated_bytes := u64_sub (ms_total_allocated_bytes ms) bytes,
                  ms_allocs := om_insert p self (ms_allocs ms)\<rparr>)))"

definition smallest_sufficent_free_small_chunk :: "nat \<Rightarrow> memory_sub_session \<Rightarrow> nat \<times> addr" where
  "smallest_sufficent_free_small_chunk bytes ss =
     (case os_first_above (bytes, 0) (ss_free_small_chunks_inv ss) of
        None \<Rightarrow> (0, 0)
      | Some i \<Rightarrow> i)"

definition add_small_alloc :: "addr \<Rightarrow> nat \<Rightarrow> memory_sub_session \<Rightarrow> memory_sub_session" where
  "add_small_alloc p bytes ss = ss\<lparr>ss_small_allocs := os_insert (p, bytes) (ss_small_allocs ss)\<rparr>"

definition remove_small_alloc :: "addr \<Rightarrow> memory_sub_session \<Rightarrow> memory_sub_session res" where
  "remove_small_alloc p ss =
     (case os_first_above (p, 0) (ss_small_allocs ss) of
        None \<Rightarrow> Inl D_assert
      | Some i \<Rightarrow> d_assert (fst i = p)
          (Inr (ss\<lparr>ss_small_allocs := os_erase i (ss_small_allocs ss)\<rparr>)))"

definition is_small_alloc :: "addr \<Rightarrow> memory_sub_session \<Rightarrow> bool" where
  "is_small_alloc p ss =
     (case os_first_above (p, 0) (ss_small_allocs ss) of None \<Rightarrow> False | Some sa \<Rightarrow> fst sa = p)"

definition add_free_small_chunk :: "addr \<Rightarrow> nat \<Rightarrow> memory_sub_session \<Rightarrow> memory_sub_session" where
  "add_free_small_chunk p bytes ss =
     ss\<lparr>ss_free_small_chunks := om_insert p bytes (ss_free_small_chunks ss),
        ss_free_small_chunks_inv := os_insert (bytes, p) (ss_free_small_chunks_inv ss)\<rparr>"

definition remove_free_small_chunk :: "addr \<Rightarrow> memory_sub_session \<Rightarrow> memory_sub_session" where
  "remove_free_small_chunk p ss =
     ss\<lparr>ss_free_small_chunks_inv :=
          os_erase (case om_find p (ss_free_small_chunks ss) of None \<Rightarrow> 0 | Some n \<Rightarrow> n, p)
            (ss_free_small_chunks_inv ss),
        ss_free_small_chunks := om_erase p (ss_free_small_chunks ss)\<rparr>"

definition free_small_chunk_alloc :: "addr \<Rightarrow> memory_sub_session \<Rightarrow> chunk res" where
  "free_small_chunk_alloc p ss =
     (case om_prev p (ss_allocs ss) of None \<Rightarrow> Inl D_assert | Some c \<Rightarrow> Inr c)"

text \<open>
  The two halves of \<open>add_merge_remove_free_small_chunk\<close>: the remainder grows to the left
  over a free chunk that ends where it starts, then to the right over one that starts where
  it ends. Both erase the chunk they absorb from the two containers.
\<close>

definition erase_free_entry :: "chunk \<Rightarrow> memory_sub_session \<Rightarrow> memory_sub_session" where
  "erase_free_entry c ss =
     ss\<lparr>ss_free_small_chunks_inv := os_erase (snd c, fst c) (ss_free_small_chunks_inv ss),
        ss_free_small_chunks := om_erase (fst c) (ss_free_small_chunks ss)\<rparr>"

definition merge_previous :: "chunk \<Rightarrow> chunk \<Rightarrow> memory_sub_session
    \<Rightarrow> (chunk \<times> memory_sub_session) res" where
  "merge_previous chunk_alloc remainder ss =
     (case om_prev (fst remainder) (ss_free_small_chunks ss) of
        None \<Rightarrow> Inr (remainder, ss)
      | Some previous \<Rightarrow>
          if fst previous \<ge> fst chunk_alloc then
            d_assert (fst remainder > fst previous)
              (let diff = fst remainder - fst previous in
               d_assert (diff \<ge> snd previous)
                 (if diff = snd previous
                  then Inr ((fst previous, u64_add (snd remainder) (snd previous)),
                            erase_free_entry previous ss)
                  else Inr (remainder, ss)))
          else Inr (remainder, ss))"

definition merge_next :: "chunk \<Rightarrow> chunk \<Rightarrow> memory_sub_session
    \<Rightarrow> (chunk \<times> memory_sub_session) res" where
  "merge_next chunk_alloc remainder ss =
     (case om_next (fst remainder) (ss_free_small_chunks ss) of
        None \<Rightarrow> Inr (remainder, ss)
      | Some nxt \<Rightarrow>
          if snd remainder \<noteq> snd chunk_alloc then
            d_assert (fst nxt > fst remainder)
              (let diff = fst nxt - fst remainder in
               if diff = snd remainder
               then Inr ((fst remainder, u64_add (snd remainder) (snd nxt)),
                         erase_free_entry nxt ss)
               else Inr (remainder, ss))
          else Inr (remainder, ss))"

definition add_merge_remove_free_small_chunk :: "addr \<Rightarrow> nat \<Rightarrow> memory_sub_session
    \<Rightarrow> (chunk \<times> memory_sub_session) res" where
  "add_merge_remove_free_small_chunk p bytes ss =
     bind_res (free_small_chunk_alloc p ss) (\<lambda>chunk_alloc.
       if ss_free_small_chunks ss \<noteq> [] then
         bind_res (merge_previous chunk_alloc (p, bytes) ss) (\<lambda>(remainder, ss).
           merge_next chunk_alloc remainder ss)
       else Inr ((p, bytes), ss))"

definition ss_allocate :: "memory_manager \<Rightarrow> (nat \<Rightarrow> addr option) \<Rightarrow> nat \<Rightarrow> nat
    \<Rightarrow> memory_sub_session \<times> memory_session
    \<Rightarrow> (addr \<times> memory_sub_session \<times> memory_session) res" where
  "ss_allocate mm mmap self needed_bytes st =
     (let page_size = get_page_size mm in
      if needed_bytes > get_max_small_alloc_bytes mm then
        let bytes = u64_mul (u64_sub (u64_add needed_bytes page_size) 1 div page_size) page_size in
        (case mmap bytes of
           None \<Rightarrow> Inl Bad_alloc
         | Some p \<Rightarrow> Inr (p, add_alloc self p bytes st))
      else
        let optimal_chunk = smallest_sufficent_free_small_chunk needed_bytes (fst st);
            finish = (\<lambda>res remainder_size ss ms.
              if remainder_size \<noteq> 0
              then Inr (res, add_free_small_chunk (u64_add res needed_bytes) remainder_size ss, ms)
              else Inr (res, ss, ms))
        in
        if fst optimal_chunk = 0 then
          let bytes = get_single_small_alloc_bytes mm in
          (case mmap bytes of
             None \<Rightarrow> Inl Bad_alloc
           | Some p \<Rightarrow>
               (case add_alloc self p bytes st of (ss, ms) \<Rightarrow>
                  finish p (u64_sub bytes needed_bytes) (add_small_alloc p needed_bytes ss) ms))
        else
          finish (snd optimal_chunk) (u64_sub (fst optimal_chunk) needed_bytes)
            (remove_free_small_chunk (snd optimal_chunk)
               (add_small_alloc (snd optimal_chunk) needed_bytes (fst st)))
            (snd st))"

definition ss_deallocate :: "nat \<Rightarrow> addr \<Rightarrow> nat \<Rightarrow> memory_sub_session \<times> memory_session
    \<Rightarrow> (chunk option \<times> memory_sub_session \<times> memory_session) res" where
  "ss_deallocate self p bytes st = (case st of (ss, ms) \<Rightarrow>
     if is_small_alloc p ss then
       bind_res (remove_small_alloc p ss) (\<lambda>ss.
       bind_res (free_small_chunk_alloc p ss) (\<lambda>chunk_alloc.
       bind_res (add_merge_remove_free_small_chunk p bytes ss) (\<lambda>(remainder, ss).
         if snd chunk_alloc = snd remainder
         then bind_res (remove_alloc self (fst chunk_alloc) (ss, ms)) (\<lambda>st.
                Inr (Some chunk_alloc, st))
         else Inr (None, add_free_small_chunk (fst remainder) (snd remainder) ss, ms))))
     else
       bind_res (remove_alloc self p (ss, ms)) (\<lambda>st. Inr (Some (p, bytes), st)))"

end
