(* ===== verification/Chunk_Tiling.thy ===== *)
theory Chunk_Tiling
  imports Coh_Prelude
begin

text \<open>
  Intervals of addresses and the layout a sub-session keeps, without the containers: a set
  \<open>R\<close> of mapped regions, a set \<open>S\<close> of small blocks handed out and a set \<open>F\<close> of free
  chunks, each an (address, size) pair. \<open>tiling R S F\<close> is the invariant of
  \<open>memory_sub_session\<close> at this level; the lemmas say that the changes its operations make
  (a new region, a chunk cut in two, a block given back and merged with its neighbours,
  a region unmapped) keep it.
\<close>

type_synonym iv = "nat \<times> nat"

definition cend :: "iv \<Rightarrow> nat" where
  "cend c = fst c + snd c"

definition inb :: "nat \<Rightarrow> iv \<Rightarrow> bool" where
  "inb x c \<longleftrightarrow> fst c \<le> x \<and> x < cend c"

definition disj :: "iv \<Rightarrow> iv \<Rightarrow> bool" where
  "disj c d \<longleftrightarrow> cend c \<le> fst d \<or> cend d \<le> fst c"

definition inside :: "iv \<Rightarrow> iv \<Rightarrow> bool" where
  "inside c r \<longleftrightarrow> fst r \<le> fst c \<and> cend c \<le> cend r"

definition proper :: "iv \<Rightarrow> bool" where
  "proper c \<longleftrightarrow> 0 < fst c \<and> 0 < snd c \<and> cend c < u64_max"

definition covered :: "iv set \<Rightarrow> iv \<Rightarrow> bool" where
  "covered B r \<longleftrightarrow> (\<forall>x. inb x r \<longrightarrow> (\<exists>b\<in>B. inb x b))"

definition tiling :: "iv set \<Rightarrow> iv set \<Rightarrow> iv set \<Rightarrow> bool" where
  "tiling R S F \<longleftrightarrow>
     (\<forall>c\<in>R \<union> S \<union> F. proper c) \<and>
     (\<forall>r\<in>R. \<forall>r'\<in>R. r \<noteq> r' \<longrightarrow> disj r r') \<and>
     (\<forall>b\<in>S \<union> F. \<exists>r\<in>R. inside b r) \<and>
     (\<forall>b\<in>S \<union> F. \<forall>b'\<in>S \<union> F. b \<noteq> b' \<longrightarrow> disj b b') \<and>
     S \<inter> F = {} \<and>
     (\<forall>r\<in>R. (\<exists>b\<in>S \<union> F. inside b r) \<longrightarrow> covered (S \<union> F) r) \<and>
     (\<forall>r\<in>R. \<forall>f\<in>F. \<forall>f'\<in>F. inside f r \<longrightarrow> inside f' r \<longrightarrow> cend f \<noteq> fst f') \<and>
     R \<inter> F = {}"

lemma tilingI:
  assumes "\<And>c. c \<in> R \<union> S \<union> F \<Longrightarrow> proper c"
    and "\<And>r r'. r \<in> R \<Longrightarrow> r' \<in> R \<Longrightarrow> r \<noteq> r' \<Longrightarrow> disj r r'"
    and "\<And>b. b \<in> S \<union> F \<Longrightarrow> \<exists>r\<in>R. inside b r"
    and "\<And>b b'. b \<in> S \<union> F \<Longrightarrow> b' \<in> S \<union> F \<Longrightarrow> b \<noteq> b' \<Longrightarrow> disj b b'"
    and "S \<inter> F = {}"
    and "\<And>r b. r \<in> R \<Longrightarrow> b \<in> S \<union> F \<Longrightarrow> inside b r \<Longrightarrow> covered (S \<union> F) r"
    and "\<And>r f f'. r \<in> R \<Longrightarrow> f \<in> F \<Longrightarrow> f' \<in> F \<Longrightarrow> inside f r \<Longrightarrow> inside f' r \<Longrightarrow> cend f \<noteq> fst f'"
    and "R \<inter> F = {}"
  shows "tiling R S F"
  unfolding tiling_def by (intro conjI ballI impI; (elim bexE)?; (rule assms, (assumption+)?))

lemma tilingD:
  assumes "tiling R S F"
  shows tiling_proper: "\<And>c. c \<in> R \<union> S \<union> F \<Longrightarrow> proper c"
    and tiling_regions: "\<And>r r'. r \<in> R \<Longrightarrow> r' \<in> R \<Longrightarrow> r \<noteq> r' \<Longrightarrow> disj r r'"
    and tiling_inside: "\<And>b. b \<in> S \<union> F \<Longrightarrow> \<exists>r\<in>R. inside b r"
    and tiling_blocks: "\<And>b b'. b \<in> S \<union> F \<Longrightarrow> b' \<in> S \<union> F \<Longrightarrow> b \<noteq> b' \<Longrightarrow> disj b b'"
    and tiling_SF: "S \<inter> F = {}"
    and tiling_covered: "\<And>r b. r \<in> R \<Longrightarrow> b \<in> S \<union> F \<Longrightarrow> inside b r \<Longrightarrow> covered (S \<union> F) r"
    and tiling_coalesced: "\<And>r f f'. r \<in> R \<Longrightarrow> f \<in> F \<Longrightarrow> f' \<in> F \<Longrightarrow> inside f r \<Longrightarrow> inside f' r \<Longrightarrow> cend f \<noteq> fst f'"
    and tiling_RF: "R \<inter> F = {}"
  using assms unfolding tiling_def by blast+

lemma tiling_empty: "tiling {} {} {}"
  by (simp add: tiling_def)

subsection \<open>Intervals\<close>

lemmas iv_defs = cend_def inb_def disj_def inside_def proper_def

lemma disj_sym: "disj c d \<longleftrightarrow> disj d c"
  by (auto simp: disj_def)

lemma disj_iff:
  assumes "0 < snd c" and "0 < snd d"
  shows "disj c d \<longleftrightarrow> (\<forall>x. \<not> (inb x c \<and> inb x d))"
proof
  assume "\<forall>x. \<not> (inb x c \<and> inb x d)"
  then have "\<not> (inb (max (fst c) (fst d)) c \<and> inb (max (fst c) (fst d)) d)" by blast
  with assms show "disj c d" by (auto simp: iv_defs max_def split: if_splits)
qed (auto simp: iv_defs)

lemma inb_fst: "0 < snd c \<Longrightarrow> inb (fst c) c"
  by (simp add: iv_defs)

lemma inside_inb: "inside c r \<Longrightarrow> inb x c \<Longrightarrow> inb x r"
  by (auto simp: iv_defs)

lemma inside_eq: "inside c r \<Longrightarrow> snd c = snd r \<Longrightarrow> c = r"
  by (cases c; cases r) (auto simp: iv_defs)

lemma proper_pos: "proper c \<Longrightarrow> 0 < snd c"
  by (simp add: proper_def)

lemma tiling_snd_pos: "tiling R S F \<Longrightarrow> c \<in> R \<union> S \<union> F \<Longrightarrow> 0 < snd c"
  using tiling_proper proper_pos by blast

text \<open>A block lies in one region only; a byte of a region pins the region down.\<close>

lemma tiling_region_of_byte:
  assumes "tiling R S F" and "r \<in> R" and "r' \<in> R" and "inb x r" and "inb x r'"
  shows "r = r'"
  using tiling_regions [OF assms(1-3)] tiling_snd_pos [OF assms(1)] assms
  by (metis UnI1 disj_iff)

lemma tiling_inside_unique:
  assumes "tiling R S F" and "r \<in> R" and "b \<in> S \<union> F" and "inb x b" and "inb x r"
  shows "inside b r"
proof -
  obtain r' where r': "r' \<in> R" "inside b r'" using tiling_inside [OF assms(1,3)] by blast
  then have "inb x r'" using assms(4) inside_inb by blast
  then have "r = r'" using tiling_region_of_byte [OF assms(1,2) r'(1) assms(5)] by blast
  with r' show ?thesis by simp
qed

lemma tiling_block_of_byte:
  assumes "tiling R S F" and "b \<in> S \<union> F" and "b' \<in> S \<union> F" and "inb x b" and "inb x b'"
  shows "b = b'"
  using tiling_blocks [OF assms(1-3)] tiling_snd_pos [OF assms(1)] assms
  by (metis UnCI UnE disj_iff)

lemma tiling_key_unique:
  assumes "tiling R S F" and "(p, m) \<in> S \<union> F" and "(p, n) \<in> S \<union> F"
  shows "m = n"
  using tiling_block_of_byte [OF assms, of p] tiling_snd_pos [OF assms(1)] assms(2,3)
  by (force simp: iv_defs)

subsection \<open>A new region\<close>

lemma tiling_add_region:
  assumes t: "tiling R S F" and pr: "proper r" and dj: "\<And>r'. r' \<in> R \<Longrightarrow> disj r r'"
  shows "tiling (insert r R) S F"
proof -
  have far: "\<not> inside b r" if b: "b \<in> S \<union> F" for b
  proof
    assume "inside b r"
    obtain r' where "r' \<in> R" "inside b r'" using tiling_inside [OF t b] by blast
    then show False
      using \<open>inside b r\<close> dj [of r'] tiling_snd_pos [OF t, of b] b by (auto simp: iv_defs)
  qed
  have "r \<notin> F" using far [of r] by (auto simp: iv_defs)
  then show ?thesis
    using t pr dj far disj_sym unfolding tiling_def by (simp add: Un_iff)
qed

text \<open>A region cut into the block handed out and the free rest of it.\<close>

lemma tiling_new_small:
  assumes t: "tiling R S F" and pr: "proper (p, B)" and dj: "\<And>r'. r' \<in> R \<Longrightarrow> disj (p, B) r'"
    and n: "0 < n" "n \<le> B"
  shows "tiling (insert (p, B) R) (insert (p, n) S) (if n = B then F else insert (p + n, B - n) F)"
    (is "tiling ?R ?S ?F")
proof -
  let ?new = "insert (p, n) (if n = B then {} else {(p + n, B - n)})"
  have SF: "?S \<union> ?F = S \<union> F \<union> ?new" by auto
  have new_in: "inside b (p, B) \<and> proper b" if "b \<in> ?new" for b
    using that pr n by (auto simp: iv_defs split: if_splits)
  have old_far: "disj b (p, B)" if b: "b \<in> S \<union> F" for b
  proof -
    obtain r where "r \<in> R" "inside b r" using tiling_inside [OF t b] by blast
    then show ?thesis using dj [of r] by (auto simp: iv_defs)
  qed
  have cross: "disj b c" if "b \<in> S \<union> F" "c \<in> ?new" for b c
    using old_far [OF that(1)] new_in [OF that(2)] by (auto simp: iv_defs)
  have nn: "disj b c" if "b \<in> ?new" "c \<in> ?new" "b \<noteq> c" for b c
    using that n by (auto simp: iv_defs split: if_splits)
  have new_notin: "b \<notin> S \<union> F" if "b \<in> ?new" for b
    using cross [of b b] that new_in [OF that] by (auto simp: iv_defs)
  have old_not_inside: "\<not> inside b (p, B)" if "b \<in> S \<union> F" for b
    using old_far [OF that] tiling_snd_pos [OF t, of b] that by (auto simp: iv_defs)
  have new_not_inside: "\<not> inside b r" if "b \<in> ?new" "r \<in> R" for b r
    using dj [OF that(2)] new_in [OF that(1)] by (auto simp: iv_defs)
  show ?thesis
  proof (rule tilingI)
    fix c assume "c \<in> ?R \<union> ?S \<union> ?F"
    then show "proper c" using tiling_proper [OF t, of c] pr new_in [of c] by (auto split: if_splits)
  next
    fix r r' assume "r \<in> ?R" "r' \<in> ?R" "r \<noteq> r'"
    then show "disj r r'" using tiling_regions [OF t, of r r'] dj disj_sym by blast
  next
    fix b assume "b \<in> ?S \<union> ?F"
    then show "\<exists>r\<in>?R. inside b r" unfolding SF using tiling_inside [OF t, of b] new_in [of b] by blast
  next
    fix b b' assume "b \<in> ?S \<union> ?F" "b' \<in> ?S \<union> ?F" "b \<noteq> b'"
    then show "disj b b'" unfolding SF using tiling_blocks [OF t, of b b'] cross nn disj_sym
      by (metis UnE)
  next
    show "?S \<inter> ?F = {}" using tiling_SF [OF t] new_notin n by (auto split: if_splits)
  next
    fix r b assume r: "r \<in> ?R" and b: "b \<in> ?S \<union> ?F" and i: "inside b r"
    show "covered (?S \<union> ?F) r"
    proof (cases "r = (p, B)")
      case True
      then show ?thesis using n by (auto simp: covered_def iv_defs split: if_splits)
    next
      case False
      with r b i new_not_inside have "r \<in> R" "b \<in> S \<union> F" unfolding SF by blast+
      then show ?thesis using tiling_covered [OF t _ _ i] unfolding covered_def SF by blast
    qed
  next
    fix r f f' assume r: "r \<in> ?R" and f: "f \<in> ?F" "f' \<in> ?F" and i: "inside f r" "inside f' r"
    show "cend f \<noteq> fst f'"
    proof (cases "r = (p, B)")
      case True
      then have "f = (p + n, B - n)" "f' = (p + n, B - n)"
        using f i old_not_inside [of f] old_not_inside [of f'] by (auto split: if_splits)
      moreover have "n \<noteq> B" using calculation f old_not_inside [of f] i True by auto
      ultimately show ?thesis using n by (simp add: iv_defs)
    next
      case False
      have "f \<in> F" "f' \<in> F" using f i r False new_not_inside [of f r] new_not_inside [of f' r]
        by (auto split: if_splits)
      then show ?thesis using tiling_coalesced [OF t] r False i by blast
    qed
  next
    show "?R \<inter> ?F = {}"
    proof -
      have "(p, B) \<notin> F" using old_not_inside [of "(p, B)"] by (auto simp: iv_defs)
      moreover have "(p + n, B - n) \<notin> R" if "n \<noteq> B"
        using new_not_inside [of "(p + n, B - n)" "(p + n, B - n)"] that by (auto simp: iv_defs)
      ultimately show ?thesis using tiling_RF [OF t] n by auto
    qed
  qed
qed

subsection \<open>Best fit: a free chunk cut in two\<close>

lemma tiling_split_chunk:
  assumes t: "tiling R S F" and f: "(q, m) \<in> F" and n: "0 < n" "n \<le> m"
  shows "tiling R (insert (q, n) S) (F - {(q, m)} \<union> (if n = m then {} else {(q + n, m - n)}))"
    (is "tiling R ?S ?F")
proof -
  let ?new = "insert (q, n) (if n = m then {} else {(q + n, m - n)})"
  have SF: "?S \<union> ?F = (S \<union> F - {(q, m)}) \<union> ?new" using tiling_SF [OF t] f by auto
  have pqm: "proper (q, m)" using tiling_proper [OF t] f by blast
  have new_in: "inside b (q, m) \<and> proper b" if "b \<in> ?new" for b
    using that pqm n by (auto simp: iv_defs split: if_splits)
  have new_bytes: "(\<exists>b\<in>?new. inb x b) \<longleftrightarrow> inb x (q, m)" for x
    using n by (auto simp: iv_defs split: if_splits)
  have cross: "disj b c" if "b \<in> S \<union> F - {(q, m)}" "c \<in> ?new" for b c
    using tiling_blocks [OF t, of b "(q, m)"] f that new_in [OF that(2)] by (auto simp: iv_defs)
  have nn: "disj b c" if "b \<in> ?new" "c \<in> ?new" "b \<noteq> c" for b c
    using that n by (auto simp: iv_defs split: if_splits)
  have new_notin: "b \<notin> S \<union> F - {(q, m)}" if "b \<in> ?new" for b
    using cross [of b b] that new_in [OF that] by (auto simp: iv_defs)
  have new_inside: "inside (q, m) r" if "b \<in> ?new" "r \<in> R" "inside b r" for b r
    using tiling_inside_unique [OF t that(2), of "(q, m)" "fst b"] that f new_in [OF that(1)]
    by (auto simp: iv_defs)
  have new_R: "b \<notin> R" if b: "b \<in> ?new" for b
  proof
    assume "b \<in> R"
    then have "inside (q, m) b" using new_inside [OF b, of b] by (simp add: iv_defs)
    then have "b = (q, m)" using new_in [OF b] by (cases b) (auto simp: iv_defs)
    then show False using \<open>b \<in> R\<close> f tiling_RF [OF t] by blast
  qed
  show ?thesis
  proof (rule tilingI)
    fix c assume "c \<in> R \<union> ?S \<union> ?F"
    then show "proper c" using tiling_proper [OF t, of c] new_in [of c] by (auto split: if_splits)
  next
    fix b assume "b \<in> ?S \<union> ?F"
    then consider "b \<in> S \<union> F" | "b \<in> ?new" unfolding SF by blast
    then show "\<exists>r\<in>R. inside b r"
    proof cases
      case 1
      then show ?thesis using tiling_inside [OF t, of b] by blast
    next
      case 2
      obtain r where "r \<in> R" "inside (q, m) r" using tiling_inside [OF t] f by blast
      then show ?thesis using new_in [OF 2] by (intro bexI [of _ r]) (auto simp: iv_defs)
    qed
  next
    fix b b' assume "b \<in> ?S \<union> ?F" "b' \<in> ?S \<union> ?F" "b \<noteq> b'"
    then show "disj b b'" unfolding SF using tiling_blocks [OF t, of b b'] cross nn disj_sym
      by (metis DiffE UnE)
  next
    show "?S \<inter> ?F = {}"
      using tiling_SF [OF t] new_notin [of "(q, n)"] new_notin [of "(q + n, m - n)"] n
      by (auto split: if_splits)
  next
    fix r b assume r: "r \<in> R" and b: "b \<in> ?S \<union> ?F" and i: "inside b r"
    have "\<exists>b\<in>S \<union> F. inside b r" using b i new_inside [OF _ r] f unfolding SF by blast
    then have "covered (S \<union> F) r" using tiling_covered [OF t r] by blast
    then show "covered (?S \<union> ?F) r" unfolding covered_def SF using new_bytes by (metis Un_iff insert_Diff_single insert_iff Diff_iff singletonD)
  next
    fix r g g' assume r: "r \<in> R" and g: "g \<in> ?F" "g' \<in> ?F" and i: "inside g r" "inside g' r"
    show "cend g \<noteq> fst g'"
    proof
      assume adj: "cend g = fst g'"
      have ps: "0 < snd g" "0 < snd g'"
        using g n tiling_snd_pos [OF t, of g] tiling_snd_pos [OF t, of g'] by (auto split: if_splits)
      consider "g \<in> F" "g' \<in> F" | "g \<in> F" "g \<noteq> (q, m)" "g' = (q + n, m - n)" | "g = (q + n, m - n)" "g' \<in> F"
        | "g = (q + n, m - n)" "g' = (q + n, m - n)"
        using g by (auto split: if_splits)
      then show False
      proof cases
        case 1
        then show False using tiling_coalesced [OF t r] i adj by blast
      next
        case 2
        have "disj g (q, m)" using tiling_blocks [OF t, of g "(q, m)"] 2 f by blast
        then show False using 2 adj n ps by (auto simp: iv_defs)
      next
        case 3
        then have "cend (q, m) = fst g'" using adj n by (simp add: iv_defs)
        moreover have "inside (q, m) r" using new_inside [OF _ r, of g] i 3 g ps by (auto split: if_splits)
        ultimately show False using tiling_coalesced [OF t r f] 3 i by blast
      next
        case 4
        then show False using adj ps by (simp add: iv_defs)
      qed
    qed
  next
    show "R \<inter> ?F = {}" using tiling_RF [OF t] new_R by (auto split: if_splits)
  qed (use tiling_regions [OF t] in blast)
qed

subsection \<open>Giving a block back\<close>

text \<open>
  \<open>merged R S F b A c r\<close>: giving back the block \<open>b\<close> of region \<open>r\<close> and absorbing the free
  chunks \<open>A\<close> yields the chunk \<open>c\<close>, which has exactly their bytes and no free neighbour left
  in the region.
\<close>

definition merged :: "iv set \<Rightarrow> iv \<Rightarrow> iv set \<Rightarrow> iv \<Rightarrow> iv \<Rightarrow> bool" where
  "merged F b A c r \<longleftrightarrow>
     A \<subseteq> F \<and> inside c r \<and> 0 < snd c \<and>
     (\<forall>x. inb x c \<longleftrightarrow> (\<exists>d\<in>insert b A. inb x d)) \<and>
     (\<forall>f\<in>F - A. inside f r \<longrightarrow> cend f \<noteq> fst c \<and> fst f \<noteq> cend c)"

lemma merged_far:
  assumes t: "tiling R S F" and b: "b \<in> S" and m: "merged F b A c r"
    and d: "d \<in> (S - {b}) \<union> (F - A)"
  shows "disj c d"
proof -
  have "\<not> (inb x c \<and> inb x d)" for x
  proof
    assume "inb x c \<and> inb x d"
    then obtain e where "e \<in> insert b A" "inb x e" "inb x d" using m unfolding merged_def by blast
    moreover have "e \<in> S \<union> F" "d \<in> S \<union> F" using \<open>e \<in> insert b A\<close> b m d unfolding merged_def by blast+
    ultimately have "d = e" using tiling_block_of_byte [OF t] by blast
    then show False using \<open>e \<in> insert b A\<close> d b m tiling_SF [OF t] unfolding merged_def by blast
  qed
  moreover have "0 < snd c" "0 < snd d" using m d tiling_snd_pos [OF t] unfolding merged_def by blast+
  ultimately show ?thesis using disj_iff by blast
qed

lemma merged_proper:
  assumes t: "tiling R S F" and r: "r \<in> R" and m: "merged F b A c r"
  shows "proper c"
proof -
  have "proper r" using tiling_proper [OF t] r by blast
  then show ?thesis using m unfolding merged_def by (auto simp: iv_defs)
qed

lemma tiling_release_keep:
  assumes t: "tiling R S F" and b: "b \<in> S" and r: "r \<in> R" and m: "merged F b A c r" and ne: "c \<noteq> r"
  shows "tiling R (S - {b}) (insert c (F - A))"
proof -
  let ?old = "(S - {b}) \<union> (F - A)"
  have SF: "(S - {b}) \<union> insert c (F - A) = insert c ?old" by auto
  have far: "disj c d" if "d \<in> ?old" for d by (rule merged_far [OF t b m that])
  have c_in: "inside c r" "0 < snd c" using m unfolding merged_def by blast+
  have cnew: "c \<notin> ?old" using far [of c] c_in by (auto simp: iv_defs)
  have only_r: "r' = r" if "r' \<in> R" "inside c r'" for r'
    using tiling_region_of_byte [OF t that(1) r, of "fst c"] that c_in by (auto simp: iv_defs)
  show ?thesis
  proof (rule tilingI)
    fix d assume "d \<in> R \<union> (S - {b}) \<union> insert c (F - A)"
    then show "proper d" using tiling_proper [OF t, of d] merged_proper [OF t r m] by blast
  next
    fix d assume "d \<in> (S - {b}) \<union> insert c (F - A)"
    then show "\<exists>r\<in>R. inside d r" using tiling_inside [OF t, of d] c_in r by blast
  next
    fix d e assume "d \<in> (S - {b}) \<union> insert c (F - A)" "e \<in> (S - {b}) \<union> insert c (F - A)" "d \<noteq> e"
    then show "disj d e" unfolding SF using far disj_sym tiling_blocks [OF t, of d e] by blast
  next
    show "(S - {b}) \<inter> insert c (F - A) = {}" using cnew tiling_SF [OF t] by blast
  next
    fix r' d assume r': "r' \<in> R" and d: "d \<in> (S - {b}) \<union> insert c (F - A)" "inside d r'"
    have "\<exists>e\<in>S \<union> F. inside e r'"
    proof (cases "d = c")
      case True
      then have "r' = r" using only_r r' d by blast
      moreover obtain x where "inb x b" using tiling_snd_pos [OF t, of b] b inb_fst by blast
      moreover from this have "inb x r" using m inside_inb unfolding merged_def by blast
      ultimately show ?thesis using tiling_inside_unique [OF t r, of b x] b by blast
    next
      case False
      then show ?thesis using d by blast
    qed
    then have "covered (S \<union> F) r'" using tiling_covered [OF t r'] by blast
    moreover have "inb x c" if "inb x e" "e \<in> insert b A" for x e using that m unfolding merged_def by blast
    ultimately show "covered ((S - {b}) \<union> insert c (F - A)) r'"
      unfolding covered_def by (metis DiffI UnE UnI1 UnI2 insertCI insertE singletonD)
  next
    fix r' f f' assume r': "r' \<in> R" and f: "f \<in> insert c (F - A)" "f' \<in> insert c (F - A)"
      and i: "inside f r'" "inside f' r'"
    show "cend f \<noteq> fst f'"
    proof (cases "f = c \<or> f' = c")
      case True
      then have "r' = r" using only_r r' i by blast
      then show ?thesis using True f i m unfolding merged_def by (auto simp: cend_def)
    next
      case False
      then show ?thesis using tiling_coalesced [OF t r'] f i by blast
    qed
  next
    have "c \<notin> R" using only_r [of c] ne by (auto simp: iv_defs)
    then show "R \<inter> insert c (F - A) = {}" using tiling_RF [OF t] by blast
  qed (use tiling_regions [OF t] in blast)
qed

lemma tiling_release_unmap:
  assumes t: "tiling R S F" and b: "b \<in> S" and r: "r \<in> R" and m: "merged F b A r r"
  shows "tiling (R - {r}) (S - {b}) (F - A)"
proof -
  have out: "\<exists>r'\<in>R - {r}. inside d r'" if d: "d \<in> (S - {b}) \<union> (F - A)" for d
  proof -
    obtain r' where r': "r' \<in> R" "inside d r'" using tiling_inside [OF t, of d] d by blast
    have "disj r d" by (rule merged_far [OF t b m d])
    then have "r' \<noteq> r" using r' d tiling_snd_pos [OF t, of d] by (auto simp: iv_defs)
    with r' show ?thesis by blast
  qed
  show ?thesis
  proof (rule tilingI)
    fix r' d assume r': "r' \<in> R - {r}" and d: "d \<in> (S - {b}) \<union> (F - A)" "inside d r'"
    have "covered (S \<union> F) r'" using tiling_covered [OF t, of r' d] r' d by blast
    moreover have "\<not> inb x e" if "e \<in> insert b A" "inb x r'" for x e
    proof
      assume "inb x e"
      then have "inb x r" using m that unfolding merged_def by blast
      then show False using tiling_region_of_byte [OF t, of r r' x] r r' that by blast
    qed
    ultimately show "covered ((S - {b}) \<union> (F - A)) r'"
      unfolding covered_def by (metis DiffI UnE UnI1 UnI2 insertCI singletonD)
  next
    show "(S - {b}) \<inter> (F - A) = {}" "(R - {r}) \<inter> (F - A) = {}" using tiling_SF [OF t] tiling_RF [OF t] by blast+
  next
    fix d e assume "d \<in> (S - {b}) \<union> (F - A)" "e \<in> (S - {b}) \<union> (F - A)" "d \<noteq> e"
    then show "disj d e" using tiling_blocks [OF t, of d e] by blast
  next
    fix r' f f' assume "r' \<in> R - {r}" "f \<in> F - A" "f' \<in> F - A" "inside f r'" "inside f' r'"
    then show "cend f \<noteq> fst f'" using tiling_coalesced [OF t, of r' f f'] by blast
  next
    fix d assume "d \<in> R - {r} \<union> (S - {b}) \<union> (F - A)"
    then show "proper d" using tiling_proper [OF t, of d] by blast
  next
    fix r1 r2 assume "r1 \<in> R - {r}" "r2 \<in> R - {r}" "r1 \<noteq> r2"
    then show "disj r1 r2" using tiling_regions [OF t, of r1 r2] by blast
  qed (rule out)
qed

text \<open>A region that holds no block is unmapped.\<close>

lemma tiling_remove_region:
  assumes t: "tiling R S F" and free: "\<And>b. b \<in> S \<union> F \<Longrightarrow> \<not> inside b r"
  shows "tiling (R - {r}) S F"
proof (rule tilingI)
  fix b assume "b \<in> S \<union> F"
  then show "\<exists>r'\<in>R - {r}. inside b r'" using tiling_inside [OF t, of b] free [of b] by blast
next
  fix c assume "c \<in> R - {r} \<union> S \<union> F"
  then show "proper c" using tiling_proper [OF t, of c] by blast
next
  fix r' b assume "r' \<in> R - {r}" "b \<in> S \<union> F" "inside b r'"
  then show "covered (S \<union> F) r'" using tiling_covered [OF t, of r' b] by blast
next
  fix r' f f' assume "r' \<in> R - {r}" "f \<in> F" "f' \<in> F" "inside f r'" "inside f' r'"
  then show "cend f \<noteq> fst f'" using tiling_coalesced [OF t, of r' f f'] by blast
qed (use tiling_regions [OF t] tiling_blocks [OF t] tiling_SF [OF t] tiling_RF [OF t] in blast)+

text \<open>A region holding only free chunks does not exist: they would have been merged into it.\<close>

lemma tiling_no_free_region:
  assumes t: "tiling R {} F" and r: "r \<in> R"
  shows "\<forall>f\<in>F. \<not> inside f r"
proof (rule ccontr)
  assume "\<not> (\<forall>f\<in>F. \<not> inside f r)"
  then obtain f where f: "f \<in> F" "inside f r" by blast
  have cov: "\<exists>f'\<in>F. inb x f' \<and> inside f' r" if "inb x r" for x
    using tiling_covered [OF t r, of f] f that tiling_inside_unique [OF t r] unfolding covered_def by blast
  have pos: "0 < snd d" if "d \<in> F" for d using tiling_snd_pos [OF t, of d] that by blast
  have "f \<noteq> r" using tiling_RF [OF t] f r by blast
  then consider "fst r < fst f" | "cend f < cend r"
    using f(2) by (cases f; cases r) (simp add: iv_defs, linarith)
  then show False
  proof cases
    case 1
    then have "inb (fst f - 1) r" using f(2) pos [OF f(1)] by (auto simp: iv_defs)
    then obtain f' where f': "f' \<in> F" "inb (fst f - 1) f'" "inside f' r" using cov by blast
    have "f' \<noteq> f" using f'(2) 1 by (auto simp: iv_defs)
    then have "disj f' f" using tiling_blocks [OF t] f' f by blast
    then have "cend f' = fst f" using f'(2) 1 pos [OF f(1)] by (auto simp: iv_defs)
    then show False using tiling_coalesced [OF t r f'(1) f(1) f'(3) f(2)] by blast
  next
    case 2
    then have "inb (cend f) r" using f(2) by (auto simp: iv_defs)
    then obtain f' where f': "f' \<in> F" "inb (cend f) f'" "inside f' r" using cov by blast
    have "f' \<noteq> f" using f'(2) by (auto simp: iv_defs)
    then have "disj f' f" using tiling_blocks [OF t] f' f by blast
    then have "cend f = fst f'" using f'(2) pos [OF f(1)] by (auto simp: iv_defs)
    then show False using tiling_coalesced [OF t r f(1) f'(1) f(2) f'(3)] by blast
  qed
qed

end
