(* ===== verification/Sub_Session_Correct.thy ===== *)
theory Sub_Session_Correct
  imports Sub_Session Chunk_Tiling
begin

text \<open>
  Correctness of the sub-session allocator. \<open>ss_inv\<close> is the class invariant: the four
  containers are ordered, the index by size agrees with the index by address,
  \<open>allocated_bytes\<close> is the sum of the mapped regions, and the regions, blocks and free chunks
  form a \<open>tiling\<close>. \<open>ss_live\<close> is the abstract view of a client: the blocks it holds.
\<close>

section \<open>Invariant and abstract view\<close>

definition ss_inv :: "memory_sub_session \<Rightarrow> bool" where
  "ss_inv ss \<longleftrightarrow>
     om_inv (ss_allocs ss) \<and> os_inv (ss_small_allocs ss) \<and>
     om_inv (ss_free_small_chunks ss) \<and> os_inv (ss_free_small_chunks_inv ss) \<and>
     set (ss_free_small_chunks_inv ss) = prod.swap ` set (ss_free_small_chunks ss) \<and>
     ss_allocated_bytes ss = sum_list (map snd (ss_allocs ss)) \<and>
     tiling (set (ss_allocs ss)) (set (ss_small_allocs ss)) (set (ss_free_small_chunks ss))"

definition ss_large :: "memory_sub_session \<Rightarrow> chunk set" where
  "ss_large ss = {r \<in> set (ss_allocs ss).
     \<forall>b \<in> set (ss_small_allocs ss) \<union> set (ss_free_small_chunks ss). \<not> inside b r}"

definition ss_live :: "memory_sub_session \<Rightarrow> chunk set" where
  "ss_live ss = set (ss_small_allocs ss) \<union> ss_large ss"

definition fresh_region :: "memory_sub_session \<Rightarrow> chunk \<Rightarrow> bool" where
  "fresh_region ss r \<longleftrightarrow> proper r \<and> (\<forall>r' \<in> set (ss_allocs ss). disj r r')"

lemma ss_invD:
  assumes "ss_inv ss"
  shows ss_inv_allocs: "om_inv (ss_allocs ss)"
    and ss_inv_small: "os_inv (ss_small_allocs ss)"
    and ss_inv_free: "om_inv (ss_free_small_chunks ss)"
    and ss_inv_inv: "os_inv (ss_free_small_chunks_inv ss)"
    and ss_inv_swap: "set (ss_free_small_chunks_inv ss) = prod.swap ` set (ss_free_small_chunks ss)"
    and ss_inv_bytes: "ss_allocated_bytes ss = sum_list (map snd (ss_allocs ss))"
    and ss_inv_tiling: "tiling (set (ss_allocs ss)) (set (ss_small_allocs ss)) (set (ss_free_small_chunks ss))"
  using assms by (simp_all add: ss_inv_def)

lemma prod_swap_iff: "(n, p) \<in> prod.swap ` A \<longleftrightarrow> (p, n) \<in> A"
  by force

section \<open>Accounting\<close>

lemma sum_list_sizes:
  "om_inv m \<Longrightarrow> sum_list (map snd m) = (\<Sum>c\<in>set m. snd c)"
  by (metis distinct_map om_inv_distinct sum_list_distinct_conv_sum_set)

lemma tiling_sizes_bound:
  assumes "tiling R S F" and "finite R"
  shows "(\<Sum>r\<in>R. snd r) < u64_max"
proof -
  have card: "snd r = card {fst r..<cend r}" for r :: iv by (simp add: cend_def)
  have "(\<Sum>r\<in>R. snd r) = card (\<Union>r\<in>R. {fst r..<cend r})"
    unfolding card
  proof (rule card_UN_disjoint [symmetric])
    show "\<forall>r\<in>R. \<forall>r'\<in>R. r \<noteq> r' \<longrightarrow> {fst r..<cend r} \<inter> {fst r'..<cend r'} = {}"
      using tiling_regions [OF assms(1)] by (fastforce simp: disj_def)
  qed (use assms in auto)
  also have "\<dots> \<le> card {1..<u64_max}"
    using tiling_proper [OF assms(1)] by (intro card_mono) (force simp: proper_def)+
  also have "\<dots> < u64_max" by (simp add: u64_max_def)
  finally show ?thesis .
qed

lemma sum_om_insert:
  "om_inv m \<Longrightarrow> k \<notin> fst ` set m \<Longrightarrow> sum_list (map snd (om_insert k (v::nat) m)) = v + sum_list (map snd m)"
  by (induction k v m rule: om_insert.induct) (auto simp: om_inv_Cons)

lemma sum_om_erase:
  assumes "om_inv m" and "(k, v::nat) \<in> set m"
  shows "v + sum_list (map snd (om_erase k m)) = sum_list (map snd m)"
proof -
  have "set m = insert (k, v) (set (om_erase k m))"
    using assms om_inv_unique [OF assms(1)] by (force simp: set_om_erase)
  moreover have "(k, v) \<notin> set (om_erase k m)" by (simp add: set_om_erase)
  ultimately show ?thesis
    by (simp add: sum_list_sizes om_inv_erase assms(1) del: insert_iff)
qed

lemma ss_inv_bytes_bound: "ss_inv ss \<Longrightarrow> ss_allocated_bytes ss < u64_max"
  using tiling_sizes_bound [OF ss_inv_tiling] by (simp add: ss_inv_bytes ss_inv_allocs sum_list_sizes)

section \<open>Best fit\<close>

lemma smallest_chunk_cases:
  assumes inv: "ss_inv ss" and n: "0 < n"
  obtains (none) "smallest_sufficent_free_small_chunk n ss = (0, 0)"
      "\<And>q m. (q, m) \<in> set (ss_free_small_chunks ss) \<Longrightarrow> m < n"
  | (some) q m where "smallest_sufficent_free_small_chunk n ss = (m, q)"
      "(q, m) \<in> set (ss_free_small_chunks ss)" "n \<le> m"
      "\<And>q' m'. (q', m') \<in> set (ss_free_small_chunks ss) \<Longrightarrow> n \<le> m' \<Longrightarrow> m \<le> m'"
proof -
  have pos: "0 < q" if "(q, m) \<in> set (ss_free_small_chunks ss)" for q m
    using tiling_proper [OF ss_inv_tiling [OF inv], of "(q, m)"] that by (simp add: proper_def)
  show thesis
  proof (cases "os_first_above (n, 0) (ss_free_small_chunks_inv ss)")
    case None
    then have "\<forall>y\<in>set (ss_free_small_chunks_inv ss). y \<le> (n, 0)"
      using std_set.above_None [OF ss_inv_inv [OF inv]] by simp
    then have "m < n" if "(q, m) \<in> set (ss_free_small_chunks ss)" for q m
      using that pos [OF that] by (auto simp: ss_inv_swap [OF inv] prod.swap_def)
    then show thesis using None none by (simp add: smallest_sufficent_free_small_chunk_def)
  next
    case (Some i)
    obtain m q where i: "i = (m, q)" by (cases i)
    have s: "i \<in> set (ss_free_small_chunks_inv ss)" "(n, 0) < i"
      "\<And>z. z \<in> set (ss_free_small_chunks_inv ss) \<Longrightarrow> (n, 0) < z \<Longrightarrow> i \<le> z"
      using Some std_set.above_Some [OF ss_inv_inv [OF inv]] by auto
    have mem: "(q, m) \<in> set (ss_free_small_chunks ss)"
      using s(1) i ss_inv_swap [OF inv] by (simp add: prod_swap_iff)
    have "m \<le> m'" if "(q', m') \<in> set (ss_free_small_chunks ss)" "n \<le> m'" for q' m'
      using s(3) [of "(m', q')"] that pos [OF that(1)] i ss_inv_swap [OF inv]
      by (fastforce simp: prod_swap_iff)
    then show thesis
      using Some some mem s(2) i by (auto simp: smallest_sufficent_free_small_chunk_def)
  qed
qed

section \<open>Allocation\<close>

lemma fresh_region_key:
  assumes inv: "ss_inv ss" and "fresh_region ss (p, B)"
  shows "p \<notin> fst ` set (ss_allocs ss)" and "(p, B) \<notin> set (ss_allocs ss)"
proof -
  show p: "p \<notin> fst ` set (ss_allocs ss)"
  proof
    assume "p \<in> fst ` set (ss_allocs ss)"
    then obtain m where "(p, m) \<in> set (ss_allocs ss)" by force
    then have "disj (p, B) (p, m)" and "0 < B" using assms by (auto simp: fresh_region_def proper_def)
    moreover have "0 < m" using ss_inv_tiling [OF inv] \<open>(p, m) \<in> set (ss_allocs ss)\<close> tiling_snd_pos by force
    ultimately show False by (simp add: iv_defs)
  qed
  then show "(p, B) \<notin> set (ss_allocs ss)" by force
qed

lemma add_alloc_inv:
  assumes inv: "ss_inv ss" and fr: "fresh_region ss (p, B)" and a: "add_alloc self p B (ss, ms) = (ss', ms')"
  shows "ss_inv ss'"
    and "set (ss_allocs ss') = insert (p, B) (set (ss_allocs ss))"
    and "ss_small_allocs ss' = ss_small_allocs ss" and "ss_free_small_chunks ss' = ss_free_small_chunks ss"
proof -
  have ss': "ss' = ss\<lparr>ss_allocated_bytes := u64_add (ss_allocated_bytes ss) B,
      ss_allocs := om_insert p B (ss_allocs ss)\<rparr>"
    using a by (simp add: add_alloc_def)
  have t: "tiling (insert (p, B) (set (ss_allocs ss))) (set (ss_small_allocs ss)) (set (ss_free_small_chunks ss))"
    using fr by (intro tiling_add_region [OF ss_inv_tiling [OF inv]]) (auto simp: fresh_region_def)
  have st: "set (om_insert p B (ss_allocs ss)) = insert (p, B) (set (ss_allocs ss))"
    using fresh_region_key(1) [OF inv fr] by (simp add: container_simps)
  have "B + ss_allocated_bytes ss < u64_max"
    using tiling_sizes_bound [OF t] fresh_region_key [OF inv fr] fr
    by (simp add: ss_inv_bytes [OF inv] sum_list_sizes [OF ss_inv_allocs [OF inv]])
  then show "ss_inv ss'"
    using inv t st fresh_region_key(1) [OF inv fr]
    by (simp add: ss' ss_inv_def om_inv_insert sum_om_insert u64_add_nowrap add.commute)
  show "set (ss_allocs ss') = insert (p, B) (set (ss_allocs ss))" using st by (simp add: ss')
  show "ss_small_allocs ss' = ss_small_allocs ss" "ss_free_small_chunks ss' = ss_free_small_chunks ss"
    by (simp_all add: ss')
qed

text \<open>
  The two containers of free chunks change together; the first lemma adds a chunk, the second
  removes one.
\<close>

lemma add_free_small_chunk_sets:
  assumes "om_inv (ss_free_small_chunks ss)" and "q \<notin> fst ` set (ss_free_small_chunks ss)"
    and "os_inv (ss_free_small_chunks_inv ss)"
    and "set (ss_free_small_chunks_inv ss) = prod.swap ` set (ss_free_small_chunks ss)"
    and "ss' = add_free_small_chunk q m ss"
  shows "om_inv (ss_free_small_chunks ss')" and "os_inv (ss_free_small_chunks_inv ss')"
    and "set (ss_free_small_chunks ss') = insert (q, m) (set (ss_free_small_chunks ss))"
    and "set (ss_free_small_chunks_inv ss') = prod.swap ` set (ss_free_small_chunks ss')"
  using assms by (simp_all add: add_free_small_chunk_def om_inv_insert os_inv_insert container_simps)

lemma erase_free_entry_sets:
  assumes "om_inv (ss_free_small_chunks ss)" and "(q, m) \<in> set (ss_free_small_chunks ss)"
    and "os_inv (ss_free_small_chunks_inv ss)"
    and "set (ss_free_small_chunks_inv ss) = prod.swap ` set (ss_free_small_chunks ss)"
    and ss'_def: "ss' = erase_free_entry (q, m) ss"
  shows "om_inv (ss_free_small_chunks ss')" and "os_inv (ss_free_small_chunks_inv ss')"
    and "set (ss_free_small_chunks ss') = set (ss_free_small_chunks ss) - {(q, m)}"
    and "set (ss_free_small_chunks_inv ss') = prod.swap ` set (ss_free_small_chunks ss')"
proof -
  show F: "set (ss_free_small_chunks ss') = set (ss_free_small_chunks ss) - {(q, m)}"
  proof -
    have "fst e \<noteq> q \<longleftrightarrow> e \<noteq> (q, m)" if "e \<in> set (ss_free_small_chunks ss)" for e
      using om_inv_unique [OF assms(1,2), of "snd e"] that by (cases e) auto
    then have "{e \<in> set (ss_free_small_chunks ss). fst e \<noteq> q} = set (ss_free_small_chunks ss) - {(q, m)}"
      by blast
    then show ?thesis by (simp add: ss'_def erase_free_entry_def set_om_erase)
  qed
  show "set (ss_free_small_chunks_inv ss') = prod.swap ` set (ss_free_small_chunks ss')"
  proof -
    have "set (ss_free_small_chunks_inv ss') = prod.swap ` set (ss_free_small_chunks ss) - {prod.swap (q, m)}"
      by (simp add: ss'_def erase_free_entry_def set_os_erase assms(4))
    also have "\<dots> = prod.swap ` (set (ss_free_small_chunks ss) - {(q, m)})"
      by (simp add: image_set_diff [OF inj_swap])
    finally show ?thesis by (simp add: F)
  qed
qed (use assms in \<open>simp_all add: erase_free_entry_def om_inv_erase os_inv_erase\<close>)

lemma remove_free_small_chunk_eq:
  assumes "om_inv (ss_free_small_chunks ss)" and "(q, m) \<in> set (ss_free_small_chunks ss)"
  shows "remove_free_small_chunk q ss = erase_free_entry (q, m) ss"
proof -
  have "om_find q (ss_free_small_chunks ss) = Some m" using assms by (simp add: container_simps)
  then show ?thesis by (simp add: remove_free_small_chunk_def erase_free_entry_def)
qed

lemma add_small_alloc_fields [simp]:
  "ss_allocs (add_small_alloc p n ss) = ss_allocs ss"
  "ss_free_small_chunks (add_small_alloc p n ss) = ss_free_small_chunks ss"
  "ss_free_small_chunks_inv (add_small_alloc p n ss) = ss_free_small_chunks_inv ss"
  "ss_allocated_bytes (add_small_alloc p n ss) = ss_allocated_bytes ss"
  "set (ss_small_allocs (add_small_alloc p n ss)) = insert (p, n) (set (ss_small_allocs ss))"
  "os_inv (ss_small_allocs ss) \<Longrightarrow> os_inv (ss_small_allocs (add_small_alloc p n ss))"
  by (simp_all add: add_small_alloc_def container_simps os_inv_insert)

lemma add_free_small_chunk_fields [simp]:
  "ss_allocs (add_free_small_chunk q m ss) = ss_allocs ss"
  "ss_small_allocs (add_free_small_chunk q m ss) = ss_small_allocs ss"
  "ss_allocated_bytes (add_free_small_chunk q m ss) = ss_allocated_bytes ss"
  by (simp_all add: add_free_small_chunk_def)

lemma erase_free_entry_fields [simp]:
  "ss_allocs (erase_free_entry c ss) = ss_allocs ss"
  "ss_small_allocs (erase_free_entry c ss) = ss_small_allocs ss"
  "ss_allocated_bytes (erase_free_entry c ss) = ss_allocated_bytes ss"
  by (simp_all add: erase_free_entry_def)

subsection \<open>The client's view\<close>

lemma tiling_holds_iff:
  assumes "tiling R S F" and "r \<in> R"
  shows "(\<exists>b\<in>S \<union> F. inside b r) \<longleftrightarrow> (\<exists>x. inb x r \<and> (\<exists>b\<in>S \<union> F. inb x b))"
  using tiling_inside_unique [OF assms] tiling_snd_pos [OF assms(1)] inb_fst inside_inb
  by (metis Un_assoc Un_iff)

lemma ss_large_iff:
  assumes "ss_inv ss"
  shows "r \<in> ss_large ss \<longleftrightarrow> r \<in> set (ss_allocs ss) \<and>
    \<not> (\<exists>x. inb x r \<and> (\<exists>b \<in> set (ss_small_allocs ss) \<union> set (ss_free_small_chunks ss). inb x b))"
  using tiling_holds_iff [OF ss_inv_tiling [OF assms], of r] unfolding ss_large_def by blast

lemma ss_large_cong:
  assumes "ss_inv ss" and "ss_inv ss'" and "set (ss_allocs ss') = set (ss_allocs ss)"
    and "\<And>x. (\<exists>b \<in> set (ss_small_allocs ss') \<union> set (ss_free_small_chunks ss'). inb x b) \<longleftrightarrow>
             (\<exists>b \<in> set (ss_small_allocs ss) \<union> set (ss_free_small_chunks ss). inb x b)"
  shows "ss_large ss' = ss_large ss"
  using assms by (intro set_eqI) (simp add: ss_large_iff)

lemma ss_live_disjoint:
  assumes inv: "ss_inv ss" and "b \<in> ss_live ss" and "b' \<in> ss_live ss" and "b \<noteq> b'"
  shows "disj b b'"
proof -
  note t = ss_inv_tiling [OF inv]
  have sl: "disj c r" if c: "c \<in> set (ss_small_allocs ss)" and r: "r \<in> ss_large ss" for c r
  proof -
    obtain r' where "r' \<in> set (ss_allocs ss)" "inside c r'" using tiling_inside [OF t] c by blast
    moreover have "disj r' r" using tiling_regions [OF t, of r' r] calculation r c
      unfolding ss_large_def by blast
    ultimately show ?thesis by (auto simp: iv_defs)
  qed
  have ll: "disj b b'" if "b \<in> ss_large ss" "b' \<in> ss_large ss"
    using tiling_regions [OF t, of b b'] that assms(4) unfolding ss_large_def by blast
  show ?thesis
    using assms(2-4) sl ll tiling_blocks [OF t, of b b'] disj_sym unfolding ss_live_def by blast
qed

lemma fresh_region_no_block:
  assumes inv: "ss_inv ss" and fr: "fresh_region ss r"
    and b: "b \<in> set (ss_small_allocs ss) \<union> set (ss_free_small_chunks ss)"
  shows "disj r b"
proof -
  obtain r' where "r' \<in> set (ss_allocs ss)" "inside b r'" using tiling_inside [OF ss_inv_tiling [OF inv] b] by blast
  then show ?thesis using fr unfolding fresh_region_def by (auto simp: iv_defs)
qed

lemma fresh_region_notin_live: "ss_inv ss \<Longrightarrow> fresh_region ss r \<Longrightarrow> b \<in> ss_live ss \<Longrightarrow> disj r b"
  using fresh_region_no_block [of ss r b] unfolding ss_live_def ss_large_def fresh_region_def by blast

lemma fresh_not_live:
  assumes "ss_inv ss" and "fresh_region ss (p, B)" and "0 < n" "n \<le> B"
  shows "(p, n) \<notin> ss_live ss"
proof
  assume "(p, n) \<in> ss_live ss"
  then have "disj (p, B) (p, n)" using fresh_region_notin_live assms(1,2) by blast
  then show False using assms(3,4) by (simp add: iv_defs)
qed

lemma free_chunk_not_live:
  assumes inv: "ss_inv ss" and f: "(q, m) \<in> set (ss_free_small_chunks ss)" and n: "0 < n"
  shows "(q, n) \<notin> ss_live ss"
proof
  note t = ss_inv_tiling [OF inv]
  assume L: "(q, n) \<in> ss_live ss"
  have x: "inb q (q, m)" "inb q (q, n)" using tiling_snd_pos [OF t, of "(q, m)"] f n by (simp_all add: iv_defs)
  show False
  proof (cases "(q, n) \<in> set (ss_small_allocs ss)")
    case True
    then have "(q, n) = (q, m)" using tiling_block_of_byte [OF t _ _ x(2) x(1)] f by blast
    then show False using True f tiling_SF [OF t] by auto
  next
    case False
    then have "(q, n) \<in> ss_large ss" using L by (simp add: ss_live_def)
    then show False using x f unfolding ss_large_iff [OF inv] by blast
  qed
qed

subsection \<open>The three ways an allocation ends\<close>

lemma allocate_large_ok:
  assumes inv: "ss_inv ss" and fr: "fresh_region ss (p, B)" and a: "add_alloc self p B (ss, ms) = (ss', ms')"
  shows "ss_inv ss' \<and> ss_live ss' = insert (p, B) (ss_live ss)"
proof -
  note A = add_alloc_inv [OF inv fr a]
  have "\<not> inside b (p, B)" if "b \<in> set (ss_small_allocs ss) \<union> set (ss_free_small_chunks ss)" for b
    using fresh_region_no_block [OF inv fr that] tiling_snd_pos [OF ss_inv_tiling [OF inv], of b] that
    by (auto simp: iv_defs)
  then have "ss_large ss' = insert (p, B) (ss_large ss)" unfolding ss_large_def A by blast
  then show ?thesis using A by (simp add: ss_live_def)
qed

lemma allocate_new_small_ok:
  assumes inv: "ss_inv ss" and fr: "fresh_region ss (p, B)" and a: "add_alloc self p B (ss, ms) = (ss1, ms')"
    and n: "0 < n" "n \<le> B"
    and ss': "ss' = (if n = B then add_small_alloc p n ss1
                     else add_free_small_chunk (p + n) (B - n) (add_small_alloc p n ss1))"
  shows "ss_inv ss' \<and> ss_live ss' = insert (p, n) (ss_live ss)"
proof -
  note A = add_alloc_inv [OF inv fr a]
  let ?S = "set (ss_small_allocs ss)" and ?F = "set (ss_free_small_chunks ss)"
  have t: "tiling (insert (p, B) (set (ss_allocs ss))) (insert (p, n) ?S) (if n = B then ?F else insert (p + n, B - n) ?F)"
    using fr n by (intro tiling_new_small [OF ss_inv_tiling [OF inv]]) (auto simp: fresh_region_def)
  have key: "p + n \<notin> fst ` ?F" if "n \<noteq> B"
  proof
    assume "p + n \<in> fst ` ?F"
    then obtain m where m: "(p + n, m) \<in> ?F" by force
    have "disj (p, B) (p + n, m)" and "0 < m"
      using fresh_region_no_block [OF inv fr] m tiling_snd_pos [OF ss_inv_tiling [OF inv]] by force+
    then show False using n that by (simp add: iv_defs)
  qed
  note fs = add_free_small_chunk_sets [of "add_small_alloc p n ss1" "p + n" _ "B - n"]
  have F': "set (ss_free_small_chunks ss') = (if n = B then ?F else insert (p + n, B - n) ?F)"
    using ss' fs(3) [of ss'] key A(4) ss_inv_free [OF A(1)] ss_inv_inv [OF A(1)] ss_inv_swap [OF A(1)] by auto
  have S': "set (ss_small_allocs ss') = insert (p, n) ?S" and R': "ss_allocs ss' = ss_allocs ss1"
    using ss' A by auto
  have inv': "ss_inv ss'"
    using A(1) fs(1,2,4) [of ss'] key t F' S' R' ss' A unfolding ss_inv_def by (auto split: if_splits)
  have new: "inside (p, n) (p, B)" using n by (simp add: iv_defs)
  have out: "\<not> inside c r" if "r \<in> set (ss_allocs ss)" "c = (p, n) \<or> (n \<noteq> B \<and> c = (p + n, B - n))" for c r
    using fr that n unfolding fresh_region_def by (auto simp: iv_defs)
  have "ss_large ss' = ss_large ss"
    unfolding ss_large_def S' F' R' A(2) using new out by (auto split: if_splits)
  then show ?thesis using inv' S' by (simp add: ss_live_def)
qed

lemma allocate_split_free:
  assumes inv: "ss_inv ss" and f: "(q, m) \<in> set (ss_free_small_chunks ss)" and n: "0 < n" "n \<le> m"
    and ss1: "ss1 = erase_free_entry (q, m) (add_small_alloc q n ss)"
    and ss': "ss' = (if n = m then ss1 else add_free_small_chunk (q + n) (m - n) ss1)"
  shows "set (ss_free_small_chunks ss') =
      set (ss_free_small_chunks ss) - {(q, m)} \<union> (if n = m then {} else {(q + n, m - n)})"
    and "om_inv (ss_free_small_chunks ss')" and "os_inv (ss_free_small_chunks_inv ss')"
    and "set (ss_free_small_chunks_inv ss') = prod.swap ` set (ss_free_small_chunks ss')"
proof -
  let ?F = "set (ss_free_small_chunks ss)"
  note T = ss_inv_tiling [OF inv]
  have E: "om_inv (ss_free_small_chunks ss1)" "os_inv (ss_free_small_chunks_inv ss1)"
    "set (ss_free_small_chunks ss1) = ?F - {(q, m)}"
    "set (ss_free_small_chunks_inv ss1) = prod.swap ` set (ss_free_small_chunks ss1)"
    using erase_free_entry_sets [OF _ _ _ _ ss1] f ss_inv_free [OF inv] ss_inv_inv [OF inv] ss_inv_swap [OF inv]
    by simp_all
  have key: "q + n \<notin> fst ` set (ss_free_small_chunks ss1)" if "n \<noteq> m"
  proof
    assume "q + n \<in> fst ` set (ss_free_small_chunks ss1)"
    then obtain m' where m': "(q + n, m') \<in> ?F" unfolding E(3) by force
    have "0 < m'" using tiling_snd_pos [OF T, of "(q + n, m')"] m' by simp
    then have "inb (q + n) (q + n, m')" "inb (q + n) (q, m)" using n that by (simp_all add: iv_defs)
    then have "(q + n, m') = (q, m)" using tiling_block_of_byte [OF T] m' f by blast
    then show False using n by simp
  qed
  note fs = add_free_small_chunk_sets [OF E(1) _ E(2) E(4), of "q + n" ss' "m - n"]
  show F': "set (ss_free_small_chunks ss') = ?F - {(q, m)} \<union> (if n = m then {} else {(q + n, m - n)})"
    using ss' fs(3) key E(3) by auto
  show "om_inv (ss_free_small_chunks ss')" using ss' fs(1) key E(1) by auto
  show "os_inv (ss_free_small_chunks_inv ss')" using ss' fs(2) key E(2) by auto
  show "set (ss_free_small_chunks_inv ss') = prod.swap ` set (ss_free_small_chunks ss')"
    using ss' fs(4) key E(4) by (cases "n = m") simp_all
qed

lemma allocate_split_ok:
  assumes inv: "ss_inv ss" and f: "(q, m) \<in> set (ss_free_small_chunks ss)" and n: "0 < n" "n \<le> m"
    and ss1: "ss1 = erase_free_entry (q, m) (add_small_alloc q n ss)"
    and ss': "ss' = (if n = m then ss1 else add_free_small_chunk (q + n) (m - n) ss1)"
  shows "ss_inv ss' \<and> ss_live ss' = insert (q, n) (ss_live ss)"
proof -
  let ?S = "set (ss_small_allocs ss)" and ?F = "set (ss_free_small_chunks ss)"
  note T = ss_inv_tiling [OF inv]
  note X = allocate_split_free [OF inv f n ss1 ss']
  note F' = X(1)
  have t: "tiling (set (ss_allocs ss)) (insert (q, n) ?S) (?F - {(q, m)} \<union> (if n = m then {} else {(q + n, m - n)}))"
    by (rule tiling_split_chunk [OF T f n])
  have S': "set (ss_small_allocs ss') = insert (q, n) ?S" and R': "ss_allocs ss' = ss_allocs ss"
    using ss' ss1 by auto
  have "os_inv (ss_small_allocs ss')" "ss_allocated_bytes ss' = ss_allocated_bytes ss"
    using ss' ss1 ss_inv_small [OF inv] by auto
  then have inv': "ss_inv ss'"
    unfolding ss_inv_def S' R' using X(2-4) t [folded F'] inv by (simp add: ss_inv_allocs ss_inv_bytes)
  have "ss_large ss' = ss_large ss"
  proof (rule ss_large_cong [OF inv inv'])
    have cut: "inb x (q, m) \<longleftrightarrow> inb x (q, n) \<or> (n \<noteq> m \<and> inb x (q + n, m - n))" for x
      using n by (auto simp: iv_defs)
    define F0 where "F0 = ?F - {(q, m)}"
    have F: "?F = insert (q, m) F0" using f by (auto simp: F0_def)
    have "set (ss_free_small_chunks ss') = F0 \<union> (if n = m then {} else {(q + n, m - n)})"
      by (simp add: F' F0_def)
    then show "(\<exists>b \<in> set (ss_small_allocs ss') \<union> set (ss_free_small_chunks ss'). inb x b) \<longleftrightarrow>
             (\<exists>b \<in> ?S \<union> ?F. inb x b)" for x
      unfolding S' F bex_Un bex_simps cut by simp blast
  qed (simp add: R')
  then show ?thesis using inv' S' by (simp add: ss_live_def)
qed

subsection \<open>The whole operation\<close>

text \<open>
  What a configuration of the memory manager must satisfy, and the number of bytes a request
  really takes: large ones are rounded up to whole pages.
\<close>

definition mm_config_ok :: "memory_manager \<Rightarrow> bool" where
  "mm_config_ok mm \<longleftrightarrow> 0 < get_page_size mm \<and>
     get_max_small_alloc_bytes mm \<le> get_single_small_alloc_bytes mm \<and> get_single_small_alloc_bytes mm < u64_max"

definition alloc_size :: "memory_manager \<Rightarrow> nat \<Rightarrow> nat" where
  "alloc_size mm n = (if n > get_max_small_alloc_bytes mm
     then (n + get_page_size mm - 1) div get_page_size mm * get_page_size mm else n)"

text \<open>The size of the region that a request asks \<open>mmap\<close> for, when no free chunk serves it.\<close>

definition region_bytes :: "memory_manager \<Rightarrow> nat \<Rightarrow> nat" where
  "region_bytes mm n = (if n > get_max_small_alloc_bytes mm then alloc_size mm n else get_single_small_alloc_bytes mm)"

definition served_by_chunk :: "memory_manager \<Rightarrow> nat \<Rightarrow> memory_sub_session \<Rightarrow> bool" where
  "served_by_chunk mm n ss \<longleftrightarrow> n \<le> get_max_small_alloc_bytes mm \<and> (\<exists>c \<in> set (ss_free_small_chunks ss). n \<le> snd c)"

lemma page_round_ge: "0 < P \<Longrightarrow> (n::nat) \<le> (n + P - 1) div P * P"
proof -
  assume "0 < P"
  have "(n + P - 1) div P * P + (n + P - 1) mod P = n + P - 1" by simp
  moreover have "(n + P - 1) mod P < P" using \<open>0 < P\<close> by simp
  ultimately show ?thesis by linarith
qed

lemma page_round_u64:
  assumes "0 < P" and "n + P < u64_max"
  shows "u64_mul (u64_sub (u64_add n P) 1 div P) P = (n + P - 1) div P * P"
proof -
  have "(n + P - 1) div P * P \<le> n + P - 1" by simp
  then have "(n + P - 1) div P * P < u64_max" using assms by linarith
  then show ?thesis using assms by (simp add: u64_add_nowrap u64_sub_nowrap u64_mul_nowrap)
qed

lemma alloc_size_ge: "mm_config_ok mm \<Longrightarrow> n \<le> alloc_size mm n"
  using page_round_ge [of "get_page_size mm" n] by (simp add: alloc_size_def mm_config_ok_def)

lemma ss_allocate_large:
  assumes "mm_config_ok mm" and "n + get_page_size mm < u64_max" and "n > get_max_small_alloc_bytes mm"
  shows "ss_allocate mm mmap self n st = (case mmap (alloc_size mm n) of None \<Rightarrow> Inl Bad_alloc
      | Some p \<Rightarrow> Inr (p, add_alloc self p (alloc_size mm n) st))"
proof -
  have "u64_mul (u64_sub (u64_add n (get_page_size mm)) 1 div get_page_size mm) (get_page_size mm) = alloc_size mm n"
    using assms page_round_u64 [of "get_page_size mm" n] by (simp add: alloc_size_def mm_config_ok_def)
  then show ?thesis unfolding ss_allocate_def Let_def using assms(3) by (simp cong: option.case_cong)
qed

lemma ss_allocate_new_region:
  assumes "mm_config_ok mm" and "n \<le> get_max_small_alloc_bytes mm"
    and "smallest_sufficent_free_small_chunk n ss = (0, 0)"
    and p: "mmap (get_single_small_alloc_bytes mm) = Some p" and "p + n < u64_max"
    and a: "add_alloc self p (get_single_small_alloc_bytes mm) (ss, ms) = (ss1, ms1)"
  shows "ss_allocate mm mmap self n (ss, ms) = Inr (p,
      (if n = get_single_small_alloc_bytes mm then add_small_alloc p n ss1
       else add_free_small_chunk (p + n) (get_single_small_alloc_bytes mm - n) (add_small_alloc p n ss1)), ms1)"
  using assms by (simp add: ss_allocate_def Let_def mm_config_ok_def u64_sub_nowrap u64_add_nowrap)

lemma ss_allocate_split:
  assumes "n \<le> get_max_small_alloc_bytes mm" and "ss_inv ss" and "0 < n"
    and s: "smallest_sufficent_free_small_chunk n ss = (m, q)" "(q, m) \<in> set (ss_free_small_chunks ss)" "n \<le> m"
    and ss1: "ss1 = erase_free_entry (q, m) (add_small_alloc q n ss)"
  shows "ss_allocate mm mmap self n (ss, ms) = Inr (q,
      (if n = m then ss1 else add_free_small_chunk (q + n) (m - n) ss1), ms)"
proof -
  have pr: "proper (q, m)" using tiling_proper [OF ss_inv_tiling [OF assms(2)]] s(2) by blast
  then have *: "u64_sub m n = m - n" "u64_add q n = q + n"
    using s(3) by (simp_all add: proper_def cend_def u64_sub_nowrap u64_add_nowrap)
  have r: "remove_free_small_chunk q (add_small_alloc q n ss) = ss1"
    unfolding ss1 by (rule remove_free_small_chunk_eq) (use s ss_inv_free [OF assms(2)] in auto)
  show ?thesis using assms(1,3) s(1,3) r * by (cases "n = m") (simp_all add: ss_allocate_def Let_def)
qed

lemma ss_allocate_cases:
  assumes inv: "ss_inv ss" and cfg: "mm_config_ok mm" and n: "0 < n" "n + get_page_size mm < u64_max"
    and fresh: "\<And>p. mmap (region_bytes mm n) = Some p \<Longrightarrow> fresh_region ss (p, region_bytes mm n)"
  obtains (fails) "mmap (region_bytes mm n) = None" "\<not> served_by_chunk mm n ss" "ss_allocate mm mmap self n (ss, ms) = Inl Bad_alloc"
  | (ok) p ss' ms' where "mmap (region_bytes mm n) \<noteq> None \<or> served_by_chunk mm n ss"
      "ss_allocate mm mmap self n (ss, ms) = Inr (p, ss', ms')"
      "ss_inv ss'" "ss_live ss' = insert (p, alloc_size mm n) (ss_live ss)" "(p, alloc_size mm n) \<notin> ss_live ss"
proof (cases "n > get_max_small_alloc_bytes mm")
  case True
  then have rb: "region_bytes mm n = alloc_size mm n" and nc: "\<not> served_by_chunk mm n ss"
    by (simp_all add: region_bytes_def served_by_chunk_def)
  note fresh = fresh [unfolded rb]
  show thesis
  proof (cases "mmap (alloc_size mm n)")
    case None
    then show thesis using fails nc rb ss_allocate_large [OF cfg n(2) True] by simp
  next
    case (Some p)
    obtain ss' ms' where a: "add_alloc self p (alloc_size mm n) (ss, ms) = (ss', ms')" by fastforce
    show thesis
      using ok [of p ss' ms'] rb allocate_large_ok [OF inv fresh [OF Some] a] ss_allocate_large [OF cfg n(2) True] Some a
        fresh_not_live [OF inv fresh [OF Some]] alloc_size_ge [OF cfg, of n] n(1) by simp
  qed
next
  case False
  then have small: "n \<le> get_max_small_alloc_bytes mm" and sz: "alloc_size mm n = n" by (simp_all add: alloc_size_def)
  let ?B = "get_single_small_alloc_bytes mm"
  have rb: "region_bytes mm n = ?B" using small by (simp add: region_bytes_def)
  note fresh = fresh [unfolded rb]
  show thesis using inv n(1)
  proof (cases rule: smallest_chunk_cases)
    case none
    show thesis
    proof (cases "mmap ?B")
      case None
      moreover have "\<not> served_by_chunk mm n ss" using none(2) by (fastforce simp: served_by_chunk_def)
      ultimately show thesis using fails rb none(1) small by (simp add: ss_allocate_def)
    next
      case (Some p)
      obtain ss1 ms1 where a: "add_alloc self p ?B (ss, ms) = (ss1, ms1)" by fastforce
      have nB: "n \<le> ?B" using small cfg by (simp add: mm_config_ok_def)
      have "p + n < u64_max" using fresh [OF Some] nB by (simp add: fresh_region_def proper_def cend_def)
      from ss_allocate_new_region [of mm n ss mmap p self, OF cfg small none(1) Some this a]
        allocate_new_small_ok [OF inv fresh [OF Some] a n(1) nB refl]
      show thesis using ok sz rb Some fresh_not_live [OF inv fresh [OF Some] n(1) nB] by simp
    qed
  next
    case (some q m)
    from ss_allocate_split [OF small inv n(1) some(1-3) refl] allocate_split_ok [OF inv some(2) n(1) some(3) refl refl]
    moreover have "served_by_chunk mm n ss" using some(2,3) small unfolding served_by_chunk_def by force
    ultimately show thesis using ok sz free_chunk_not_live [OF inv some(2) n(1)] by simp
  qed
qed

end
