(* ===== verification/Sub_Session_Release.thy ===== *)
theory Sub_Session_Release
  imports Sub_Session_Correct
begin

text \<open>
  Giving memory back to a sub-session: the two merges of
  \<open>add_merge_remove_free_small_chunk\<close> find exactly the free neighbours of the released block
  inside its region, unless the block is at the boundary to another region (\<open>at_boundary\<close>).
\<close>

section \<open>Finding the block and its region\<close>

lemma small_alloc_found:
  assumes inv: "ss_inv ss" and b: "(p, n) \<in> set (ss_small_allocs ss)"
  shows "os_first_above (p, 0) (ss_small_allocs ss) = Some (p, n)"
proof -
  have "0 < n" using tiling_snd_pos [OF ss_inv_tiling [OF inv], of "(p, n)"] b by simp
  moreover have "(p, n) \<le> z" if "z \<in> set (ss_small_allocs ss)" "(p, 0) < z" for z
  proof (cases z)
    case (Pair q m)
    show ?thesis
    proof (cases "q = p")
      case True
      then have "m = n" using tiling_key_unique [OF ss_inv_tiling [OF inv], of p m n] Pair that b by blast
      then show ?thesis using Pair True by simp
    qed (use Pair that in auto)
  qed
  ultimately show ?thesis using b by (simp add: std_set.above_Some [OF ss_inv_small [OF inv]])
qed

lemma is_small_alloc_iff:
  assumes inv: "ss_inv ss"
  shows "is_small_alloc p ss \<longleftrightarrow> p \<in> fst ` set (ss_small_allocs ss)"
proof
  show "is_small_alloc p ss" if "p \<in> fst ` set (ss_small_allocs ss)"
  proof -
    from that obtain n where "(p, n) \<in> set (ss_small_allocs ss)" by force
    then show ?thesis using small_alloc_found [OF inv] by (simp add: is_small_alloc_def)
  qed
qed (auto simp: is_small_alloc_def std_set.above_Some [OF ss_inv_small [OF inv]] split: option.splits)

lemma region_found:
  assumes om: "om_inv al" and t: "tiling (set al) S F" and r: "r \<in> set al" and x: "inb x r"
  shows "om_prev x al = Some r"
proof -
  have "fst e \<le> fst r" if e: "e \<in> set al" "fst e \<le> x" for e
  proof (cases "e = r")
    case False
    then have "disj e r" using tiling_regions [OF t] e r by blast
    then show ?thesis using x e by (auto simp: iv_defs)
  qed simp
  then show ?thesis using r x by (intro std_map.prv_unique [OF om]) (auto simp: iv_defs)
qed

section \<open>The merges\<close>

lemma merge_previous_cases:
  assumes om: "om_inv (ss_free_small_chunks ss)" and t: "tiling R S (set (ss_free_small_chunks ss))"
    and b: "(p, n) \<in> S" and r: "r \<in> R" and i: "inside (p, n) r"
  obtains (none) "merge_previous r (p, n) ss = Inr ((p, n), ss)"
      "\<And>f. f \<in> set (ss_free_small_chunks ss) \<Longrightarrow> inside f r \<Longrightarrow> cend f \<noteq> p"
  | (left) q m where "(q, m) \<in> set (ss_free_small_chunks ss)" "q + m = p" "inside (q, m) r"
      "merge_previous r (p, n) ss = Inr ((q, n + m), erase_free_entry (q, m) ss)"
proof (cases "om_prev p (ss_free_small_chunks ss)")
  case None
  then have far: "\<forall>f\<in>set (ss_free_small_chunks ss). p < fst f" using om by (simp add: om_prev_None)
  show thesis
  proof (rule none)
    show "merge_previous r (p, n) ss = Inr ((p, n), ss)" using None by (simp add: merge_previous_def)
    show "cend f \<noteq> p" if "f \<in> set (ss_free_small_chunks ss)" for f
      using bspec [OF far that] by (simp add: cend_def)
  qed
next
  case (Some e)
  obtain q m where e: "e = (q, m)" by (cases e)
  let ?F = "set (ss_free_small_chunks ss)"
  have qF: "(q, m) \<in> ?F" and qp: "q \<le> p" and max: "\<And>f. f \<in> ?F \<Longrightarrow> fst f \<le> p \<Longrightarrow> fst f \<le> q"
    using om_prev_SomeD [OF om Some] e by auto
  have pos: "0 < m" "0 < n" using tiling_snd_pos [OF t] qF b by force+
  have ne: "(q, m) \<noteq> (p, n)" using tiling_SF [OF t] qF b by blast
  then have dj: "disj (q, m) (p, n)" using tiling_blocks [OF t, of "(q, m)" "(p, n)"] qF b by blast
  then have qm: "q < p" "q + m \<le> p" using qp pos by (auto simp: iv_defs)
  have near: "fst f \<le> q" if "f \<in> ?F" "cend f = p" for f
    using max [OF that(1)] that(2) by (simp add: cend_def)
  show thesis
  proof (cases "fst r \<le> q \<and> q + m = p")
    case True
    then have ir: "inside (q, m) r" using i by (simp add: iv_defs)
    have "proper r" using tiling_proper [OF t] r by blast
    then have "n + m < u64_max" using i True by (simp add: iv_defs)
    then have "merge_previous r (p, n) ss = Inr ((q, n + m), erase_free_entry (q, m) ss)"
      using Some e True qm by (auto simp: merge_previous_def Let_def u64_add_nowrap)
    then show thesis using left qF True ir by blast
  next
    case False
    have "cend f \<noteq> p" if f: "f \<in> ?F" "inside f r" for f
    proof
      assume c: "cend f = p"
      have fq: "fst f \<le> q" using near [OF f(1) c] .
      show False
      proof (cases "f = (q, m)")
        case True
        then show False using False f c by (simp add: iv_defs)
      next
        case ne: False
        then have "disj f (q, m)" using tiling_blocks [OF t, of f "(q, m)"] f qF by blast
        then show False using fq c qm pos f False tiling_snd_pos [OF t, of f] by (auto simp: iv_defs)
      qed
    qed
    moreover have "merge_previous r (p, n) ss = Inr ((p, n), ss)"
      using Some e False qm by (auto simp: merge_previous_def Let_def)
    ultimately show thesis using none by blast
  qed
qed

lemma merge_next_cases:
  assumes om: "om_inv (ss_free_small_chunks ss)"
    and home: "\<And>f. f \<in> set (ss_free_small_chunks ss) \<Longrightarrow> fst f < cend r \<Longrightarrow> fst r \<le> fst f \<Longrightarrow> inside f r"
    and pos: "\<And>f. f \<in> set (ss_free_small_chunks ss) \<Longrightarrow> 0 < snd f"
    and far: "\<And>f. f \<in> set (ss_free_small_chunks ss) \<Longrightarrow> disj (a, k) f"
    and i: "inside (a, k) r" and k: "0 < k" and pr: "proper r"
    and end_r: "\<And>f. f \<in> set (ss_free_small_chunks ss) \<Longrightarrow> a + k = cend r \<Longrightarrow> k \<noteq> snd r \<Longrightarrow> fst f \<noteq> cend r"
  obtains (none) "merge_next r (a, k) ss = Inr ((a, k), ss)"
      "\<And>f. f \<in> set (ss_free_small_chunks ss) \<Longrightarrow> inside f r \<Longrightarrow> fst f \<noteq> a + k"
  | (right) m where "(a + k, m) \<in> set (ss_free_small_chunks ss)" "inside (a + k, m) r"
      "merge_next r (a, k) ss = Inr ((a, k + m), erase_free_entry (a + k, m) ss)"
proof (cases "om_next a (ss_free_small_chunks ss)")
  case None
  then have le: "\<forall>f\<in>set (ss_free_small_chunks ss). fst f \<le> a" by (simp add: om_next_None)
  show thesis
  proof (rule none)
    show "merge_next r (a, k) ss = Inr ((a, k), ss)" using None by (simp add: merge_next_def)
    show "fst f \<noteq> a + k" if "f \<in> set (ss_free_small_chunks ss)" for f
      using bspec [OF le that] k by simp
  qed
next
  case (Some e)
  obtain q m where e: "e = (q, m)" by (cases e)
  let ?F = "set (ss_free_small_chunks ss)"
  have qF: "(q, m) \<in> ?F" and aq: "a < q" and least: "\<And>f. f \<in> ?F \<Longrightarrow> a < fst f \<Longrightarrow> q \<le> fst f"
    using Some e by (auto simp: om_next_Some [OF om])
  have ak: "a + k \<le> q" using far [OF qF] aq pos [OF qF] by (simp add: iv_defs)
  show thesis
  proof (cases "k \<noteq> snd r \<and> q = a + k")
    case True
    have "a + k \<noteq> cend r" using True end_r [OF qF] by auto
    then have "q < cend r" using True i by (simp add: iv_defs)
    then have ir: "inside (a + k, m) r" using home [OF qF] True i by (simp add: iv_defs)
    then have "k + m < u64_max" using pr by (simp add: iv_defs)
    then have "merge_next r (a, k) ss = Inr ((a, k + m), erase_free_entry (a + k, m) ss)"
      using Some e True k by (auto simp: merge_next_def Let_def u64_add_nowrap)
    then show thesis using right qF True ir by blast
  next
    case False
    have "fst f \<noteq> a + k" if f: "f \<in> ?F" "inside f r" for f
    proof
      assume c: "fst f = a + k"
      then have "q \<le> a + k" using least [OF f(1)] k by simp
      then have "k = snd r" using False ak by simp
      then have "(a, k) = r" using inside_eq [OF i] by simp
      then show False using f c pos [OF f(1)] by (auto simp: iv_defs)
    qed
    moreover have "merge_next r (a, k) ss = Inr ((a, k), ss)"
      using Some e False aq by (auto simp: merge_next_def Let_def)
    ultimately show thesis using none by blast
  qed
qed


text \<open>
  \<open>merged_l\<close> is \<open>merged\<close> after the first of the two merges: nothing is said yet about a free
  chunk on the right.
\<close>

definition merged_l :: "iv set \<Rightarrow> iv \<Rightarrow> iv set \<Rightarrow> iv \<Rightarrow> iv \<Rightarrow> bool" where
  "merged_l F b A c r \<longleftrightarrow>
     A \<subseteq> F \<and> inside c r \<and> 0 < snd c \<and> (\<forall>x. inb x c \<longleftrightarrow> (\<exists>d\<in>insert b A. inb x d)) \<and>
     (\<forall>f\<in>F - A. inside f r \<longrightarrow> cend f \<noteq> fst c)"

lemma merged_l_stop:
  assumes "merged_l F b A c r" and "\<And>f. f \<in> F - A \<Longrightarrow> inside f r \<Longrightarrow> fst f \<noteq> cend c"
  shows "merged F b A c r"
  using assms unfolding merged_l_def merged_def by blast

lemma merged_l_right:
  assumes t: "tiling R S F" and r: "r \<in> R" and m: "merged_l F b A (a, k) r"
    and f: "(a + k, m) \<in> F - A" "inside (a + k, m) r"
  shows "merged F b (insert (a + k, m) A) (a, k + m) r"
proof -
  have "fst f' \<noteq> cend (a, k + m)" if "f' \<in> F - insert (a + k, m) A" "inside f' r" for f'
    using tiling_coalesced [OF t r, of "(a + k, m)" f'] that f by (simp add: cend_def add.assoc)
  moreover have "inb x (a, k + m) \<longleftrightarrow> inb x (a, k) \<or> inb x (a + k, m)" for x by (auto simp: iv_defs)
  moreover have "inside (a, k + m) r" using f m unfolding merged_l_def by (simp add: iv_defs)
  moreover have "insert (a + k, m) A \<subseteq> F" using m f(1) unfolding merged_l_def by blast
  ultimately show ?thesis using m unfolding merged_l_def merged_def bex_simps by simp blast
qed

lemma merged_l_far:
  assumes t: "tiling R S F" and b: "b \<in> S" and m: "merged_l F b A c r" and d: "d \<in> F - A"
  shows "disj c d"
proof -
  have "\<not> (inb x c \<and> inb x d)" for x
  proof
    assume x: "inb x c \<and> inb x d"
    then obtain e where e: "e \<in> insert b A" "inb x e" using m unfolding merged_l_def by blast
    then have "e \<in> S \<union> F" using b m unfolding merged_l_def by blast
    then have "d = e" using tiling_block_of_byte [OF t] x e d by blast
    then show False using e d b tiling_SF [OF t] by blast
  qed
  moreover have "0 < snd c" "0 < snd d" using m d tiling_snd_pos [OF t] unfolding merged_l_def by blast+
  ultimately show ?thesis using disj_iff by blast
qed

text \<open>When the block is the only one in its region and ends it, the first merge already makes the whole region free.\<close>

lemma merged_l_whole:
  assumes t: "tiling R S F" and b: "b \<in> S" and r: "r \<in> R" and i: "inside b r" and m: "merged_l F b A c r"
    and e: "cend c = cend r" and only: "\<And>b'. b' \<in> S \<Longrightarrow> inside b' r \<Longrightarrow> b' = b"
  shows "snd c = snd r"
proof -
  have ir: "inside c r" "0 < snd c" and bytes: "inb x c \<longleftrightarrow> (\<exists>d \<in> insert b A. inb x d)" for x
    using m by (simp_all add: merged_l_def)
  have "fst c = fst r"
  proof (rule ccontr)
    assume "fst c \<noteq> fst r"
    then have lt: "fst r < fst c" using ir by (simp add: iv_defs)
    then have x: "inb (fst c - 1) r" "\<not> inb (fst c - 1) c" using ir by (auto simp: iv_defs)
    then obtain d where d: "d \<in> S \<union> F" "inb (fst c - 1) d" using tiling_covered [OF t r, of b] b i unfolding covered_def by blast
    then have dr: "inside d r" using tiling_inside_unique [OF t r] x by blast
    have "d \<notin> insert b A" using bytes [of "fst c - 1"] x d by blast
    then have dA: "d \<in> F - A" using d dr only by blast
    then have "disj c d" "cend d \<noteq> fst c" using merged_l_far [OF t b m] m dr by (auto simp: merged_l_def)
    then show False using d(2) lt ir(2) by (auto simp: iv_defs)
  qed
  then show ?thesis using e by (simp add: cend_def)
qed

lemma merged_l_left:
  assumes t: "tiling R S F" and r: "r \<in> R" and b: "(p, n) \<in> S" "inside (p, n) r"
    and f: "(q, m) \<in> F" "q + m = p" "inside (q, m) r"
  shows "merged_l F (p, n) {(q, m)} (q, n + m) r"
proof -
  have pos: "0 < m" "0 < n" using tiling_snd_pos [OF t] f b by force+
  have "cend f' \<noteq> q" if "f' \<in> F" "inside f' r" for f'
    using tiling_coalesced [OF t r that(1) f(1) that(2) f(3)] by simp
  moreover have "inb x (q, n + m) \<longleftrightarrow> inb x (p, n) \<or> inb x (q, m)" for x
    using f(2) by (auto simp: iv_defs)
  moreover have "inside (q, n + m) r" using f b by (auto simp: iv_defs)
  ultimately show ?thesis using f(1) pos unfolding merged_l_def by simp
qed

definition free_index_ok :: "memory_sub_session \<Rightarrow> bool" where
  "free_index_ok ss \<longleftrightarrow> om_inv (ss_free_small_chunks ss) \<and> os_inv (ss_free_small_chunks_inv ss) \<and>
     set (ss_free_small_chunks_inv ss) = prod.swap ` set (ss_free_small_chunks ss)"

definition same_blocks :: "memory_sub_session \<Rightarrow> memory_sub_session \<Rightarrow> bool" where
  "same_blocks ss ss' \<longleftrightarrow> ss_allocs ss' = ss_allocs ss \<and> ss_small_allocs ss' = ss_small_allocs ss \<and>
     ss_allocated_bytes ss' = ss_allocated_bytes ss"

lemma free_index_ok_erase:
  assumes "free_index_ok ss" and "c \<in> set (ss_free_small_chunks ss)"
  shows "free_index_ok (erase_free_entry c ss)"
    and "set (ss_free_small_chunks (erase_free_entry c ss)) = set (ss_free_small_chunks ss) - {c}"
proof -
  obtain q m where c: "c = (q, m)" by (cases c)
  note ix = assms(1) [unfolded free_index_ok_def]
  note E = erase_free_entry_sets [OF conjunct1 [OF ix] assms(2) [unfolded c]
      conjunct1 [OF conjunct2 [OF ix]] conjunct2 [OF conjunct2 [OF ix]] refl]
  show "free_index_ok (erase_free_entry c ss)" unfolding free_index_ok_def c by (intro conjI E)
  show "set (ss_free_small_chunks (erase_free_entry c ss)) = set (ss_free_small_chunks ss) - {c}"
    unfolding c by (rule E)
qed

lemma merge_previous_ok:
  assumes ix: "free_index_ok ss" and t: "tiling R S (set (ss_free_small_chunks ss))"
    and b: "(p, n) \<in> S" and r: "r \<in> R" and i: "inside (p, n) r"
  obtains A c ss' where "merge_previous r (p, n) ss = Inr (c, ss')"
    "merged_l (set (ss_free_small_chunks ss)) (p, n) A c r" "free_index_ok ss'"
    "set (ss_free_small_chunks ss') = set (ss_free_small_chunks ss) - A" "same_blocks ss ss'" "cend c = p + n"
    "fst c = p \<or> (fst c, p - fst c) \<in> set (ss_free_small_chunks ss)"
proof -
  have om: "om_inv (ss_free_small_chunks ss)" using ix by (simp add: free_index_ok_def)
  have n: "0 < n" using tiling_snd_pos [OF t] b by force
  show thesis using om t b r i
  proof (cases rule: merge_previous_cases)
    case none
    have "merged_l (set (ss_free_small_chunks ss)) (p, n) {} (p, n) r"
      using n i none(2) by (simp add: merged_l_def)
    then show thesis by (rule that [OF none(1) _ ix]) (simp_all add: same_blocks_def cend_def)
  next
    case (left q m)
    have sb: "same_blocks ss (erase_free_entry (q, m) ss)" by (simp add: same_blocks_def)
    show thesis
      by (rule that [OF left(4) merged_l_left [OF t r b i left(1-3)] free_index_ok_erase [OF ix left(1)] sb])
        (use left(1,2) in \<open>auto simp: cend_def\<close>)
  qed
qed

lemma add_merge_ok:
  assumes ix: "free_index_ok ss" and t: "tiling R S (set (ss_free_small_chunks ss))"
    and b: "(p, n) \<in> S" and r: "r \<in> R" and i: "inside (p, n) r"
    and ca: "free_small_chunk_alloc p ss = Inr r"
    and end_r: "\<And>f b'. f \<in> set (ss_free_small_chunks ss) \<Longrightarrow> p + n = cend r \<Longrightarrow> b' \<in> S \<Longrightarrow> inside b' r \<Longrightarrow> b' \<noteq> (p, n) \<Longrightarrow>
      fst f \<noteq> cend r"
  obtains A c ss' where "add_merge_remove_free_small_chunk p n ss = Inr (c, ss')"
    "merged (set (ss_free_small_chunks ss)) (p, n) A c r" "free_index_ok ss'"
    "set (ss_free_small_chunks ss') = set (ss_free_small_chunks ss) - A" "same_blocks ss ss'"
proof -
  let ?F = "set (ss_free_small_chunks ss)"
  have home: "inside f r" if "f \<in> ?F" "fst f < cend r" "fst r \<le> fst f" for f
    using tiling_inside_unique [OF t r, of f "fst f"] tiling_snd_pos [OF t, of f] that by (simp add: inb_def cend_def)
  obtain A c ss1 where m1: "merge_previous r (p, n) ss = Inr (c, ss1)" and ml: "merged_l ?F (p, n) A c r"
    and ix1: "free_index_ok ss1" and F1: "set (ss_free_small_chunks ss1) = ?F - A" and sb: "same_blocks ss ss1"
    and ce: "cend c = p + n"
    by (rule merge_previous_ok [OF ix t b r i])
  obtain a k where c: "c = (a, k)" by (cases c)
  have ik: "inside (a, k) r" "0 < k" using ml c by (simp_all add: merged_l_def)
  have whole: "add_merge_remove_free_small_chunk p n ss = merge_next r (a, k) ss1"
  proof (cases "?F = {}")
    case True
    then show ?thesis using ca m1 c by (simp add: add_merge_remove_free_small_chunk_def merge_previous_def merge_next_def
          om_prev_def om_next_def Let_def)
  qed (use ca m1 c in \<open>simp add: add_merge_remove_free_small_chunk_def\<close>)
  have sub: "f \<in> ?F" if "f \<in> set (ss_free_small_chunks ss1)" for f using that F1 by blast
  have om1: "om_inv (ss_free_small_chunks ss1)" using ix1 by (simp add: free_index_ok_def)
  show thesis
  proof (rule merge_next_cases [OF om1 home [OF sub] _ _ ik])
    show "0 < snd f" if "f \<in> set (ss_free_small_chunks ss1)" for f
      using tiling_snd_pos [OF t] sub [OF that] by blast
    show "disj (a, k) f" if "f \<in> set (ss_free_small_chunks ss1)" for f
      using merged_l_far [OF t b ml] that F1 c by blast
    show "proper r" using tiling_proper [OF t] r by blast
    show "fst f \<noteq> cend r" if f: "f \<in> set (ss_free_small_chunks ss1)" "a + k = cend r" "k \<noteq> snd r" for f
    proof -
      have e: "p + n = cend r" "cend c = cend r" "snd c \<noteq> snd r" using f ce c by (simp_all add: cend_def)
      then obtain b' where "b' \<in> S" "inside b' r" "b' \<noteq> (p, n)" using merged_l_whole [OF t b r i ml] by blast
      then show ?thesis using end_r [OF sub [OF f(1)] e(1)] by blast
    qed
  next
    assume N: "merge_next r (a, k) ss1 = Inr ((a, k), ss1)"
      "\<And>f. f \<in> set (ss_free_small_chunks ss1) \<Longrightarrow> inside f r \<Longrightarrow> fst f \<noteq> a + k"
    have "merged ?F (p, n) A c r" using merged_l_stop [OF ml] N(2) F1 c by (simp add: cend_def)
    then show thesis using that [of c ss1 A] whole N(1) ix1 F1 sb c by simp
  next
    fix m assume R: "(a + k, m) \<in> set (ss_free_small_chunks ss1)" "inside (a + k, m) r"
      "merge_next r (a, k) ss1 = Inr ((a, k + m), erase_free_entry (a + k, m) ss1)"
    have mem: "(a + k, m) \<in> ?F - A" using R(1) F1 by blast
    have "same_blocks ss (erase_free_entry (a + k, m) ss1)" using sb by (simp add: same_blocks_def)
    moreover have "?F - A - {(a + k, m)} = ?F - insert (a + k, m) A" by blast
    ultimately show thesis
      using that [OF trans [OF whole R(3)] merged_l_right [OF t r ml [unfolded c] mem R(2)]]
        free_index_ok_erase [OF ix1 R(1)] F1 by simp
  qed
qed

section \<open>Unmapping a region\<close>

lemma remove_alloc_ok:
  assumes om: "om_inv (ss_allocs ss)" and r: "r \<in> set (ss_allocs ss)"
    and bytes: "ss_allocated_bytes ss = sum_list (map snd (ss_allocs ss))" "ss_allocated_bytes ss < u64_max"
  obtains ss' ms' where "remove_alloc self (fst r) (ss, ms) = Inr (ss', ms')"
    "om_inv (ss_allocs ss')" "set (ss_allocs ss') = set (ss_allocs ss) - {r}"
    "ss_allocated_bytes ss' = sum_list (map snd (ss_allocs ss'))"
    "ss_small_allocs ss' = ss_small_allocs ss" "ss_free_small_chunks ss' = ss_free_small_chunks ss"
    "ss_free_small_chunks_inv ss' = ss_free_small_chunks_inv ss"
proof -
  obtain p B where rp: "r = (p, B)" by (cases r)
  have f: "om_find p (ss_allocs ss) = Some B" using r rp om by (simp add: container_simps)
  have er: "set (om_erase p (ss_allocs ss)) = set (ss_allocs ss) - {r}"
    using om_inv_unique [OF om] r rp by (force simp: set_om_erase)
  have sz: "B + sum_list (map snd (om_erase p (ss_allocs ss))) = ss_allocated_bytes ss"
    using sum_om_erase [OF om] r rp bytes(1) by simp
  then have "u64_sub (ss_allocated_bytes ss) B = sum_list (map snd (om_erase p (ss_allocs ss)))"
    using bytes(2) by (simp add: u64_sub_nowrap)
  then show thesis using that f er om rp by (simp add: remove_alloc_def om_inv_erase)
qed

lemma remove_small_alloc_ok:
  assumes "ss_inv ss" and "(p, n) \<in> set (ss_small_allocs ss)"
  shows "remove_small_alloc p ss = Inr (ss\<lparr>ss_small_allocs := os_erase (p, n) (ss_small_allocs ss)\<rparr>)"
  using small_alloc_found [OF assms] by (simp add: remove_small_alloc_def)

section \<open>Releasing a block\<close>

text \<open>
  \<open>at_boundary ss b\<close>: the small block \<open>b\<close> ends where its region ends, and a free chunk starts there, which belongs to a region
  mapped directly behind, and \<open>b\<close> is not the last block of its region. The merge to the right then leaves the region.
\<close>

definition at_boundary :: "memory_sub_session \<Rightarrow> chunk \<Rightarrow> bool" where
  "at_boundary ss b \<longleftrightarrow> b \<in> set (ss_small_allocs ss) \<and>
     (\<exists>r \<in> set (ss_allocs ss). inside b r \<and> cend b = cend r \<and> (\<exists>f \<in> set (ss_free_small_chunks ss). fst f = cend r) \<and>
       (\<exists>b' \<in> set (ss_small_allocs ss). inside b' r \<and> b' \<noteq> b))"

lemma large_release_keep:
  assumes inv: "ss_inv ss" and inv': "ss_inv ss'" and b: "b \<in> set (ss_small_allocs ss)"
    and m: "merged (set (ss_free_small_chunks ss)) b A c r"
    and S': "set (ss_small_allocs ss') = set (ss_small_allocs ss) - {b}"
    and F': "set (ss_free_small_chunks ss') = insert c (set (ss_free_small_chunks ss) - A)"
    and R': "set (ss_allocs ss') = set (ss_allocs ss)"
  shows "ss_large ss' = ss_large ss"
proof (rule ss_large_cong [OF inv inv' R'])
  fix x
  have A: "A \<subseteq> set (ss_free_small_chunks ss)" and c: "inb x c \<longleftrightarrow> (\<exists>d\<in>insert b A. inb x d)"
    using m unfolding merged_def by blast+
  show "(\<exists>b \<in> set (ss_small_allocs ss') \<union> set (ss_free_small_chunks ss'). inb x b) \<longleftrightarrow>
        (\<exists>b \<in> set (ss_small_allocs ss) \<union> set (ss_free_small_chunks ss). inb x b)"
    unfolding S' F' bex_Un bex_simps c using A b by blast
qed

lemma large_release_unmap:
  assumes inv: "ss_inv ss" and b: "b \<in> set (ss_small_allocs ss)" and r: "r \<in> set (ss_allocs ss)"
    and m: "merged (set (ss_free_small_chunks ss)) b A r r"
    and S': "set (ss_small_allocs ss') = set (ss_small_allocs ss) - {b}"
    and F': "set (ss_free_small_chunks ss') = set (ss_free_small_chunks ss) - A"
    and R': "set (ss_allocs ss') = set (ss_allocs ss) - {r}"
  shows "ss_large ss' = ss_large ss"
proof -
  note t = ss_inv_tiling [OF inv]
  have in_r: "\<not> inside d r'" if "d \<in> insert b A" "r' \<in> set (ss_allocs ss)" "r' \<noteq> r" for d r'
  proof
    assume i: "inside d r'"
    have "d \<in> set (ss_small_allocs ss) \<union> set (ss_free_small_chunks ss)"
      using that(1) b m unfolding merged_def by blast
    then have "inb (fst d) d" using inb_fst tiling_snd_pos [OF t, of d] by blast
    moreover have "inb (fst d) r" using calculation m that(1) unfolding merged_def by blast
    ultimately show False using tiling_region_of_byte [OF t that(2) r] inside_inb [OF i] that(3) by blast
  qed
  have "inside b r" using m tiling_inside_unique [OF t r, of b "fst b"] b inb_fst tiling_snd_pos [OF t, of b]
    unfolding merged_def by blast
  then have "r \<notin> ss_large ss" using b unfolding ss_large_def by blast
  then show ?thesis unfolding ss_large_def S' F' R' using in_r by blast
qed

lemma small_not_large: "b \<in> set (ss_small_allocs ss) \<Longrightarrow> b \<notin> ss_large ss"
  unfolding ss_large_def by (auto simp: inside_def)

lemma region_gone_disjoint:
  assumes inv': "ss_inv ss'" and far: "\<And>r'. r' \<in> set (ss_allocs ss') \<Longrightarrow> disj r r'" and b: "b \<in> ss_live ss'"
  shows "disj r b"
proof -
  obtain r' where r': "r' \<in> set (ss_allocs ss')" "inside b r'"
  proof (cases "b \<in> ss_large ss'")
    case True
    then show ?thesis using that [of b] by (simp add: ss_large_def inside_def)
  next
    case False
    then show ?thesis using that tiling_inside [OF ss_inv_tiling [OF inv'], of b] b by (auto simp: ss_live_def)
  qed
  then show ?thesis using far [OF r'(1)] by (auto simp: iv_defs)
qed

text \<open>The outcome a client can rely on when it gives back the block \<open>b\<close>.\<close>

definition released :: "memory_sub_session \<Rightarrow> chunk \<Rightarrow> chunk option \<Rightarrow> memory_sub_session \<Rightarrow> bool" where
  "released ss b unmapped ss' \<longleftrightarrow> ss_inv ss' \<and> ss_live ss' = ss_live ss - {b} \<and> set (ss_small_allocs ss') \<subseteq> set (ss_small_allocs ss) \<and>
     (\<forall>r. unmapped = Some r \<longrightarrow>
        r \<in> set (ss_allocs ss) \<and> set (ss_allocs ss') = set (ss_allocs ss) - {r} \<and> (\<forall>b'\<in>ss_live ss'. disj r b')) \<and>
     (unmapped = None \<longrightarrow> set (ss_allocs ss') = set (ss_allocs ss))"

lemma released_unmap:
  assumes inv: "ss_inv ss" and inv': "ss_inv ss'" and r: "r \<in> set (ss_allocs ss)"
    and R': "set (ss_allocs ss') = set (ss_allocs ss) - {r}" and L: "ss_live ss' = ss_live ss - {b}"
    and S': "set (ss_small_allocs ss') \<subseteq> set (ss_small_allocs ss)"
  shows "released ss b (Some r) ss'"
proof -
  have "disj r r'" if "r' \<in> set (ss_allocs ss')" for r'
    using tiling_regions [OF ss_inv_tiling [OF inv] r, of r'] that R' by blast
  then show ?thesis using region_gone_disjoint [OF inv'] r R' L S' inv' by (simp add: released_def)
qed

lemma release_keep_ok:
  assumes inv: "ss_inv ss" and b: "b \<in> set (ss_small_allocs ss)" and r: "r \<in> set (ss_allocs ss)"
    and m: "merged (set (ss_free_small_chunks ss)) b A c r" and ne: "c \<noteq> r"
    and ix: "free_index_ok ss2" and F2: "set (ss_free_small_chunks ss2) = set (ss_free_small_chunks ss) - A"
    and S2: "os_inv (ss_small_allocs ss2)" "set (ss_small_allocs ss2) = set (ss_small_allocs ss) - {b}"
    and R2: "ss_allocs ss2 = ss_allocs ss" "ss_allocated_bytes ss2 = ss_allocated_bytes ss"
  shows "released ss b None (add_free_small_chunk (fst c) (snd c) ss2)" (is "released ss b None ?ss'")
proof -
  note t = ss_inv_tiling [OF inv]
  have key: "fst c \<notin> fst ` set (ss_free_small_chunks ss2)"
  proof
    assume "fst c \<in> fst ` set (ss_free_small_chunks ss2)"
    then obtain d where d: "d \<in> set (ss_free_small_chunks ss) - A" "fst d = fst c" using F2 by auto
    then have "disj c d" using merged_far [OF t b m] by blast
    moreover have "0 < snd d" "0 < snd c" using tiling_snd_pos [OF t, of d] d m by (auto simp: merged_def)
    ultimately show False using d(2) by (simp add: iv_defs)
  qed
  note ix' = ix [unfolded free_index_ok_def]
  note fs = add_free_small_chunk_sets [OF conjunct1 [OF ix'] key conjunct1 [OF conjunct2 [OF ix']]
      conjunct2 [OF conjunct2 [OF ix']] refl, of "snd c"]
  have F': "set (ss_free_small_chunks ?ss') = insert c (set (ss_free_small_chunks ss) - A)" using fs(3) F2 by simp
  have "ss_inv ?ss'"
    unfolding ss_inv_def F' using fs(1,2,4) S2 R2 F' inv tiling_release_keep [OF t b r m ne]
    by (simp add: ss_inv_allocs ss_inv_bytes)
  moreover have "ss_large ?ss' = ss_large ss"
    using large_release_keep [OF inv calculation b m _ F'] S2 R2 by simp
  ultimately show ?thesis
    using S2 R2 small_not_large [OF b] by (auto simp: released_def ss_live_def)
qed

lemma deallocate_small_ok:
  assumes inv: "ss_inv ss" and b: "(p, n) \<in> set (ss_small_allocs ss)"
    and e: "\<not> at_boundary ss (p, n)"
  obtains u ss' ms' where "ss_deallocate self p n (ss, ms) = Inr (u, ss', ms')" "released ss (p, n) u ss'"
proof -
  note t = ss_inv_tiling [OF inv]
  define ss1 where "ss1 = ss\<lparr>ss_small_allocs := os_erase (p, n) (ss_small_allocs ss)\<rparr>"
  have small: "is_small_alloc p ss" using is_small_alloc_iff [OF inv] b by force
  have rm: "remove_small_alloc p ss = Inr ss1" using remove_small_alloc_ok [OF inv b] by (simp add: ss1_def)
  obtain r where r: "r \<in> set (ss_allocs ss)" "inside (p, n) r" using tiling_inside [OF t, of "(p, n)"] b by blast
  have "inb p r" using r(2) tiling_snd_pos [OF t, of "(p, n)"] b by (auto simp: iv_defs)
  then have ca: "free_small_chunk_alloc p ss1 = Inr r"
    using region_found [OF ss_inv_allocs [OF inv] t r(1)] by (simp add: free_small_chunk_alloc_def ss1_def)
  have ix: "free_index_ok ss1" using inv by (simp add: free_index_ok_def ss1_def ss_inv_def)
  have F1: "ss_free_small_chunks ss1 = ss_free_small_chunks ss" by (simp add: ss1_def)
  obtain A c ss2 where am: "add_merge_remove_free_small_chunk p n ss1 = Inr (c, ss2)"
    and m: "merged (set (ss_free_small_chunks ss)) (p, n) A c r" and ix2: "free_index_ok ss2"
    and F2: "set (ss_free_small_chunks ss2) = set (ss_free_small_chunks ss) - A" and sb: "same_blocks ss1 ss2"
    by (rule add_merge_ok [OF ix t [folded F1] b r ca, unfolded F1]) (use e r b in \<open>auto simp: at_boundary_def cend_def\<close>)
  have S2: "os_inv (ss_small_allocs ss2)" "set (ss_small_allocs ss2) = set (ss_small_allocs ss) - {(p, n)}"
    and R2: "ss_allocs ss2 = ss_allocs ss" "ss_allocated_bytes ss2 = ss_allocated_bytes ss"
    using sb ss_inv_small [OF inv] by (simp_all add: same_blocks_def ss1_def os_inv_erase set_os_erase)
  show thesis
  proof (cases "snd r = snd c")
    case False
    then have "ss_deallocate self p n (ss, ms) = Inr (None, add_free_small_chunk (fst c) (snd c) ss2, ms)"
      using small rm ca am by (simp add: ss_deallocate_def)
    then show thesis
      by (rule that [OF _ release_keep_ok [OF inv b r(1) m _ ix2 F2 S2 R2]]) (use False in blast)
  next
    case True
    then have cr: "c = r" using m inside_eq [of c r] by (simp add: merged_def)
    obtain ss' ms' where ra: "remove_alloc self (fst r) (ss2, ms) = Inr (ss', ms')"
      and om': "om_inv (ss_allocs ss')" and R': "set (ss_allocs ss') = set (ss_allocs ss2) - {r}"
      and by': "ss_allocated_bytes ss' = sum_list (map snd (ss_allocs ss'))"
      and S': "ss_small_allocs ss' = ss_small_allocs ss2" and F': "ss_free_small_chunks ss' = ss_free_small_chunks ss2"
      and I': "ss_free_small_chunks_inv ss' = ss_free_small_chunks_inv ss2"
      by (rule remove_alloc_ok [of ss2 r self ms])
        (use R2 r inv ss_inv_bytes_bound [OF inv] in \<open>simp_all add: ss_inv_allocs ss_inv_bytes\<close>)
    have "ss_inv ss'"
      unfolding ss_inv_def using om' R' by' S' F' I' S2 R2 F2 ix2 tiling_release_unmap [OF t b r(1) m [unfolded cr]]
      by (simp add: free_index_ok_def)
    moreover have "ss_large ss' = ss_large ss"
      by (rule large_release_unmap [OF inv b r(1) m [unfolded cr]]) (simp_all add: S' F' R' S2 F2 R2)
    ultimately have "released ss (p, n) (Some r) ss'"
      using released_unmap [OF inv _ r(1), of ss'] R' R2 S' S2 small_not_large [OF b] by (auto simp: ss_live_def)
    moreover have "ss_deallocate self p n (ss, ms) = Inr (Some r, ss', ms')"
      using small rm ca am ra True by (simp add: ss_deallocate_def)
    ultimately show thesis using that by blast
  qed
qed

text \<open>The size given for a large block is only handed to \<open>munmap\<close>.\<close>

lemma deallocate_large_ok:
  assumes inv: "ss_inv ss" and b: "(p, n) \<in> ss_large ss"
  obtains ss' ms' where "ss_deallocate self p k (ss, ms) = Inr (Some (p, k), ss', ms')"
    "released ss (p, n) (Some (p, n)) ss'"
proof -
  note t = ss_inv_tiling [OF inv]
  have r: "(p, n) \<in> set (ss_allocs ss)" and hold: "\<And>d. d \<in> set (ss_small_allocs ss) \<union> set (ss_free_small_chunks ss) \<Longrightarrow> \<not> inside d (p, n)"
    using b unfolding ss_large_def by blast+
  have "inb p (p, n)" using tiling_snd_pos [OF t, of "(p, n)"] r by (simp add: iv_defs)
  have "\<not> is_small_alloc p ss"
  proof
    assume "is_small_alloc p ss"
    then obtain m where m: "(p, m) \<in> set (ss_small_allocs ss)" using is_small_alloc_iff [OF inv] by force
    then have "inb p (p, m)" using tiling_snd_pos [OF t, of "(p, m)"] by (simp add: iv_defs)
    then have "inside (p, m) (p, n)" using tiling_inside_unique [OF t r] m \<open>inb p (p, n)\<close> by blast
    then show False using hold m by blast
  qed
  moreover obtain ss' ms' where ra: "remove_alloc self (fst (p, n)) (ss, ms) = Inr (ss', ms')"
      and om': "om_inv (ss_allocs ss')" and R': "set (ss_allocs ss') = set (ss_allocs ss) - {(p, n)}"
      and by': "ss_allocated_bytes ss' = sum_list (map snd (ss_allocs ss'))"
      and S': "ss_small_allocs ss' = ss_small_allocs ss" and F': "ss_free_small_chunks ss' = ss_free_small_chunks ss"
      and I': "ss_free_small_chunks_inv ss' = ss_free_small_chunks_inv ss"
    by (rule remove_alloc_ok [OF ss_inv_allocs [OF inv] r ss_inv_bytes [OF inv] ss_inv_bytes_bound [OF inv]])
  ultimately have d: "ss_deallocate self p k (ss, ms) = Inr (Some (p, k), ss', ms')" by (simp add: ss_deallocate_def)
  have inv': "ss_inv ss'"
    unfolding ss_inv_def using om' R' by' S' F' I' inv tiling_remove_region [OF t hold] by (simp add: ss_inv_def)
  have "(p, n) \<notin> set (ss_small_allocs ss)" using hold [of "(p, n)"] by (auto simp: inside_def)
  then have "ss_live ss' = ss_live ss - {(p, n)}" using R' S' F' by (auto simp: ss_live_def ss_large_def)
  then show thesis using that d released_unmap [OF inv inv' r R'] S' by simp
qed

section \<open>A release at the boundary\<close>

text \<open>
  The merge to the right when the block is at the boundary: it takes the free chunk of the next region, unless the first
  merge has already made the whole region free.
\<close>

lemma boundary_merge:
  assumes ix: "free_index_ok ss" and t: "tiling R S (set (ss_free_small_chunks ss))"
    and b: "(p, n) \<in> S" and r: "r \<in> R" and i: "inside (p, n) r" and e: "p + n = cend r"
    and ca: "free_small_chunk_alloc p ss = Inr r" and f: "(cend r, m) \<in> set (ss_free_small_chunks ss)"
    and b': "b' \<in> S" "b' \<noteq> (p, n)" "inside b' r"
  obtains a A ss' where "a = p \<or> (a, p - a) \<in> set (ss_free_small_chunks ss)" "fst r \<le> a" "a \<le> p" "cend r - a \<noteq> snd r"
    "add_merge_remove_free_small_chunk p n ss = Inr ((a, cend r - a + m), ss')" "free_index_ok ss'"
    "set (ss_free_small_chunks ss') = set (ss_free_small_chunks ss) - A" "same_blocks ss ss'"
    "\<And>d. d \<in> set (ss_free_small_chunks ss') \<Longrightarrow> fst d \<noteq> a"
proof -
  let ?F = "set (ss_free_small_chunks ss)"
  obtain A c ss1 where m1: "merge_previous r (p, n) ss = Inr (c, ss1)" and ml: "merged_l ?F (p, n) A c r"
    and ix1: "free_index_ok ss1" and F1: "set (ss_free_small_chunks ss1) = ?F - A" and sb: "same_blocks ss ss1"
    and ce: "cend c = p + n" and fc: "fst c = p \<or> (fst c, p - fst c) \<in> ?F"
    by (rule merge_previous_ok [OF ix t b r i])
  obtain a k where c: "c = (a, k)" by (cases c)
  have k: "inside (a, k) r" "0 < k" "a + k = cend r" using ml ce e c by (auto simp: merged_l_def cend_def)
  have n: "0 < n" "0 < snd b'" "0 < m"
    using tiling_snd_pos [OF t, of "(p, n)"] tiling_snd_pos [OF t, of b'] tiling_snd_pos [OF t, of "(cend r, m)"] b b'(1) f by simp_all
  have bytes: "inb x (a, k) \<longleftrightarrow> (\<exists>d \<in> insert (p, n) A. inb x d)" for x using ml c by (simp add: merged_l_def)
  have "inb p (a, k)" using bytes [of p] n by (force simp: iv_defs)
  then have ap: "a \<le> p" by (simp add: iv_defs)
  have whole: "k \<noteq> snd r"
  proof
    assume "k = snd r"
    then have "inb (fst b') (a, k)" using b'(3) n k by (auto simp: iv_defs)
    then obtain d where "d \<in> insert (p, n) A" "inb (fst b') d" using bytes by blast
    moreover have "A \<subseteq> ?F" using ml by (simp add: merged_l_def)
    ultimately have "d = b'" "d \<in> insert (p, n) ?F"
      using tiling_block_of_byte [OF t, of d b' "fst b'"] b b' n by (auto simp: iv_defs)
    then show False using b' tiling_SF [OF t] by blast
  qed
  have fA: "(cend r, m) \<in> ?F - A"
  proof -
    have "\<not> inb (cend r) (a, k)" using k by (simp add: iv_defs)
    moreover have "inb (cend r) (cend r, m)" using n by (simp add: iv_defs)
    ultimately have "(cend r, m) \<notin> A" using bytes [of "cend r"] by blast
    then show ?thesis using f by blast
  qed
  have om1: "om_inv (ss_free_small_chunks ss1)" using ix1 by (simp add: free_index_ok_def)
  have far: "disj (a, k) d" if "d \<in> ?F - A" for d using merged_l_far [OF t b ml that] c by simp
  have beyond: "cend r \<le> fst d" if "d \<in> ?F - A" "a < fst d" for d
    using far [OF that(1)] that k tiling_snd_pos [OF t, of d] by (auto simp: iv_defs)
  have "om_next a (ss_free_small_chunks ss1) = Some (cend r, m)"
    using fA beyond k by (simp add: om_next_Some [OF om1] F1)
  moreover have "k + m < u64_max" using tiling_proper [OF t, of "(cend r, m)"] f k(3) by (simp add: proper_def cend_def)
  ultimately have "merge_next r (a, k) ss1 = Inr ((a, cend r - a + m), erase_free_entry (cend r, m) ss1)"
    using whole k by (auto simp: merge_next_def Let_def u64_add_nowrap)
  then have am: "add_merge_remove_free_small_chunk p n ss = Inr ((a, cend r - a + m), erase_free_entry (cend r, m) ss1)"
    using ca m1 c f by (auto simp: add_merge_remove_free_small_chunk_def)
  have mem: "(cend r, m) \<in> set (ss_free_small_chunks ss1)" using fA F1 by simp
  have F2: "set (ss_free_small_chunks (erase_free_entry (cend r, m) ss1)) = ?F - insert (cend r, m) A"
    using free_index_ok_erase(2) [OF ix1 mem] F1 by blast
  show thesis
  proof (rule that [OF _ _ ap _ am free_index_ok_erase(1) [OF ix1 mem] F2])
    show "a = p \<or> (a, p - a) \<in> ?F" using fc c by simp
    show "fst r \<le> a" "cend r - a \<noteq> snd r" using k whole by (auto simp: iv_defs)
    show "same_blocks ss (erase_free_entry (cend r, m) ss1)" using sb by (simp add: same_blocks_def)
    show "fst d \<noteq> a" if "d \<in> set (ss_free_small_chunks (erase_free_entry (cend r, m) ss1))" for d
    proof -
      have d: "d \<in> ?F - A" using that F2 by blast
      then have "0 < snd d" using tiling_snd_pos [OF t, of d] by blast
      then show ?thesis using far [OF d] k(2) by (auto simp: iv_defs)
    qed
  qed
qed

text \<open>A block or chunk that reaches out of every region, or into none, contradicts the invariant.\<close>

lemma region_lost:
  assumes "ss_inv ss" and "b \<in> set (ss_small_allocs ss)" and "inside b r" and "r \<notin> set (ss_allocs ss)"
    and "\<And>r'. r' \<in> set (ss_allocs ss) \<Longrightarrow> disj r r'"
  shows False
proof -
  note t = ss_inv_tiling [OF assms(1)]
  obtain r' where "r' \<in> set (ss_allocs ss)" "inside b r'" using tiling_inside [OF t, of b] assms(2) by blast
  then show False using assms(3) assms(5) [of r'] tiling_snd_pos [OF t, of b] assms(2) by (auto simp: iv_defs)
qed

lemma deallocate_boundary:
  assumes inv: "ss_inv ss" and b: "(p, n) \<in> set (ss_small_allocs ss)" and r: "r \<in> set (ss_allocs ss)" "inside (p, n) r"
    and e: "p + n = cend r" and f: "(cend r, m) \<in> set (ss_free_small_chunks ss)"
    and b': "b' \<in> set (ss_small_allocs ss)" "b' \<noteq> (p, n)" "inside b' r"
  shows "\<exists>a u ss' ms'. (a = p \<or> (a, p - a) \<in> set (ss_free_small_chunks ss)) \<and>
    ss_deallocate self p n (ss, ms) = Inr (u, ss', ms') \<and> b' \<in> ss_live ss' \<and> \<not> ss_inv ss' \<and>
    (if cend r - a + m = snd r then u = Some r \<and> r \<notin> set (ss_allocs ss') \<and> \<not> disj r b'
     else u = None \<and> (a, cend r - a + m) \<in> set (ss_free_small_chunks ss') \<and> (\<forall>r' \<in> set (ss_allocs ss'). \<not> inside (a, cend r - a + m) r'))"
proof -
  note t = ss_inv_tiling [OF inv]
  define ss1 where "ss1 = ss\<lparr>ss_small_allocs := os_erase (p, n) (ss_small_allocs ss)\<rparr>"
  have small: "is_small_alloc p ss" using is_small_alloc_iff [OF inv] b by force
  have rm: "remove_small_alloc p ss = Inr ss1" using remove_small_alloc_ok [OF inv b] by (simp add: ss1_def)
  have n: "0 < n" "0 < m" "0 < snd b'"
    using tiling_snd_pos [OF t, of "(p, n)"] tiling_snd_pos [OF t, of b'] tiling_snd_pos [OF t, of "(cend r, m)"] b b'(1) f by simp_all
  then have "inb p r" using r(2) by (auto simp: iv_defs)
  then have ca: "free_small_chunk_alloc p ss1 = Inr r"
    using region_found [OF ss_inv_allocs [OF inv] t r(1)] by (simp add: free_small_chunk_alloc_def ss1_def)
  have ix: "free_index_ok ss1" using inv by (simp add: free_index_ok_def ss1_def ss_inv_def)
  have F1: "ss_free_small_chunks ss1 = ss_free_small_chunks ss" by (simp add: ss1_def)
  obtain a A ss2 where a: "a = p \<or> (a, p - a) \<in> set (ss_free_small_chunks ss)" "fst r \<le> a" "a \<le> p"
    and am: "add_merge_remove_free_small_chunk p n ss1 = Inr ((a, cend r - a + m), ss2)"
    and ix2: "free_index_ok ss2" and sb: "same_blocks ss1 ss2" and key: "\<And>d. d \<in> set (ss_free_small_chunks ss2) \<Longrightarrow> fst d \<noteq> a"
    by (rule boundary_merge [OF ix t [folded F1] b r(1,2) e ca _ b', unfolded F1]) (use f in auto)
  have S2: "set (ss_small_allocs ss2) = set (ss_small_allocs ss) - {(p, n)}"
    and R2: "ss_allocs ss2 = ss_allocs ss" "ss_allocated_bytes ss2 = ss_allocated_bytes ss"
    using sb by (simp_all add: same_blocks_def ss1_def set_os_erase)
  show ?thesis
  proof (cases "cend r - a + m = snd r")
    case True
    obtain ss' ms' where ra: "remove_alloc self (fst r) (ss2, ms) = Inr (ss', ms')"
      and R': "set (ss_allocs ss') = set (ss_allocs ss) - {r}" and S': "ss_small_allocs ss' = ss_small_allocs ss2"
      by (rule remove_alloc_ok [of ss2 r self ms])
        (use R2 r inv ss_inv_bytes_bound [OF inv] in \<open>simp_all add: ss_inv_allocs ss_inv_bytes\<close>)
    have d: "ss_deallocate self p n (ss, ms) = Inr (Some r, ss', ms')" using small rm ca am ra True by (simp add: ss_deallocate_def)
    have m': "b' \<in> set (ss_small_allocs ss')" using b' S' S2 by simp
    have "disj r r'" if "r' \<in> set (ss_allocs ss')" for r' using tiling_regions [OF t r(1), of r'] that R' by blast
    then have "\<not> ss_inv ss'" using region_lost [OF _ m' b'(3)] R' by blast
    moreover have "\<not> disj r b'" using b'(3) n by (auto simp: iv_defs)
    ultimately show ?thesis using d m' R' a True by (intro exI [of _ a] exI [of _ "Some r"] exI [of _ ss'] exI [of _ ms']) (auto simp: ss_live_def)
  next
    case False
    let ?ss' = "add_free_small_chunk a (cend r - a + m) ss2"
    have d: "ss_deallocate self p n (ss, ms) = Inr (None, ?ss', ms)" using small rm ca am False by (simp add: ss_deallocate_def)
    have ix2': "om_inv (ss_free_small_chunks ss2)" "os_inv (ss_free_small_chunks_inv ss2)"
      "set (ss_free_small_chunks_inv ss2) = prod.swap ` set (ss_free_small_chunks ss2)" using ix2 by (simp_all add: free_index_ok_def)
    have "a \<notin> fst ` set (ss_free_small_chunks ss2)" using key by force
    from add_free_small_chunk_sets(3) [OF ix2'(1) this ix2'(2,3) refl]
    have fr: "(a, cend r - a + m) \<in> set (ss_free_small_chunks ?ss')" by simp
    have "inb a r" using a r(2) n by (auto simp: iv_defs)
    have out: "\<not> inside (a, cend r - a + m) r'" if r': "r' \<in> set (ss_allocs ?ss')" for r'
    proof
      assume i: "inside (a, cend r - a + m) r'"
      then have "inb a r'" using n by (auto simp: iv_defs)
      then have "r' = r" using tiling_region_of_byte [OF t _ r(1) _ \<open>inb a r\<close>] r' R2 by simp
      then show False using i n a e by (auto simp: iv_defs)
    qed
    have "b' \<in> ss_live ?ss'" using b' S2 by (simp add: ss_live_def)
    moreover have "\<not> ss_inv ?ss'" using tiling_inside [OF ss_inv_tiling, of ?ss' "(a, cend r - a + m)"] fr out by blast
    ultimately show ?thesis using d a fr out False
      by (intro exI [of _ a] exI [of _ None] exI [of _ ?ss'] exI [of _ ms]) (auto simp: ss_live_def)
  qed
qed

end
