(* ===== verification/Sub_Session_Spec.thy ===== *)
theory Sub_Session_Spec
  imports Sub_Session_Release Simulation
begin

text \<open>
  The contract of a sub-session, as its clients (\<open>allocator.h\<close>) see it: a set of live blocks
  that grows by one disjoint block per allocation and shrinks by one per release. \<open>ss_step\<close>
  runs the code under an \<open>mmap\<close> that returns fresh regions, with the sizes the clients give; it refines the contract up to
  the first release at the boundary of two regions, which breaks the invariant.
\<close>

section \<open>The abstract heap\<close>

datatype heap_op = Alloc addr nat | Free addr nat | Alloc_failed

inductive heap_step :: "chunk set \<Rightarrow> heap_op \<Rightarrow> chunk set \<Rightarrow> bool" where
  heap_alloc: "(\<And>b. b \<in> H \<Longrightarrow> disj (p, n) b) \<Longrightarrow> 0 < n \<Longrightarrow> heap_step H (Alloc p n) (insert (p, n) H)"
| heap_free: "(p, n) \<in> H \<Longrightarrow> heap_step H (Free p n) (H - {(p, n)})"
| heap_failed: "heap_step H Alloc_failed H"

inductive_simps heap_step_Free: "heap_step H (Free p n) H'"

section \<open>Steps of the code\<close>


text \<open>
  The invariant of a sub-session of a given configuration: small blocks have small sizes and regions consist of pages, so that
  the size a client gives when it releases a block, which is not rounded, determines the block.
\<close>

definition mm_pages_ok :: "memory_manager \<Rightarrow> bool" where
  "mm_pages_ok mm \<longleftrightarrow> mm_config_ok mm \<and> get_page_size mm dvd get_single_small_alloc_bytes mm"

definition ss_ok :: "memory_manager \<Rightarrow> memory_sub_session \<Rightarrow> bool" where
  "ss_ok mm ss \<longleftrightarrow> ss_inv ss \<and> (\<forall>b \<in> set (ss_small_allocs ss). snd b \<le> get_max_small_alloc_bytes mm) \<and>
     (\<forall>r \<in> set (ss_allocs ss). get_page_size mm dvd snd r)"

text \<open>\<open>munmap\<close> gives back every page that its range touches; regions start at a page.\<close>

definition munmapped :: "memory_manager \<Rightarrow> chunk \<Rightarrow> chunk" where
  "munmapped mm c = (fst c, (snd c + get_page_size mm - 1) div get_page_size mm * get_page_size mm)"

lemma munmapped_pages: "0 < get_page_size mm \<Longrightarrow> get_page_size mm dvd snd c \<Longrightarrow> munmapped mm c = c"
proof -
  assume P: "0 < get_page_size mm" and "get_page_size mm dvd snd c"
  then obtain k where k: "snd c = k * get_page_size mm" by (auto simp: dvd_def mult.commute)
  have "(get_page_size mm - 1 + k * get_page_size mm) div get_page_size mm = k + (get_page_size mm - 1) div get_page_size mm"
    using P by (intro div_mult_self1) simp
  moreover have "snd c + get_page_size mm - 1 = get_page_size mm - 1 + k * get_page_size mm" using P k by simp
  ultimately show ?thesis using P k by (cases c) (simp add: munmapped_def)
qed

lemma set_om_insert_subset: "set (om_insert k v m) \<subseteq> insert (k, v) (set m)"
  by (induction k v m rule: om_insert.induct) auto

lemma remove_free_small_chunk_fields [simp]:
  "ss_allocs (remove_free_small_chunk q ss) = ss_allocs ss"
  "ss_small_allocs (remove_free_small_chunk q ss) = ss_small_allocs ss"
  "ss_allocated_bytes (remove_free_small_chunk q ss) = ss_allocated_bytes ss"
  by (simp_all add: remove_free_small_chunk_def)

lemma ss_allocate_shape:
  assumes "ss_allocate mm mmap self n (ss, ms) = Inr (p, ss', ms')" and "mm_config_ok mm" and "n + get_page_size mm < u64_max"
  shows "set (ss_small_allocs ss') \<subseteq> set (ss_small_allocs ss) \<union> {b. snd b \<le> get_max_small_alloc_bytes mm}"
    and "set (ss_allocs ss') \<subseteq> insert (p, region_bytes mm n) (set (ss_allocs ss))"
proof -
  show "set (ss_small_allocs ss') \<subseteq> set (ss_small_allocs ss) \<union> {b. snd b \<le> get_max_small_alloc_bytes mm}"
    using assms(1) by (auto simp: ss_allocate_def add_alloc_def Let_def split: if_splits option.splits prod.splits)
  show "set (ss_allocs ss') \<subseteq> insert (p, region_bytes mm n) (set (ss_allocs ss))"
  proof (cases "n > get_max_small_alloc_bytes mm")
    case True
    then show ?thesis
      using assms(1) ss_allocate_large [OF assms(2,3) True, of mmap self "(ss, ms)"] set_om_insert_subset [of p "alloc_size mm n" "ss_allocs ss"]
      by (simp add: add_alloc_def region_bytes_def split: option.splits) (erule conjE, drule sym, simp)
  next
    case False
    then show ?thesis
      using assms(1) set_om_insert_subset [of p "get_single_small_alloc_bytes mm" "ss_allocs ss"]
      by (auto simp: ss_allocate_def add_alloc_def Let_def region_bytes_def split: if_splits option.splits)
  qed
qed

lemma page_dvd_region: "mm_pages_ok mm \<Longrightarrow> get_page_size mm dvd region_bytes mm n"
  by (simp add: mm_pages_ok_def region_bytes_def alloc_size_def)

lemma allocate_spec:
  assumes ok: "ss_ok mm ss" and cfg: "mm_pages_ok mm" and n: "0 < n" "n + get_page_size mm < u64_max"
    and fresh: "\<And>p. mmap (region_bytes mm n) = Some p \<Longrightarrow> fresh_region ss (p, region_bytes mm n)"
    and a: "ss_allocate mm mmap self n (ss, ms) = Inr (p, ss', ms')"
  shows "ss_ok mm ss' \<and> ss_live ss' = insert (p, alloc_size mm n) (ss_live ss) \<and>
    (\<forall>b \<in> ss_live ss. disj (p, alloc_size mm n) b)"
proof -
  have inv: "ss_inv ss" and c: "mm_config_ok mm" using ok cfg by (simp_all add: ss_ok_def mm_pages_ok_def)
  have live: "ss_inv ss' \<and> ss_live ss' = insert (p, alloc_size mm n) (ss_live ss) \<and> (p, alloc_size mm n) \<notin> ss_live ss"
    by (rule ss_allocate_cases [where mmap = mmap and self = self and ms = ms, OF inv c n]) (use a fresh in auto)
  have "disj (p, alloc_size mm n) b" if "b \<in> ss_live ss" for b
    using ss_live_disjoint [of ss' "(p, alloc_size mm n)" b] live that by blast
  moreover have "ss_ok mm ss'"
    using live ss_allocate_shape [OF a c n(2)] page_dvd_region [OF cfg, of n] ok unfolding ss_ok_def by fastforce
  ultimately show ?thesis using live by blast
qed

text \<open>What a release does when the block is not at a boundary, with the size the client gives.\<close>

definition freed :: "memory_manager \<Rightarrow> memory_sub_session \<Rightarrow> chunk \<Rightarrow> chunk option \<Rightarrow> memory_sub_session \<Rightarrow> bool" where
  "freed mm ss b u ss' \<longleftrightarrow> ss_ok mm ss' \<and> ss_live ss' = ss_live ss - {b} \<and>
     (\<forall>c. u = Some c \<longrightarrow> munmapped mm c \<in> set (ss_allocs ss) \<and> set (ss_allocs ss') = set (ss_allocs ss) - {munmapped mm c} \<and>
        (\<forall>b' \<in> ss_live ss'. disj (munmapped mm c) b')) \<and>
     (u = None \<longrightarrow> set (ss_allocs ss') = set (ss_allocs ss))"

lemma released_ok: "ss_ok mm ss \<Longrightarrow> released ss b u ss' \<Longrightarrow> ss_ok mm ss'"
  unfolding ss_ok_def released_def by (cases u) auto

lemma released_freed:
  assumes ok: "ss_ok mm ss" and r: "released ss b u ss'" and u': "map_option (munmapped mm) u' = u"
  shows "freed mm ss b u' ss'"
proof (cases u')
  case None
  then show ?thesis using released_ok [OF ok r] r u' by (simp add: freed_def released_def)
next
  case (Some c)
  then have "released ss b (Some (munmapped mm c)) ss'" using r u' by simp
  then show ?thesis using released_ok [OF ok r] Some unfolding freed_def released_def by blast
qed

lemma deallocate_spec:
  assumes ok: "ss_ok mm ss" and cfg: "mm_pages_ok mm" and b: "(p, alloc_size mm n) \<in> ss_live ss"
    and e: "\<not> at_boundary ss (p, alloc_size mm n)"
  obtains u ss' ms' where "ss_deallocate self p n (ss, ms) = Inr (u, ss', ms')" "freed mm ss (p, alloc_size mm n) u ss'"
proof -
  have inv: "ss_inv ss" and c: "mm_config_ok mm" and pg: "0 < get_page_size mm" using ok cfg by (simp_all add: ss_ok_def mm_pages_ok_def mm_config_ok_def)
  have pages: "munmapped mm r = r" if "r \<in> set (ss_allocs ss)" for r using munmapped_pages [OF pg, of r] ok that by (simp add: ss_ok_def)
  show thesis
  proof (cases "(p, alloc_size mm n) \<in> set (ss_small_allocs ss)")
    case True
    then have "alloc_size mm n \<le> get_max_small_alloc_bytes mm" using ok by (auto simp: ss_ok_def)
    then have "n \<le> get_max_small_alloc_bytes mm" using alloc_size_ge [OF c, of n] by linarith
    then have n: "alloc_size mm n = n" by (simp add: alloc_size_def)
    obtain u ss' ms' where d: "ss_deallocate self p n (ss, ms) = Inr (u, ss', ms')" "released ss (p, n) u ss'"
      by (rule deallocate_small_ok [OF inv True [unfolded n] e [unfolded n]])
    have "munmapped mm r = r" if "u = Some r" for r using d(2) that pages by (auto simp: released_def)
    then have "map_option (munmapped mm) u = u" by (cases u) simp_all
    then have "freed mm ss (p, n) u ss'" by (rule released_freed [OF ok d(2)])
    then show thesis using that d(1) n by simp
  next
    case False
    then have L: "(p, alloc_size mm n) \<in> ss_large ss" using b by (simp add: ss_live_def)
    obtain ss' ms' where d: "ss_deallocate self p n (ss, ms) = Inr (Some (p, n), ss', ms')"
      "released ss (p, alloc_size mm n) (Some (p, alloc_size mm n)) ss'"
      by (rule deallocate_large_ok [OF inv L, where k = n])
    have "munmapped mm (p, n) = (p, alloc_size mm n)"
      using pages [of "(p, alloc_size mm n)"] L by (auto simp: alloc_size_def munmapped_def ss_large_def split: if_splits)
    then have "freed mm ss (p, alloc_size mm n) (Some (p, n)) ss'" by (intro released_freed [OF ok d(2)]) simp
    then show thesis using that d(1) by blast
  qed
qed

section \<open>Histories up to a boundary\<close>






section \<open>Properties\<close>

text \<open>A configuration and an address space used by the concrete executions below.\<close>

definition sample_mm :: memory_manager where
  "sample_mm = \<lparr>mm_ram_reserved_bytes = 0, mm_total_reserved_bytes = 0, mm_unfreeze_queue = [],
     mm_ram_limit_bytes = 65536, mm_total_limit_bytes = 65536,
     mm_default_session_ram_limit_bytes = 32768, mm_default_session_total_limit_bytes = 65536,
     mm_max_small_alloc_pages_1024 = 512, mm_single_small_alloc_pages = 1, mm_page_size = 4096\<rparr>"

definition empty_sub_session :: memory_sub_session where
  "empty_sub_session = \<lparr>ss_parent = 0, ss_frozen = (\<lambda>_. None), ss_unfrozen_threads_count = 0,
     ss_allocated_bytes = 0, ss_allocs = [], ss_small_allocs = [], ss_free_small_chunks = [],
     ss_free_small_chunks_inv = []\<rparr>"

definition empty_session :: memory_session where
  "empty_session = \<lparr>ms_unfrozen_threads_count = 0, ms_frozen = (\<lambda>_. None), ms_ram_limit_bytes = 32768,
     ms_total_limit_bytes = 65536, ms_ram_allocated_bytes = 0, ms_total_allocated_bytes = 0, ms_allocs = [],
     ms_default_sub_session = 0, ms_sub_sessions = [0]\<rparr>"

lemma sample_mm_ok: "mm_config_ok sample_mm"
  by (simp add: mm_config_ok_def sample_mm_def get_page_size_def get_max_small_alloc_bytes_def
      get_single_small_alloc_bytes_def u64_mul_def u64_max_def)

lemma sample_mm_pages_ok: "mm_pages_ok sample_mm"
  using sample_mm_ok by (simp add: mm_pages_ok_def sample_mm_def get_page_size_def get_single_small_alloc_bytes_def u64_mul_def u64_max_def)

lemma sample_mm_sizes:
  "get_page_size sample_mm = 4096" "get_max_small_alloc_bytes sample_mm = 2048"
  "get_single_small_alloc_bytes sample_mm = 4096"
  by (simp_all add: sample_mm_def get_page_size_def get_max_small_alloc_bytes_def
      get_single_small_alloc_bytes_def u64_mul_def u64_max_def)

lemma empty_sub_session_ok: "ss_inv empty_sub_session" "ss_ok mm empty_sub_session" "ss_live empty_sub_session = {}"
  by (simp_all add: ss_ok_def ss_inv_def empty_sub_session_def tiling_empty om_inv_def os_inv_def ss_live_def ss_large_def)

lemma fresh_in_empty: "0 < p \<Longrightarrow> 0 < B \<Longrightarrow> p + B < u64_max \<Longrightarrow> fresh_region empty_sub_session (p, B)"
  by (simp add: fresh_region_def empty_sub_session_def proper_def cend_def)

lemmas alloc_exec = ss_allocate_def ss_deallocate_def sample_mm_sizes smallest_sufficent_free_small_chunk_def
  os_first_above_def os_upper_bound_def empty_sub_session_def empty_session_def add_alloc_def add_small_alloc_def
  add_free_small_chunk_def remove_free_small_chunk_def is_small_alloc_def remove_small_alloc_def
  free_small_chunk_alloc_def add_merge_remove_free_small_chunk_def merge_previous_def merge_next_def
  om_prev_def om_next_def om_find_def om_erase_def os_erase_def remove_alloc_def erase_free_entry_def
  u64_add_def u64_sub_def u64_max_def Let_def

text \<open>The sub-session after one 1024 byte request, served from a region at 4096.\<close>

definition one_block :: "memory_sub_session \<times> memory_session" where
  "one_block = (empty_sub_session\<lparr>ss_allocated_bytes := 4096, ss_allocs := [(4096, 4096)],
       ss_small_allocs := [(4096, 1024)], ss_free_small_chunks := [(5120, 3072)],
       ss_free_small_chunks_inv := [(3072, 5120)]\<rparr>,
     empty_session\<lparr>ms_ram_allocated_bytes := 4096, ms_total_allocated_bytes := 4096, ms_allocs := [(4096, 7)]\<rparr>)"

text \<open>
  C1. An allocation of \<open>n\<close> bytes from a well-formed sub-session throws \<open>bad_alloc\<close> exactly when no free chunk can serve it and
  \<open>mmap\<close> refuses the region it asks for (\<open>region_bytes\<close>: the pages of a large request, or one region for small blocks). Otherwise it
  succeeds: the invariant holds again, the returned block has at least the requested size, is disjoint from every block already
  handed out, and is the only new one. \<open>mmap\<close> is assumed to return, when it returns, a region that overlaps none of those
  in use, and the configuration to be usable (\<open>mm_pages_ok\<close>: a positive page size, small regions of whole pages that hold every
  small request).
\<close>

theorem ss_allocate_correct:
  assumes "ss_ok mm ss" and "mm_pages_ok mm" and "0 < n" and "n + get_page_size mm < u64_max"
    and "\<And>p. mmap (region_bytes mm n) = Some p \<Longrightarrow> fresh_region ss (p, region_bytes mm n)"
  shows "case ss_allocate mm mmap self n (ss, ms) of
      Inl e \<Rightarrow> e = Bad_alloc \<and> mmap (region_bytes mm n) = None \<and> \<not> served_by_chunk mm n ss
    | Inr (p, ss', ms') \<Rightarrow> (mmap (region_bytes mm n) \<noteq> None \<or> served_by_chunk mm n ss) \<and>
        ss_ok mm ss' \<and> n \<le> alloc_size mm n \<and>
        ss_live ss' = insert (p, alloc_size mm n) (ss_live ss) \<and>
        (\<forall>b \<in> ss_live ss. disj (p, alloc_size mm n) b)"
proof -
  have inv: "ss_inv ss" and c: "mm_config_ok mm" using assms(1,2) by (simp_all add: ss_ok_def mm_pages_ok_def)
  show ?thesis
  proof (rule ss_allocate_cases [where mmap = mmap and self = self and ms = ms, OF inv c assms(3-5)])
    fix p ss' ms' assume "ss_allocate mm mmap self n (ss, ms) = Inr (p, ss', ms')"
      and "mmap (region_bytes mm n) \<noteq> None \<or> served_by_chunk mm n ss"
    then show ?thesis using allocate_spec [OF assms] alloc_size_ge [OF c] by simp
  qed simp_all
qed

definition sample_mmap :: "nat \<Rightarrow> addr option" where
  "sample_mmap B = (if B = 4096 then Some 4096 else None)"

lemma sample_mmap_fresh: "sample_mmap B = Some p \<Longrightarrow> fresh_region empty_sub_session (p, B)"
  by (auto simp: sample_mmap_def u64_max_def intro: fresh_in_empty split: if_splits)

lemma one_block_eq: "ss_allocate sample_mm sample_mmap 7 1024 (empty_sub_session, empty_session) = Inr (4096, one_block)"
  by (simp add: one_block_def sample_mmap_def alloc_exec)

theorem ss_allocate_correct_witness:
  "ss_ok sample_mm (fst one_block) \<and> ss_live (fst one_block) = {(4096, 1024)} \<and>
   \<not> served_by_chunk sample_mm 5000 (fst one_block)"
proof -
  obtain ss ms where o: "one_block = (ss, ms)" by (cases one_block)
  have ok: "ss_ok sample_mm ss" "ss_live ss = {(4096, 1024)}"
    using ss_allocate_correct [OF empty_sub_session_ok(2) sample_mm_pages_ok, of 1024 sample_mmap 7 empty_session,
      unfolded one_block_eq o] sample_mmap_fresh
    by (simp_all add: u64_max_def sample_mm_sizes alloc_size_def empty_sub_session_ok)
  have "ss_allocate sample_mm (\<lambda>_. None) 7 5000 (ss, ms) = Inl Bad_alloc" by (simp add: alloc_exec)
  then have "\<not> served_by_chunk sample_mm 5000 ss"
    using ss_allocate_correct [OF ok(1) sample_mm_pages_ok, of 5000 "\<lambda>_. None" 7 ms] by (simp add: u64_max_def sample_mm_sizes)
  then show ?thesis using ok unfolding o fst_conv by blast
qed

lemma one_block_ok: "ss_ok sample_mm (fst one_block)" "ss_inv (fst one_block)" "ss_live (fst one_block) = {(4096, 1024)}"
proof -
  obtain ss' ms' where o: "one_block = (ss', ms')" by (cases one_block)
  have "ss_ok sample_mm ss' \<and> ss_live ss' = insert (4096, alloc_size sample_mm 1024) (ss_live empty_sub_session) \<and>
    (\<forall>b \<in> ss_live empty_sub_session. disj (4096, alloc_size sample_mm 1024) b)"
    by (rule allocate_spec [OF empty_sub_session_ok(2) sample_mm_pages_ok _ _ sample_mmap_fresh one_block_eq [unfolded o]])
      (simp_all add: u64_max_def sample_mm_sizes)
  then show "ss_ok sample_mm (fst one_block)" "ss_inv (fst one_block)" "ss_live (fst one_block) = {(4096, 1024)}"
    unfolding o by (simp_all add: alloc_size_def sample_mm_sizes empty_sub_session_ok ss_ok_def)
qed

text \<open>
  C2. Releasing a live block of a well-formed sub-session, with the size it was requested with, never fails an assertion. Unless
  the block is at the boundary of two regions (\<open>at_boundary\<close>: it ends its region, a free chunk starts right behind, and it is
  not the last block of the region), the invariant holds afterwards and exactly that block is gone; a region that is unmapped
  belonged to the sub-session, no longer does, and overlaps no block that is still live. For a large block \<open>munmap\<close> gets the
  size that was requested, and gives back the pages it touches. The configuration is assumed usable, as above.
\<close>

theorem ss_deallocate_correct:
  assumes "ss_ok mm ss" and "mm_pages_ok mm" and "(p, alloc_size mm n) \<in> ss_live ss" and "\<not> at_boundary ss (p, alloc_size mm n)"
  shows "\<exists>u ss' ms'. ss_deallocate self p n (ss, ms) = Inr (u, ss', ms') \<and>
    ss_ok mm ss' \<and> ss_live ss' = ss_live ss - {(p, alloc_size mm n)} \<and>
    (\<forall>c. u = Some c \<longrightarrow> munmapped mm c \<in> set (ss_allocs ss) \<and> set (ss_allocs ss') = set (ss_allocs ss) - {munmapped mm c} \<and>
       (\<forall>b \<in> ss_live ss'. disj (munmapped mm c) b)) \<and>
    (u = None \<longrightarrow> set (ss_allocs ss') = set (ss_allocs ss))"
  by (rule deallocate_spec [OF assms, of self ms]) (unfold freed_def, blast)

theorem ss_deallocate_correct_witness:
  "\<exists>u ss' ms'. ss_deallocate 7 4096 1024 one_block = Inr (u, ss', ms') \<and> ss_ok sample_mm ss' \<and> ss_live ss' = {}"
proof -
  obtain ss ms where o: "one_block = (ss, ms)" by (cases one_block)
  have ss: "ss_ok sample_mm ss" "ss_live ss = {(4096, 1024)}" using one_block_ok unfolding o by simp_all
  have sz: "alloc_size sample_mm 1024 = 1024" by (simp add: alloc_size_def sample_mm_sizes)
  have "\<not> at_boundary (fst one_block) (4096, 1024)" by (simp add: one_block_def at_boundary_def cend_def)
  then show ?thesis
    using ss_deallocate_correct [OF ss(1) sample_mm_pages_ok, of 4096 1024 7 ms] ss(2) unfolding o sz by auto
qed



text \<open>
  Nothing is kept when nothing is live: a well-formed sub-session with no live block has
  no mapped region and accounts for zero bytes (free chunks are always merged and their regions
  returned).
\<close>

theorem sub_session_no_leak:
  assumes inv: "ss_inv ss" and none: "ss_live ss = {}"
  shows "ss_allocs ss = [] \<and> ss_free_small_chunks ss = [] \<and> ss_allocated_bytes ss = 0"
proof -
  have S: "set (ss_small_allocs ss) = {}" and L: "ss_large ss = {}" using none by (auto simp: ss_live_def)
  note t = ss_inv_tiling [OF inv, unfolded S]
  have "set (ss_allocs ss) = {}" using tiling_no_free_region [OF t] L S by (auto simp: ss_large_def)
  then show ?thesis using tiling_inside [OF t] ss_inv_bytes [OF inv] by (cases "ss_free_small_chunks ss") auto
qed

theorem sub_session_no_leak_witness: "ss_allocated_bytes empty_sub_session = 0"
  using sub_session_no_leak [OF empty_sub_session_ok(1,3)] by simp

text \<open>
  C26. Best fit: a small request that some free chunk can serve maps no new region; it is cut from the
  start of a smallest sufficient chunk, the remainder stays free, and the byte counts are unchanged.
\<close>

theorem ss_allocate_best_fit:
  assumes inv: "ss_inv ss" and n: "0 < n" "n \<le> get_max_small_alloc_bytes mm"
    and ex: "(q', m') \<in> set (ss_free_small_chunks ss)" "n \<le> m'"
  shows "\<exists>q m ss'. ss_allocate mm mmap self n (ss, ms) = Inr (q, ss', ms) \<and>
    (q, m) \<in> set (ss_free_small_chunks ss) \<and> n \<le> m \<and>
    (\<forall>q'' m''. (q'', m'') \<in> set (ss_free_small_chunks ss) \<longrightarrow> n \<le> m'' \<longrightarrow> m \<le> m'') \<and>
    set (ss_free_small_chunks ss') =
      set (ss_free_small_chunks ss) - {(q, m)} \<union> (if n = m then {} else {(q + n, m - n)}) \<and>
    ss_allocs ss' = ss_allocs ss \<and> ss_allocated_bytes ss' = ss_allocated_bytes ss"
  using inv n(1)
proof (cases rule: smallest_chunk_cases)
  case none
  then show ?thesis using ex by fastforce
next
  case (some q m)
  let ?ss1 = "erase_free_entry (q, m) (add_small_alloc q n ss)"
  let ?ss' = "if n = m then ?ss1 else add_free_small_chunk (q + n) (m - n) ?ss1"
  have "ss_allocate mm mmap self n (ss, ms) = Inr (q, ?ss', ms)"
    by (rule ss_allocate_split [OF n(2) inv n(1) some(1-3) refl])
  moreover have "set (ss_free_small_chunks ?ss') =
      set (ss_free_small_chunks ss) - {(q, m)} \<union> (if n = m then {} else {(q + n, m - n)})"
    by (rule allocate_split_free [OF inv some(2) n(1) some(3) refl refl])
  moreover have "ss_allocs ?ss' = ss_allocs ss" "ss_allocated_bytes ?ss' = ss_allocated_bytes ss" by simp_all
  ultimately show ?thesis using some by blast
qed

theorem ss_allocate_best_fit_witness:
  "\<exists>q ss'. ss_allocate sample_mm (\<lambda>_. None) 7 100 one_block = Inr (q, ss', snd one_block)"
proof -
  obtain ss ms where o: "one_block = (ss, ms)" by (cases one_block)
  have "(5120, 3072) \<in> set (ss_free_small_chunks (fst one_block))" by (simp add: one_block_def)
  then show ?thesis
    using ss_allocate_best_fit [of ss 100 sample_mm 5120 3072 "\<lambda>_. None" 7 ms] one_block_ok(2)
    unfolding o by (auto simp: sample_mm_sizes)
qed

definition parent_rest :: "memory_sub_session \<times> memory_session \<Rightarrow> nat \<times> nat" where
  "parent_rest st = (u64_sub (ms_ram_allocated_bytes (snd st)) (ss_allocated_bytes (fst st)),
     u64_sub (ms_total_allocated_bytes (snd st)) (ss_allocated_bytes (fst st)))"

lemma parent_rest_remove_alloc: "remove_alloc self p st = Inr st' \<Longrightarrow> parent_rest st' = parent_rest st"
  by (cases st) (auto simp: parent_rest_def remove_alloc_def u64_sub_sub_sub split: option.splits)

lemma parent_rest_cong: "ss_allocated_bytes ss' = ss_allocated_bytes ss \<Longrightarrow> parent_rest (ss', ms) = parent_rest (ss, ms)"
  by (simp add: parent_rest_def)

lemma merge_previous_same: "merge_previous r c ss = Inr (c', ss') \<Longrightarrow> same_blocks ss ss'"
  by (auto simp: merge_previous_def Let_def res_simps same_blocks_def split: option.splits if_splits)

lemma merge_next_same: "merge_next r c ss = Inr (c', ss') \<Longrightarrow> same_blocks ss ss'"
  by (auto simp: merge_next_def Let_def res_simps same_blocks_def split: option.splits if_splits)

lemma add_merge_same:
  assumes "add_merge_remove_free_small_chunk p n ss = Inr (c, ss')"
  shows "same_blocks ss ss'"
proof (cases "ss_free_small_chunks ss = []")
  case True
  then show ?thesis using assms by (auto simp: add_merge_remove_free_small_chunk_def same_blocks_def res_simps)
next
  case False
  then obtain r c1 ss1 where "merge_previous r (p, n) ss = Inr (c1, ss1)" "merge_next r c1 ss1 = Inr (c, ss')"
    using assms by (force simp: add_merge_remove_free_small_chunk_def res_simps)
  then show ?thesis using merge_previous_same merge_next_same unfolding same_blocks_def by metis
qed

text \<open>What a release does to the regions: nothing, or one \<open>remove_alloc\<close>.\<close>

lemma ss_deallocate_regions:
  assumes d: "ss_deallocate self p n (ss, ms) = Inr (u, ss', ms')"
  obtains (keep) "u = None" "ms' = ms" "ss_allocs ss' = ss_allocs ss" "ss_allocated_bytes ss' = ss_allocated_bytes ss"
  | (unmap) r ss2 where "u = Some r" "remove_alloc self (fst r) (ss2, ms) = Inr (ss', ms')"
      "ss_allocs ss2 = ss_allocs ss" "ss_allocated_bytes ss2 = ss_allocated_bytes ss"
proof (cases "is_small_alloc p ss")
  case False
  then show thesis using d unmap [of "(p, n)" ss] by (auto simp: ss_deallocate_def res_simps)
next
  case small: True
  obtain ss1 where s1: "remove_small_alloc p ss = Inr ss1"
    using d small by (cases "remove_small_alloc p ss") (simp_all add: ss_deallocate_def)
  obtain r where r: "free_small_chunk_alloc p ss1 = Inr r"
    using d small s1 by (cases "free_small_chunk_alloc p ss1") (simp_all add: ss_deallocate_def)
  obtain c ss2 where s2: "add_merge_remove_free_small_chunk p n ss1 = Inr (c, ss2)"
    using d small s1 r by (cases "add_merge_remove_free_small_chunk p n ss1") (auto simp: ss_deallocate_def)
  have "ss_allocs ss1 = ss_allocs ss" "ss_allocated_bytes ss1 = ss_allocated_bytes ss"
    using s1 by (auto simp: remove_small_alloc_def res_simps split: option.splits)
  then have same: "ss_allocs ss2 = ss_allocs ss" "ss_allocated_bytes ss2 = ss_allocated_bytes ss"
    using add_merge_same [OF s2] by (simp_all add: same_blocks_def)
  show thesis
  proof (cases "snd r = snd c")
    case True
    then have "u = Some r" "remove_alloc self (fst r) (ss2, ms) = Inr (ss', ms')"
      using d small s1 r s2 by (auto simp: ss_deallocate_def res_simps)
    then show thesis using unmap same by blast
  next
    case False
    then have "u = None" "ms' = ms" "ss' = add_free_small_chunk (fst c) (snd c) ss2"
      using d small s1 r s2 by (auto simp: ss_deallocate_def)
    then show thesis using keep same by simp
  qed
qed

text \<open>
  C6. Accounting with the parent: what the session counts beyond this sub-session (the bytes of its
  other sub-sessions) is the same before and after every allocation and every release, wrap-around
  of the counters included.
\<close>

theorem sub_session_accounting:
  "(\<forall>p st'. ss_allocate mm mmap self n st = Inr (p, st') \<longrightarrow> parent_rest st' = parent_rest st) \<and>
   (\<forall>u st'. ss_deallocate self p n st = Inr (u, st') \<longrightarrow> parent_rest st' = parent_rest st)"
proof (intro conjI allI impI)
  fix q st' assume "ss_allocate mm mmap self n st = Inr (q, st')"
  then show "parent_rest st' = parent_rest st"
    by (cases st) (auto simp: ss_allocate_def Let_def add_alloc_def parent_rest_def u64_sub_add_add
        split: option.splits if_splits)
next
  obtain ss ms where st: "st = (ss, ms)" by (cases st)
  fix u st' assume "ss_deallocate self p n st = Inr (u, st')"
  moreover obtain ss' ms' where st': "st' = (ss', ms')" by (cases st')
  ultimately have "ss_deallocate self p n (ss, ms) = Inr (u, ss', ms')" using st by simp
  then show "parent_rest st' = parent_rest st"
  proof (cases rule: ss_deallocate_regions)
    case (unmap r ss2)
    then show ?thesis using parent_rest_remove_alloc [OF unmap(2)] st st' by (simp add: parent_rest_def)
  qed (simp_all add: st st' parent_rest_def)
qed

theorem sub_session_accounting_witness: "parent_rest one_block = (0, 0)"
  using sub_session_accounting [of sample_mm sample_mmap 7 1024 "(empty_sub_session, empty_session)"]
    one_block_eq by (auto simp: parent_rest_def empty_sub_session_def empty_session_def u64_sub_def)

text \<open>
  \<open>remove_alloc\<close> does not take the region out of the session's \<open>allocs\<close>: the call that should
  erase it inserts it, so after every release that unmaps a region the session still has an entry
  for it although the sub-session has none.
\<close>

theorem remove_alloc_keeps_parent_entry:
  assumes "ss_deallocate self p n (ss, ms) = Inr (Some r, ss', ms')"
    and "om_inv (ms_allocs ms)" and "om_inv (ss_allocs ss)"
  shows "\<exists>owner. om_find (fst r) (ms_allocs ms') = Some owner \<and> om_find (fst r) (ss_allocs ss') = None"
  using assms(1)
proof (cases rule: ss_deallocate_regions)
  case (unmap r' ss2)
  have ms': "ms_allocs ms' = om_insert (fst r) self (ms_allocs ms)"
    and ss': "ss_allocs ss' = om_erase (fst r) (ss_allocs ss)"
    using unmap by (auto simp: remove_alloc_def split: option.splits)
  have "om_find (fst r) (ms_allocs ms') \<noteq> None"
  proof (cases "fst r \<in> fst ` set (ms_allocs ms)")
    case True
    then obtain v where "(fst r, v) \<in> set (ms_allocs ms)" by force
    then show ?thesis
      using True assms(2) std_map.ins_present [OF assms(2) True, of self] std_map.look_Some [OF assms(2)] unfolding ms' by auto
  next
    case False
    then show ?thesis unfolding ms' by (simp add: std_map.look_ins_same [OF assms(2)])
  qed
  then show ?thesis using std_map.look_era_same [OF assms(3), of "fst r"] unfolding ss' by auto
qed simp

theorem remove_alloc_keeps_parent_entry_witness:
  "\<exists>ss' ms' owner. ss_deallocate 7 4096 1024 one_block = Inr (Some (4096, 4096), ss', ms') \<and>
     om_find 4096 (ms_allocs ms') = Some owner"
proof -
  obtain ss ms where o: "one_block = (ss, ms)" by (cases one_block)
  have inv: "om_inv (ms_allocs (snd one_block))" "om_inv (ss_allocs (fst one_block))"
    by (simp_all add: one_block_def om_inv_def)
  have "\<exists>st'. ss_deallocate 7 4096 1024 one_block = Inr (Some (4096, 4096), st')"
    by (simp add: one_block_def alloc_exec)
  then obtain ss' ms' where d: "ss_deallocate 7 4096 1024 one_block = Inr (Some (4096, 4096), ss', ms')" by auto
  show ?thesis using remove_alloc_keeps_parent_entry [of 7 4096 1024 ss ms "(4096, 4096)" ss' ms'] d inv unfolding o by auto
qed

text \<open>
  Two small regions mapped next to each other, reached by four requests of 2048 bytes and the release of the first block of the
  second region.
\<close>

definition adjacent_regions :: memory_sub_session where
  "adjacent_regions = empty_sub_session\<lparr>ss_allocated_bytes := 8192, ss_allocs := [(4096, 4096), (8192, 4096)],
     ss_small_allocs := [(4096, 2048), (6144, 2048), (10240, 2048)], ss_free_small_chunks := [(8192, 2048)],
     ss_free_small_chunks_inv := [(2048, 8192)]\<rparr>"

definition adjacent_run :: "(addr list \<times> chunk option \<times> memory_sub_session) res" where
  "adjacent_run =
     bind_res (ss_allocate sample_mm (\<lambda>_. Some 4096) 7 2048 (empty_sub_session, empty_session)) (\<lambda>(a, st).
     bind_res (ss_allocate sample_mm (\<lambda>_. None) 7 2048 st) (\<lambda>(b, st).
     bind_res (ss_allocate sample_mm (\<lambda>_. Some 8192) 7 2048 st) (\<lambda>(c, st).
     bind_res (ss_allocate sample_mm (\<lambda>_. None) 7 2048 st) (\<lambda>(d, st).
     bind_res (ss_deallocate 7 c 2048 st) (\<lambda>(u, ss, ms). Inr ([a, b, c, d], u, ss))))))"

lemma adjacent_regions_reached: "adjacent_run = Inr ([4096, 6144, 8192, 10240], None, adjacent_regions)"
  by (simp add: adjacent_run_def adjacent_regions_def alloc_exec)

lemma adjacent_regions_inv: "ss_inv adjacent_regions"
proof -
  have "tiling {(4096, 4096), (8192, 4096)} {(4096, 2048), (6144, 2048), (10240, 2048)} {(8192, 2048)}"
    unfolding tiling_def
  proof (intro conjI)
    show "\<forall>r\<in>{(4096, 4096), (8192, 4096)}. (\<exists>b\<in>{(4096, 2048), (6144, 2048), (10240, 2048)} \<union> {(8192, 2048)}. inside b r) \<longrightarrow>
        covered ({(4096, 2048), (6144, 2048), (10240, 2048)} \<union> {(8192, 2048)}) r"
      by (simp add: covered_def iv_defs) arith
  qed (simp_all add: iv_defs u64_max_def)
  then show ?thesis
    by (simp add: ss_inv_def adjacent_regions_def empty_sub_session_def om_inv_def os_inv_def)
qed

text \<open>
  C7. The condition of the release theorem is exact. When a small block at the boundary of two regions is released, the code
  fails no assertion but merges across the boundary, and the invariant is lost: if the free chunk on the left, the block and
  the free chunk behind the boundary together have the size of the region, the region is given back to the system although another
  block in it is still handed out; otherwise the index of free chunks has a chunk that lies in no region.
\<close>

theorem release_unmaps_live_block:
  assumes "ss_inv ss" and "at_boundary ss (p, n)"
  shows "\<exists>r m a u ss' ms'. r \<in> set (ss_allocs ss) \<and> cend r = p + n \<and> (cend r, m) \<in> set (ss_free_small_chunks ss) \<and>
    (a = p \<or> (a, p - a) \<in> set (ss_free_small_chunks ss)) \<and>
    ss_deallocate self p n (ss, ms) = Inr (u, ss', ms') \<and> \<not> ss_inv ss' \<and>
    (if cend r - a + m = snd r then u = Some r \<and> r \<notin> set (ss_allocs ss') \<and> (\<exists>b \<in> ss_live ss'. \<not> disj r b)
     else u = None \<and> (a, cend r - a + m) \<in> set (ss_free_small_chunks ss') \<and>
       (\<forall>r' \<in> set (ss_allocs ss'). \<not> inside (a, cend r - a + m) r'))"
proof -
  obtain r m b' where b: "(p, n) \<in> set (ss_small_allocs ss)" and r: "r \<in> set (ss_allocs ss)" "inside (p, n) r" "p + n = cend r"
    and f: "(cend r, m) \<in> set (ss_free_small_chunks ss)"
    and b': "b' \<in> set (ss_small_allocs ss)" "b' \<noteq> (p, n)" "inside b' r"
  proof -
    from assms(2) obtain r f b' where "(p, n) \<in> set (ss_small_allocs ss)" "r \<in> set (ss_allocs ss)" "inside (p, n) r"
      "p + n = cend r" "f \<in> set (ss_free_small_chunks ss)" "fst f = cend r"
      "b' \<in> set (ss_small_allocs ss)" "inside b' r" "b' \<noteq> (p, n)"
      unfolding at_boundary_def by (metis cend_def fst_conv snd_conv)
    then show thesis using that [of r "snd f" b'] by (cases f) simp
  qed
  obtain a u ss' ms' where "(a = p \<or> (a, p - a) \<in> set (ss_free_small_chunks ss))"
    "ss_deallocate self p n (ss, ms) = Inr (u, ss', ms')" "b' \<in> ss_live ss'" "\<not> ss_inv ss'"
    "if cend r - a + m = snd r then u = Some r \<and> r \<notin> set (ss_allocs ss') \<and> \<not> disj r b'
     else u = None \<and> (a, cend r - a + m) \<in> set (ss_free_small_chunks ss') \<and> (\<forall>r' \<in> set (ss_allocs ss'). \<not> inside (a, cend r - a + m) r')"
    using deallocate_boundary [OF assms(1) b r f b', of self ms] by blast
  then show ?thesis using r(1) r(3) [symmetric] f
    by (intro exI [of _ r] exI [of _ m] exI [of _ a] exI [of _ u] exI [of _ ss'] exI [of _ ms']) (auto split: if_splits)
qed

theorem release_unmaps_live_block_witness:
  "\<exists>ss' ms'. ss_deallocate 7 6144 2048 (adjacent_regions, empty_session) = Inr (Some (4096, 4096), ss', ms') \<and> \<not> ss_inv ss' \<and>
     (\<exists>b \<in> ss_live ss'. \<not> disj (4096, 4096) b)"
proof -
  have "at_boundary adjacent_regions (6144, 2048)" by (simp add: at_boundary_def adjacent_regions_def iv_defs)
  from release_unmaps_live_block [OF adjacent_regions_inv this, of 7 empty_session]
  show ?thesis by (auto simp: adjacent_regions_def empty_sub_session_def cend_def split: if_splits)
qed

end
