(* ===== verification/Session.thy ===== *)
theory Session
  imports Sub_Session_Spec
begin

text \<open>
  \<open>src/memory_manager/session.cpp\<close>, the life-cycle half of \<open>sub_session.cpp\<close> and
  \<open>src/include/memory_manager/allocator.h\<close>: which sub-session a thread uses, freezing and
  unfreezing, and the allocator that C++ containers call. Objects live in a store indexed by
  their address; \<open>frozen\<close> and \<open>current_sub_session\<close> are thread specific, so they are functions
  of the thread \<open>t\<close>. A session's condition variable is named by the session's address.
  \<open>posix_madvise\<close> and log output have no effect on this state.
\<close>

record mm_world =
  w_mm :: memory_manager
  w_sessions :: "nat \<Rightarrow> memory_session"
  w_subs :: "nat \<Rightarrow> memory_sub_session"
  w_current :: "nat \<Rightarrow> nat option"

definition upd_sub :: "nat \<Rightarrow> (memory_sub_session \<Rightarrow> memory_sub_session) \<Rightarrow> mm_world \<Rightarrow> mm_world" where
  "upd_sub i f w = w\<lparr>w_subs := (w_subs w)(i := f (w_subs w i))\<rparr>"

definition upd_session :: "nat \<Rightarrow> (memory_session \<Rightarrow> memory_session) \<Rightarrow> mm_world \<Rightarrow> mm_world" where
  "upd_session s f w = w\<lparr>w_sessions := (w_sessions w)(s := f (w_sessions w s))\<rparr>"

lemma upd_accessors [simp]:
  "w_mm (upd_sub i f w) = w_mm w" "w_sessions (upd_sub i f w) = w_sessions w" "w_current (upd_sub i f w) = w_current w"
  "w_subs (upd_sub i f w) = (w_subs w)(i := f (w_subs w i))"
  "w_mm (upd_session s g w) = w_mm w" "w_subs (upd_session s g w) = w_subs w" "w_current (upd_session s g w) = w_current w"
  "w_sessions (upd_session s g w) = (w_sessions w)(s := g (w_sessions w s))"
  by (simp_all add: upd_sub_def upd_session_def)

section \<open>Sub-sessions\<close>

definition sub_current :: "nat \<Rightarrow> mm_world \<Rightarrow> nat option" where
  "sub_current t w = w_current w t"

definition activate :: "nat \<Rightarrow> nat \<Rightarrow> mm_world \<Rightarrow> mm_world" where
  "activate t i w = w\<lparr>w_current := (w_current w)(t := Some i)\<rparr>"

definition deactivate :: "nat \<Rightarrow> nat \<Rightarrow> mm_world \<Rightarrow> mm_world" where
  "deactivate t i w = (if w_current w t = Some i then w\<lparr>w_current := (w_current w)(t := None)\<rparr> else w)"

text \<open>The body of \<open>begin\<close> under the lock, the same for sessions and sub-sessions.\<close>

definition begin_frozen :: "nat \<Rightarrow> (nat \<Rightarrow> bool option) \<times> int \<Rightarrow> (nat \<Rightarrow> bool option) \<times> int" where
  "begin_frozen t fc = (case fc of (frozen, cnt) \<Rightarrow>
     if frozen t \<noteq> None then (frozen, cnt)
     else let z = (cnt = 0) in
       (frozen(t := Some z), if z then cnt else if cnt = -1 then 1 else cnt + 1))"

definition sub_begin :: "nat \<Rightarrow> nat \<Rightarrow> mm_world \<Rightarrow> mm_world" where
  "sub_begin t i w = upd_sub i (\<lambda>ss.
     case begin_frozen t (ss_frozen ss, ss_unfrozen_threads_count ss) of (f, n) \<Rightarrow>
       ss\<lparr>ss_frozen := f, ss_unfrozen_threads_count := n\<rparr>) (activate t i w)"

definition sub_end :: "nat \<Rightarrow> nat \<Rightarrow> mm_world \<Rightarrow> mm_world" where
  "sub_end t i w = deactivate t i w"

definition sub_freeze :: "nat \<Rightarrow> nat \<Rightarrow> mm_world \<Rightarrow> mm_world res" where
  "sub_freeze t i w =
     (case ss_frozen (w_subs w i) t of
        None \<Rightarrow> Inl D_assert
      | Some True \<Rightarrow> Inr w
      | Some False \<Rightarrow>
          let w = upd_sub i (\<lambda>ss. ss\<lparr>ss_unfrozen_threads_count := ss_unfrozen_threads_count ss - 1,
                                     ss_frozen := (ss_frozen ss)(t := Some True)\<rparr>) w;
              ss = w_subs w i
          in Inr (if ss_unfrozen_threads_count ss = 0
                  then upd_session (ss_parent ss) (\<lambda>ms. ms\<lparr>ms_ram_allocated_bytes :=
                         u64_sub (ms_ram_allocated_bytes ms) (ss_allocated_bytes ss)\<rparr>) w
                  else w))"

definition sub_unfreeze :: "nat \<Rightarrow> nat \<Rightarrow> mm_world \<Rightarrow> (bool \<times> mm_world) res" where
  "sub_unfreeze t i w =
     (let ss = w_subs w i; ms = w_sessions w (ss_parent ss) in
      case ss_frozen ss t of
        None \<Rightarrow> Inl D_assert
      | Some False \<Rightarrow> Inr (True, w)
      | Some True \<Rightarrow>
          if ss_unfrozen_threads_count ss = 0 then
            if u64_add (ms_ram_allocated_bytes ms) (ss_allocated_bytes ss) > ms_ram_limit_bytes ms
            then Inr (False, w)
            else Inr (True, upd_sub i (\<lambda>ss. ss\<lparr>ss_unfrozen_threads_count := ss_unfrozen_threads_count ss + 1,
                                              ss_frozen := (ss_frozen ss)(t := Some False)\<rparr>)
                   (upd_session (ss_parent ss) (\<lambda>ms. ms\<lparr>ms_ram_allocated_bytes :=
                      u64_add (ms_ram_allocated_bytes ms) (ss_allocated_bytes ss)\<rparr>) w))
          else Inr (True, w))"

definition sub_is_frozen :: "nat \<Rightarrow> nat \<Rightarrow> mm_world \<Rightarrow> bool option" where
  "sub_is_frozen t i w = ss_frozen (w_subs w i) t"

definition sub_set_current :: "nat \<Rightarrow> nat \<Rightarrow> mm_world \<Rightarrow> mm_world" where
  "sub_set_current t i w = activate t i w"

definition sub_get_allocated_bytes :: "nat \<Rightarrow> mm_world \<Rightarrow> nat" where
  "sub_get_allocated_bytes i w = ss_allocated_bytes (w_subs w i)"

definition sub_get_parent :: "nat \<Rightarrow> mm_world \<Rightarrow> nat" where
  "sub_get_parent i w = ss_parent (w_subs w i)"

text \<open>
  Construction at address \<open>i\<close>: the fields of the constructor's initialiser list, then
  \<open>internal_init\<close>.
\<close>

definition sub_internal_init :: "nat \<Rightarrow> nat \<Rightarrow> bool \<Rightarrow> mm_world \<Rightarrow> mm_world" where
  "sub_internal_init t i autostart w =
     (let w = upd_session (ss_parent (w_subs w i)) (\<lambda>ms. ms\<lparr>ms_sub_sessions := os_insert i (ms_sub_sessions ms)\<rparr>) w
      in if autostart then sub_begin t i w else w)"

definition sub_session_ctor :: "nat \<Rightarrow> nat \<Rightarrow> nat \<Rightarrow> bool \<Rightarrow> mm_world \<Rightarrow> mm_world" where
  "sub_session_ctor t i session autostart w =
     sub_internal_init t i autostart (upd_sub i (\<lambda>_.
       \<lparr>ss_parent = session, ss_frozen = (\<lambda>_. None), ss_unfrozen_threads_count = -1, ss_allocated_bytes = 0,
        ss_allocs = [], ss_small_allocs = [], ss_free_small_chunks = [], ss_free_small_chunks_inv = []\<rparr>) w)"

text \<open>The destructor; the flag is the memory-leak warning.\<close>

definition sub_session_dtor :: "nat \<Rightarrow> nat \<Rightarrow> mm_world \<Rightarrow> bool \<times> mm_world" where
  "sub_session_dtor t i w = (ss_allocated_bytes (w_subs w i) \<noteq> 0, sub_end t i w)"

section \<open>Sessions\<close>

definition session_current :: "nat \<Rightarrow> mm_world \<Rightarrow> nat option" where
  "session_current t w = (case w_current w t of None \<Rightarrow> None | Some i \<Rightarrow> Some (ss_parent (w_subs w i)))"

definition session_begin :: "nat \<Rightarrow> nat \<Rightarrow> mm_world \<Rightarrow> mm_world" where
  "session_begin t s w =
     (let w = upd_session s (\<lambda>ms. case begin_frozen t (ms_frozen ms, ms_unfrozen_threads_count ms) of (f, n) \<Rightarrow>
                ms\<lparr>ms_frozen := f, ms_unfrozen_threads_count := n\<rparr>) w
      in sub_begin t (ms_default_sub_session (w_sessions w s)) w)"

definition session_end :: "nat \<Rightarrow> nat \<Rightarrow> mm_world \<Rightarrow> mm_world" where
  "session_end t s w = (if session_current t w = Some s then w\<lparr>w_current := (w_current w)(t := None)\<rparr> else w)"

fun freeze_all :: "nat \<Rightarrow> nat list \<Rightarrow> mm_world \<Rightarrow> mm_world res" where
  "freeze_all t [] w = Inr w"
| "freeze_all t (i # is) w = bind_res (sub_freeze t i w) (freeze_all t is)"

definition session_freeze :: "nat \<Rightarrow> nat \<Rightarrow> mm_world \<Rightarrow> mm_world res" where
  "session_freeze t s w =
     (case ms_frozen (w_sessions w s) t of
        None \<Rightarrow> Inl D_assert
      | Some True \<Rightarrow> Inr w
      | Some False \<Rightarrow>
          let w = upd_session s (\<lambda>ms. ms\<lparr>ms_unfrozen_threads_count := ms_unfrozen_threads_count ms - 1,
                                         ms_frozen := (ms_frozen ms)(t := Some True)\<rparr>) w;
              ms = w_sessions w s
          in if ms_unfrozen_threads_count ms = 0
             then bind_res (freeze_all t (ms_sub_sessions ms) w) (\<lambda>w.
                    Inr (w\<lparr>w_mm := snd (free_ram_bytes (ms_ram_limit_bytes ms) (w_mm w))\<rparr>))
             else Inr w)"

text \<open>
  The three unfreeze operations share what follows a granted reservation. \<open>session_unfreeze\<close>
  stops with \<open>Waiting\<close> where the code blocks in \<open>reserve_ram_bytes\<close>.
\<close>

definition unfreeze_granted :: "nat \<Rightarrow> nat \<Rightarrow> mm_world \<Rightarrow> mm_world res" where
  "unfreeze_granted t s w =
     (let w = upd_session s (\<lambda>ms. ms\<lparr>ms_unfrozen_threads_count := ms_unfrozen_threads_count ms + 1,
                                    ms_frozen := (ms_frozen ms)(t := Some False)\<rparr>) w
      in bind_res (sub_unfreeze t (ms_default_sub_session (w_sessions w s)) w) (\<lambda>(ok, w). r_assert ok (Inr w)))"

definition session_unfreeze :: "nat \<Rightarrow> nat \<Rightarrow> mm_world \<Rightarrow> (reserve_result \<times> mm_world) res" where
  "session_unfreeze t s w =
     (let ms = w_sessions w s in
      case ms_frozen ms t of
        None \<Rightarrow> Inl D_assert
      | Some False \<Rightarrow> Inr (Reserved, w)
      | Some True \<Rightarrow>
          if ms_unfrozen_threads_count ms = 0 then
            bind_res (reserve_ram_bytes s (ms_ram_limit_bytes ms) (w_mm w)) (\<lambda>(r, mm).
              let w = w\<lparr>w_mm := mm\<rparr> in
              if r = Reserved then bind_res (unfreeze_granted t s w) (\<lambda>w. Inr (Reserved, w)) else Inr (r, w))
          else Inr (Reserved, w))"

definition session_try_unfreeze :: "nat \<Rightarrow> nat \<Rightarrow> mm_world \<Rightarrow> (bool \<times> mm_world) res" where
  "session_try_unfreeze t s w =
     (let ms = w_sessions w s in
      case ms_frozen ms t of
        None \<Rightarrow> Inl D_assert
      | Some False \<Rightarrow> Inr (True, w)
      | Some True \<Rightarrow>
          if ms_unfrozen_threads_count ms = 0 then
            bind_res (try_reserve_ram_bytes (ms_ram_limit_bytes ms) (w_mm w)) (\<lambda>(ok, mm).
              let w = w\<lparr>w_mm := mm\<rparr> in
              if ok then bind_res (unfreeze_granted t s w) (\<lambda>w. Inr (True, w)) else Inr (False, w))
          else Inr (True, w))"

definition session_timed_unfreeze :: "nat \<Rightarrow> nat \<Rightarrow> bool \<Rightarrow> mm_world \<Rightarrow> (reserve_result \<times> mm_world) res" where
  "session_timed_unfreeze t s woken w =
     (let ms = w_sessions w s in
      case ms_frozen ms t of
        None \<Rightarrow> Inl D_assert
      | Some False \<Rightarrow> Inr (Reserved, w)
      | Some True \<Rightarrow>
          if ms_unfrozen_threads_count ms = 0 then
            bind_res (timed_reserve_ram_bytes s (ms_ram_limit_bytes ms) woken (w_mm w)) (\<lambda>(r, mm).
              let w = w\<lparr>w_mm := mm\<rparr> in
              if r = Reserved then bind_res (unfreeze_granted t s w) (\<lambda>w. Inr (Reserved, w)) else Inr (r, w))
          else Inr (Reserved, w))"

definition session_is_frozen :: "nat \<Rightarrow> nat \<Rightarrow> mm_world \<Rightarrow> bool option" where
  "session_is_frozen t s w = ms_frozen (w_sessions w s) t"

definition set_default_current :: "nat \<Rightarrow> nat \<Rightarrow> mm_world \<Rightarrow> mm_world" where
  "set_default_current t s w = sub_set_current t (ms_default_sub_session (w_sessions w s)) w"

definition get_ram_limit_bytes :: "nat \<Rightarrow> mm_world \<Rightarrow> nat" where
  "get_ram_limit_bytes s w = ms_ram_limit_bytes (w_sessions w s)"

definition set_ram_limit_bytes :: "nat \<Rightarrow> nat \<Rightarrow> mm_world \<Rightarrow> mm_world" where
  "set_ram_limit_bytes s bytes w = upd_session s (\<lambda>ms. ms\<lparr>ms_ram_limit_bytes := bytes\<rparr>) w"

definition get_ram_allocated_bytes :: "nat \<Rightarrow> mm_world \<Rightarrow> nat" where
  "get_ram_allocated_bytes s w = ms_ram_allocated_bytes (w_sessions w s)"

definition get_total_limit_bytes :: "nat \<Rightarrow> mm_world \<Rightarrow> nat" where
  "get_total_limit_bytes s w = ms_total_limit_bytes (w_sessions w s)"

definition set_total_limit_bytes :: "nat \<Rightarrow> nat \<Rightarrow> mm_world \<Rightarrow> mm_world" where
  "set_total_limit_bytes s bytes w = upd_session s (\<lambda>ms. ms\<lparr>ms_total_limit_bytes := bytes\<rparr>) w"

definition get_total_allocated_bytes :: "nat \<Rightarrow> mm_world \<Rightarrow> nat" where
  "get_total_allocated_bytes s w = ms_total_allocated_bytes (w_sessions w s)"

text \<open>
  Construction. \<open>internal_init\<close> makes two reservations that can block; the stages after each are
  functions of their own, run when the reservation is granted. \<open>d\<close> is the address of the default
  sub-session that \<open>new\<close> returns.
\<close>

datatype init_result = Init_waits_total | Init_waits_ram | Init_done

definition internal_init_done :: "nat \<Rightarrow> nat \<Rightarrow> nat \<Rightarrow> bool \<Rightarrow> mm_world \<Rightarrow> mm_world" where
  "internal_init_done t s d autostart w =
     (let w = sub_session_ctor t d s False w;
          w = upd_session s (\<lambda>ms. ms\<lparr>ms_default_sub_session := d\<rparr>) w
      in if autostart then session_begin t s w else w)"

definition internal_init_ram :: "nat \<Rightarrow> nat \<Rightarrow> nat \<Rightarrow> bool \<Rightarrow> mm_world \<Rightarrow> (init_result \<times> mm_world) res" where
  "internal_init_ram t s d autostart w =
     bind_res (reserve_ram_bytes s (ms_ram_limit_bytes (w_sessions w s)) (w_mm w)) (\<lambda>(r, mm).
       let w = w\<lparr>w_mm := mm\<rparr> in
       if r = Reserved then Inr (Init_done, internal_init_done t s d autostart w) else Inr (Init_waits_ram, w))"

definition internal_init :: "nat \<Rightarrow> nat \<Rightarrow> nat \<Rightarrow> bool \<Rightarrow> mm_world \<Rightarrow> (init_result \<times> mm_world) res" where
  "internal_init t s d autostart w =
     bind_res (reserve_total_bytes s (ms_total_limit_bytes (w_sessions w s)) (w_mm w)) (\<lambda>(r, mm).
       let w = w\<lparr>w_mm := mm\<rparr> in
       if r = Reserved then internal_init_ram t s d autostart w else Inr (Init_waits_total, w))"

definition session_ctor_limits :: "nat \<Rightarrow> nat \<Rightarrow> nat \<Rightarrow> nat \<Rightarrow> nat \<Rightarrow> bool \<Rightarrow> mm_world \<Rightarrow> (init_result \<times> mm_world) res" where
  "session_ctor_limits t s d starting_ram_limit_bytes starting_total_limit_bytes autostart w =
     internal_init t s d autostart (upd_session s (\<lambda>_.
       \<lparr>ms_unfrozen_threads_count = -1, ms_frozen = (\<lambda>_. None), ms_ram_limit_bytes = starting_ram_limit_bytes,
        ms_total_limit_bytes = starting_total_limit_bytes, ms_ram_allocated_bytes = 0, ms_total_allocated_bytes = 0,
        ms_allocs = [], ms_default_sub_session = 0, ms_sub_sessions = []\<rparr>) w)"

definition session_ctor :: "nat \<Rightarrow> nat \<Rightarrow> nat \<Rightarrow> bool \<Rightarrow> mm_world \<Rightarrow> (init_result \<times> mm_world) res" where
  "session_ctor t s d autostart w =
     session_ctor_limits t s d (get_default_session_ram_limit_bytes (w_mm w))
       (get_default_session_total_limit_bytes (w_mm w)) autostart w"

definition session_dtor :: "nat \<Rightarrow> nat \<Rightarrow> mm_world \<Rightarrow> bool \<times> mm_world" where
  "session_dtor t s w =
     (let w = session_end t s w;
          w = snd (sub_session_dtor t (ms_default_sub_session (w_sessions w s)) w);
          ms = w_sessions w s;
          w = w\<lparr>w_mm := snd (free_total_bytes (ms_total_limit_bytes ms) (w_mm w))\<rparr>;
          w = w\<lparr>w_mm := snd (free_ram_bytes (ms_ram_limit_bytes ms) (w_mm w))\<rparr>
      in (ms_total_allocated_bytes ms \<noteq> 0, w))"

section \<open>The allocator of \<open>allocator.h\<close>\<close>

text \<open>
  \<open>sz\<close> is \<open>sizeof (T)\<close>; \<open>max_sz\<close> is \<open>std::allocator<T>::max_size()\<close>, which is not under
  \<open>src/\<close>. A null pointer is address 0.
\<close>

definition allocator_allocate :: "nat \<Rightarrow> nat \<Rightarrow> (nat \<Rightarrow> addr option) \<Rightarrow> nat \<Rightarrow> nat \<Rightarrow> mm_world \<Rightarrow> (addr \<times> mm_world) res" where
  "allocator_allocate sz max_sz mmap t n w =
     (if n = 0 then Inr (0, w)
      else let needed_bytes = u64_mul sz n in
        case sub_current t w of
          None \<Rightarrow> Inl D_assert
        | Some i \<Rightarrow>
            d_assert (sub_is_frozen t i w = Some False)
              (let s = sub_get_parent i w; ms = w_sessions w s in
               d_assert (ms_ram_limit_bytes ms \<le> max_sz) (d_assert (ms_total_limit_bytes ms \<le> max_sz)
                 (if u64_add (ms_ram_allocated_bytes ms) needed_bytes > ms_ram_limit_bytes ms
                  then Inl Out_of_session_ram_memory
                  else if u64_add (ms_total_allocated_bytes ms) needed_bytes > ms_total_limit_bytes ms
                  then Inl Out_of_session_total_memory
                  else bind_res (ss_allocate (w_mm w) mmap i needed_bytes (w_subs w i, ms)) (\<lambda>(p, ss, ms).
                         Inr (p, upd_session s (\<lambda>_. ms) (upd_sub i (\<lambda>_. ss) w)))))))"

definition allocator_deallocate :: "nat \<Rightarrow> nat \<Rightarrow> addr \<Rightarrow> nat \<Rightarrow> mm_world \<Rightarrow> (chunk option \<times> mm_world) res" where
  "allocator_deallocate sz t ptr n w =
     (if n = 0 \<or> ptr = 0 then Inr (None, w)
      else case sub_current t w of
          None \<Rightarrow> Inl D_assert
        | Some i \<Rightarrow>
            let s = sub_get_parent i w in
            bind_res (ss_deallocate i ptr (u64_mul sz n) (w_subs w i, w_sessions w s)) (\<lambda>(u, ss, ms).
              Inr (u, upd_session s (\<lambda>_. ms) (upd_sub i (\<lambda>_. ss) w))))"

definition allocator_max_size :: "nat \<Rightarrow> nat \<Rightarrow> mm_world \<Rightarrow> nat res" where
  "allocator_max_size max_sz t w =
     (case session_current t w of
        None \<Rightarrow> Inl D_assert
      | Some s \<Rightarrow>
          let ms = w_sessions w s in
          d_assert (ms_ram_limit_bytes ms \<le> max_sz) (d_assert (ms_total_limit_bytes ms \<le> max_sz)
            (if ms_ram_allocated_bytes ms \<le> ms_ram_limit_bytes ms \<and> ms_total_limit_bytes ms \<le> ms_total_limit_bytes ms
             then let max_bytes = u64_sub (ms_ram_limit_bytes ms) (ms_ram_allocated_bytes ms);
                      max_total_bytes = u64_sub (ms_total_limit_bytes ms) (ms_total_allocated_bytes ms)
                  in Inr (if max_bytes > max_total_bytes then max_total_bytes else max_bytes)
             else Inr 0)))"

end
