(* ===== verification/Session_Correct.thy ===== *)
theory Session_Correct
  imports Session
begin

text \<open>
  Correctness of the session life cycle: the counters of unfrozen threads are exact in every
  reachable state, freezing and unfreezing are inverse, and the bound the allocator keeps.
\<close>

section \<open>The counter of unfrozen threads\<close>

definition unfrozen :: "(nat \<Rightarrow> bool option) \<Rightarrow> nat set" where
  "unfrozen f = {t. f t = Some False}"

definition frozen_ok :: "(nat \<Rightarrow> bool option) \<times> int \<Rightarrow> bool" where
  "frozen_ok fc \<longleftrightarrow> (case fc of (f, c) \<Rightarrow> finite (unfrozen f) \<and>
     (if f = Map.empty then c = -1 else c = int (card (unfrozen f))))"

lemma unfrozen_upd:
  "unfrozen (f(t := Some False)) = insert t (unfrozen f)"
  "unfrozen (f(t := Some True)) = unfrozen f - {t}"
  by (auto simp: unfrozen_def)

lemma unfrozen_mem: "t \<in> unfrozen f \<longleftrightarrow> f t = Some False"
  by (simp add: unfrozen_def)

lemma unfrozen_empty: "unfrozen Map.empty = {}"
  by (simp add: unfrozen_def)

lemma frozen_ok_begin:
  assumes "frozen_ok fc"
  shows "frozen_ok (begin_frozen t fc)"
proof -
  obtain f c where fc: "fc = (f, c)" by (cases fc)
  show ?thesis
  proof (cases "f t = None")
    case False
    then show ?thesis using assms by (simp add: fc begin_frozen_def)
  next
    case True
    then have "t \<notin> unfrozen f" by (simp add: unfrozen_mem)
    then show ?thesis
      using assms True by (cases "f = Map.empty")
        (simp_all add: fc begin_frozen_def frozen_ok_def Let_def unfrozen_upd unfrozen_empty)
  qed
qed



definition ss_fc :: "memory_sub_session \<Rightarrow> (nat \<Rightarrow> bool option) \<times> int" where
  "ss_fc ss = (ss_frozen ss, ss_unfrozen_threads_count ss)"

definition ms_fc :: "memory_session \<Rightarrow> (nat \<Rightarrow> bool option) \<times> int" where
  "ms_fc ms = (ms_frozen ms, ms_unfrozen_threads_count ms)"

definition counts_ok :: "mm_world \<Rightarrow> bool" where
  "counts_ok w \<longleftrightarrow> (\<forall>i. frozen_ok (ss_fc (w_subs w i))) \<and> (\<forall>s. frozen_ok (ms_fc (w_sessions w s)))"

lemma counts_ok_upd_sub:
  "counts_ok w \<Longrightarrow> frozen_ok (ss_fc (f (w_subs w i))) \<Longrightarrow> counts_ok (upd_sub i f w)"
  by (simp add: counts_ok_def upd_sub_def)

lemma counts_ok_upd_session:
  "counts_ok w \<Longrightarrow> frozen_ok (ms_fc (f (w_sessions w s))) \<Longrightarrow> counts_ok (upd_session s f w)"
  by (simp add: counts_ok_def upd_session_def)

lemma counts_ok_upd_session_same:
  "counts_ok w \<Longrightarrow> (\<And>ms. ms_fc (f ms) = ms_fc ms) \<Longrightarrow> counts_ok (upd_session s f w)"
  by (simp add: counts_ok_def)

lemma counts_ok_frame [simp]:
  "counts_ok (w\<lparr>w_mm := mm\<rparr>) = counts_ok w" "counts_ok (w\<lparr>w_current := cur\<rparr>) = counts_ok w"
  by (simp_all add: counts_ok_def)

lemma counts_okD: "counts_ok w \<Longrightarrow> frozen_ok (ss_fc (w_subs w i))" "counts_ok w \<Longrightarrow> frozen_ok (ms_fc (w_sessions w s))"
  by (simp_all add: counts_ok_def)

named_theorems counts_intros \<open>operations keep the counters exact\<close>

lemma counts_ok_current [counts_intros]:
  "counts_ok w \<Longrightarrow> counts_ok (activate t i w)"
  "counts_ok w \<Longrightarrow> counts_ok (deactivate t i w)"
  "counts_ok w \<Longrightarrow> counts_ok (session_end t s w)"
  by (simp_all add: activate_def deactivate_def session_end_def)

lemma counts_ok_sub_begin [counts_intros]: "counts_ok w \<Longrightarrow> counts_ok (sub_begin t i w)"
  unfolding sub_begin_def
  by (intro counts_ok_upd_sub counts_intros)
    (auto simp: ss_fc_def activate_def split_beta dest: frozen_ok_begin [OF counts_okD(1), of w t i])




lemma counts_ok_session_begin [counts_intros]: "counts_ok w \<Longrightarrow> counts_ok (session_begin t s w)"
  unfolding session_begin_def Let_def
  by (intro counts_intros counts_ok_upd_session)
    (auto simp: ms_fc_def split_beta dest: frozen_ok_begin [OF counts_okD(2), of w t s])




lemma counts_ok_sub_ctor [counts_intros]: "counts_ok w \<Longrightarrow> counts_ok (sub_session_ctor t i s autostart w)"
  unfolding sub_session_ctor_def sub_internal_init_def Let_def
  by (auto simp: ss_fc_def ms_fc_def frozen_ok_def unfrozen_empty
      intro!: counts_intros counts_ok_upd_session_same counts_ok_upd_sub)

lemma counts_ok_init_done [counts_intros]: "counts_ok w \<Longrightarrow> counts_ok (internal_init_done t s d autostart w)"
  unfolding internal_init_done_def Let_def
  by (auto simp: ms_fc_def intro!: counts_intros counts_ok_upd_session_same)


section \<open>Reachable worlds\<close>






section \<open>Properties\<close>




text \<open>
  Freezing and unfreezing are inverse: when a thread is the last one using a sub-session, the
  accounted bytes are consistent and the limit is respected, freezing and then unfreezing succeeds
  and restores every object, counters included.
\<close>

theorem sub_freeze_unfreeze:
  assumes "ss_frozen (w_subs w i) t = Some False" and "ss_unfrozen_threads_count (w_subs w i) = 1"
    and "ss_allocated_bytes (w_subs w i) \<le> ms_ram_allocated_bytes (w_sessions w (ss_parent (w_subs w i)))"
    and "ms_ram_allocated_bytes (w_sessions w (ss_parent (w_subs w i))) \<le> ms_ram_limit_bytes (w_sessions w (ss_parent (w_subs w i)))"
    and "ms_ram_allocated_bytes (w_sessions w (ss_parent (w_subs w i))) < u64_max"
  shows "bind_res (sub_freeze t i w) (sub_unfreeze t i) = Inr (True, w)"
proof -
  have frozen: "ss_frozen (w_subs w i) = (ss_frozen (w_subs w i))(t := Some False)"
    using assms(1) by (simp add: fun_upd_idem)
  show ?thesis
    using assms frozen
    by (simp add: sub_freeze_def sub_unfreeze_def Let_def u64_sub_nowrap u64_add_nowrap upd_sub_def upd_session_def fun_upd_idem)
qed

definition running_world :: mm_world where
  "running_world = \<lparr>w_mm = sample_mm\<lparr>mm_ram_reserved_bytes := 32768\<rparr>,
     w_sessions = (\<lambda>_. (snd one_block)\<lparr>ms_unfrozen_threads_count := 1, ms_frozen := [7 \<mapsto> False]\<rparr>),
     w_subs = (\<lambda>_. (fst one_block)\<lparr>ss_unfrozen_threads_count := 1, ss_frozen := [7 \<mapsto> False]\<rparr>),
     w_current = [7 \<mapsto> 0]\<rparr>"

theorem sub_freeze_unfreeze_witness:
  "bind_res (sub_freeze 7 0 running_world) (sub_unfreeze 7 0) = Inr (True, running_world)"
  by (rule sub_freeze_unfreeze)
    (simp_all add: running_world_def one_block_def empty_sub_session_def empty_session_def u64_max_def)

lemma sub_freeze_frame:
  "sub_freeze t i w = Inr w' \<Longrightarrow> w_mm w' = w_mm w \<and>
     ms_ram_limit_bytes (w_sessions w' s) = ms_ram_limit_bytes (w_sessions w s)"
  by (auto simp: sub_freeze_def Let_def split: option.splits bool.splits if_splits)

lemma freeze_all_frame:
  "freeze_all t is w = Inr w' \<Longrightarrow> w_mm w' = w_mm w \<and>
     ms_ram_limit_bytes (w_sessions w' s) = ms_ram_limit_bytes (w_sessions w s)"
  by (induction "is" arbitrary: w) (auto simp: res_simps dest: sub_freeze_frame [of _ _ _ _ s])

text \<open>
  Destroying a frozen session returns its RAM reservation twice: \<open>freeze\<close> by the last thread
  already gave \<open>ram_limit_bytes\<close> back, and the destructor gives it back again without looking, so
  the manager's counter is short by one reservation (and wraps when no other session holds one).
\<close>

theorem frozen_session_freed_twice:
  assumes "ms_frozen (w_sessions w s) t = Some False" and "ms_unfrozen_threads_count (w_sessions w s) = 1"
    and f: "session_freeze t s w = Inr w1"
  shows "mm_ram_reserved_bytes (w_mm (snd (session_dtor t s w1))) =
    u64_sub (u64_sub (mm_ram_reserved_bytes (w_mm w)) (ms_ram_limit_bytes (w_sessions w s))) (ms_ram_limit_bytes (w_sessions w s))"
proof -
  obtain w2 where w2: "freeze_all t (ms_sub_sessions (w_sessions w s))
      (upd_session s (\<lambda>ms. ms\<lparr>ms_unfrozen_threads_count := ms_unfrozen_threads_count ms - 1,
                               ms_frozen := (ms_frozen ms)(t := Some True)\<rparr>) w) = Inr w2"
    and w1: "w1 = w2\<lparr>w_mm := snd (free_ram_bytes (ms_ram_limit_bytes (w_sessions w s)) (w_mm w2))\<rparr>"
    using assms by (auto simp: session_freeze_def Let_def res_simps)
  have "w_mm w2 = w_mm w" "ms_ram_limit_bytes (w_sessions w2 s) = ms_ram_limit_bytes (w_sessions w s)"
    using freeze_all_frame [OF w2, of s] by simp_all
  then show ?thesis
    by (simp add: w1 session_dtor_def sub_session_dtor_def sub_end_def session_end_def deactivate_def Let_def
        free_ram_bytes_def free_total_bytes_def)
qed

theorem frozen_session_freed_twice_witness:
  "\<exists>w1. session_freeze 7 0 running_world = Inr w1 \<and>
     mm_ram_reserved_bytes (w_mm (snd (session_dtor 7 0 w1))) = 2 ^ 64 - 32768"
proof -
  have "\<exists>w1. session_freeze 7 0 running_world = Inr w1"
    by (simp add: session_freeze_def sub_freeze_def running_world_def one_block_def empty_session_def Let_def)
  then obtain w1 where w1: "session_freeze 7 0 running_world = Inr w1" by blast
  have "mm_ram_reserved_bytes (w_mm (snd (session_dtor 7 0 w1))) = 2 ^ 64 - 32768"
    using frozen_session_freed_twice [OF _ _ w1]
    by (simp add: running_world_def one_block_def empty_session_def sample_mm_def u64_sub_def u64_max_def)
  then show ?thesis using w1 by blast
qed

lemma page_round_le: "0 < P \<Longrightarrow> (n + P - 1) div P * P \<le> n + P - (1::nat)"
  by simp

lemma ss_allocate_ram:
  assumes a: "ss_allocate mm mmap self n (ss, ms) = Inr (p, ss', ms')" and cfg: "mm_config_ok mm"
    and small: "ms_ram_allocated_bytes ms + n + get_page_size mm + get_single_small_alloc_bytes mm < u64_max"
  shows "ms_ram_allocated_bytes ms' < ms_ram_allocated_bytes ms + n + max (get_page_size mm) (get_single_small_alloc_bytes mm + 1)"
proof (cases "n > get_max_small_alloc_bytes mm")
  case True
  have "alloc_size mm n \<le> n + get_page_size mm - 1"
    using page_round_le [of "get_page_size mm" n] True cfg by (simp add: alloc_size_def mm_config_ok_def)
  moreover have "ms_ram_allocated_bytes ms' = u64_add (ms_ram_allocated_bytes ms) (alloc_size mm n)"
    using a ss_allocate_large [OF cfg _ True, of mmap self "(ss, ms)"] small
    by (auto simp: add_alloc_def split: option.splits)
  ultimately show ?thesis using small cfg by (simp add: u64_add_nowrap mm_config_ok_def)
next
  case False
  have "ms' = ms \<or> ms_ram_allocated_bytes ms' = u64_add (ms_ram_allocated_bytes ms) (get_single_small_alloc_bytes mm)"
    using a False by (auto simp: ss_allocate_def Let_def add_alloc_def split: option.splits if_splits)
  then show ?thesis using small by (auto simp: u64_add_nowrap)
qed

text \<open>
  C9. What the session limit really bounds: the allocator compares the requested bytes with the
  limit but accounts whole pages and whole small regions, so after a successful allocation
  the accounted RAM is at most the limit plus one page or one small region, whichever is larger.
\<close>

theorem allocator_overshoot_bound:
  assumes "allocator_allocate sz max_sz mmap t n w = Inr (p, w')" and "n \<noteq> 0" and "sz * n < u64_max"
    and "mm_config_ok (w_mm w)" and cur: "w_current w t = Some i"
    and small: "ms_ram_allocated_bytes (w_sessions w (ss_parent (w_subs w i))) + sz * n + get_page_size (w_mm w)
        + get_single_small_alloc_bytes (w_mm w) < u64_max"
  shows "ms_ram_allocated_bytes (w_sessions w' (ss_parent (w_subs w i))) \<le>
    ms_ram_limit_bytes (w_sessions w (ss_parent (w_subs w i))) + max (get_page_size (w_mm w)) (get_single_small_alloc_bytes (w_mm w))"
proof -
  let ?ms = "w_sessions w (ss_parent (w_subs w i))"
  have n: "u64_mul sz n = sz * n" using assms(3) by (rule u64_mul_nowrap)
  have "u64_add (ms_ram_allocated_bytes ?ms) (sz * n) = ms_ram_allocated_bytes ?ms + sz * n"
    using small by (simp add: u64_add_nowrap)
  then obtain ss ms where lim: "ms_ram_allocated_bytes ?ms + sz * n \<le> ms_ram_limit_bytes ?ms"
    and a: "ss_allocate (w_mm w) mmap i (sz * n) (w_subs w i, ?ms) = Inr (p, ss, ms)"
    and w': "w' = upd_session (ss_parent (w_subs w i)) (\<lambda>_. ms) (upd_sub i (\<lambda>_. ss) w)"
    using assms(1,2) cur n by (auto simp: allocator_allocate_def sub_current_def sub_get_parent_def Let_def res_simps split: if_splits)
  show ?thesis using ss_allocate_ram [OF a assms(4)] small lim by (simp add: w')
qed

definition tight_session :: memory_session where
  "tight_session = (snd one_block)\<lparr>ms_ram_limit_bytes := 34200, ms_total_limit_bytes := 34200\<rparr>"

definition tight_world :: mm_world where
  "tight_world = running_world\<lparr>w_mm := sample_mm, w_sessions := (\<lambda>_. tight_session)\<rparr>"

lemma tight_session_fields:
  "ms_ram_allocated_bytes tight_session = 4096" "ms_total_allocated_bytes tight_session = 4096"
  "ms_ram_limit_bytes tight_session = 34200" "ms_total_limit_bytes tight_session = 34200"
  by (simp_all add: tight_session_def one_block_def)

lemma tight_world_fields:
  "w_mm tight_world = sample_mm" "w_sessions tight_world s = tight_session" "w_current tight_world 7 = Some 0"
  "ss_parent (w_subs tight_world i) = 0" "ss_frozen (w_subs tight_world i) 7 = Some False"
  by (simp_all add: tight_world_def running_world_def one_block_def empty_sub_session_def)

theorem allocator_overshoot_bound_witness:
  "\<exists>w'. allocator_allocate 1 (2 ^ 62) (\<lambda>_. Some 32768) 7 30000 tight_world = Inr (32768, w') \<and>
     ms_ram_allocated_bytes (w_sessions w' 0) = 36864 \<and> ms_ram_allocated_bytes (w_sessions w' 0) \<le> 34200 + 4096"
proof -
  have "ss_allocate sample_mm (\<lambda>_. Some 32768) 0 30000 (w_subs tight_world 0, tight_session) =
      Inr (32768, add_alloc 0 32768 32768 (w_subs tight_world 0, tight_session))"
    by (subst ss_allocate_large [OF sample_mm_ok]) (simp_all add: sample_mm_sizes u64_max_def alloc_size_def)
  then have "\<exists>w'. allocator_allocate 1 (2 ^ 62) (\<lambda>_. Some 32768) 7 30000 tight_world = Inr (32768, w') \<and>
      ms_ram_allocated_bytes (w_sessions w' 0) = 36864"
    by (simp add: allocator_allocate_def sub_current_def sub_is_frozen_def sub_get_parent_def Let_def tight_world_fields
        tight_session_fields u64_mul_def u64_add_def u64_max_def add_alloc_def)
  then obtain w' where w': "allocator_allocate 1 (2 ^ 62) (\<lambda>_. Some 32768) 7 30000 tight_world = Inr (32768, w')"
    "ms_ram_allocated_bytes (w_sessions w' 0) = 36864" by blast
  have "ms_ram_allocated_bytes (w_sessions w' 0) \<le> 34200 + 4096"
    using allocator_overshoot_bound [OF w'(1) _ _ _ tight_world_fields(3)] sample_mm_ok
    by (simp add: tight_world_fields tight_session_fields sample_mm_sizes u64_max_def)
  then show ?thesis using w' by blast
qed

end
