(* ===== verification/Encoders.thy ===== *)
theory Encoders
  imports Coh_Prelude
begin

text \<open>
  \<open>src/include/serialization/encoders/buffer_encoder.h\<close> and \<open>file_encoder.h\<close>: where encoded
  bytes go and come from. A codec sees only the two members an encoder or decoder offers,
  gathered in the records \<open>encoder\<close> and \<open>decoder\<close>; the locales \<open>byte_sink\<close> and
  \<open>byte_source\<close> say what they promise. The buffer and the file variants are interpretations.

  The system calls \<open>write\<close> and \<open>read\<close> are parameters of the file variants: \<open>kwrite\<close> gets the
  bytes and the file and returns the result of the call with the new file, \<open>kread\<close> gets the
  size of the buffer and the file and returns the bytes read. A result of -1 is an error.
\<close>

section \<open>Interfaces\<close>

record 's encoder =
  e_write_char :: "u8 \<Rightarrow> 's \<Rightarrow> 's res"
  e_memcpy :: "u8 list \<Rightarrow> 's \<Rightarrow> 's res"

record 's decoder =
  d_get_char :: "'s \<Rightarrow> (u8 \<times> 's) res"
  d_memcpy :: "nat \<Rightarrow> 's \<Rightarrow> (u8 list \<times> 's) res"

locale byte_sink =
  fixes enc :: "'s encoder"
    and out :: "'s \<Rightarrow> u8 list"
    and ok :: "'s \<Rightarrow> bool"
  assumes write_ok: "ok s \<Longrightarrow> \<exists>s'. e_write_char enc c s = Inr s' \<and> ok s' \<and> out s' = out s @ [c]"
    and memcpy_ok: "ok s \<Longrightarrow> \<exists>s'. e_memcpy enc bs s = Inr s' \<and> ok s' \<and> out s' = out s @ bs"
begin

text \<open>\<open>emits e f\<close>: the encoding operation \<open>e\<close> appends the bytes \<open>f x\<close> for the value \<open>x\<close>.\<close>

definition emits :: "('a \<Rightarrow> 's \<Rightarrow> 's res) \<Rightarrow> ('a \<Rightarrow> u8 list) \<Rightarrow> bool" where
  "emits e f \<longleftrightarrow> (\<forall>x s. ok s \<longrightarrow> (\<exists>s'. e x s = Inr s' \<and> ok s' \<and> out s' = out s @ f x))"

lemma emitsI: "(\<And>x s. ok s \<Longrightarrow> \<exists>s'. e x s = Inr s' \<and> ok s' \<and> out s' = out s @ f x) \<Longrightarrow> emits e f"
  by (simp add: emits_def)

lemma emitsD: "emits e f \<Longrightarrow> ok s \<Longrightarrow> \<exists>s'. e x s = Inr s' \<and> ok s' \<and> out s' = out s @ f x"
  by (simp add: emits_def)

lemma emits_write_char: "emits (e_write_char enc) (\<lambda>c. [c])"
  by (rule emitsI) (rule write_ok)

lemma emits_memcpy: "emits (e_memcpy enc) id"
  by (rule emitsI) (unfold id_apply, rule memcpy_ok)

lemma emits_then:
  assumes "emits e f" and "emits e' f'"
  shows "emits (\<lambda>p s. bind_res (e (fst p) s) (e' (snd p))) (\<lambda>p. f (fst p) @ f' (snd p))"
proof (rule emitsI)
  fix p :: "'a \<times> 'b" and s assume "ok s"
  obtain s1 where s1: "e (fst p) s = Inr s1" "ok s1" "out s1 = out s @ f (fst p)" using emitsD [OF assms(1) \<open>ok s\<close>] by blast
  obtain s2 where "e' (snd p) s1 = Inr s2" "ok s2" "out s2 = out s1 @ f' (snd p)" using emitsD [OF assms(2) s1(2)] by blast
  then show "\<exists>s'. bind_res (e (fst p) s) (e' (snd p)) = Inr s' \<and> ok s' \<and> out s' = out s @ f (fst p) @ f' (snd p)"
    using s1 by simp
qed

end

locale byte_source =
  fixes dec :: "'s decoder"
    and rest :: "'s \<Rightarrow> u8 list"
    and ok :: "'s \<Rightarrow> bool"
  assumes get_ok: "ok s \<Longrightarrow> rest s = c # cs \<Longrightarrow> \<exists>s'. d_get_char dec s = Inr (c, s') \<and> ok s' \<and> rest s' = cs"
    and memcpy_ok: "ok s \<Longrightarrow> rest s = xs @ ys \<Longrightarrow> xs \<noteq> [] \<Longrightarrow>
          \<exists>s'. d_memcpy dec (length xs) s = Inr (xs, s') \<and> ok s' \<and> rest s' = ys"
begin

text \<open>\<open>reads d f D\<close>: in front of the bytes \<open>f x\<close> of a value \<open>x\<close> in \<open>D\<close>, \<open>d\<close> returns \<open>x\<close>.\<close>

definition reads :: "('s \<Rightarrow> ('a \<times> 's) res) \<Rightarrow> ('a \<Rightarrow> u8 list) \<Rightarrow> ('a \<Rightarrow> bool) \<Rightarrow> bool" where
  "reads d f D \<longleftrightarrow> (\<forall>x s ys. D x \<longrightarrow> ok s \<longrightarrow> rest s = f x @ ys \<longrightarrow> (\<exists>s'. d s = Inr (x, s') \<and> ok s' \<and> rest s' = ys))"

lemma readsI:
  "(\<And>x s ys. D x \<Longrightarrow> ok s \<Longrightarrow> rest s = f x @ ys \<Longrightarrow> \<exists>s'. d s = Inr (x, s') \<and> ok s' \<and> rest s' = ys) \<Longrightarrow> reads d f D"
  by (simp add: reads_def)

lemma readsD:
  "reads d f D \<Longrightarrow> D x \<Longrightarrow> ok s \<Longrightarrow> rest s = f x @ ys \<Longrightarrow> \<exists>s'. d s = Inr (x, s') \<and> ok s' \<and> rest s' = ys"
  by (simp add: reads_def)

lemma reads_get_char: "reads (d_get_char dec) (\<lambda>c. [c]) (\<lambda>_. True)"
  by (rule readsI) (simp add: get_ok)

lemma reads_memcpy: "0 < n \<Longrightarrow> reads (d_memcpy dec n) id (\<lambda>xs. length xs = n)"
proof (rule readsI)
  fix xs s ys assume "0 < n" "length xs = n" "ok s" "rest s = id xs @ ys"
  then show "\<exists>s'. d_memcpy dec n s = Inr (xs, s') \<and> ok s' \<and> rest s' = ys"
    using memcpy_ok [of s xs ys] by auto
qed

lemma reads_then:
  assumes "reads d f D" and "reads d' f' D'"
  shows "reads (\<lambda>s. bind_res (d s) (\<lambda>(x, s). bind_res (d' s) (\<lambda>(y, s). Inr ((x, y), s))))
    (\<lambda>p. f (fst p) @ f' (snd p)) (\<lambda>p. D (fst p) \<and> D' (snd p))"
proof (rule readsI)
  fix p :: "'a \<times> 'b" and s ys
  assume D: "D (fst p) \<and> D' (snd p)" and s: "ok s" "rest s = (f (fst p) @ f' (snd p)) @ ys"
  obtain s1 where s1: "d s = Inr (fst p, s1)" "ok s1" "rest s1 = f' (snd p) @ ys"
    using readsD [OF assms(1) _ s(1), of "fst p" "f' (snd p) @ ys"] D s(2) by auto
  obtain s2 where "d' s1 = Inr (snd p, s2)" "ok s2" "rest s2 = ys" using readsD [OF assms(2) _ s1(2,3)] D by auto
  then show "\<exists>s'. bind_res (d s) (\<lambda>(x, s). bind_res (d' s) (\<lambda>(y, s). Inr ((x, y), s))) = Inr (p, s') \<and> ok s' \<and> rest s' = ys"
    using s1 by simp
qed

end

section \<open>Buffers\<close>

definition buf_write_char :: "u8 \<Rightarrow> u8 list \<Rightarrow> u8 list res" where
  "buf_write_char c buffer = Inr (buffer @ [c])"

definition buf_memcpy :: "u8 list \<Rightarrow> u8 list \<Rightarrow> u8 list res" where
  "buf_memcpy src buffer = Inr (buffer @ src)"

definition buffer_encoder :: "u8 list encoder" where
  "buffer_encoder = \<lparr>e_write_char = buf_write_char, e_memcpy = buf_memcpy\<rparr>"

text \<open>The decoder's two iterators are the bytes between them.\<close>

definition buf_get_char :: "u8 list \<Rightarrow> (u8 \<times> u8 list) res" where
  "buf_get_char bs = (case bs of [] \<Rightarrow> Inl Out_of_range | c # cs \<Rightarrow> Inr (c, cs))"

definition buf_memcpy_out :: "nat \<Rightarrow> u8 list \<Rightarrow> (u8 list \<times> u8 list) res" where
  "buf_memcpy_out n bs = (if length bs < n then Inl Out_of_range else Inr (take n bs, drop n bs))"

definition buffer_decoder :: "u8 list decoder" where
  "buffer_decoder = \<lparr>d_get_char = buf_get_char, d_memcpy = buf_memcpy_out\<rparr>"

interpretation buf_sink: byte_sink buffer_encoder id "\<lambda>_. True"
  by unfold_locales (simp_all add: buffer_encoder_def buf_write_char_def buf_memcpy_def)

interpretation buf_source: byte_source buffer_decoder id "\<lambda>_. True"
  by unfold_locales (simp_all add: buffer_decoder_def buf_get_char_def buf_memcpy_out_def)

section \<open>Files\<close>

record 'f file_encoder =
  fe_fd :: 'f
  fe_bufferSize :: nat
  fe_buffer :: "u8 list"

type_synonym 'f kwrite = "u8 list \<Rightarrow> 'f \<Rightarrow> int \<times> 'f"

definition fe_flush :: "'f kwrite \<Rightarrow> 'f file_encoder \<Rightarrow> 'f file_encoder res" where
  "fe_flush kwrite e =
     (if fe_buffer e \<noteq> [] then
        (case kwrite (fe_buffer e) (fe_fd e) of (len, fd) \<Rightarrow>
           if len \<noteq> int (length (fe_buffer e)) then Inl Runtime_error
           else Inr (e\<lparr>fe_fd := fd, fe_buffer := []\<rparr>))
      else Inr e)"

definition fe_write_char :: "'f kwrite \<Rightarrow> u8 \<Rightarrow> 'f file_encoder \<Rightarrow> 'f file_encoder res" where
  "fe_write_char kwrite c e =
     bind_res (if length (fe_buffer e) \<ge> fe_bufferSize e then fe_flush kwrite e else Inr e) (\<lambda>e.
       Inr (e\<lparr>fe_buffer := fe_buffer e @ [c]\<rparr>))"

fun fe_memcpy_loop :: "'f kwrite \<Rightarrow> nat \<Rightarrow> u8 list \<Rightarrow> 'f file_encoder \<Rightarrow> 'f file_encoder res" where
  "fe_memcpy_loop kwrite 0 src e = Inl Diverges"
| "fe_memcpy_loop kwrite (Suc fuel) src e =
     bind_res (if length (fe_buffer e) \<ge> fe_bufferSize e then fe_flush kwrite e else Inr e) (\<lambda>e.
       let toWrite = min (length src) (u64_sub (fe_bufferSize e) (length (fe_buffer e)));
           e = e\<lparr>fe_buffer := fe_buffer e @ take toWrite src\<rparr>;
           src = drop toWrite src
       in if src = [] then Inr e else fe_memcpy_loop kwrite fuel src e)"

definition fe_memcpy :: "'f kwrite \<Rightarrow> u8 list \<Rightarrow> 'f file_encoder \<Rightarrow> 'f file_encoder res" where
  "fe_memcpy kwrite src e = fe_memcpy_loop kwrite (length src + 1) src e"

definition file_encoder :: "'f kwrite \<Rightarrow> 'f file_encoder encoder" where
  "file_encoder kwrite = \<lparr>e_write_char = fe_write_char kwrite, e_memcpy = fe_memcpy kwrite\<rparr>"

record 'f file_decoder =
  fd_fd :: 'f
  fd_bufferSize :: nat
  fd_buffer :: "u8 list"
  fd_pos :: nat

text \<open>\<open>read\<close> returns \<open>None\<close> on an error and otherwise the bytes, none at the end of the file.\<close>

type_synonym 'f kread = "nat \<Rightarrow> 'f \<Rightarrow> u8 list option \<times> 'f"

definition fd_advance :: "'f kread \<Rightarrow> 'f file_decoder \<Rightarrow> 'f file_decoder res" where
  "fd_advance kread d =
     (case kread (fd_bufferSize d) (fd_fd d) of
        (None, _) \<Rightarrow> Inl Runtime_error
      | (Some bs, fd) \<Rightarrow>
          if bs = [] then Inl Runtime_error
          else Inr (d\<lparr>fd_fd := fd, fd_buffer := bs, fd_pos := 0\<rparr>))"

definition fd_get_char :: "'f kread \<Rightarrow> 'f file_decoder \<Rightarrow> (u8 \<times> 'f file_decoder) res" where
  "fd_get_char kread d =
     bind_res (if fd_pos d \<ge> length (fd_buffer d) then fd_advance kread d else Inr d) (\<lambda>d.
       Inr (fd_buffer d ! fd_pos d, d\<lparr>fd_pos := fd_pos d + 1\<rparr>))"

fun fd_memcpy_loop :: "'f kread \<Rightarrow> nat \<Rightarrow> nat \<Rightarrow> 'f file_decoder \<Rightarrow> (u8 list \<times> 'f file_decoder) res" where
  "fd_memcpy_loop kread 0 n d = Inl Diverges"
| "fd_memcpy_loop kread (Suc fuel) n d =
     bind_res (if fd_pos d \<ge> length (fd_buffer d) then fd_advance kread d else Inr d) (\<lambda>d.
       let toRead = min n (length (fd_buffer d) - fd_pos d);
           bs = take toRead (drop (fd_pos d) (fd_buffer d));
           d = d\<lparr>fd_pos := fd_pos d + toRead\<rparr>;
           n = n - toRead
       in if n = 0 then Inr (bs, d)
          else bind_res (fd_memcpy_loop kread fuel n d) (\<lambda>(cs, d). Inr (bs @ cs, d)))"

definition fd_memcpy :: "'f kread \<Rightarrow> nat \<Rightarrow> 'f file_decoder \<Rightarrow> (u8 list \<times> 'f file_decoder) res" where
  "fd_memcpy kread n d = fd_memcpy_loop kread (n + 1) n d"

definition file_decoder :: "'f kread \<Rightarrow> 'f file_decoder decoder" where
  "file_decoder kread = \<lparr>d_get_char = fd_get_char kread, d_memcpy = fd_memcpy kread\<rparr>"

section \<open>Files keep the interface\<close>

text \<open>
  What the encoder relies on in \<open>write\<close>: the call takes all the bytes it is given, in order.
  What the decoder relies on in \<open>read\<close>: it returns between one byte and the requested number
  while there are any (a short read is allowed), and does not skip.
\<close>

locale posix_write =
  fixes kwrite :: "'f kwrite" and contents :: "'f \<Rightarrow> u8 list"
  assumes kwrite_all: "\<exists>f'. kwrite bs f = (int (length bs), f') \<and> contents f' = contents f @ bs"
begin

definition fe_out :: "'f file_encoder \<Rightarrow> u8 list" where
  "fe_out e = contents (fe_fd e) @ fe_buffer e"

definition fe_ok :: "'f file_encoder \<Rightarrow> bool" where
  "fe_ok e \<longleftrightarrow> 0 < fe_bufferSize e \<and> fe_bufferSize e < u64_max \<and> length (fe_buffer e) \<le> fe_bufferSize e"

lemma fe_flush_ok:
  assumes "fe_ok e"
  shows "\<exists>e'. fe_flush kwrite e = Inr e' \<and> fe_ok e' \<and> fe_buffer e' = [] \<and> fe_out e' = fe_out e \<and> fe_bufferSize e' = fe_bufferSize e"
proof (cases "fe_buffer e = []")
  case False
  obtain f' where "kwrite (fe_buffer e) (fe_fd e) = (int (length (fe_buffer e)), f')" "contents f' = contents (fe_fd e) @ fe_buffer e"
    using kwrite_all by blast
  then show ?thesis using False assms by (simp add: fe_flush_def fe_ok_def fe_out_def)
qed (use assms in \<open>simp add: fe_flush_def\<close>)

text \<open>The test in front of both operations leaves room for at least one byte.\<close>

lemma fe_room:
  assumes "fe_ok e"
  shows "\<exists>e'. (if length (fe_buffer e) \<ge> fe_bufferSize e then fe_flush kwrite e else Inr e) = Inr e' \<and>
    fe_ok e' \<and> length (fe_buffer e') < fe_bufferSize e' \<and> fe_out e' = fe_out e"
  using fe_flush_ok [OF assms] assms by (auto simp: fe_ok_def)

lemma fe_memcpy_loop_ok:
  "fe_ok e \<Longrightarrow> length src < fuel \<Longrightarrow>
     \<exists>e'. fe_memcpy_loop kwrite fuel src e = Inr e' \<and> fe_ok e' \<and> fe_out e' = fe_out e @ src"
proof (induction fuel arbitrary: src e)
  case (Suc fuel)
  obtain e1 where e1: "(if length (fe_buffer e) \<ge> fe_bufferSize e then fe_flush kwrite e else Inr e) = Inr e1"
    "fe_ok e1" "length (fe_buffer e1) < fe_bufferSize e1" "fe_out e1 = fe_out e"
    using fe_room [OF Suc.prems(1)] by blast
  define k where "k = min (length src) (fe_bufferSize e1 - length (fe_buffer e1))"
  define e2 where "e2 = e1\<lparr>fe_buffer := fe_buffer e1 @ take k src\<rparr>"
  have k: "min (length src) (u64_sub (fe_bufferSize e1) (length (fe_buffer e1))) = k"
    using e1(2) by (simp add: k_def fe_ok_def u64_sub_nowrap)
  have ok2: "fe_ok e2" "fe_out e2 = fe_out e @ take k src"
    using e1(2-4) by (auto simp: e2_def fe_ok_def fe_out_def k_def)
  have step: "fe_memcpy_loop kwrite (Suc fuel) src e =
      (if drop k src = [] then Inr e2 else fe_memcpy_loop kwrite fuel (drop k src) e2)"
    unfolding fe_memcpy_loop.simps e1(1) bind_res_Inr Let_def k e2_def by (rule refl)
  show ?case
  proof (cases "drop k src = []")
    case True
    then show ?thesis using ok2 step by (metis append_take_drop_id self_append_conv)
  next
    case False
    then have "0 < k" using e1(3) by (simp add: k_def)
    then have "length (drop k src) < fuel" using Suc.prems(2) False by auto
    then obtain e3 where "fe_memcpy_loop kwrite fuel (drop k src) e2 = Inr e3" "fe_ok e3" "fe_out e3 = fe_out e2 @ drop k src"
      using Suc.IH [OF ok2(1)] by blast
    then show ?thesis using step False ok2(2) by simp
  qed
qed simp

end

sublocale posix_write \<subseteq> file_sink: byte_sink "file_encoder kwrite" fe_out fe_ok
proof
  fix s c assume ok: "fe_ok s"
  show "\<exists>s'. e_write_char (file_encoder kwrite) c s = Inr s' \<and> fe_ok s' \<and> fe_out s' = fe_out s @ [c]"
    using fe_room [OF ok] by (auto simp: file_encoder_def fe_write_char_def fe_ok_def fe_out_def)
next
  fix s bs assume ok: "fe_ok s"
  show "\<exists>s'. e_memcpy (file_encoder kwrite) bs s = Inr s' \<and> fe_ok s' \<and> fe_out s' = fe_out s @ bs"
    using fe_memcpy_loop_ok [OF ok, of bs "length bs + 1"] by (simp add: file_encoder_def fe_memcpy_def)
qed

locale posix_read =
  fixes kread :: "'f kread" and unread :: "'f \<Rightarrow> u8 list"
  assumes kread_some: "0 < n \<Longrightarrow> unread f \<noteq> [] \<Longrightarrow>
    \<exists>bs f'. kread n f = (Some bs, f') \<and> bs \<noteq> [] \<and> length bs \<le> n \<and> unread f = bs @ unread f'"
begin

definition fd_rest :: "'f file_decoder \<Rightarrow> u8 list" where
  "fd_rest d = drop (fd_pos d) (fd_buffer d) @ unread (fd_fd d)"

definition fd_ok :: "'f file_decoder \<Rightarrow> bool" where
  "fd_ok d \<longleftrightarrow> 0 < fd_bufferSize d"

lemma fd_avail:
  assumes "fd_ok d" and "fd_rest d \<noteq> []"
  shows "\<exists>d'. (if fd_pos d \<ge> length (fd_buffer d) then fd_advance kread d else Inr d) = Inr d' \<and>
    fd_ok d' \<and> fd_pos d' < length (fd_buffer d') \<and> fd_rest d' = fd_rest d"
proof (cases "fd_pos d \<ge> length (fd_buffer d)")
  case True
  then have "unread (fd_fd d) \<noteq> []" using assms(2) by (simp add: fd_rest_def)
  then obtain bs f' where "kread (fd_bufferSize d) (fd_fd d) = (Some bs, f')" "bs \<noteq> []" "unread (fd_fd d) = bs @ unread f'"
    using kread_some assms(1) unfolding fd_ok_def by blast
  then show ?thesis using True assms by (simp add: fd_advance_def fd_ok_def fd_rest_def)
qed (use assms in simp)

lemma fd_memcpy_loop_ok:
  "fd_ok d \<Longrightarrow> fd_rest d = xs @ ys \<Longrightarrow> xs \<noteq> [] \<Longrightarrow> length xs < fuel \<Longrightarrow>
     \<exists>d'. fd_memcpy_loop kread fuel (length xs) d = Inr (xs, d') \<and> fd_ok d' \<and> fd_rest d' = ys"
proof (induction fuel arbitrary: xs d)
  case (Suc fuel)
  obtain d1 where d1: "(if fd_pos d \<ge> length (fd_buffer d) then fd_advance kread d else Inr d) = Inr d1"
    "fd_ok d1" "fd_pos d1 < length (fd_buffer d1)" "fd_rest d1 = xs @ ys"
    using fd_avail [OF Suc.prems(1)] Suc.prems(2,3) by auto
  define k where "k = min (length xs) (length (fd_buffer d1) - fd_pos d1)"
  define d2 where "d2 = d1\<lparr>fd_pos := fd_pos d1 + k\<rparr>"
  have bs: "take k (drop (fd_pos d1) (fd_buffer d1)) = take k xs"
  proof -
    have "take k (drop (fd_pos d1) (fd_buffer d1)) = take k (fd_rest d1)" by (simp add: fd_rest_def k_def)
    then show ?thesis unfolding d1(4) by (simp add: k_def)
  qed
  have d2: "fd_ok d2" "fd_rest d2 = drop k xs @ ys"
  proof -
    have "fd_rest d2 = drop k (fd_rest d1)" by (simp add: d2_def fd_rest_def k_def add.commute)
    then show "fd_rest d2 = drop k xs @ ys" unfolding d1(4) by (simp add: k_def)
  qed (use d1(2) in \<open>simp add: d2_def fd_ok_def\<close>)
  have step: "fd_memcpy_loop kread (Suc fuel) (length xs) d =
      (if length xs - k = 0 then Inr (take k xs, d2)
       else bind_res (fd_memcpy_loop kread fuel (length xs - k) d2) (\<lambda>(cs, d). Inr (take k xs @ cs, d)))"
    unfolding fd_memcpy_loop.simps d1(1) bind_res_Inr Let_def k_def [symmetric] bs d2_def by (rule refl)
  show ?case
  proof (cases "length xs - k = 0")
    case True
    then show ?thesis using step d2 by simp
  next
    case False
    have "0 < k" using d1(3) Suc.prems(3) by (simp add: k_def)
    then have "length (drop k xs) < fuel" "drop k xs \<noteq> []" using Suc.prems(4) False by auto
    then obtain d3 where "fd_memcpy_loop kread fuel (length xs - k) d2 = Inr (drop k xs, d3)" "fd_ok d3" "fd_rest d3 = ys"
      using Suc.IH [OF d2] by auto
    then show ?thesis using step False by simp
  qed
qed simp

end

sublocale posix_read \<subseteq> file_source: byte_source "file_decoder kread" fd_rest fd_ok
proof
  fix s c cs assume ok: "fd_ok s" and r: "fd_rest s = c # cs"
  obtain d where d: "(if fd_pos s \<ge> length (fd_buffer s) then fd_advance kread s else Inr s) = Inr d"
    "fd_ok d" "fd_pos d < length (fd_buffer d)" "fd_rest d = c # cs"
    using fd_avail [OF ok] r by auto
  have "drop (fd_pos d) (fd_buffer d) = fd_buffer d ! fd_pos d # drop (fd_pos d + 1) (fd_buffer d)"
    using d(3) by (simp add: Cons_nth_drop_Suc)
  then show "\<exists>s'. d_get_char (file_decoder kread) s = Inr (c, s') \<and> fd_ok s' \<and> fd_rest s' = cs"
    using d by (simp add: file_decoder_def fd_get_char_def fd_ok_def fd_rest_def)
next
  fix s xs ys assume "fd_ok s" "fd_rest s = xs @ ys" "xs \<noteq> []"
  then show "\<exists>s'. d_memcpy (file_decoder kread) (length xs) s = Inr (xs, s') \<and> fd_ok s' \<and> fd_rest s' = ys"
    using fd_memcpy_loop_ok [of s xs ys "length xs + 1"] by (simp add: file_decoder_def fd_memcpy_def)
qed

text \<open>A file kept in memory, written at the end and read from the front, satisfies both.\<close>

definition mem_write :: "u8 list kwrite" where
  "mem_write bs f = (int (length bs), f @ bs)"

definition mem_read :: "u8 list kread" where
  "mem_read n f = (Some (take n f), drop n f)"

interpretation mem_out: posix_write mem_write id
  by unfold_locales (simp add: mem_write_def)

interpretation mem_in: posix_read mem_read id
  by unfold_locales (auto simp: mem_read_def)

end
