(* ===== verification/Codecs.thy ===== *)
theory Codecs
  imports Encoders Std_Containers
begin

unbundle bit_operations_syntax

text \<open>
  \<open>src/include/serialization/codecs\<close>: \<open>little_endian.h\<close>, \<open>big_endian.h\<close>,
  \<open>standard_codecs.h\<close> and \<open>optimizers.h\<close>. A codec is a pair of operations on an encoder and
  a decoder; the C++ call \<open>enc(x)\<close> inside a codec is the encoding operation of the element
  type, an argument here. An integer of type \<open>T\<close> is a word of its width; \<open>x >> i\<close> is
  \<open>drop_bit\<close> for unsigned and \<open>signed_drop_bit\<close> for signed types, the argument \<open>shr\<close>.
\<close>

definition sizeof_word :: "'w::len word \<Rightarrow> nat" where
  "sizeof_word x = size x div 8"

section \<open>Integers\<close>

function le_encode_loop :: "'s encoder \<Rightarrow> (nat \<Rightarrow> 'w::len word \<Rightarrow> 'w word) \<Rightarrow> 'w word \<Rightarrow> nat \<Rightarrow> 's \<Rightarrow> 's res" where
  "le_encode_loop enc shr x i s =
     (if i < 8 * sizeof_word x
      then bind_res (e_write_char enc (ucast (shr i x AND 0xff)) s) (le_encode_loop enc shr x (i + 8))
      else Inr s)"
  by pat_completeness auto
termination
  by (relation "measure (\<lambda>(enc, shr, x, i, s). 8 * sizeof_word x - i)") auto

definition le_int_encode :: "'s encoder \<Rightarrow> (nat \<Rightarrow> 'w::len word \<Rightarrow> 'w word) \<Rightarrow> 'w word \<Rightarrow> 's \<Rightarrow> 's res" where
  "le_int_encode enc shr x s = le_encode_loop enc shr x 0 s"

function le_decode_loop :: "'s decoder \<Rightarrow> 'w::len word \<Rightarrow> nat \<Rightarrow> 's \<Rightarrow> ('w word \<times> 's) res" where
  "le_decode_loop dec x i s =
     (if i < sizeof_word x
      then bind_res (d_get_char dec s) (\<lambda>(c, s). le_decode_loop dec (x OR push_bit (8 * i) (ucast c)) (i + 1) s)
      else Inr (x, s))"
  by pat_completeness auto
termination
  by (relation "measure (\<lambda>(dec, x, i, s). sizeof_word x - i)") (auto simp: sizeof_word_def word_size)

definition le_int_decode :: "'s decoder \<Rightarrow> 's \<Rightarrow> ('w::len word \<times> 's) res" where
  "le_int_decode dec s = le_decode_loop dec 0 0 s"

function be_encode_loop :: "'s encoder \<Rightarrow> (nat \<Rightarrow> 'w::len word \<Rightarrow> 'w word) \<Rightarrow> 'w word \<Rightarrow> nat \<Rightarrow> 's \<Rightarrow> 's res" where
  "be_encode_loop enc shr x i s =
     (if i \<noteq> 0
      then let i = i - 8 in bind_res (e_write_char enc (ucast (shr i x)) s) (be_encode_loop enc shr x i)
      else Inr s)"
  by pat_completeness auto
termination
  by (relation "measure (\<lambda>(enc, shr, x, i, s). i)") auto

definition be_int_encode :: "'s encoder \<Rightarrow> (nat \<Rightarrow> 'w::len word \<Rightarrow> 'w word) \<Rightarrow> 'w word \<Rightarrow> 's \<Rightarrow> 's res" where
  "be_int_encode enc shr x s = be_encode_loop enc shr x (8 * sizeof_word x) s"

fun be_decode_loop :: "'s decoder \<Rightarrow> nat \<Rightarrow> 'w::len word \<Rightarrow> 's \<Rightarrow> ('w word \<times> 's) res" where
  "be_decode_loop dec 0 x s = Inr (x, s)"
| "be_decode_loop dec (Suc n) x s =
     bind_res (d_get_char dec s) (\<lambda>(c, s). be_decode_loop dec n (push_bit 8 x OR ucast c) s)"

definition be_int_decode :: "'s decoder \<Rightarrow> 's \<Rightarrow> ('w::len word \<times> 's) res" where
  "be_int_decode dec s = be_decode_loop dec (sizeof_word (0 :: 'w word)) 0 s"

declare le_encode_loop.simps [simp del] le_decode_loop.simps [simp del] be_encode_loop.simps [simp del]

text \<open>\<open>char\<close> and \<open>uint8_t\<close>.\<close>

definition char_encode :: "'s encoder \<Rightarrow> u8 \<Rightarrow> 's \<Rightarrow> 's res" where
  "char_encode enc c s = e_write_char enc c s"

definition char_decode :: "'s decoder \<Rightarrow> 's \<Rightarrow> (u8 \<times> 's) res" where
  "char_decode dec s = d_get_char dec s"

section \<open>Containers\<close>

fun encode_all :: "('a \<Rightarrow> 's \<Rightarrow> 's res) \<Rightarrow> 'a list \<Rightarrow> 's \<Rightarrow> 's res" where
  "encode_all e [] s = Inr s"
| "encode_all e (x # xs) s = bind_res (e x s) (encode_all e xs)"

fun decode_all :: "('s \<Rightarrow> ('a \<times> 's) res) \<Rightarrow> nat \<Rightarrow> 's \<Rightarrow> ('a list \<times> 's) res" where
  "decode_all d 0 s = Inr ([], s)"
| "decode_all d (Suc n) s = bind_res (d s) (\<lambda>(x, s). bind_res (decode_all d n s) (\<lambda>(xs, s). Inr (x # xs, s)))"

definition sequence_encode :: "(32 word \<Rightarrow> 's \<Rightarrow> 's res) \<Rightarrow> ('a \<Rightarrow> 's \<Rightarrow> 's res) \<Rightarrow> 'a list \<Rightarrow> 's \<Rightarrow> 's res" where
  "sequence_encode enc_u32 e xs s = bind_res (enc_u32 (word_of_nat (length xs)) s) (encode_all e xs)"

definition sequence_decode :: "('s \<Rightarrow> (32 word \<times> 's) res) \<Rightarrow> ('s \<Rightarrow> ('a \<times> 's) res) \<Rightarrow> 's \<Rightarrow> ('a list \<times> 's) res" where
  "sequence_decode dec_u32 d s = bind_res (dec_u32 s) (\<lambda>(x, s). decode_all d (unat x) s)"

text \<open>
  Sets: the elements in order, inserted one by one into the cleared container. The same template is the codec of maps, but only
  its encoding can be instantiated for them: the elements of a map are pairs with a constant first component, and decoding one
  asks for a codec of a constant type, which there is none of. Maps are therefore not decoded here.
\<close>

definition set_encode :: "(32 word \<Rightarrow> 's \<Rightarrow> 's res) \<Rightarrow> ('a \<Rightarrow> 's \<Rightarrow> 's res) \<Rightarrow> 'a list \<Rightarrow> 's \<Rightarrow> 's res" where
  "set_encode enc_u32 e cont s = bind_res (enc_u32 (word_of_nat (length cont)) s) (encode_all e cont)"

fun decode_insert :: "('s \<Rightarrow> ('a \<times> 's) res) \<Rightarrow> ('a \<Rightarrow> 'c \<Rightarrow> 'c) \<Rightarrow> nat \<Rightarrow> 'c \<Rightarrow> 's \<Rightarrow> ('c \<times> 's) res" where
  "decode_insert d ins 0 cont s = Inr (cont, s)"
| "decode_insert d ins (Suc n) cont s = bind_res (d s) (\<lambda>(v, s). decode_insert d ins n (ins v cont) s)"

definition set_decode :: "('s \<Rightarrow> (32 word \<times> 's) res) \<Rightarrow> ('s \<Rightarrow> ('a::linorder \<times> 's) res) \<Rightarrow> 's \<Rightarrow> ('a list \<times> 's) res" where
  "set_decode dec_u32 d s = bind_res (dec_u32 s) (\<lambda>(x, s). decode_insert d os_insert (unat x) [] s)"

definition pair_encode :: "('a \<Rightarrow> 's \<Rightarrow> 's res) \<Rightarrow> ('b \<Rightarrow> 's \<Rightarrow> 's res) \<Rightarrow> 'a \<times> 'b \<Rightarrow> 's \<Rightarrow> 's res" where
  "pair_encode e1 e2 p s = bind_res (e1 (fst p) s) (e2 (snd p))"

definition pair_decode :: "('s \<Rightarrow> ('a \<times> 's) res) \<Rightarrow> ('s \<Rightarrow> ('b \<times> 's) res) \<Rightarrow> 's \<Rightarrow> (('a \<times> 'b) \<times> 's) res" where
  "pair_decode d1 d2 s = bind_res (d1 s) (\<lambda>(x, s). bind_res (d2 s) (\<lambda>(y, s). Inr ((x, y), s)))"

section \<open>Optimizers\<close>

text \<open>
  The optimizers copy the memory of a value. How the machine lays an integer out in memory is the
  pair of arguments \<open>repr\<close> and \<open>unrepr\<close>.
\<close>

definition general_encode :: "('a \<Rightarrow> u8 list) \<Rightarrow> 's encoder \<Rightarrow> 'a \<Rightarrow> 's \<Rightarrow> 's res" where
  "general_encode repr enc x s = e_memcpy enc (repr x) s"

definition general_decode :: "(u8 list \<Rightarrow> 'a) \<Rightarrow> nat \<Rightarrow> 's decoder \<Rightarrow> 's \<Rightarrow> ('a \<times> 's) res" where
  "general_decode unrepr sz dec s = bind_res (d_memcpy dec sz s) (\<lambda>(bs, s). Inr (unrepr bs, s))"

definition seq_opt_encode :: "(32 word \<Rightarrow> 's \<Rightarrow> 's res) \<Rightarrow> ('a \<Rightarrow> u8 list) \<Rightarrow> 's encoder \<Rightarrow> 'a list \<Rightarrow> 's \<Rightarrow> 's res" where
  "seq_opt_encode enc_u32 repr enc xs s =
     bind_res (enc_u32 (word_of_nat (length xs)) s) (e_memcpy enc (concat (map repr xs)))"

fun split_chunks :: "nat \<Rightarrow> nat \<Rightarrow> u8 list \<Rightarrow> u8 list list" where
  "split_chunks sz 0 bs = []"
| "split_chunks sz (Suc n) bs = take sz bs # split_chunks sz n (drop sz bs)"

definition seq_opt_decode :: "('s \<Rightarrow> (32 word \<times> 's) res) \<Rightarrow> (u8 list \<Rightarrow> 'a) \<Rightarrow> nat \<Rightarrow> 's decoder \<Rightarrow> 's \<Rightarrow> ('a list \<times> 's) res" where
  "seq_opt_decode dec_u32 unrepr sz dec s =
     bind_res (dec_u32 s) (\<lambda>(x, s). bind_res (d_memcpy dec (sz * unat x) s) (\<lambda>(bs, s).
       Inr (map unrepr (split_chunks sz (unat x) bs), s)))"

text \<open>Which implementation the default set of optimizers selects for a type.\<close>

datatype cpp_type = Integral nat | Cpp_string | Cpp_vector cpp_type | Other_type

datatype codec_choice = Use_general | Use_sequence | Use_codec

definition default_optimizer :: "cpp_type \<Rightarrow> codec_choice" where
  "default_optimizer t = (case t of
     Integral sz \<Rightarrow> if sz \<ge> 8 then Use_general else Use_codec
   | Cpp_string \<Rightarrow> Use_sequence
   | Cpp_vector (Integral _) \<Rightarrow> Use_sequence
   | _ \<Rightarrow> Use_codec)"

end
