(* ===== verification/Codecs_Correct.thy ===== *)
theory Codecs_Correct
  imports Codecs "HOL-Library.List_Lexorder"
begin

unbundle bit_operations_syntax

text \<open>
  Round trips. For every codec the bytes it stands for are defined once; inside
  \<open>byte_sink\<close> it is shown to emit them and inside \<open>byte_source\<close> to read them back, so the
  properties hold for buffers and files alike and compose over nested containers.
\<close>

section \<open>Integers\<close>

definition byte_at :: "'w::len word \<Rightarrow> nat \<Rightarrow> u8" where
  "byte_at x j = ucast (drop_bit (8 * j) x)"

definition le_bytes :: "'w::len word \<Rightarrow> u8 list" where
  "le_bytes x = map (byte_at x) [0..<sizeof_word x]"

definition be_bytes :: "'w::len word \<Rightarrow> u8 list" where
  "be_bytes x = rev (le_bytes x)"

text \<open>A right shift that agrees with the logical one on the bytes that are looked at.\<close>

definition shr_ok :: "(nat \<Rightarrow> 'w::len word \<Rightarrow> 'w word) \<Rightarrow> bool" where
  "shr_ok shr \<longleftrightarrow> (\<forall>x i. i + 8 \<le> size x \<longrightarrow> (ucast (shr i x) :: u8) = ucast (drop_bit i x))"

lemma shr_ok_unsigned: "shr_ok drop_bit"
  by (simp add: shr_ok_def)

lemma shr_ok_signed: "shr_ok signed_drop_bit"
  unfolding shr_ok_def
  by (auto simp: bit_eq_iff bit_simps word_size)

lemma ucast_and_ff: "(ucast (x AND 0xff) :: u8) = ucast x"
proof (rule bit_eqI)
  fix n assume "possible_bit TYPE(u8) n"
  then have "n < 8" by simp
  moreover have "bit (0xff :: 'a word) n \<longleftrightarrow> n < 8 \<and> n < LENGTH('a)"
  proof -
    have "(0xff :: 'a word) = mask 8" by (simp add: mask_eq_exp_minus_1)
    then show ?thesis by (auto simp only: bit_mask_iff possible_bit_word)
  qed
  ultimately show "bit (ucast (x AND 0xff) :: u8) n = bit (ucast x :: u8) n"
    by (auto simp: bit_simps dest: bit_imp_le_length)
qed

lemma upt_step: "k < n \<Longrightarrow> map f [k..<n] = f k # map f [Suc k..<n]"
  by (simp add: upt_conv_Cons)

context byte_sink
begin

lemma le_encode_loop_ok:
  assumes shr: "shr_ok shr" and ok: "ok s" and k: "k \<le> sizeof_word x"
  shows "\<exists>s'. le_encode_loop enc shr x (8 * k) s = Inr s' \<and> ok s' \<and> out s' = out s @ map (byte_at x) [k..<sizeof_word x]"
  using ok k
proof (induction "sizeof_word x - k" arbitrary: k s)
  case 0
  then show ?case by (simp add: le_encode_loop.simps)
next
  case (Suc d)
  then have lt: "k < sizeof_word x" and dd: "d = sizeof_word x - Suc k" by simp_all
  then have b: "(ucast (shr (8 * k) x AND 0xff) :: u8) = byte_at x k"
    using shr unfolding ucast_and_ff byte_at_def shr_ok_def sizeof_word_def by simp
  obtain s1 where s1: "e_write_char enc (byte_at x k) s = Inr s1" "ok s1" "out s1 = out s @ [byte_at x k]"
    using write_ok [OF Suc.prems(1)] by blast
  obtain s2 where "le_encode_loop enc shr x (8 * Suc k) s1 = Inr s2" "ok s2"
    "out s2 = out s1 @ map (byte_at x) [Suc k..<sizeof_word x]"
    using Suc.hyps(1) [OF dd s1(2)] lt by auto
  then show ?case using s1 lt b by (subst le_encode_loop.simps) (simp add: upt_step add.commute)
qed

lemma emits_le: "shr_ok shr \<Longrightarrow> emits (le_int_encode enc shr) le_bytes"
  using le_encode_loop_ok [of shr _ 0] by (intro emitsI) (simp add: le_int_encode_def le_bytes_def)

lemma be_encode_loop_ok:
  assumes shr: "shr_ok shr" and ok: "ok s" and k: "k \<le> sizeof_word x"
  shows "\<exists>s'. be_encode_loop enc shr x (8 * k) s = Inr s' \<and> ok s' \<and> out s' = out s @ rev (map (byte_at x) [0..<k])"
  using ok k
proof (induction k arbitrary: s)
  case 0
  then show ?case by (simp add: be_encode_loop.simps)
next
  case (Suc k)
  then have "8 * k + 8 \<le> size x" by (simp add: sizeof_word_def)
  then have b: "(ucast (shr (8 * k) x) :: u8) = byte_at x k"
    using shr unfolding byte_at_def shr_ok_def by simp
  obtain s1 where s1: "e_write_char enc (byte_at x k) s = Inr s1" "ok s1" "out s1 = out s @ [byte_at x k]"
    using write_ok [OF Suc.prems(1)] by blast
  obtain s2 where "be_encode_loop enc shr x (8 * k) s1 = Inr s2" "ok s2" "out s2 = out s1 @ rev (map (byte_at x) [0..<k])"
    using Suc.IH [OF s1(2)] Suc.prems(2) by auto
  then show ?case using s1 b by (subst be_encode_loop.simps) (simp add: Let_def)
qed

lemma emits_be: "shr_ok shr \<Longrightarrow> emits (be_int_encode enc shr) be_bytes"
  using be_encode_loop_ok [OF _ _ order_refl, of shr]
  by (intro emitsI) (simp add: be_int_encode_def be_bytes_def le_bytes_def)

end

lemma byte_at_bit: "bit (byte_at x j) m \<longleftrightarrow> m < 8 \<and> bit x (8 * j + m)"
  by (auto simp: byte_at_def bit_simps dest: bit_imp_le_length)

lemma le_acc_step:
  "take_bit (8 * k) x OR push_bit (8 * k) (ucast (byte_at x k)) = take_bit (8 * Suc k) (x :: 'w::len word)"
proof (rule bit_eqI)
  fix n assume "possible_bit TYPE('w word) n"
  then show "bit (take_bit (8 * k) x OR push_bit (8 * k) (ucast (byte_at x k))) n = bit (take_bit (8 * Suc k) x) n"
    by (cases "n < 8 * k") (auto simp: bit_simps byte_at_bit)
qed

lemma be_acc_step: "push_bit 8 (drop_bit (8 * Suc k) x) OR ucast (byte_at x k) = drop_bit (8 * k) (x :: 'w::len word)"
proof (rule bit_eqI)
  fix n assume "possible_bit TYPE('w word) n"
  then show "bit (push_bit 8 (drop_bit (8 * Suc k) x) OR ucast (byte_at x k)) n = bit (drop_bit (8 * k) x) n"
    by (cases "n < 8") (auto simp: bit_simps byte_at_bit dest: bit_imp_le_length)
qed

definition whole_bytes :: "'w::len word \<Rightarrow> bool" where
  "whole_bytes x \<longleftrightarrow> size x = 8 * sizeof_word x"

lemma sizeof_word_cong: "sizeof_word (x :: 'w::len word) = sizeof_word (y :: 'w word)"
  by (simp add: sizeof_word_def word_size)

context byte_source
begin

lemma le_decode_loop_ok:
  assumes ok: "ok s" and r: "rest s = map (byte_at x) [k..<sizeof_word x] @ ys" and k: "k \<le> sizeof_word x" and w: "whole_bytes x"
  shows "\<exists>s'. le_decode_loop dec (take_bit (8 * k) x) k s = Inr (x, s') \<and> ok s' \<and> rest s' = ys"
  using ok r k
proof (induction "sizeof_word x - k" arbitrary: k s)
  case 0
  then have "k = sizeof_word x" by simp
  moreover have "take_bit (8 * sizeof_word x) x = x"
    using w by (intro bit_word_eqI) (simp add: bit_take_bit_iff whole_bytes_def word_size)
  ultimately show ?case using 0 by (simp add: le_decode_loop.simps sizeof_word_cong [of "take_bit _ x" x])
next
  case (Suc d)
  then have lt: "k < sizeof_word x" and dd: "d = sizeof_word x - Suc k" by simp_all
  obtain s1 where s1: "d_get_char dec s = Inr (byte_at x k, s1)" "ok s1" "rest s1 = map (byte_at x) [Suc k..<sizeof_word x] @ ys"
    using get_ok [OF Suc.prems(1), of "byte_at x k"] Suc.prems(2) lt by (auto simp: upt_step)
  obtain s2 where "le_decode_loop dec (take_bit (8 * Suc k) x) (Suc k) s1 = Inr (x, s2)" "ok s2" "rest s2 = ys"
    using Suc.hyps(1) [OF dd s1(2,3)] lt by auto
  then show ?case
    using s1(1) lt by (subst le_decode_loop.simps) (simp add: le_acc_step sizeof_word_cong [of "take_bit _ x" x] del: mult_Suc_right)
qed

lemma reads_le: "reads (le_int_decode dec) le_bytes whole_bytes"
proof (rule readsI)
  fix x :: "'w::len word" and s ys
  assume "whole_bytes x" "ok s" "rest s = le_bytes x @ ys"
  then show "\<exists>s'. le_int_decode dec s = Inr (x, s') \<and> ok s' \<and> rest s' = ys"
    using le_decode_loop_ok [of s x 0 ys] by (simp add: le_int_decode_def le_bytes_def)
qed

lemma be_decode_loop_ok:
  assumes "ok s" and "rest s = rev (map (byte_at x) [0..<k]) @ ys"
  shows "\<exists>s'. be_decode_loop dec k (drop_bit (8 * k) x) s = Inr (x, s') \<and> ok s' \<and> rest s' = ys"
  using assms
proof (induction k arbitrary: s)
  case (Suc k)
  obtain s1 where s1: "d_get_char dec s = Inr (byte_at x k, s1)" "ok s1" "rest s1 = rev (map (byte_at x) [0..<k]) @ ys"
    using get_ok [OF Suc.prems(1), of "byte_at x k"] Suc.prems(2) by auto
  then show ?case using Suc.IH [OF s1(2,3)] by (simp add: be_acc_step del: mult_Suc_right)
qed simp

lemma reads_be: "reads (be_int_decode dec) be_bytes whole_bytes"
proof (rule readsI)
  fix x :: "'w::len word" and s ys
  assume w: "whole_bytes x" and s: "ok s" "rest s = be_bytes x @ ys"
  have "drop_bit (8 * sizeof_word x) x = 0" using w
    by (intro bit_word_eqI) (auto simp: bit_drop_bit_eq whole_bytes_def word_size dest: bit_imp_le_length)
  then show "\<exists>s'. be_int_decode dec s = Inr (x, s') \<and> ok s' \<and> rest s' = ys"
    using be_decode_loop_ok [of s x "sizeof_word x" ys] s
    by (simp add: be_int_decode_def be_bytes_def le_bytes_def sizeof_word_cong [of 0 x])
qed

end

section \<open>Containers\<close>

definition len_word :: "'a list \<Rightarrow> 32 word" where
  "len_word xs = word_of_nat (length xs)"

definition counted_bytes :: "(32 word \<Rightarrow> u8 list) \<Rightarrow> ('a \<Rightarrow> u8 list) \<Rightarrow> 'a list \<Rightarrow> u8 list" where
  "counted_bytes fl f xs = fl (len_word xs) @ concat (map f xs)"

definition countable :: "('a \<Rightarrow> bool) \<Rightarrow> 'a list \<Rightarrow> bool" where
  "countable D xs \<longleftrightarrow> length xs < u32_max \<and> (\<forall>x \<in> set xs. D x)"

lemma unat_len_word: "length xs < u32_max \<Longrightarrow> unat (len_word xs) = length xs"
  by (simp add: len_word_def u32_max_def unsigned_of_nat take_bit_nat_eq_self)

context byte_sink
begin

lemma encode_all_ok:
  assumes "emits e f" and "ok s"
  shows "\<exists>s'. encode_all e xs s = Inr s' \<and> ok s' \<and> out s' = out s @ concat (map f xs)"
  using assms(2)
proof (induction xs arbitrary: s)
  case (Cons x xs)
  obtain s1 where "e x s = Inr s1" "ok s1" "out s1 = out s @ f x" using emitsD [OF assms(1) Cons.prems] by blast
  then show ?case using Cons.IH [of s1] by auto
qed simp

lemma emits_counted:
  fixes e :: "'b \<Rightarrow> 's \<Rightarrow> 's res"
  assumes "emits el fl" and "emits e f"
  shows "emits (\<lambda>xs s. bind_res (el (len_word xs) s) (encode_all e xs)) (counted_bytes fl f)"
proof (rule emitsI)
  fix xs :: "'b list" and s assume "ok s"
  then obtain s1 where s1: "el (len_word xs) s = Inr s1" "ok s1" "out s1 = out s @ fl (len_word xs)"
    using emitsD [OF assms(1)] by blast
  then show "\<exists>s'. bind_res (el (len_word xs) s) (encode_all e xs) = Inr s' \<and> ok s' \<and> out s' = out s @ counted_bytes fl f xs"
    using encode_all_ok [OF assms(2) s1(2), of xs] by (auto simp: counted_bytes_def)
qed

lemma emits_sequence: "emits el fl \<Longrightarrow> emits e f \<Longrightarrow> emits (sequence_encode el e) (counted_bytes fl f)"
  using emits_counted unfolding sequence_encode_def [abs_def] len_word_def by blast

lemma emits_set: "emits el fl \<Longrightarrow> emits e f \<Longrightarrow> emits (set_encode el e) (counted_bytes fl f)"
  using emits_counted unfolding set_encode_def [abs_def] len_word_def by blast

lemma emits_pair:
  assumes "emits e f" and "emits e' f'"
  shows "emits (pair_encode e e') (\<lambda>p. f (fst p) @ f' (snd p))"
  using emits_then [OF assms] unfolding pair_encode_def [abs_def] .

lemma emits_char: "emits (char_encode enc) (\<lambda>c. [c])"
  using emits_write_char unfolding char_encode_def [abs_def] .

lemma emits_general: "emits (general_encode repr enc) repr"
  using memcpy_ok by (intro emitsI) (simp add: general_encode_def)

lemma emits_seq_opt:
  fixes repr :: "'b \<Rightarrow> u8 list"
  assumes "emits el fl"
  shows "emits (seq_opt_encode el repr enc) (counted_bytes fl repr)"
proof (rule emitsI)
  fix xs :: "'b list" and s assume "ok s"
  then obtain s1 where s1: "el (len_word xs) s = Inr s1" "ok s1" "out s1 = out s @ fl (len_word xs)"
    using emitsD [OF assms] by blast
  then show "\<exists>s'. seq_opt_encode el repr enc xs s = Inr s' \<and> ok s' \<and> out s' = out s @ counted_bytes fl repr xs"
    using memcpy_ok [OF s1(2), of "concat (map repr xs)"] by (auto simp: seq_opt_encode_def counted_bytes_def len_word_def)
qed

end

lemma fold_os_insert:
  "os_inv (ys @ xs) \<Longrightarrow> fold os_insert xs ys = ys @ (xs :: 'a::linorder list)"
proof (induction xs arbitrary: ys)
  case (Cons x xs)
  have "os_insert x ys = ys @ [x]"
    using Cons.prems by (induction ys) (auto simp: os_inv_def sorted_wrt_append)
  then show ?case using Cons.IH [of "ys @ [x]"] Cons.prems by simp
qed simp

lemma decode_insert_eq:
  "decode_insert d ins n cont s = bind_res (decode_all d n s) (\<lambda>(xs, s). Inr (fold ins xs cont, s))"
proof (induction n arbitrary: cont s)
  case (Suc n)
  then show ?case by (cases "d s") (auto simp: bind_res_assoc split_beta intro!: arg_cong2 [where f = bind_res])
qed simp

context byte_source
begin

lemma decode_all_ok:
  assumes "reads d f D" and "ok s" and "rest s = concat (map f xs) @ ys" and "\<forall>x \<in> set xs. D x"
  shows "\<exists>s'. decode_all d (length xs) s = Inr (xs, s') \<and> ok s' \<and> rest s' = ys"
  using assms(2-4)
proof (induction xs arbitrary: s)
  case (Cons x xs)
  obtain s1 where s1: "d s = Inr (x, s1)" "ok s1" "rest s1 = concat (map f xs) @ ys"
    using readsD [OF assms(1) _ Cons.prems(1), of x "concat (map f xs) @ ys"] Cons.prems by auto
  then show ?case using Cons.IH [OF s1(2,3)] Cons.prems(3) by auto
qed simp

lemma decode_counted:
  assumes "reads dl fl (\<lambda>_. True)" and "reads d f D" and "countable D xs" and "ok s" and "rest s = counted_bytes fl f xs @ ys"
  shows "\<exists>s1 s'. dl s = Inr (len_word xs, s1) \<and> decode_all d (unat (len_word xs)) s1 = Inr (xs, s') \<and> ok s' \<and> rest s' = ys"
proof -
  obtain s1 where s1: "dl s = Inr (len_word xs, s1)" "ok s1" "rest s1 = concat (map f xs) @ ys"
    using readsD [OF assms(1) _ assms(4), of "len_word xs" "concat (map f xs) @ ys"] assms(5) by (auto simp: counted_bytes_def)
  then show ?thesis
    using decode_all_ok [OF assms(2) s1(2,3)] assms(3) by (simp add: countable_def unat_len_word)
qed

lemma reads_sequence:
  assumes "reads dl fl (\<lambda>_. True)" and "reads d f D"
  shows "reads (sequence_decode dl d) (counted_bytes fl f) (countable D)"
proof (rule readsI)
  fix xs s ys assume "countable D xs" "ok s" "rest s = counted_bytes fl f xs @ ys"
  from decode_counted [OF assms this]
  show "\<exists>s'. sequence_decode dl d s = Inr (xs, s') \<and> ok s' \<and> rest s' = ys" by (auto simp: sequence_decode_def)
qed

lemma reads_set:
  assumes "reads dl fl (\<lambda>_. True)" and "reads d f D"
  shows "reads (set_decode dl d) (counted_bytes fl f) (\<lambda>xs. countable D xs \<and> os_inv xs)"
proof (rule readsI)
  fix xs s ys assume x: "countable D xs \<and> os_inv xs" and s: "ok s" "rest s = counted_bytes fl f xs @ ys"
  have "fold os_insert xs [] = xs" using fold_os_insert [of "[]" xs] x by simp
  then show "\<exists>s'. set_decode dl d s = Inr (xs, s') \<and> ok s' \<and> rest s' = ys"
    using decode_counted [OF assms conjunct1 [OF x] s] by (auto simp: set_decode_def decode_insert_eq)
qed

lemma reads_pair:
  assumes "reads d f D" and "reads d' f' D'"
  shows "reads (pair_decode d d') (\<lambda>p. f (fst p) @ f' (snd p)) (\<lambda>p. D (fst p) \<and> D' (snd p))"
  using reads_then [OF assms] unfolding pair_decode_def [abs_def] .

lemma reads_char: "reads (char_decode dec) (\<lambda>c. [c]) (\<lambda>_. True)"
  using reads_get_char unfolding char_decode_def [abs_def] .

lemma reads_general:
  assumes "0 < sz" and "\<And>x. D x \<Longrightarrow> length (repr x) = sz \<and> unrepr (repr x) = x"
  shows "reads (general_decode unrepr sz dec) repr D"
proof (rule readsI)
  fix x s ys assume "D x" "ok s" "rest s = repr x @ ys"
  then show "\<exists>s'. general_decode unrepr sz dec s = Inr (x, s') \<and> ok s' \<and> rest s' = ys"
    using readsD [OF reads_memcpy [OF assms(1)], of "repr x" s ys] assms(2) by (auto simp: general_decode_def)
qed

end

section \<open>Properties\<close>

lemma whole_bytes_sizes:
  "whole_bytes (x :: 16 word)" "whole_bytes (y :: 32 word)" "whole_bytes (z :: 64 word)" "whole_bytes (u :: 8 word)"
  by (simp_all add: whole_bytes_def sizeof_word_def word_size)

text \<open>
  Integer codecs: for every integer type of whole bytes, signed or unsigned, the little and the
  big endian encoder append exactly the value's bytes in their order, and the decoder in front
  of those bytes returns the value and stops behind them.
\<close>

theorem int_codecs_roundtrip:
  assumes "whole_bytes (x :: 'w::len word)" and "shr = drop_bit \<or> shr = signed_drop_bit"
  shows "le_int_encode buffer_encoder shr x buf = Inr (buf @ le_bytes x) \<and>
    be_int_encode buffer_encoder shr x buf = Inr (buf @ rev (le_bytes x)) \<and>
    le_int_decode buffer_decoder (le_bytes x @ ys) = Inr (x, ys) \<and>
    be_int_decode buffer_decoder (rev (le_bytes x) @ ys) = Inr (x, ys)"
proof -
  have shr: "shr_ok shr" using assms(2) shr_ok_unsigned shr_ok_signed by blast
  show ?thesis
    using buf_sink.emitsD [OF buf_sink.emits_le [OF shr], where s = buf and x = x] buf_sink.emitsD [OF buf_sink.emits_be [OF shr], where s = buf and x = x]
      buf_source.readsD [OF buf_source.reads_le assms(1)] buf_source.readsD [OF buf_source.reads_be assms(1)]
    by (auto simp: be_bytes_def)
qed

theorem int_codecs_roundtrip_witness:
  "le_int_encode buffer_encoder signed_drop_bit (0xFFFFFF80 :: 32 word) [] = Inr [0x80, 0xFF, 0xFF, 0xFF] \<and>
   be_int_decode buffer_decoder [0xFF, 0xFF, 0xFF, 0x80] = Inr (0xFFFFFF80 :: 32 word, [])"
proof -
  have b: "le_bytes (0xFFFFFF80 :: 32 word) = [0x80, 0xFF, 0xFF, 0xFF]"
    by (simp add: le_bytes_def byte_at_def sizeof_word_def word_size upt_rec drop_bit_eq_div)
  show ?thesis
    using int_codecs_roundtrip [OF whole_bytes_sizes(2), of signed_drop_bit "0xFFFFFF80" "[]" "[]"] unfolding b by simp
qed

text \<open>
  The little endian codec of \<open>std::set<std::pair<std::string, std::vector<uint64_t> > >\<close>, put together the way
  the templates are.
\<close>

definition le_u32_encode :: "'s encoder \<Rightarrow> 32 word \<Rightarrow> 's \<Rightarrow> 's res" where
  "le_u32_encode enc = le_int_encode enc drop_bit"

definition le_string_encode :: "'s encoder \<Rightarrow> u8 list \<Rightarrow> 's \<Rightarrow> 's res" where
  "le_string_encode enc = sequence_encode (le_u32_encode enc) (char_encode enc)"

definition le_string_decode :: "'s decoder \<Rightarrow> 's \<Rightarrow> (u8 list \<times> 's) res" where
  "le_string_decode dec = sequence_decode (le_int_decode dec) (char_decode dec)"

definition le_table_encode :: "'s encoder \<Rightarrow> (u8 list \<times> 64 word list) list \<Rightarrow> 's \<Rightarrow> 's res" where
  "le_table_encode enc = set_encode (le_u32_encode enc)
     (pair_encode (le_string_encode enc) (sequence_encode (le_u32_encode enc) (le_int_encode enc drop_bit)))"

definition le_table_decode :: "'s decoder \<Rightarrow> 's \<Rightarrow> ((u8 list \<times> 64 word list) list \<times> 's) res" where
  "le_table_decode dec = set_decode (le_int_decode dec)
     (pair_decode (le_string_decode dec) (sequence_decode (le_int_decode dec) (le_int_decode dec)))"

definition table_bytes :: "(u8 list \<times> 64 word list) list \<Rightarrow> u8 list" where
  "table_bytes = counted_bytes le_bytes (\<lambda>p. counted_bytes le_bytes (\<lambda>c. [c]) (fst p) @ counted_bytes le_bytes le_bytes (snd p))"

definition table_ok :: "(u8 list \<times> 64 word list) list \<Rightarrow> bool" where
  "table_ok m \<longleftrightarrow> os_inv m \<and> length m < u32_max \<and> (\<forall>p \<in> set m. length (fst p) < u32_max \<and> length (snd p) < u32_max)"

context byte_sink
begin

lemma emits_of: "emits e f \<Longrightarrow> emits (\<lambda>x. e (h x)) (\<lambda>x. f (h x))"
  by (simp add: emits_def)

lemma emits_table: "emits (le_table_encode enc) table_bytes"
  unfolding le_table_encode_def table_bytes_def le_string_encode_def le_u32_encode_def
  by (intro emits_set emits_pair emits_sequence emits_le emits_char shr_ok_unsigned)

end

context byte_source
begin

lemma reads_weaken: "reads d f D \<Longrightarrow> (\<And>x. D' x \<Longrightarrow> D x) \<Longrightarrow> reads d f D'"
  unfolding reads_def by blast

lemma reads_le_all: "(\<And>x. whole_bytes (x :: 'w::len word)) \<Longrightarrow> reads (le_int_decode dec) (le_bytes :: 'w word \<Rightarrow> u8 list) (\<lambda>_. True)"
  using reads_le by (rule reads_weaken)

lemma reads_table: "reads (le_table_decode dec) table_bytes table_ok"
proof -
  have "reads (le_table_decode dec) table_bytes (\<lambda>m. countable (\<lambda>p. countable (\<lambda>_. True) (fst p) \<and> countable (\<lambda>_. True) (snd p)) m \<and> os_inv m)"
    unfolding le_table_decode_def table_bytes_def le_string_decode_def
    by (intro reads_set reads_pair reads_sequence reads_char reads_le_all whole_bytes_sizes)
  then show ?thesis by (rule reads_weaken) (auto simp: table_ok_def countable_def)
qed

end

text \<open>The optimized sequences.\<close>

lemma split_chunks_concat:
  "(\<And>x. x \<in> set xs \<Longrightarrow> length (repr x) = sz) \<Longrightarrow> split_chunks sz (length xs) (concat (map repr xs)) = map repr xs"
  by (induction xs) simp_all

text \<open>A decoder copies nothing when it is asked for nothing. A buffer does; a file at its end throws instead.\<close>

definition copies_nothing :: "'s decoder \<Rightarrow> ('s \<Rightarrow> u8 list) \<Rightarrow> ('s \<Rightarrow> bool) \<Rightarrow> bool" where
  "copies_nothing dec rest ok \<longleftrightarrow> (\<forall>s. ok s \<longrightarrow> (\<exists>s'. d_memcpy dec 0 s = Inr ([], s') \<and> ok s' \<and> rest s' = rest s))"

lemma buffer_copies_nothing: "copies_nothing buffer_decoder id (\<lambda>_. True)"
  by (simp add: copies_nothing_def buffer_decoder_def buf_memcpy_out_def)

context byte_source
begin

lemma reads_seq_opt_on:
  assumes "reads dl fl (\<lambda>_. True)" and "0 < sz" and D: "\<And>x. D x \<Longrightarrow> length (repr x) = sz \<and> unrepr (repr x) = x"
  shows "reads (seq_opt_decode dl unrepr sz dec) (counted_bytes fl repr) (\<lambda>xs. (xs \<noteq> [] \<or> copies_nothing dec rest ok) \<and> countable D xs)"
proof (rule readsI)
  fix xs s ys assume xs: "(xs \<noteq> [] \<or> copies_nothing dec rest ok) \<and> countable D xs" and s: "ok s" "rest s = counted_bytes fl repr xs @ ys"
  obtain s1 where s1: "dl s = Inr (len_word xs, s1)" "ok s1" "rest s1 = concat (map repr xs) @ ys"
    using readsD [OF assms(1) TrueI s(1), of "len_word xs" "concat (map repr xs) @ ys"] s(2) by (auto simp: counted_bytes_def)
  have each: "length (repr x) = sz" "unrepr (repr x) = x" if "x \<in> set xs" for x using D [of x] xs that by (auto simp: countable_def)
  then have len: "length (concat (map repr xs)) = sz * length xs" by (induction xs) simp_all
  obtain s2 where "d_memcpy dec (sz * length xs) s1 = Inr (concat (map repr xs), s2)" "ok s2" "rest s2 = ys"
  proof (cases "xs = []")
    case True
    then show ?thesis using that xs s1 by (auto simp: copies_nothing_def)
  next
    case False
    then have "concat (map repr xs) \<noteq> []" using assms(2) len by (metis length_0_conv mult_is_0 not_gr_zero)
    from memcpy_ok [OF s1(2,3) this] show ?thesis using that len by auto
  qed
  moreover have "map unrepr (map repr xs) = xs" using each(2) by (simp add: map_idI)
  ultimately show "\<exists>s'. seq_opt_decode dl unrepr sz dec s = Inr (xs, s') \<and> ok s' \<and> rest s' = ys"
    using s1(1) xs split_chunks_concat [of xs repr sz] each(1)
    by (simp add: seq_opt_decode_def unat_len_word countable_def del: map_map)
qed

end

context posix_write
begin

lemma table_written:
  assumes "0 < bs" "bs < u64_max" and "contents f0 = []"
  shows "\<exists>e e'. le_table_encode (file_encoder kwrite) m \<lparr>fe_fd = f0, fe_bufferSize = bs, fe_buffer = []\<rparr> = Inr e \<and>
    fe_flush kwrite e = Inr e' \<and> contents (fe_fd e') = table_bytes m"
proof -
  let ?e0 = "\<lparr>fe_fd = f0, fe_bufferSize = bs, fe_buffer = []\<rparr>"
  have "fe_ok ?e0" using assms(1,2) by (simp add: fe_ok_def)
  then obtain e where e: "le_table_encode (file_encoder kwrite) m ?e0 = Inr e" "fe_ok e" "fe_out e = table_bytes m"
    using file_sink.emitsD [OF file_sink.emits_table, where s = ?e0 and x = m] assms(3) by (auto simp: fe_out_def)
  obtain e' where "fe_flush kwrite e = Inr e'" "fe_buffer e' = []" "fe_out e' = fe_out e" using fe_flush_ok [OF e(2)] by blast
  then show ?thesis using e by (auto simp: fe_out_def)
qed

end

context posix_read
begin

lemma table_read:
  assumes "0 < bs" and "table_ok m" and "unread f = table_bytes m"
  shows "\<exists>d. le_table_decode (file_decoder kread) \<lparr>fd_fd = f, fd_bufferSize = bs, fd_buffer = [], fd_pos = 0\<rparr> = Inr (m, d)"
  using file_source.readsD [OF file_source.reads_table assms(2), where ys = "[]"
      and s = "\<lparr>fd_fd = f, fd_bufferSize = bs, fd_buffer = [], fd_pos = 0\<rparr>"] assms(1,3)
  by (auto simp: fd_ok_def fd_rest_def)

end

text \<open>
  C13. Nested containers through files: a set of pairs of a string and a vector of 64-bit integers, written with
  the little endian codec through a \<open>file_encoder\<close> and flushed, is read back exactly by a
  \<open>file_decoder\<close>, whatever the two (positive) buffer sizes and however \<open>read\<close> cuts the bytes.
  Hypotheses: \<open>write\<close> writes what it is given, \<open>read\<close> returns at least one byte while there
  are any, and lengths fit the 32-bit length field.
\<close>

theorem file_table_roundtrip:
  assumes "posix_write kwrite contents" and "posix_read kread unread"
    and "0 < bs" "bs < u64_max" "0 < bs'" and "table_ok m" and "contents f0 = []"
  shows "\<exists>e e'. le_table_encode (file_encoder kwrite) m \<lparr>fe_fd = f0, fe_bufferSize = bs, fe_buffer = []\<rparr> = Inr e \<and>
    fe_flush kwrite e = Inr e' \<and>
    (\<forall>f. unread f = contents (fe_fd e') \<longrightarrow>
      (\<exists>d. le_table_decode (file_decoder kread) \<lparr>fd_fd = f, fd_bufferSize = bs', fd_buffer = [], fd_pos = 0\<rparr> = Inr (m, d)))"
  using posix_write.table_written [OF assms(1,3,4,7), of m] posix_read.table_read [OF assms(2,5,6)] by metis

definition sample_table :: "(u8 list \<times> 64 word list) list" where
  "sample_table = [([65], [1, 2]), ([66, 67], [])]"

theorem file_table_roundtrip_witness:
  "\<exists>e e'. le_table_encode (file_encoder mem_write) sample_table \<lparr>fe_fd = [], fe_bufferSize = 3, fe_buffer = []\<rparr> = Inr e \<and>
    fe_flush mem_write e = Inr e' \<and>
    (\<exists>d. le_table_decode (file_decoder mem_read) \<lparr>fd_fd = fe_fd e', fd_bufferSize = 5, fd_buffer = [], fd_pos = 0\<rparr> = Inr (sample_table, d))"
proof -
  have "table_ok sample_table" by (simp add: table_ok_def sample_table_def os_inv_def u32_max_def)
  from file_table_roundtrip [OF mem_out.posix_write_axioms mem_in.posix_read_axioms _ _ _ this, of 3 5 "[]"]
  show ?thesis by (auto simp: u64_max_def)
qed

text \<open>
  On a little endian machine the optimizers change nothing: copying the memory of a string or of a
  vector of integers, or of an integer, gives the buffer the element-wise little endian codec gives.
\<close>

theorem optimizer_equivalent:
  "seq_opt_encode (le_u32_encode buffer_encoder) le_bytes buffer_encoder (xs :: 'w::len word list) buf =
     sequence_encode (le_u32_encode buffer_encoder) (le_int_encode buffer_encoder drop_bit) xs buf \<and>
   seq_opt_encode (le_u32_encode buffer_encoder) (\<lambda>c. [c]) buffer_encoder cs buf = le_string_encode buffer_encoder cs buf \<and>
   general_encode le_bytes buffer_encoder (x :: 'w word) buf = le_int_encode buffer_encoder drop_bit x buf"
proof -
  note el = buf_sink.emits_le [OF shr_ok_unsigned]
  note u32 = el [where 'a = 32, folded le_u32_encode_def]
  have same: "e v buf = e' v buf" if "buf_sink.emits e f" "buf_sink.emits e' f" for e e' v and f :: "'x \<Rightarrow> u8 list"
    using buf_sink.emitsD [OF that(1), where s = buf and x = v] buf_sink.emitsD [OF that(2), where s = buf and x = v] by auto
  show ?thesis
    using same [OF buf_sink.emits_seq_opt [OF u32] buf_sink.emits_sequence [OF u32 el]]
      same [OF buf_sink.emits_seq_opt [OF u32] buf_sink.emits_sequence [OF u32 buf_sink.emits_char], folded le_string_encode_def]
      same [OF buf_sink.emits_general el] by blast
qed

text \<open>
  A decoding error the optimizer introduces: an empty string at the end of a file cannot be read back
  by the optimized codec, because \<open>file_decoder::memcpy\<close> of zero bytes still asks the file for
  more and throws at its end; the plain codec reads the same file.
\<close>

theorem empty_string_at_eof:
  "seq_opt_decode (le_int_decode (file_decoder mem_read)) hd 1 (file_decoder mem_read)
     \<lparr>fd_fd = le_bytes (0 :: 32 word), fd_bufferSize = 4096, fd_buffer = [], fd_pos = 0\<rparr> = Inl Runtime_error \<and>
   (\<exists>d. le_string_decode (file_decoder mem_read)
     \<lparr>fd_fd = le_bytes (0 :: 32 word), fd_bufferSize = 4096, fd_buffer = [], fd_pos = 0\<rparr> = Inr ([], d))"
proof -
  have z: "le_bytes (0 :: 32 word) = [0, 0, 0, 0]"
    by (simp add: le_bytes_def byte_at_def sizeof_word_def word_size upt_rec)
  have len: "le_int_decode (file_decoder mem_read)
      \<lparr>fd_fd = le_bytes (0 :: 32 word), fd_bufferSize = 4096, fd_buffer = [], fd_pos = 0\<rparr> =
      Inr (0 :: 32 word, \<lparr>fd_fd = [], fd_bufferSize = 4096, fd_buffer = [0, 0, 0, 0], fd_pos = 4\<rparr>)"
    unfolding z by (simp add: le_int_decode_def le_decode_loop.simps sizeof_word_def word_size file_decoder_def
        fd_get_char_def fd_advance_def mem_read_def)
  show ?thesis
    unfolding seq_opt_decode_def le_string_decode_def sequence_decode_def len
    by (simp add: file_decoder_def fd_memcpy_def fd_advance_def mem_read_def)
qed

lemma fe_flush_result:
  "fe_flush kwrite e = Inl Runtime_error \<or> (\<exists>f. fe_flush kwrite e = Inr (e\<lparr>fe_fd := f, fe_buffer := []\<rparr>))"
  by (cases e) (auto simp: fe_flush_def split: prod.splits)

lemma fe_memcpy_loop_returns:
  "0 < fe_bufferSize e \<Longrightarrow> fe_bufferSize e < u64_max \<Longrightarrow> length (fe_buffer e) \<le> fe_bufferSize e \<Longrightarrow>
   length src < fuel \<Longrightarrow> fe_memcpy_loop kwrite fuel src e \<noteq> Inl Diverges"
proof (induction fuel arbitrary: src e)
  case (Suc fuel)
  let ?room = "if length (fe_buffer e) \<ge> fe_bufferSize e then fe_flush kwrite e else Inr e"
  consider "?room = Inl Runtime_error"
    | e1 where "?room = Inr e1" "fe_bufferSize e1 = fe_bufferSize e" "length (fe_buffer e1) < fe_bufferSize e"
    using fe_flush_result [of kwrite e] Suc.prems(1) by (cases "length (fe_buffer e) \<ge> fe_bufferSize e") fastforce+
  then show ?case
  proof cases
    case 2
    define k where "k = min (length src) (fe_bufferSize e1 - length (fe_buffer e1))"
    define e2 where "e2 = e1\<lparr>fe_buffer := fe_buffer e1 @ take k src\<rparr>"
    have k: "min (length src) (u64_sub (fe_bufferSize e1) (length (fe_buffer e1))) = k"
      using 2 Suc.prems(2) by (simp add: k_def u64_sub_nowrap)
    have step: "fe_memcpy_loop kwrite (Suc fuel) src e =
        (if drop k src = [] then Inr e2 else fe_memcpy_loop kwrite fuel (drop k src) e2)"
      unfolding fe_memcpy_loop.simps 2(1) bind_res_Inr Let_def k e2_def by (rule refl)
    have "fe_memcpy_loop kwrite fuel (drop k src) e2 \<noteq> Inl Diverges" if "drop k src \<noteq> []"
    proof (rule Suc.IH)
      have "0 < k" using 2 that by (simp add: k_def)
      then show "length (drop k src) < fuel" using Suc.prems(4) that by auto
    qed (use 2 Suc.prems in \<open>auto simp: e2_def k_def\<close>)
    then show ?thesis using step by simp
  qed simp
qed simp

lemma fd_advance_result:
  "fd_advance kread d = Inl Runtime_error \<or> (\<exists>d'. fd_advance kread d = Inr d' \<and> fd_pos d' < length (fd_buffer d'))"
  by (auto simp: fd_advance_def split: prod.splits option.splits)

lemma fd_memcpy_loop_returns: "n < fuel \<Longrightarrow> fd_memcpy_loop kread fuel n d \<noteq> Inl Diverges"
proof (induction fuel arbitrary: n d)
  case (Suc fuel)
  let ?more = "if fd_pos d \<ge> length (fd_buffer d) then fd_advance kread d else Inr d"
  consider "?more = Inl Runtime_error" | d1 where "?more = Inr d1" "fd_pos d1 < length (fd_buffer d1)"
    using fd_advance_result [of kread d] by (cases "fd_pos d \<ge> length (fd_buffer d)") auto
  then show ?case
  proof cases
    case 2
    let ?n = "n - min n (length (fd_buffer d1) - fd_pos d1)"
    have "fd_memcpy_loop kread fuel ?n d2 \<noteq> Inl Diverges" if "?n \<noteq> 0" for d2
      by (rule Suc.IH) (use that 2(2) Suc.prems in linarith)
    then show ?thesis unfolding fd_memcpy_loop.simps 2(1) bind_res_Inr Let_def by (auto simp: res_simps)
  qed simp
qed simp

text \<open>
  C14. Termination of the \<open>memcpy\<close> loops, whatever \<open>write\<close> and \<open>read\<close> answer: with a positive buffer size
  \<open>file_encoder\<close>'s loop returns (or throws) within one round per byte, and so does
  \<open>file_decoder\<close>'s; a \<open>file_encoder\<close> built with buffer size 0 never returns from \<open>memcpy\<close> of a
  non-empty range.
\<close>

theorem file_memcpy_terminates:
  "(0 < fe_bufferSize e \<and> fe_bufferSize e < u64_max \<and> length (fe_buffer e) \<le> fe_bufferSize e \<longrightarrow>
      fe_memcpy kwrite src e \<noteq> Inl Diverges) \<and>
   fd_memcpy kread n d \<noteq> Inl Diverges \<and>
   (fe_bufferSize e = 0 \<and> fe_buffer e = [] \<and> src \<noteq> [] \<longrightarrow> (\<forall>fuel. fe_memcpy_loop kwrite fuel src e = Inl Diverges))"
proof (intro conjI impI allI)
  fix fuel
  assume asm: "fe_bufferSize e = 0 \<and> fe_buffer e = [] \<and> src \<noteq> []"
  then obtain f where e: "e = \<lparr>fe_fd = f, fe_bufferSize = 0, fe_buffer = []\<rparr>" by (cases e) simp
  show "fe_memcpy_loop kwrite fuel src e = Inl Diverges" unfolding e
    by (induction fuel) (use asm in \<open>simp_all add: fe_flush_def u64_sub_def\<close>)
qed (simp_all only: fe_memcpy_def fd_memcpy_def fe_memcpy_loop_returns fd_memcpy_loop_returns less_add_one not_False_eq_True)

theorem file_memcpy_terminates_witness:
  "fe_memcpy mem_write [1] \<lparr>fe_fd = [], fe_bufferSize = 1, fe_buffer = []\<rparr> \<noteq> Inl Diverges \<and>
   fe_memcpy_loop mem_write 1000 [1] \<lparr>fe_fd = [], fe_bufferSize = 0, fe_buffer = []\<rparr> = Inl Diverges"
  using file_memcpy_terminates [of "\<lparr>fe_fd = [], fe_bufferSize = 1, fe_buffer = []\<rparr>" mem_write "[1]" mem_read 0 undefined]
    file_memcpy_terminates [of "\<lparr>fe_fd = [], fe_bufferSize = 0, fe_buffer = []\<rparr>" mem_write "[1]" mem_read 0 undefined]
  by (simp add: u64_max_def)

end
