(* ===== verification/Multi_Buffer.thy ===== *)
theory Multi_Buffer
  imports Simulation
begin

text \<open>
  \<open>src/util/multi_buffer.cpp\<close> and \<open>src/include/util/multi_buffer.h\<close>: a byte sequence spread
  over buffers that several multi-buffers can share. \<open>bheap\<close> is the heap of \<open>buffer\<close> objects with
  the use counts of their \<open>shared_ptr\<close>s; a multi-buffer holds addresses. Writing to a buffer
  that is not \<open>unique()\<close> copies it first.

  \<open>malloc\<close> and \<open>posix_memalign\<close> are the argument \<open>new_addr\<close>: from the alignment and the heap to
  the address of the new buffer, \<open>None\<close> when they fail.
\<close>

section \<open>Data\<close>

record bheap =
  bh_data :: "nat \<Rightarrow> u8 list"
  bh_refs :: "nat \<Rightarrow> nat"

record multi_buffer =
  mb_buffers :: "nat list"
  mb_size :: nat
  mb_left_off :: nat

type_synonym new_addr = "nat \<Rightarrow> bheap \<Rightarrow> nat option"

definition get_size :: "multi_buffer \<Rightarrow> nat" where
  "get_size m = mb_size m"

definition buffer_get_size :: "bheap \<Rightarrow> nat \<Rightarrow> nat" where
  "buffer_get_size h b = length (bh_data h b)"

text \<open>\<open>memcpy\<close> of \<open>ys\<close> over the bytes of \<open>xs\<close> from position \<open>i\<close>.\<close>

definition splice :: "'a list \<Rightarrow> nat \<Rightarrow> 'a list \<Rightarrow> 'a list" where
  "splice xs i ys = take i xs @ ys @ drop (i + length ys) xs"

section \<open>Operations\<close>

definition multi_buffer_ctor :: "nat list \<Rightarrow> nat \<Rightarrow> nat \<Rightarrow> bheap \<Rightarrow> multi_buffer res" where
  "multi_buffer_ctor buffers sz left_off h =
     (let real_size = fold (\<lambda>b n. u32_add n (buffer_get_size h b)) buffers 0 in
      d_assert (u32_add left_off sz \<le> real_size)
       (d_assert (buffers = [] \<or> buffer_get_size h (hd buffers) > left_off)
         (Inr \<lparr>mb_buffers = buffers, mb_size = sz, mb_left_off = left_off\<rparr>)))"

definition add_ref :: "nat \<Rightarrow> bheap \<Rightarrow> bheap" where
  "add_ref b h = h\<lparr>bh_refs := (bh_refs h)(b := bh_refs h b + 1)\<rparr>"

definition multi_buffer_copy :: "multi_buffer \<Rightarrow> bheap \<Rightarrow> multi_buffer \<times> bheap" where
  "multi_buffer_copy m h =
     (\<lparr>mb_buffers = mb_buffers m, mb_size = mb_size m, mb_left_off = mb_left_off m\<rparr>, fold add_ref (mb_buffers m) h)"

text \<open>The buffer constructor: a new object with unspecified bytes \<open>junk\<close>, owned once.\<close>

definition buffer_ctor :: "new_addr \<Rightarrow> nat \<Rightarrow> u8 list \<Rightarrow> bheap \<Rightarrow> (nat \<times> bheap) res" where
  "buffer_ctor new_addr align junk h =
     (case new_addr align h of
        None \<Rightarrow> Inl Bad_alloc
      | Some a \<Rightarrow> Inr (a, h\<lparr>bh_data := (bh_data h)(a := junk), bh_refs := (bh_refs h)(a := 1)\<rparr>))"

text \<open>
  The head of \<open>do_rw\<close>'s loop body, up to the copying, common to both instances of the template:
  how much of the current buffer (of size \<open>bsz\<close>) counts, and the copy to make in it: position
  in the buffer, position in the caller's memory, number of bytes.
\<close>

definition rw_step :: "nat \<Rightarrow> nat \<Rightarrow> nat \<Rightarrow> nat \<Rightarrow> nat \<Rightarrow> nat \<Rightarrow> (nat \<times> (nat \<times> nat \<times> nat) option) res" where
  "rw_step bsz off_in_buf req_size req_off off size_left =
     (let buf_size = u32_sub bsz off_in_buf in
      d_assert (buf_size \<noteq> 0)
       (if u32_add off buf_size > req_off then
          let buf_start = (if req_off > off then u32_sub req_off off else 0) in
          d_assert (buf_size > buf_start)
            (let sz = min size_left (u32_sub buf_size buf_start) in
             d_assert (u32_add off buf_start \<ge> req_off)
               (let out_off = u32_sub (u32_add off buf_start) req_off in
                d_assert (u32_add out_off sz \<le> req_size)
                  (d_assert (size_left \<ge> sz) (Inr (buf_size, Some (off_in_buf + buf_start, out_off, sz))))))
        else Inr (buf_size, None)))"

text \<open>\<open>do_rw<true>\<close>: the loop over the buffers; \<open>off_in_buf\<close> is \<open>left_off\<close> for the first one.\<close>

fun read_loop :: "bheap \<Rightarrow> nat \<Rightarrow> nat \<Rightarrow> nat list \<Rightarrow> nat \<Rightarrow> nat \<Rightarrow> nat \<Rightarrow> u8 list \<Rightarrow> u8 list res" where
  "read_loop h req_size req_off [] off_in_buf off size_left buf =
     (if size_left = 0 then Inr buf else Inl D_assert)"
| "read_loop h req_size req_off (b # its) off_in_buf off size_left buf =
     (if size_left = 0 then Inr buf
      else bind_res (rw_step (buffer_get_size h b) off_in_buf req_size req_off off size_left) (\<lambda>(buf_size, copy).
        case copy of
          None \<Rightarrow> read_loop h req_size req_off its 0 (u32_add off buf_size) size_left buf
        | Some (pos, out_off, sz) \<Rightarrow>
            read_loop h req_size req_off its 0 (u32_add off buf_size) (u32_sub size_left sz)
              (splice buf out_off (take sz (drop pos (bh_data h b))))))"

definition mb_read :: "multi_buffer \<Rightarrow> bheap \<Rightarrow> u8 list \<Rightarrow> nat \<Rightarrow> nat \<Rightarrow> u8 list res" where
  "mb_read m h buf req_size req_off =
     d_assert (mb_size m \<ge> u32_add req_size req_off)
       (if req_size = 0 then Inr buf
        else d_assert (mb_buffers m \<noteq> [])
               (read_loop h req_size req_off (mb_buffers m) (mb_left_off m) 0 req_size buf))"

text \<open>The copy-on-write step: a buffer with another owner is replaced by a copy of its own.\<close>

definition ensure_unique :: "new_addr \<Rightarrow> nat \<Rightarrow> nat \<Rightarrow> bheap \<Rightarrow> (nat \<times> bheap) res" where
  "ensure_unique new_addr align b h =
     (if bh_refs h b = 1 then Inr (b, h)
      else bind_res (buffer_ctor new_addr align [] h) (\<lambda>(a, h).
             Inr (a, h\<lparr>bh_data := (bh_data h)(a := bh_data h b), bh_refs := (bh_refs h)(b := bh_refs h b - 1)\<rparr>)))"

text \<open>
  \<open>do_rw<false>\<close>: how it ended, the list of buffers as the iterator leaves it, and the heap. When the allocation of a copy throws,
  the buffers before it have been written, and nothing is undone.
\<close>

fun write_loop :: "new_addr \<Rightarrow> nat \<Rightarrow> nat \<Rightarrow> nat \<Rightarrow> u8 list \<Rightarrow> nat list \<Rightarrow> nat \<Rightarrow> nat \<Rightarrow> nat \<Rightarrow> bheap
    \<Rightarrow> unit res \<times> nat list \<times> bheap" where
  "write_loop new_addr align req_size req_off buf [] off_in_buf off size_left h =
     (if size_left = 0 then Inr () else Inl D_assert, [], h)"
| "write_loop new_addr align req_size req_off buf (b # its) off_in_buf off size_left h =
     (if size_left = 0 then (Inr (), b # its, h)
      else case rw_step (buffer_get_size h b) off_in_buf req_size req_off off size_left of
          Inl e \<Rightarrow> (Inl e, b # its, h)
        | Inr (buf_size, None) \<Rightarrow>
            (case write_loop new_addr align req_size req_off buf its 0 (u32_add off buf_size) size_left h of
               (r, its, h) \<Rightarrow> (r, b # its, h))
        | Inr (buf_size, Some (pos, out_off, sz)) \<Rightarrow>
            (case ensure_unique new_addr align b h of
               Inl e \<Rightarrow> (Inl e, b # its, h)
             | Inr (b, h) \<Rightarrow>
                 (case write_loop new_addr align req_size req_off buf its 0 (u32_add off buf_size) (u32_sub size_left sz)
                     (h\<lparr>bh_data := (bh_data h)(b := splice (bh_data h b) pos (take sz (drop out_off buf)))\<rparr>) of
                    (r, its, h) \<Rightarrow> (r, b # its, h))))"

definition mb_write :: "new_addr \<Rightarrow> multi_buffer \<Rightarrow> bheap \<Rightarrow> u8 list \<Rightarrow> nat \<Rightarrow> nat \<Rightarrow> nat
    \<Rightarrow> unit res \<times> multi_buffer \<times> bheap" where
  "mb_write new_addr m h buf req_size req_off align =
     (if \<not> mb_size m \<ge> u32_add req_size req_off then (Inl D_assert, m, h)
      else if req_size = 0 then (Inr (), m, h)
      else if mb_buffers m = [] then (Inl D_assert, m, h)
      else case write_loop new_addr align req_size req_off buf (mb_buffers m) (mb_left_off m) 0 req_size h of
          (r, bs, h) \<Rightarrow> (r, m\<lparr>mb_buffers := bs\<rparr>, h))"

end
