(* ===== verification/Multi_Buffer_Correct.thy ===== *)
theory Multi_Buffer_Correct
  imports Multi_Buffer
begin

text \<open>
  Correctness of multi-buffers: a multi-buffer behaves as the flat byte sequence \<open>mb_bytes\<close>,
  reads and writes act on it, and copy-on-write keeps the others untouched.
\<close>

section \<open>Splicing\<close>

lemma length_splice [simp]: "i + length ys \<le> length xs \<Longrightarrow> length (splice xs i ys) = length xs"
  by (simp add: splice_def)

lemma splice_Nil [simp]: "splice xs i [] = xs"
  by (simp add: splice_def)

lemma splice_splice: "i \<le> length b \<Longrightarrow> splice (splice b i xs) (i + length xs) ys = splice b i (xs @ ys)"
  by (simp add: splice_def ac_simps)

lemma splice_append1: "i + length ys \<le> length a \<Longrightarrow> splice (a @ b) i ys = splice a i ys @ b"
  by (simp add: splice_def)

lemma splice_append2: "length a \<le> i \<Longrightarrow> splice (a @ b) i ys = a @ splice b (i - length a) ys"
  by (simp add: splice_def)

lemma splice_append12:
  assumes "i + length xs = length a"
  shows "splice (a @ b) i (xs @ ys) = splice a i xs @ splice b 0 ys"
proof -
  have "i + (length xs + length ys) - length a = length ys" using assms by simp
  then show ?thesis using assms by (simp add: splice_def)
qed

lemma drop_splice: "k \<le> i \<Longrightarrow> i \<le> length xs \<Longrightarrow> drop k (splice xs i ys) = splice (drop k xs) (i - k) ys"
  by (simp add: splice_def drop_take)

section \<open>One step of the loop\<close>

definition copy_at :: "nat \<Rightarrow> nat \<Rightarrow> nat" where
  "copy_at req_off off = max off req_off"

lemma rw_step_eq:
  assumes "off_in_buf < bsz" and "off + (bsz - off_in_buf) < u32_max" and "bsz < u32_max"
    and "req_off + req_size < u32_max" and "copy_at req_off off < req_off + req_size"
    and "size_left = req_off + req_size - copy_at req_off off"
  shows "rw_step bsz off_in_buf req_size req_off off size_left =
    Inr (bsz - off_in_buf, if off + (bsz - off_in_buf) > req_off
      then Some (off_in_buf + (copy_at req_off off - off), copy_at req_off off - req_off,
                 min size_left (off + (bsz - off_in_buf) - copy_at req_off off))
      else None)"
proof (cases "off + (bsz - off_in_buf) > req_off")
  case False
  then show ?thesis using assms by (simp add: rw_step_def Let_def u32_sub_nowrap u32_add_nowrap)
next
  case True
  show ?thesis
  proof (cases "req_off > off")
    case req: True
    then show ?thesis
      using assms True by (simp add: rw_step_def Let_def u32_sub_nowrap u32_add_nowrap copy_at_def)
  next
    case False
    then show ?thesis
      using assms True by (simp add: rw_step_def Let_def u32_sub_nowrap u32_add_nowrap copy_at_def)
  qed
qed

section \<open>Reading\<close>

definition bufs_ok :: "bheap \<Rightarrow> nat list \<Rightarrow> nat \<Rightarrow> bool" where
  "bufs_ok h its off_in_buf \<longleftrightarrow> (\<forall>b \<in> set its. 0 < length (bh_data h b) \<and> length (bh_data h b) < u32_max) \<and>
     (its \<noteq> [] \<longrightarrow> off_in_buf < length (bh_data h (hd its)))"

definition flat :: "bheap \<Rightarrow> nat list \<Rightarrow> nat \<Rightarrow> u8 list" where
  "flat h its off_in_buf = drop off_in_buf (concat (map (bh_data h) its))"

lemma flat_Cons:
  "off_in_buf < length (bh_data h b) \<Longrightarrow> flat h (b # its) off_in_buf = drop off_in_buf (bh_data h b) @ flat h its 0"
  by (simp add: flat_def)

lemma flat_Nil [simp]: "flat h [] k = []"
  by (simp add: flat_def)

lemma bufs_ok_Cons:
  "bufs_ok h (b # its) k \<Longrightarrow> k < length (bh_data h b) \<and> length (bh_data h b) < u32_max \<and> bufs_ok h its 0"
  by (cases its) (auto simp: bufs_ok_def)

lemma read_loop_ok:
  assumes "bufs_ok h its k" and "off + length (flat h its k) < u32_max" and "req_off + req_size \<le> off + length (flat h its k)"
    and "size_left = req_off + req_size - copy_at req_off off" and "req_size \<le> length buf"
  shows "read_loop h req_size req_off its k off size_left buf =
    Inr (splice buf (copy_at req_off off - req_off) (take size_left (drop (copy_at req_off off - off) (flat h its k))))"
  using assms
proof (induction its arbitrary: k off size_left buf)
  case Nil
  then show ?case by (simp add: copy_at_def)
next
  case (Cons b its)
  let ?M = "copy_at req_off off" and ?bs = "length (bh_data h b) - k"
  have k: "k < length (bh_data h b)" "length (bh_data h b) < u32_max" and ok: "bufs_ok h its 0"
    using bufs_ok_Cons [OF Cons.prems(1)] by auto
  let ?seg = "drop k (bh_data h b)"
  have fl: "flat h (b # its) k = ?seg @ flat h its 0" by (rule flat_Cons [OF k(1)])
  have len: "length (flat h (b # its) k) = ?bs + length (flat h its 0)" using fl by simp
  show ?case
  proof (cases "size_left = 0")
    case True
    then show ?thesis by simp
  next
    case False
    then have M: "?M < req_off + req_size" using Cons.prems(4) by simp
    note st = rw_step_eq [OF k(1) _ k(2) _ M Cons.prems(4)]
    have nw: "off + ?bs < u32_max" "req_off + req_size < u32_max" using Cons.prems(2,3) len by simp_all
    have add: "u32_add off ?bs = off + ?bs" using nw(1) by (rule u32_add_nowrap)
    note IH = Cons.IH [OF ok, of "off + ?bs"]
    show ?thesis
    proof (cases "off + ?bs > req_off")
      case skip: False
      have "read_loop h req_size req_off (b # its) k off size_left buf =
          read_loop h req_size req_off its 0 (off + ?bs) size_left buf"
        using False st [OF nw] skip add by (simp add: buffer_get_size_def)
      also have "\<dots> = Inr (splice buf (?M - req_off) (take size_left (drop (?M - off) (flat h (b # its) k))))"
        using IH [of size_left buf] Cons.prems skip len unfolding fl by (simp add: copy_at_def)
      finally show ?thesis .
    next
      case copy: True
      define sz where "sz = min size_left (off + ?bs - ?M)"
      define buf1 where "buf1 = splice buf (?M - req_off) (take sz (drop (?M - off) ?seg))"
      have sl: "u32_sub size_left sz = req_off + req_size - copy_at req_off (off + ?bs)"
        using Cons.prems(4) nw copy by (subst u32_sub_nowrap) (auto simp: sz_def copy_at_def min_def max_def)
      have tk: "length (take sz (drop (?M - off) ?seg)) = sz" using copy by (simp add: sz_def copy_at_def)
      have "read_loop h req_size req_off (b # its) k off size_left buf =
          read_loop h req_size req_off its 0 (off + ?bs) (u32_sub size_left sz) buf1"
        using False st [OF nw] copy add by (simp add: buffer_get_size_def sz_def buf1_def add.commute)
      also have "\<dots> = Inr (splice buf1 (off + ?bs - req_off) (take (u32_sub size_left sz) (flat h its 0)))"
      proof -
        have c: "copy_at req_off (off + ?bs) = off + ?bs" using copy by (simp add: copy_at_def)
        have "?M - req_off + sz \<le> req_size" using Cons.prems(4) M by (auto simp: sz_def copy_at_def max_def min_def)
        then have "length buf1 = length buf" unfolding buf1_def using tk Cons.prems(5) by (intro length_splice) linarith
        then show ?thesis using IH [OF _ _ sl, of buf1] Cons.prems(2,3,5) len unfolding c by simp
      qed
      also have "\<dots> = Inr (splice buf (?M - req_off) (take size_left (drop (?M - off) (flat h (b # its) k))))"
      proof -
        have seg: "length (drop (?M - off) ?seg) = off + ?bs - ?M" using copy by (auto simp: copy_at_def max_def)
        have d: "drop (?M - off) (flat h (b # its) k) = drop (?M - off) ?seg @ flat h its 0"
          unfolding fl using copy by (auto simp: copy_at_def max_def)
        show ?thesis
        proof (cases "size_left \<le> off + ?bs - ?M")
          case True
          then have "sz = size_left" by (simp add: sz_def)
          moreover have "u32_sub size_left size_left = 0" by (simp add: u32_sub_def)
          ultimately show ?thesis unfolding d buf1_def using True seg by simp
        next
          case False
          then have sz: "sz = off + ?bs - ?M" by (simp add: sz_def)
          have s1: "u32_sub size_left sz = size_left - sz"
            using Cons.prems(4) nw False sz by (intro u32_sub_nowrap) auto
          define X where "X = drop (?M - off) ?seg"
          have X: "length X = sz" unfolding X_def using seg sz by simp
          have pos: "off + ?bs - req_off = ?M - req_off + length X"
            using copy sz unfolding X by (auto simp: copy_at_def max_def)
          have b1: "buf1 = splice buf (?M - req_off) X" unfolding buf1_def X_def [symmetric] using X by simp
          have t: "take size_left (X @ flat h its 0) = X @ take (size_left - sz) (flat h its 0)" using X False sz by simp
          have "?M - req_off \<le> length buf" using M Cons.prems(5) by simp
          then show ?thesis unfolding d b1 pos s1 X_def [symmetric] t by (simp add: splice_splice)
        qed
      qed
      finally show ?thesis .
    qed
  qed
qed

section \<open>Writing\<close>

definition fresh_addr :: "new_addr \<Rightarrow> bool" where
  "fresh_addr new_addr \<longleftrightarrow> (\<forall>al h a. new_addr al h = Some a \<longrightarrow> bh_refs h a = 0)"

text \<open>
  \<open>counts_refs h others its\<close>: the use counts are the references in \<open>its\<close> plus those from elsewhere.
\<close>

definition counts_refs :: "bheap \<Rightarrow> (nat \<Rightarrow> nat) \<Rightarrow> nat list \<Rightarrow> bool" where
  "counts_refs h others its \<longleftrightarrow> (\<forall>x. bh_refs h x = others x + count_list its x)"

definition plus_one :: "(nat \<Rightarrow> nat) \<Rightarrow> nat \<Rightarrow> nat \<Rightarrow> nat" where
  "plus_one f b x = f x + (if x = b then 1 else 0)"

lemma counts_refs_Cons: "counts_refs h others (b # its) \<longleftrightarrow> counts_refs h (plus_one others b) its"
  by (auto simp: counts_refs_def plus_one_def)

lemma ensure_unique_ok:
  assumes fr: "fresh_addr new_addr" and rc: "counts_refs h others (b # its)"
    and e: "ensure_unique new_addr al b h = Inr (b', h')"
  shows "counts_refs h' others (b' # its)" and "bh_data h' b' = bh_data h b" and "others b' = 0" and "b' \<notin> set its"
    and "\<And>x. x \<noteq> b' \<Longrightarrow> bh_data h' x = bh_data h x"
proof -
  have r: "bh_refs h x = others x + count_list (b # its) x" for x using rc by (simp add: counts_refs_def)
  have "counts_refs h' others (b' # its) \<and> bh_data h' b' = bh_data h b \<and> others b' = 0 \<and> b' \<notin> set its \<and>
    (\<forall>x. x \<noteq> b' \<longrightarrow> bh_data h' x = bh_data h x)"
  proof (cases "bh_refs h b = 1")
    case True
    then have "b' = b" "h' = h" using e by (simp_all add: ensure_unique_def)
    moreover have "others b = 0" "count_list its b = 0" using r [of b] True by simp_all
    ultimately show ?thesis using rc by (simp add: count_list_0_iff)
  next
    case False
    then obtain a where a: "new_addr al h = Some a"
      using e by (auto simp: ensure_unique_def buffer_ctor_def split: option.splits)
    have z: "others a = 0" "count_list (b # its) a = 0" using r [of a] a fr by (auto simp: fresh_addr_def)
    then have n: "b \<noteq> a" "a \<notin> set its" by (auto simp: count_list_0_iff split: if_splits)
    have b': "b' = a" and h': "h' = h\<lparr>bh_data := (bh_data h)(a := bh_data h b), bh_refs := (bh_refs h)(a := 1, b := bh_refs h b - 1)\<rparr>"
      using e a n False by (auto simp: ensure_unique_def buffer_ctor_def)
    show ?thesis using z n r b' h' by (auto simp: counts_refs_def count_list_0_iff)
  qed
  then show "counts_refs h' others (b' # its)" "bh_data h' b' = bh_data h b" "others b' = 0" "b' \<notin> set its"
    "\<And>x. x \<noteq> b' \<Longrightarrow> bh_data h' x = bh_data h x" by blast+
qed

lemma ensure_unique_error: "ensure_unique new_addr al b h = Inl e \<Longrightarrow> e = Bad_alloc"
  by (auto simp: ensure_unique_def buffer_ctor_def res_simps split: if_splits option.splits)

definition sizes :: "bheap \<Rightarrow> nat list \<Rightarrow> nat list" where
  "sizes h its = map (\<lambda>b. length (bh_data h b)) its"

text \<open>The post-condition of the writing loop.\<close>

definition wrote :: "(nat \<Rightarrow> nat) \<Rightarrow> bheap \<Rightarrow> nat list \<Rightarrow> nat \<Rightarrow> nat \<Rightarrow> u8 list \<Rightarrow> nat list \<Rightarrow> bheap \<Rightarrow> bool" where
  "wrote others h its k i bs its' h' \<longleftrightarrow>
     counts_refs h' others its' \<and> (\<forall>x. 0 < others x \<longrightarrow> bh_data h' x = bh_data h x) \<and>
     sizes h' its' = sizes h its \<and> flat h' its' k = splice (flat h its k) i bs"

lemma wrote_refl: "counts_refs h others its \<Longrightarrow> wrote others h its k i [] its h"
  by (simp add: wrote_def)

text \<open>The loop writes all of \<open>bs\<close>, or a shorter prefix of it when the memory for a copy is out.\<close>

definition wrote_prefix :: "(nat \<Rightarrow> nat) \<Rightarrow> bheap \<Rightarrow> nat list \<Rightarrow> nat \<Rightarrow> nat \<Rightarrow> u8 list \<Rightarrow> unit res \<times> nat list \<times> bheap \<Rightarrow> bool" where
  "wrote_prefix others h its k i bs out \<longleftrightarrow> (case out of (r, its', h') \<Rightarrow>
     \<exists>j. wrote others h its k i (take j bs) its' h' \<and> (r = Inr () \<and> j = length bs \<or> r = Inl Bad_alloc \<and> j < length bs))"

lemma wrote_prefix_refl: "counts_refs h others its \<Longrightarrow> wrote_prefix others h its k i [] (Inr (), its, h)"
  by (simp add: wrote_prefix_def wrote_refl)

lemma wrote_prefix_none: "counts_refs h others its \<Longrightarrow> bs \<noteq> [] \<Longrightarrow> wrote_prefix others h its k i bs (Inl Bad_alloc, its, h)"
  by (auto simp: wrote_prefix_def wrote_refl intro!: exI [of _ 0])

lemma wrote_skip:
  assumes w: "wrote (plus_one others b) h its 0 i bs its' h'" and k: "k < length (bh_data h b)"
  shows "wrote others h (b # its) k (length (bh_data h b) - k + i) bs (b # its') h'"
proof -
  have d: "bh_data h' b = bh_data h b" using w by (simp add: wrote_def plus_one_def)
  have "flat h' (b # its') k = splice (flat h (b # its) k) (length (bh_data h b) - k + i) bs"
    using w k d by (simp add: wrote_def flat_Cons splice_append2)
  then show ?thesis using w d by (auto simp: wrote_def counts_refs_Cons plus_one_def sizes_def)
qed

lemma wrote_prefix_skip:
  assumes w: "wrote_prefix (plus_one others b) h its 0 i bs out" and k: "k < length (bh_data h b)"
  shows "wrote_prefix others h (b # its) k (length (bh_data h b) - k + i) bs (case out of (r, its', h') \<Rightarrow> (r, b # its', h'))"
  using w wrote_skip [OF _ k] unfolding wrote_prefix_def by (auto split: prod.splits) blast+

lemma wrote_copy:
  assumes fr: "fresh_addr new_addr" and rc: "counts_refs h others (b # its)"
    and e: "ensure_unique new_addr al b h = Inr (b', h1)"
    and h2: "h2 = h1\<lparr>bh_data := (bh_data h1)(b' := splice (bh_data h1 b') (k + j) bs)\<rparr>"
    and w: "wrote (plus_one others b') h2 its 0 0 cs its' h'"
    and k: "k < length (bh_data h b)" and j: "k + j + length bs \<le> length (bh_data h b)"
    and full: "cs = [] \<or> k + j + length bs = length (bh_data h b)"
  shows "wrote others h (b # its) k j (bs @ cs) (b' # its') h'"
proof -
  note E = ensure_unique_ok [OF fr rc e]
  have d: "bh_data h' b' = splice (bh_data h b) (k + j) bs"
    using w E(2) by (simp add: wrote_def plus_one_def h2)
  have same: "bh_data h2 x = bh_data h x" if "x \<in> set its" for x using E(4,5) that by (auto simp: h2)
  have fl: "flat h2 its 0 = flat h its 0" and sz: "sizes h2 its = sizes h its"
    using same by (simp_all add: flat_def sizes_def cong: map_cong)
  let ?seg = "drop k (bh_data h b)"
  have "flat h' (b' # its') k = drop k (splice (bh_data h b) (k + j) bs) @ splice (flat h its 0) 0 cs"
    using w k d j fl by (simp add: wrote_def flat_Cons)
  also have "\<dots> = splice ?seg j bs @ splice (flat h its 0) 0 cs"
    using drop_splice [of k "k + j" "bh_data h b" bs] j by simp
  also have "\<dots> = splice (?seg @ flat h its 0) j (bs @ cs)"
    using full splice_append1 [of j bs ?seg "flat h its 0"] splice_append12 [of j bs ?seg "flat h its 0" cs] j by auto
  finally have "flat h' (b' # its') k = splice (flat h (b # its) k) j (bs @ cs)" using flat_Cons [OF k] by simp
  moreover have "bh_data h' x = bh_data h x" if "0 < others x" for x
    using w that E(3) E(5) [of x] by (auto simp: wrote_def plus_one_def h2)
  ultimately show ?thesis
    using w d sz j by (simp add: wrote_def counts_refs_Cons sizes_def)
qed

lemma wrote_prefix_copy:
  assumes fr: "fresh_addr new_addr" and rc: "counts_refs h others (b # its)"
    and e: "ensure_unique new_addr al b h = Inr (b', h1)"
    and h2: "h2 = h1\<lparr>bh_data := (bh_data h1)(b' := splice (bh_data h1 b') (k + j) bs)\<rparr>"
    and w: "wrote_prefix (plus_one others b') h2 its 0 0 cs out"
    and k: "k < length (bh_data h b)" and j: "k + j + length bs \<le> length (bh_data h b)"
    and full: "cs = [] \<or> k + j + length bs = length (bh_data h b)"
  shows "wrote_prefix others h (b # its) k j (bs @ cs) (case out of (r, its', h') \<Rightarrow> (r, b' # its', h'))"
proof -
  obtain r its' h' i where out: "out = (r, its', h')" and w': "wrote (plus_one others b') h2 its 0 0 (take i cs) its' h'"
    and r: "r = Inr () \<and> i = length cs \<or> r = Inl Bad_alloc \<and> i < length cs"
    using w by (auto simp: wrote_prefix_def split: prod.splits)
  have "take i cs = [] \<or> k + j + length bs = length (bh_data h b)" using full by auto
  from wrote_copy [OF fr rc e h2 w' k j this] have "wrote others h (b # its) k j (take (length bs + i) (bs @ cs)) (b' # its') h'" by simp
  then show ?thesis using r unfolding wrote_prefix_def out by (auto intro!: exI [of _ "length bs + i"])
qed

lemma bufs_ok_cong: "sizes h' its' = sizes h its \<Longrightarrow> bufs_ok h' its' k \<longleftrightarrow> bufs_ok h its k"
proof -
  have "bufs_ok h its k \<longleftrightarrow> (\<forall>n \<in> set (sizes h its). 0 < n \<and> n < u32_max) \<and> (sizes h its \<noteq> [] \<longrightarrow> k < hd (sizes h its))"
    for h its by (cases its) (auto simp: bufs_ok_def sizes_def)
  then show "sizes h' its' = sizes h its \<Longrightarrow> ?thesis" by simp
qed

lemma write_loop_ok:
  assumes fr: "fresh_addr new_addr" and "counts_refs h others its" and "bufs_ok h its k"
    and "off + length (flat h its k) < u32_max" and "req_off + req_size \<le> off + length (flat h its k)"
    and "size_left = req_off + req_size - copy_at req_off off" and "req_size \<le> length buf"
  shows "wrote_prefix others h its k (copy_at req_off off - off) (take size_left (drop (copy_at req_off off - req_off) buf))
    (write_loop new_addr al req_size req_off buf its k off size_left h)"
  using assms(2-7)
proof (induction its arbitrary: k off size_left h others)
  case Nil
  then show ?case by (simp add: copy_at_def wrote_prefix_refl)
next
  case (Cons b its)
  let ?M = "copy_at req_off off" and ?bs = "length (bh_data h b) - k"
  have k: "k < length (bh_data h b)" "length (bh_data h b) < u32_max" and ok: "bufs_ok h its 0"
    using bufs_ok_Cons [OF Cons.prems(2)] by auto
  have len: "length (flat h (b # its) k) = ?bs + length (flat h its 0)" using flat_Cons [OF k(1), of its] by simp
  show ?case
  proof (cases "size_left = 0")
    case True
    then show ?thesis using Cons.prems(1) wrote_prefix_refl by simp
  next
    case False
    then have M: "?M < req_off + req_size" using Cons.prems(5) by simp
    have nw: "off + ?bs < u32_max" "req_off + req_size < u32_max" using Cons.prems(3,4) len by simp_all
    note st = rw_step_eq [OF k(1) nw(1) k(2) nw(2) M Cons.prems(5)]
    have add: "u32_add off ?bs = off + ?bs" using nw(1) by (rule u32_add_nowrap)
    show ?thesis
    proof (cases "off + ?bs > req_off")
      case skip: False
      have m: "copy_at req_off (off + ?bs) = ?M" "?M = req_off" using skip by (auto simp: copy_at_def)
      have step: "write_loop new_addr al req_size req_off buf (b # its) k off size_left h =
          (case write_loop new_addr al req_size req_off buf its 0 (off + ?bs) size_left h of (r, its, h) \<Rightarrow> (r, b # its, h))"
        using False st skip add by (simp add: buffer_get_size_def)
      have pos: "?M - off = ?bs + (?M - (off + ?bs))" using skip m by simp
      show ?thesis
        using Cons.IH [OF Cons.prems(1) [unfolded counts_refs_Cons] ok, of "off + ?bs" size_left] Cons.prems(3-6) len
          wrote_prefix_skip [of others b h its "?M - (off + ?bs)" _ _ k, OF _ k(1), folded pos]
        unfolding step m(1) by (simp add: add.assoc)
    next
      case copy: True
      define sz where "sz = min size_left (off + ?bs - ?M)"
      define bs where "bs = take sz (drop (?M - req_off) buf)"
      have c: "copy_at req_off (off + ?bs) = off + ?bs" using copy by (simp add: copy_at_def)
      have sl: "u32_sub size_left sz = req_off + req_size - copy_at req_off (off + ?bs)"
        using Cons.prems(5) nw copy by (subst u32_sub_nowrap) (auto simp: sz_def copy_at_def min_def max_def)
      have szb: "?M - req_off + sz \<le> req_size" using Cons.prems(5) M by (auto simp: sz_def copy_at_def max_def min_def)
      have lb: "length bs = sz" using szb Cons.prems(6) by (auto simp: bs_def)
      show ?thesis
      proof (cases "ensure_unique new_addr al b h")
        case (Inl e)
        have "write_loop new_addr al req_size req_off buf (b # its) k off size_left h = (Inl Bad_alloc, b # its, h)"
          using False st copy Inl ensure_unique_error [OF Inl] by (simp add: buffer_get_size_def)
        moreover have "take size_left (drop (?M - req_off) buf) \<noteq> []"
          using False M Cons.prems(6) by (auto simp: copy_at_def)
        ultimately show ?thesis using wrote_prefix_none [OF Cons.prems(1)] by simp
      next
        case (Inr p)
        obtain b' h1 where p: "p = (b', h1)" by (cases p)
        note E = ensure_unique_ok [OF fr Cons.prems(1) Inr [unfolded p]]
        define h2 where "h2 = h1\<lparr>bh_data := (bh_data h1)(b' := splice (bh_data h1 b') (k + (?M - off)) bs)\<rparr>"
        have step: "write_loop new_addr al req_size req_off buf (b # its) k off size_left h =
            (case write_loop new_addr al req_size req_off buf its 0 (off + ?bs) (u32_sub size_left sz) h2 of (r, its, h) \<Rightarrow> (r, b' # its, h))"
          using False st copy add Inr p by (simp add: buffer_get_size_def h2_def bs_def sz_def)
        have same: "bh_data h2 x = bh_data h x" if "x \<in> set its" for x using E(4,5) that by (auto simp: h2_def)
        have rc2: "counts_refs h2 (plus_one others b') its" using E(1) by (simp add: counts_refs_def h2_def plus_one_def)
        have h2s: "flat h2 its 0 = flat h its 0" "sizes h2 its = sizes h its"
          using same by (simp_all add: flat_def sizes_def cong: map_cong)
        define cs where "cs = take (u32_sub size_left sz) (drop (off + ?bs - req_off) buf)"
        have IH: "wrote_prefix (plus_one others b') h2 its 0 0 cs
            (write_loop new_addr al req_size req_off buf its 0 (off + ?bs) (u32_sub size_left sz) h2)"
          using Cons.IH [OF rc2 _ _ _ sl Cons.prems(6)] ok bufs_ok_cong [OF h2s(2)] h2s(1) Cons.prems(3,4) len c
          by (simp add: cs_def add.assoc)
        have room: "k + (?M - off) + length bs \<le> length (bh_data h b)"
          using lb copy k by (auto simp: sz_def copy_at_def max_def min_def)
        have parts: "cs = [] \<and> sz = size_left \<or>
            k + (?M - off) + length bs = length (bh_data h b) \<and> u32_sub size_left sz = size_left - sz \<and>
            off + ?bs - req_off = sz + (?M - req_off) \<and> sz \<le> size_left"
        proof (cases "size_left \<le> off + ?bs - ?M")
          case True
          then have "sz = size_left" by (simp add: sz_def)
          then show ?thesis by (simp add: cs_def u32_sub_def)
        next
          case f: False
          then have sz: "sz = off + ?bs - ?M" by (simp add: sz_def)
          have "u32_sub size_left sz = size_left - sz" using Cons.prems(5) nw f sz by (intro u32_sub_nowrap) auto
          then show ?thesis using lb sz copy k f by (auto simp: copy_at_def max_def)
        qed
        then have full: "cs = [] \<or> k + (?M - off) + length bs = length (bh_data h b)" by blast
        have all: "bs @ cs = take size_left (drop (?M - req_off) buf)"
          using parts take_add [of sz "size_left - sz" "drop (?M - req_off) buf"] by (auto simp: bs_def cs_def)
        show ?thesis
          using wrote_prefix_copy [OF fr Cons.prems(1) Inr [unfolded p] h2_def IH k(1) room full] unfolding step all .
      qed
    qed
  qed
qed

section \<open>Multi-buffers as flat sequences\<close>

definition mb_bytes :: "bheap \<Rightarrow> multi_buffer \<Rightarrow> u8 list" where
  "mb_bytes h m = take (mb_size m) (flat h (mb_buffers m) (mb_left_off m))"

definition mb_ok :: "bheap \<Rightarrow> multi_buffer \<Rightarrow> bool" where
  "mb_ok h m \<longleftrightarrow> bufs_ok h (mb_buffers m) (mb_left_off m) \<and>
     length (flat h (mb_buffers m) (mb_left_off m)) < u32_max \<and>
     mb_size m \<le> length (flat h (mb_buffers m) (mb_left_off m))"

lemma length_mb_bytes: "mb_ok h m \<Longrightarrow> length (mb_bytes h m) = mb_size m"
  by (simp add: mb_ok_def mb_bytes_def)

lemma mb_read_flat:
  assumes ok: "mb_ok h m" and r: "req_off + req_size \<le> mb_size m" and b: "req_size \<le> length buf"
  shows "mb_read m h buf req_size req_off = Inr (splice buf 0 (take req_size (drop req_off (mb_bytes h m))))"
proof -
  let ?fl = "flat h (mb_buffers m) (mb_left_off m)"
  have nw: "u32_add req_size req_off = req_size + req_off" using ok r by (intro u32_add_nowrap) (auto simp: mb_ok_def)
  have "take req_size (drop req_off ?fl) = take req_size (drop req_off (mb_bytes h m))"
    using r by (simp add: mb_bytes_def drop_take min_def)
  moreover have "read_loop h req_size req_off (mb_buffers m) (mb_left_off m) 0 req_size buf =
      Inr (splice buf 0 (take req_size (drop req_off ?fl)))"
    using ok r b by (subst read_loop_ok) (auto simp: mb_ok_def copy_at_def)
  moreover have "mb_buffers m \<noteq> []" if "req_size \<noteq> 0" using ok r that by (auto simp: mb_ok_def)
  ultimately show ?thesis using r nw by (simp add: mb_read_def add.commute)
qed

lemma take_splice: "i + length ys \<le> n \<Longrightarrow> n \<le> length xs \<Longrightarrow> take n (splice xs i ys) = splice (take n xs) i ys"
  by (cases "i = n") (auto simp: splice_def take_drop min_def)

lemma mb_write_flat:
  assumes fr: "fresh_addr new_addr" and rc: "counts_refs h others (mb_buffers m)" and ok: "mb_ok h m"
    and r: "req_off + req_size \<le> mb_size m" and b: "req_size \<le> length buf"
  shows "\<exists>r m' h' j. mb_write new_addr m h buf req_size req_off al = (r, m', h') \<and>
    (r = Inr () \<and> j = req_size \<or> r = Inl Bad_alloc \<and> j < req_size) \<and>
    mb_bytes h' m' = splice (mb_bytes h m) req_off (take j buf) \<and> mb_ok h' m' \<and>
    counts_refs h' others (mb_buffers m') \<and> (\<forall>x. 0 < others x \<longrightarrow> bh_data h' x = bh_data h x)"
proof (cases "req_size = 0")
  case True
  then show ?thesis using rc ok r by (simp add: mb_write_def u32_add_nowrap mb_ok_def)
next
  case False
  let ?fl = "flat h (mb_buffers m) (mb_left_off m)"
  have nw: "u32_add req_size req_off = req_size + req_off" using ok r by (intro u32_add_nowrap) (auto simp: mb_ok_def)
  have ne: "mb_buffers m \<noteq> []" using ok r False by (auto simp: mb_ok_def)
  obtain res its' h' where l: "write_loop new_addr al req_size req_off buf (mb_buffers m) (mb_left_off m) 0 req_size h = (res, its', h')"
    using prod_cases3 by blast
  have w: "mb_write new_addr m h buf req_size req_off al = (res, m\<lparr>mb_buffers := its'\<rparr>, h')"
    using False ne r nw l by (simp add: mb_write_def add.commute)
  have "wrote_prefix others h (mb_buffers m) (mb_left_off m) req_off (take req_size buf) (res, its', h')"
    using write_loop_ok [OF fr rc, of "mb_left_off m" 0 req_off req_size req_size buf al] ok r b l
    by (auto simp: mb_ok_def copy_at_def)
  then obtain i where i: "wrote others h (mb_buffers m) (mb_left_off m) req_off (take (min i req_size) buf) its' h'"
      "res = Inr () \<and> i = req_size \<or> res = Inl Bad_alloc \<and> i < req_size"
    using b by (auto simp: wrote_prefix_def min_absorb2)
  define j where "j = min i req_size"
  have j: "wrote others h (mb_buffers m) (mb_left_off m) req_off (take j buf) its' h'"
      "res = Inr () \<and> j = req_size \<or> res = Inl Bad_alloc \<and> j < req_size"
    using i by (auto simp: j_def)
  have jl: "j \<le> req_size" using j(2) by auto
  have "mb_bytes h' (m\<lparr>mb_buffers := its'\<rparr>) = splice (mb_bytes h m) req_off (take j buf) \<and> mb_ok h' (m\<lparr>mb_buffers := its'\<rparr>)"
    using j(1) ok r b jl take_splice [of req_off "take j buf" "mb_size m" ?fl] bufs_ok_cong [of h' its' h "mb_buffers m"]
    by (simp add: wrote_def mb_ok_def mb_bytes_def)
  then show ?thesis using w j by (auto simp: wrote_def)
qed

section \<open>Several multi-buffers\<close>

definition refs_in :: "multi_buffer list \<Rightarrow> nat \<Rightarrow> nat" where
  "refs_in ms x = sum_list (map (\<lambda>m. count_list (mb_buffers m) x) ms)"

definition mbs_inv :: "bheap \<times> multi_buffer list \<Rightarrow> bool" where
  "mbs_inv st \<longleftrightarrow> (case st of (h, ms) \<Rightarrow> bh_refs h = refs_in ms \<and> (\<forall>m \<in> set ms. mb_ok h m))"

definition mbs_abs :: "bheap \<times> multi_buffer list \<Rightarrow> u8 list list" where
  "mbs_abs st = (case st of (h, ms) \<Rightarrow> map (mb_bytes h) ms)"

datatype mb_op = Mb_copy nat | Mb_write nat nat "u8 list" | Mb_read nat nat "u8 list" | Mb_failed nat nat "u8 list"

inductive mb_step :: "new_addr \<Rightarrow> bheap \<times> multi_buffer list \<Rightarrow> mb_op \<Rightarrow> bheap \<times> multi_buffer list \<Rightarrow> bool"
  for new_addr where
  mb_step_copy: "i < length ms \<Longrightarrow> multi_buffer_copy (ms ! i) h = (m, h') \<Longrightarrow>
     mb_step new_addr (h, ms) (Mb_copy i) (h', ms @ [m])"
| mb_step_write: "i < length ms \<Longrightarrow> off + length bs \<le> mb_size (ms ! i) \<Longrightarrow>
     mb_write new_addr (ms ! i) h bs (length bs) off al = (Inr (), m, h') \<Longrightarrow>
     mb_step new_addr (h, ms) (Mb_write i off bs) (h', ms[i := m])"
| mb_step_read: "i < length ms \<Longrightarrow> off + length buf \<le> mb_size (ms ! i) \<Longrightarrow>
     mb_read (ms ! i) h buf (length buf) off = Inr bs \<Longrightarrow>
     mb_step new_addr (h, ms) (Mb_read i off bs) (h, ms)"
| mb_step_failed: "i < length ms \<Longrightarrow> off + length bs \<le> mb_size (ms ! i) \<Longrightarrow>
     mb_write new_addr (ms ! i) h bs (length bs) off al = (Inl Bad_alloc, m, h') \<Longrightarrow>
     mb_step new_addr (h, ms) (Mb_failed i off bs) (h', ms[i := m])"

text \<open>The contract: independent arrays of bytes. A write that runs out of memory has written a shorter prefix of its bytes.\<close>

inductive arrays_step :: "u8 list list \<Rightarrow> mb_op \<Rightarrow> u8 list list \<Rightarrow> bool" where
  arr_copy: "i < length as \<Longrightarrow> arrays_step as (Mb_copy i) (as @ [as ! i])"
| arr_write: "i < length as \<Longrightarrow> off + length bs \<le> length (as ! i) \<Longrightarrow>
     arrays_step as (Mb_write i off bs) (as[i := splice (as ! i) off bs])"
| arr_read: "i < length as \<Longrightarrow> off + length bs \<le> length (as ! i) \<Longrightarrow> bs = take (length bs) (drop off (as ! i)) \<Longrightarrow>
     arrays_step as (Mb_read i off bs) as"
| arr_failed: "i < length as \<Longrightarrow> off + length bs \<le> length (as ! i) \<Longrightarrow> j < length bs \<Longrightarrow>
     arrays_step as (Mb_failed i off bs) (as[i := splice (as ! i) off (take j bs)])"

lemma refs_in_upd:
  assumes "i < length ms"
  shows "\<exists>others. refs_in ms = (\<lambda>x. others x + count_list (mb_buffers (ms ! i)) x) \<and>
    (\<forall>m. refs_in (ms[i := m]) = (\<lambda>x. others x + count_list (mb_buffers m) x)) \<and>
    (\<forall>j b. j < length ms \<longrightarrow> j \<noteq> i \<longrightarrow> b \<in> set (mb_buffers (ms ! j)) \<longrightarrow> 0 < others b)"
proof -
  let ?o = "\<lambda>x. refs_in (take i ms) x + refs_in (drop (Suc i) ms) x"
  have 1: "refs_in (ms[i := m]) x = ?o x + count_list (mb_buffers m) x" for m x
    using assms by (simp add: upd_conv_take_nth_drop refs_in_def)
  have 2: "0 < ?o b" if j: "j < length ms" "j \<noteq> i" and b: "b \<in> set (mb_buffers (ms ! j))" for j b
  proof -
    have "ms ! j \<in> set (take i ms) \<union> set (drop (Suc i) ms)"
    proof (cases "j < i")
      case True
      then show ?thesis using j by (auto simp: in_set_conv_nth intro: exI [of _ j])
    next
      case False
      then have "ms ! j = drop (Suc i) ms ! (j - Suc i)" "j - Suc i < length (drop (Suc i) ms)" using j by auto
      then show ?thesis by (metis UnI2 nth_mem)
    qed
    moreover have "0 < refs_in l b" if "ms ! j \<in> set l" for l
    proof -
      have "0 < count_list (mb_buffers (ms ! j)) b" using b by (simp add: count_list_0_iff neq0_conv [symmetric] del: neq0_conv)
      also have "\<dots> \<le> refs_in l b" unfolding refs_in_def using that by (intro member_le_sum_list) auto
      finally show ?thesis .
    qed
    ultimately show ?thesis by (metis UnE add_pos_nonneg add_nonneg_pos zero_le)
  qed
  show ?thesis using 1 [of "ms ! i"] 1 2 assms by (intro exI [of _ ?o]) auto
qed

lemma mb_same_data:
  assumes "\<And>b. b \<in> set (mb_buffers m) \<Longrightarrow> bh_data h' b = bh_data h b"
  shows "mb_bytes h' m = mb_bytes h m" and "mb_ok h' m = mb_ok h m"
proof -
  have "map (bh_data h') (mb_buffers m) = map (bh_data h) (mb_buffers m)" using assms by simp
  then have f: "flat h' (mb_buffers m) k = flat h (mb_buffers m) k" for k unfolding flat_def by (rule arg_cong)
  have "bufs_ok h' (mb_buffers m) k = bufs_ok h (mb_buffers m) k" for k
    using assms by (intro bufs_ok_cong) (simp add: sizes_def)
  then show "mb_bytes h' m = mb_bytes h m" "mb_ok h' m = mb_ok h m" by (simp_all add: f mb_bytes_def mb_ok_def)
qed

lemma fold_add_ref:
  "bh_data (fold add_ref bs h) = bh_data h"
  "bh_refs (fold add_ref bs h) x = bh_refs h x + count_list bs x"
  by (induction bs arbitrary: h) (simp_all add: add_ref_def)

lemma mb_copy_sim:
  assumes inv: "mbs_inv (h, ms)" and i: "i < length ms" and c: "multi_buffer_copy (ms ! i) h = (m, h')"
  shows "mbs_inv (h', ms @ [m]) \<and> arrays_step (mbs_abs (h, ms)) (Mb_copy i) (mbs_abs (h', ms @ [m]))"
proof -
  have m: "m = ms ! i" and h': "h' = fold add_ref (mb_buffers (ms ! i)) h"
    using c by (auto simp: multi_buffer_copy_def)
  have same: "mb_bytes h' x = mb_bytes h x" "mb_ok h' x = mb_ok h x" for x
    using mb_same_data [of x h' h] by (simp_all add: h' fold_add_ref)
  have "bh_refs h' = refs_in (ms @ [m])"
    using inv by (auto simp: fun_eq_iff mbs_inv_def h' fold_add_ref refs_in_def m)
  then have "mbs_inv (h', ms @ [m])" using inv i by (auto simp: mbs_inv_def same m)
  moreover have abs: "mbs_abs (h', ms @ [m]) = mbs_abs (h, ms) @ [mbs_abs (h, ms) ! i]" using i by (simp add: mbs_abs_def same m)
  have "arrays_step (mbs_abs (h, ms)) (Mb_copy i) (mbs_abs (h', ms @ [m]))"
    unfolding abs by (rule arr_copy) (simp add: mbs_abs_def i)
  ultimately show ?thesis by blast
qed

text \<open>One write, finished or not: \<open>j\<close> bytes of one multi-buffer change, the others keep theirs.\<close>

lemma mb_write_effect:
  assumes fr: "fresh_addr new_addr" and inv: "mbs_inv (h, ms)" and i: "i < length ms"
    and r: "off + length bs \<le> mb_size (ms ! i)" and w: "mb_write new_addr (ms ! i) h bs (length bs) off al = (res, m, h')"
  shows "\<exists>j. (res = Inr () \<and> j = length bs \<or> res = Inl Bad_alloc \<and> j < length bs) \<and> mbs_inv (h', ms[i := m]) \<and>
    mbs_abs (h', ms[i := m]) = (mbs_abs (h, ms))[i := splice (mbs_abs (h, ms) ! i) off (take j bs)]"
proof -
  obtain others where o: "refs_in ms = (\<lambda>x. others x + count_list (mb_buffers (ms ! i)) x)"
    "\<And>m. refs_in (ms[i := m]) = (\<lambda>x. others x + count_list (mb_buffers m) x)"
    "\<And>j b. j < length ms \<Longrightarrow> j \<noteq> i \<Longrightarrow> b \<in> set (mb_buffers (ms ! j)) \<Longrightarrow> 0 < others b"
    using refs_in_upd [OF i] by blast
  have rc: "counts_refs h others (mb_buffers (ms ! i))" using inv o(1) by (simp add: mbs_inv_def counts_refs_def)
  have ok: "mb_ok h (ms ! i)" using inv i by (simp add: mbs_inv_def)
  obtain j where J: "res = Inr () \<and> j = length bs \<or> res = Inl Bad_alloc \<and> j < length bs"
    and W: "mb_bytes h' m = splice (mb_bytes h (ms ! i)) off (take j bs)" "mb_ok h' m" "counts_refs h' others (mb_buffers m)"
    "\<And>x. 0 < others x \<Longrightarrow> bh_data h' x = bh_data h x"
    using mb_write_flat [OF fr rc ok r order_refl, of al] w by auto
  have same: "mb_bytes h' (ms ! j) = mb_bytes h (ms ! j)" "mb_ok h' (ms ! j) = mb_ok h (ms ! j)" if "j < length ms" "j \<noteq> i" for j
    using mb_same_data [of "ms ! j" h' h] W(4) o(3) [OF that] by simp_all
  have "bh_refs h' = refs_in (ms[i := m])" using W(3) o(2) by (simp add: counts_refs_def fun_eq_iff)
  moreover have "mb_ok h' m'" if mem: "m' \<in> set (ms[i := m])" for m'
  proof -
    obtain j where "j < length (ms[i := m])" "ms[i := m] ! j = m'" using mem unfolding in_set_conv_nth by blast
    then have j: "j < length ms" "m' = ms[i := m] ! j" by simp_all
    moreover have "mb_ok h (ms ! j)" using inv j(1) by (simp add: mbs_inv_def)
    ultimately show ?thesis using W(2) same(2) [of j] i by (cases "j = i") simp_all
  qed
  ultimately have "mbs_inv (h', ms[i := m])" by (simp add: mbs_inv_def)
  moreover have "mbs_abs (h', ms[i := m]) = (mbs_abs (h, ms))[i := splice (mbs_abs (h, ms) ! i) off (take j bs)]"
    using i W(1) same(1) by (intro nth_equalityI) (auto simp: mbs_abs_def nth_list_update)
  ultimately show ?thesis using J by blast
qed

lemma mb_write_sim:
  assumes fr: "fresh_addr new_addr" and inv: "mbs_inv (h, ms)" and i: "i < length ms" and r: "off + length bs \<le> mb_size (ms ! i)"
  shows "mb_write new_addr (ms ! i) h bs (length bs) off al = (Inr (), m, h') \<Longrightarrow>
      mbs_inv (h', ms[i := m]) \<and> arrays_step (mbs_abs (h, ms)) (Mb_write i off bs) (mbs_abs (h', ms[i := m]))"
    and "mb_write new_addr (ms ! i) h bs (length bs) off al = (Inl Bad_alloc, m, h') \<Longrightarrow>
      mbs_inv (h', ms[i := m]) \<and> arrays_step (mbs_abs (h, ms)) (Mb_failed i off bs) (mbs_abs (h', ms[i := m]))"
proof -
  have "mb_ok h (ms ! i)" using inv i by (simp add: mbs_inv_def)
  then have a: "i < length (mbs_abs (h, ms))" "off + length bs \<le> length (mbs_abs (h, ms) ! i)"
    using i r length_mb_bytes by (simp_all add: mbs_abs_def)
  show "mbs_inv (h', ms[i := m]) \<and> arrays_step (mbs_abs (h, ms)) (Mb_write i off bs) (mbs_abs (h', ms[i := m]))"
    if "mb_write new_addr (ms ! i) h bs (length bs) off al = (Inr (), m, h')"
    using mb_write_effect [OF fr inv i r that] arr_write [OF a] by auto
  show "mbs_inv (h', ms[i := m]) \<and> arrays_step (mbs_abs (h, ms)) (Mb_failed i off bs) (mbs_abs (h', ms[i := m]))"
    if "mb_write new_addr (ms ! i) h bs (length bs) off al = (Inl Bad_alloc, m, h')"
    using mb_write_effect [OF fr inv i r that] arr_failed [OF a] by auto
qed

lemma mb_step_sim:
  assumes "mb_step new_addr st l st'" and "fresh_addr new_addr" and "mbs_inv st"
  shows "mbs_inv st' \<and> arrays_step (mbs_abs st) l (mbs_abs st')"
  using assms
proof (cases rule: mb_step.cases)
  case (mb_step_read i ms off buf h bs)
  have ok: "mb_ok h (ms ! i)" using assms(3) mb_step_read by (simp add: mbs_inv_def)
  have bs: "bs = splice buf 0 (take (length buf) (drop off (mb_bytes h (ms ! i))))"
    using mb_read_flat [OF ok mb_step_read(5) order_refl] mb_step_read(6) by simp
  have "length (take (length buf) (drop off (mb_bytes h (ms ! i)))) = length buf"
    using length_mb_bytes [OF ok] mb_step_read(5) by simp
  then have "bs = take (length buf) (drop off (mb_bytes h (ms ! i)))" "length bs = length buf" using bs by (simp_all add: splice_def)
  then show ?thesis
    using assms(3) mb_step_read length_mb_bytes [OF ok] by (auto simp: mbs_abs_def intro!: arr_read)
qed (use assms mb_copy_sim mb_write_sim in auto)

interpretation arrays: simulation "mb_step new_addr" "\<lambda>st. mbs_inv st \<and> fresh_addr new_addr" arrays_step mbs_abs for new_addr
  by unfold_locales (use mb_step_sim in blast)+

section \<open>Properties\<close>

text \<open>
  C10. Copy-on-write isolation, as a refinement: any history of copies, writes and reads on a family of
  multi-buffers that share buffers is a history of independent byte arrays. A write changes the
  written multi-buffer at the written positions and no other one, and when the memory for a copy is out it has written a
  prefix of its bytes and throws; every read returns the current bytes. Assumes that an allocation returns an address nobody refers to.
\<close>

theorem multi_buffers_refine_arrays:
  assumes "run (mb_step new_addr) (h, ms) ops (h', ms')" and "mbs_inv (h, ms)" and "fresh_addr new_addr"
  shows "run arrays_step (map (mb_bytes h) ms) ops (map (mb_bytes h') ms') \<and> mbs_inv (h', ms')"
  using arrays.sim_run_inv [OF assms(1)] assms(2,3) by (simp add: mbs_abs_def)

definition sample_heap :: bheap where
  "sample_heap = \<lparr>bh_data = (\<lambda>b. if b = 1 then [10, 11, 12] else if b = 2 then [20, 21] else []),
     bh_refs = (\<lambda>b. if b = 1 \<or> b = 2 then 1 else 0)\<rparr>"

definition sample_mb :: multi_buffer where
  "sample_mb = \<lparr>mb_buffers = [1, 2], mb_size = 4, mb_left_off = 1\<rparr>"

definition bump_addr :: new_addr where
  "bump_addr al h = (if bh_refs h 7 = 0 then Some 7 else None)"

lemma sample_mb_inv: "mbs_inv (sample_heap, [sample_mb])"
  by (auto simp: mbs_inv_def sample_heap_def sample_mb_def refs_in_def fun_eq_iff mb_ok_def bufs_ok_def flat_def u32_max_def)

theorem multi_buffers_refine_arrays_witness:
  "\<exists>h' ms'. run (mb_step bump_addr) (sample_heap, [sample_mb]) [Mb_copy 0, Mb_write 1 0 [99]] (h', ms') \<and>
     run arrays_step [[11, 12, 20, 21]] [Mb_copy 0, Mb_write 1 0 [99]] (map (mb_bytes h') ms')"
proof -
  obtain m1 h1 where c: "multi_buffer_copy sample_mb sample_heap = (m1, h1)" by fastforce
  have m1: "m1 = sample_mb" and h1: "h1 = fold add_ref [1, 2] sample_heap"
    using c by (simp_all add: multi_buffer_copy_def sample_mb_def)
  have "\<exists>m2 h2. mb_write bump_addr sample_mb h1 [99] (length [99::u8]) 0 0 = (Inr (), m2, h2)"
    by (simp add: mb_write_def sample_mb_def h1 sample_heap_def add_ref_def rw_step_def buffer_get_size_def ensure_unique_def
        buffer_ctor_def bump_addr_def u32_add_def u32_sub_def u32_max_def Let_def)
  then obtain m2 h2 where w: "mb_write bump_addr sample_mb h1 [99] (length [99::u8]) 0 0 = (Inr (), m2, h2)" by blast
  have s1: "mb_step bump_addr (sample_heap, [sample_mb]) (Mb_copy 0) (h1, [sample_mb] @ [m1])"
    by (rule mb_step_copy) (simp_all add: c)
  have s2: "mb_step bump_addr (h1, [sample_mb] @ [m1]) (Mb_write 1 0 [99]) (h2, ([sample_mb] @ [m1])[1 := m2])"
    by (rule mb_step_write [of 1 _ 0 "[99]" _ _ 0]) (use w in \<open>simp_all add: m1 sample_mb_def\<close>)
  have r: "run (mb_step bump_addr) (sample_heap, [sample_mb]) [Mb_copy 0, Mb_write 1 0 [99]] (h2, ([sample_mb] @ [m1])[1 := m2])"
    using s1 s2 by (blast intro: run.intros)
  have fr: "fresh_addr bump_addr" by (simp add: fresh_addr_def bump_addr_def)
  have b: "map (mb_bytes sample_heap) [sample_mb] = [[11, 12, 20, 21]]"
    by (simp add: mb_bytes_def sample_mb_def sample_heap_def flat_def)
  show ?thesis using multi_buffers_refine_arrays [OF r sample_mb_inv fr] r unfolding b by blast
qed

end
