(* ===== verification/File_IO.thy ===== *)
theory File_IO
  imports Multi_Buffer_Correct
begin

unbundle bit_operations_syntax

text \<open>
  \<open>src/include/util/misc.h\<close> (powers of two and alignment) and \<open>src/util/file.cpp\<close>. Offsets are
  64-bit and sizes 32-bit unsigned integers, converted where the code converts them. The system
  calls are the fields of a \<open>kernel\<close>: \<open>open\<close> and \<open>close\<close> return -1 on an error, \<open>preadv\<close> gets
  the lengths of the vectors and returns the bytes it stored, \<open>pwritev\<close> gets the contents of the
  vectors and returns the number of bytes written.
\<close>

section \<open>Alignment\<close>

fun is_pow2 :: "nat \<Rightarrow> bool" where
  "is_pow2 v = (if v = 0 then False else if odd v then v = 1 else is_pow2 (v div 2))"

declare is_pow2.simps [simp del]

definition align_down :: "nat \<Rightarrow> nat \<Rightarrow> nat res" where
  "align_down v alignment = c_assert (is_pow2 alignment) (Inr (u64_sub v (v AND (alignment - 1))))"

definition align_up :: "nat \<Rightarrow> nat \<Rightarrow> nat res" where
  "align_up v alignment = bind_res (align_down v alignment) (\<lambda>r.
     Inr (if r < v then u64_add r alignment else r))"

lemma is_pow2_iff: "is_pow2 v \<longleftrightarrow> (\<exists>n. v = 2 ^ n)"
proof (induction v rule: is_pow2.induct)
  case (1 v)
  show ?case
  proof (cases "v = 0 \<or> odd v")
    case True
    then have "is_pow2 v \<longleftrightarrow> v = 1" by (subst is_pow2.simps) auto
    also have "\<dots> \<longleftrightarrow> (\<exists>n. v = 2 ^ n)" using True
    proof (intro iffI)
      assume "\<exists>n. v = 2 ^ n"
      then obtain n where "v = 2 ^ n" by blast
      then show "v = 1" using True by (cases n) auto
    qed (metis power_0)
    finally show ?thesis .
  next
    case False
    then have "is_pow2 v \<longleftrightarrow> is_pow2 (v div 2)" by (subst is_pow2.simps) simp
    also have "\<dots> \<longleftrightarrow> (\<exists>n. v div 2 = 2 ^ n)" using 1 False by simp
    also have "\<dots> \<longleftrightarrow> (\<exists>n. v = 2 ^ n)"
    proof
      assume "\<exists>n. v div 2 = 2 ^ n"
      then obtain n where n: "v div 2 = 2 ^ n" by blast
      have "v = 2 * (v div 2)" using False by auto
      then have "v = 2 ^ Suc n" by (simp add: n)
      then show "\<exists>n. v = 2 ^ n" by blast
    next
      assume "\<exists>n. v = 2 ^ n"
      then obtain n where "v = 2 ^ n" by blast
      then show "\<exists>n. v div 2 = 2 ^ n" using False by (cases n) auto
    qed
    finally show ?thesis .
  qed
qed

lemma and_mask_mod: "(v::nat) AND (2 ^ n - 1) = v mod 2 ^ n"
  by (simp add: take_bit_eq_mod [symmetric] take_bit_eq_mask mask_eq_exp_minus_1)

lemma align_down_eq:
  assumes "is_pow2 a" and "v < u64_max"
  shows "align_down v a = Inr (v - v mod a)"
proof -
  obtain n where "a = 2 ^ n" using assms(1) is_pow2_iff by blast
  then show ?thesis using assms unfolding align_down_def by (simp add: u64_sub_nowrap and_mask_mod [simplified])
qed

lemma align_up_eq:
  assumes "is_pow2 a" and "v + a < u64_max"
  shows "align_up v a = Inr (if v mod a = 0 then v else v - v mod a + a)"
proof -
  have d: "align_down v a = Inr (v - v mod a)" using assms by (intro align_down_eq) auto
  have "v - v mod a < v \<longleftrightarrow> v mod a \<noteq> 0" by (metis diff_less diff_zero less_irrefl mod_less_eq_dividend not_gr_zero order_less_le_trans)
  then show ?thesis using assms by (auto simp: align_up_def d u64_add_nowrap)
qed

section \<open>Files\<close>

record util_file =
  f_path :: string
  f_fd :: int

datatype pread_result = Pread_ok "u8 list" | Pread_eintr | Pread_error

record 'k kernel =
  k_open :: "string \<Rightarrow> bool \<Rightarrow> nat \<Rightarrow> nat \<Rightarrow> 'k \<Rightarrow> int \<times> 'k"
  k_close :: "int \<Rightarrow> 'k \<Rightarrow> int \<times> 'k"
  k_preadv :: "int \<Rightarrow> nat list \<Rightarrow> nat \<Rightarrow> 'k \<Rightarrow> pread_result \<times> 'k"
  k_pwritev :: "int \<Rightarrow> u8 list list \<Rightarrow> nat \<Rightarrow> 'k \<Rightarrow> int \<times> 'k"

definition NOT_OPEN :: int where "NOT_OPEN = -1"

definition file_ctor :: "string \<Rightarrow> util_file" where
  "file_ctor path = \<lparr>f_path = path, f_fd = NOT_OPEN\<rparr>"

definition is_open :: "util_file \<Rightarrow> bool" where
  "is_open f \<longleftrightarrow> f_fd f \<noteq> NOT_OPEN"

definition file_dtor :: "util_file \<Rightarrow> unit res" where
  "file_dtor f = d_assert (\<not> is_open f) (Inr ())"

text \<open>\<open>excl_or_creat\<close> tells whether the caller's flags contain one of the two forbidden bits.\<close>

definition open_internal :: "'k kernel \<Rightarrow> nat \<Rightarrow> bool \<Rightarrow> bool \<Rightarrow> nat \<Rightarrow> util_file \<times> 'k \<Rightarrow> (util_file \<times> 'k) res" where
  "open_internal K flags excl_or_creat create mode st = (case st of (f, k) \<Rightarrow>
     d_assert (\<not> excl_or_creat) (d_assert (\<not> is_open f)
       (case k_open K (f_path f) create flags mode k of (fd, k) \<Rightarrow>
          let f = f\<lparr>f_fd := fd\<rparr> in
          if fd = -1 then Inl Io_exception else Inr (f, k))))"

definition file_create :: "'k kernel \<Rightarrow> nat \<Rightarrow> bool \<Rightarrow> nat \<Rightarrow> util_file \<times> 'k \<Rightarrow> (util_file \<times> 'k) res" where
  "file_create K flags excl_or_creat mode st = open_internal K flags excl_or_creat True mode st"

definition file_open :: "'k kernel \<Rightarrow> nat \<Rightarrow> bool \<Rightarrow> util_file \<times> 'k \<Rightarrow> (util_file \<times> 'k) res" where
  "file_open K flags excl_or_creat st = open_internal K flags excl_or_creat False 0 st"

definition file_close :: "'k kernel \<Rightarrow> util_file \<times> 'k \<Rightarrow> (util_file \<times> 'k) res" where
  "file_close K st = (case st of (f, k) \<Rightarrow>
     d_assert (is_open f)
       (case k_close K (f_fd f) k of (err, k) \<Rightarrow>
          if err \<noteq> 0 then Inl Io_exception else Inr (f\<lparr>f_fd := NOT_OPEN\<rparr>, k)))"

text \<open>
  The factories. When \<open>open\<close> fails the new object is destroyed on the way out, with the descriptor -1 that the failed call left
  in it.
\<close>

definition file_create_static :: "'k kernel \<Rightarrow> string \<Rightarrow> nat \<Rightarrow> bool \<Rightarrow> nat \<Rightarrow> 'k \<Rightarrow> (util_file \<times> 'k) res" where
  "file_create_static K path flags excl_or_creat mode k = (case file_create K flags excl_or_creat mode (file_ctor path, k) of
     Inr st \<Rightarrow> Inr st
   | Inl Io_exception \<Rightarrow> bind_res (file_dtor \<lparr>f_path = path, f_fd = -1\<rparr>) (\<lambda>_. Inl Io_exception)
   | Inl e \<Rightarrow> Inl e)"

definition file_open_static :: "'k kernel \<Rightarrow> string \<Rightarrow> nat \<Rightarrow> bool \<Rightarrow> 'k \<Rightarrow> (util_file \<times> 'k) res" where
  "file_open_static K path flags excl_or_creat k = (case file_open K flags excl_or_creat (file_ctor path, k) of
     Inr st \<Rightarrow> Inr st
   | Inl Io_exception \<Rightarrow> bind_res (file_dtor \<lparr>f_path = path, f_fd = -1\<rparr>) (\<lambda>_. Inl Io_exception)
   | Inl e \<Rightarrow> Inl e)"

text \<open>The messages of \<open>io_exception\<close>; \<open>strerror\<close> is an argument.\<close>

definition show_int :: "int \<Rightarrow> string" where
  "show_int i = (if i < 0 then CHR ''-'' # decimal (nat (- i)) else decimal (nat i))"

definition io_exception_msg :: "util_file \<Rightarrow> string \<Rightarrow> string" where
  "io_exception_msg f msg = ''file '' @ [CHR 0x22] @ f_path f @ [CHR 0x22] @ '' (fd: '' @ show_int (f_fd f) @ ''): '' @ msg"

definition io_exception_errno :: "(int \<Rightarrow> string) \<Rightarrow> util_file \<Rightarrow> int \<Rightarrow> string \<Rightarrow> string" where
  "io_exception_errno strerror f err op' = io_exception_msg f (strerror err @ '' ('' @ show_int err @ '')'')"

definition single_buf_size :: nat where "single_buf_size = 512 * 1024"

text \<open>The lengths of the buffers the loop of \<open>read\<close> allocates.\<close>

function buf_lens :: "nat \<Rightarrow> nat \<Rightarrow> nat list" where
  "buf_lens aligned_end cur_off =
     (if cur_off < aligned_end
      then (if cur_off + single_buf_size \<ge> aligned_end then aligned_end - cur_off else single_buf_size)
             # buf_lens aligned_end (cur_off + single_buf_size)
      else [])"
  by pat_completeness auto
termination
  by (relation "measure (\<lambda>(e, c). e - c)") (auto simp: single_buf_size_def)

declare buf_lens.simps [simp del]

fun alloc_bufs :: "new_addr \<Rightarrow> nat \<Rightarrow> nat list \<Rightarrow> bheap \<Rightarrow> (nat list \<times> bheap) res" where
  "alloc_bufs new_addr al [] h = Inr ([], h)"
| "alloc_bufs new_addr al (n # ns) h =
     bind_res (buffer_ctor new_addr al (replicate n 0) h) (\<lambda>(b, h).
     bind_res (alloc_bufs new_addr al ns h) (\<lambda>(bs, h). Inr (b # bs, h)))"

text \<open>What \<open>preadv\<close> does to the vectors: the bytes go to the buffers in turn.\<close>

fun fill_bufs :: "nat list \<Rightarrow> u8 list \<Rightarrow> bheap \<Rightarrow> bheap" where
  "fill_bufs [] bs h = h"
| "fill_bufs (b # its) bs h =
     fill_bufs its (drop (length (bh_data h b)) bs)
       (h\<lparr>bh_data := (bh_data h)(b := splice (bh_data h b) 0 (take (length (bh_data h b)) bs))\<rparr>)"

fun preadv_retry :: "'k kernel \<Rightarrow> nat \<Rightarrow> int \<Rightarrow> nat list \<Rightarrow> nat \<Rightarrow> 'k \<Rightarrow> (u8 list option \<times> 'k) res" where
  "preadv_retry K 0 fd lens off k = Inl Diverges"
| "preadv_retry K (Suc fuel) fd lens off k =
     (case k_preadv K fd lens off k of
        (Pread_eintr, k) \<Rightarrow> preadv_retry K fuel fd lens off k
      | (Pread_error, k) \<Rightarrow> Inr (None, k)
      | (Pread_ok bs, k) \<Rightarrow> Inr (Some bs, k))"

definition file_read :: "'k kernel \<Rightarrow> nat \<Rightarrow> nat \<Rightarrow> new_addr \<Rightarrow> nat \<Rightarrow> nat \<Rightarrow> util_file \<times> 'k \<times> bheap
    \<Rightarrow> (multi_buffer \<times> 'k \<times> bheap) res" where
  "file_read K fuel page_size new_addr sz offset st = (case st of (f, k, h) \<Rightarrow>
     d_assert (is_open f)
      (if sz = 0 then bind_res (multi_buffer_ctor [] 0 0 h) (\<lambda>m. Inr (m, k, h))
       else
         bind_res (align_down offset page_size) (\<lambda>down.
         bind_res (align_up (u64_add offset sz) page_size) (\<lambda>up.
         let aligned_off = u32_of down;
             shift = u32_of (u64_sub offset aligned_off);
             aligned_end = u32_of up;
             aligned_size = u32_sub aligned_end aligned_off;
             num_bufs = (if aligned_size mod single_buf_size = 0 then aligned_size div single_buf_size
                         else aligned_size div single_buf_size + 1);
             lens = buf_lens aligned_end aligned_off
         in d_assert (length lens \<le> num_bufs)
           (bind_res (alloc_bufs new_addr page_size lens h) (\<lambda>(bufs, h).
            bind_res (preadv_retry K fuel (f_fd f) lens aligned_off k) (\<lambda>(err, k).
              case err of
                None \<Rightarrow> Inl Io_exception
              | Some bs \<Rightarrow>
                  if length bs \<noteq> aligned_size \<and> length bs < u32_add sz shift then Inl Io_exception
                  else let h = fill_bufs bufs bs h in
                    bind_res (multi_buffer_ctor bufs (min sz (length bs)) shift h) (\<lambda>m. Inr (m, k, h)))))))))"



section \<open>Reading\<close>

lemma sum_buf_lens: "c \<le> e \<Longrightarrow> sum_list (buf_lens e c) = e - c"
proof (induction e c rule: buf_lens.induct)
  case (1 e c)
  show ?case
  proof (cases "c + single_buf_size < e")
    case True
    then show ?thesis using 1 by (subst buf_lens.simps) auto
  next
    case False
    then show ?thesis
      by (subst buf_lens.simps) (use 1(2) in \<open>auto simp: buf_lens.simps [of e "c + single_buf_size"]\<close>)
  qed
qed

lemma buf_lens_pos: "n \<in> set (buf_lens e c) \<Longrightarrow> 0 < n \<and> n \<le> e - c"
proof (induction e c rule: buf_lens.induct)
  case (1 e c)
  have "c < e" using 1(2) by (subst (asm) buf_lens.simps) (auto split: if_splits)
  then have "n = (if c + single_buf_size \<ge> e then e - c else single_buf_size) \<or> n \<in> set (buf_lens e (c + single_buf_size))"
    using 1(2) by (subst (asm) buf_lens.simps) auto
  then show ?case using 1(1) [OF \<open>c < e\<close>] \<open>c < e\<close> by (auto simp: single_buf_size_def split: if_splits)
qed

lemma hd_buf_lens:
  assumes "c < e"
  shows "buf_lens e c \<noteq> [] \<and> hd (buf_lens e c) = min single_buf_size (e - c)"
proof -
  have eq: "buf_lens e c = (if c + single_buf_size \<ge> e then e - c else single_buf_size) # buf_lens e (c + single_buf_size)"
    using assms by (subst buf_lens.simps) simp
  show ?thesis unfolding eq by (auto simp: min_def)
qed

lemma length_buf_lens:
  "length (buf_lens e c) = (e - c) div single_buf_size + (if (e - c) mod single_buf_size = 0 then 0 else 1)"
proof (induction e c rule: buf_lens.induct)
  case (1 e c)
  have S: "0 < single_buf_size" by (simp add: single_buf_size_def)
  show ?case
  proof (cases "c < e")
    case False
    then show ?thesis by (subst buf_lens.simps) simp
  next
    case True
    then have step: "length (buf_lens e c) = Suc (length (buf_lens e (c + single_buf_size)))" by (subst buf_lens.simps) simp
    show ?thesis
    proof (cases "e - c < single_buf_size")
      case lt: True
      then have "buf_lens e (c + single_buf_size) = []" by (subst buf_lens.simps) simp
      then show ?thesis using step lt True by simp
    next
      case ge: False
      define d where "d = e - (c + single_buf_size)"
      have ec: "e - c = d + single_buf_size" using ge by (simp add: d_def)
      have "(d + single_buf_size) div single_buf_size = Suc (d div single_buf_size)"
        "(d + single_buf_size) mod single_buf_size = d mod single_buf_size"
        using S by (simp_all add: div_add_self2)
      then show ?thesis unfolding ec using step 1 [OF True, folded d_def] by simp
    qed
  qed
qed

lemma alloc_bufs_ok:
  assumes fr: "fresh_addr new_addr" and a: "alloc_bufs new_addr al ns h = Inr (bs, h')"
  shows "distinct bs \<and> map (bh_data h') bs = map (\<lambda>n. replicate n 0) ns \<and> (\<forall>b \<in> set bs. bh_refs h b = 0 \<and> 0 < bh_refs h' b) \<and>
    (\<forall>x. 0 < bh_refs h x \<longrightarrow> bh_data h' x = bh_data h x \<and> bh_refs h' x = bh_refs h x)"
  using a
proof (induction ns arbitrary: h bs)
  case (Cons n ns)
  obtain b h1 cs where b: "buffer_ctor new_addr al (replicate n 0) h = Inr (b, h1)"
    and cs: "alloc_bufs new_addr al ns h1 = Inr (cs, h')" "bs = b # cs"
    using Cons.prems by (auto simp: res_simps)
  have z: "bh_refs h b = 0" and h1: "h1 = h\<lparr>bh_data := (bh_data h)(b := replicate n 0), bh_refs := (bh_refs h)(b := 1)\<rparr>"
    using b fr by (auto simp: buffer_ctor_def fresh_addr_def split: option.splits)
  note IH = Cons.IH [OF cs(1)]
  have "0 < bh_refs h1 b" by (simp add: h1)
  then have "bh_data h' b = replicate n 0" "0 < bh_refs h' b" "b \<notin> set cs" using IH by (auto simp: h1)
  then show ?case using IH cs(2) z by (auto simp: h1 split: if_splits)
qed simp

lemma fill_bufs_frame: "x \<notin> set its \<Longrightarrow> bh_data (fill_bufs its bs h) x = bh_data h x"
  by (induction its arbitrary: bs h) auto

lemma fill_bufs_data:
  assumes "distinct its" and "length bs \<le> length (concat (map (bh_data h) its))"
  shows "concat (map (bh_data (fill_bufs its bs h)) its) = splice (concat (map (bh_data h) its)) 0 bs \<and>
    map (\<lambda>b. length (bh_data (fill_bufs its bs h) b)) its = map (\<lambda>b. length (bh_data h b)) its"
  using assms
proof (induction its arbitrary: bs h)
  case (Cons b its)
  let ?d = "bh_data h b"
  let ?h = "h\<lparr>bh_data := (bh_data h)(b := splice ?d 0 (take (length ?d) bs))\<rparr>"
  have same: "map (bh_data ?h) its = map (bh_data h) its" using Cons.prems(1) by auto
  have IH: "concat (map (bh_data (fill_bufs its (drop (length ?d) bs) ?h)) its) =
      splice (concat (map (bh_data h) its)) 0 (drop (length ?d) bs) \<and>
    map (\<lambda>b. length (bh_data (fill_bufs its (drop (length ?d) bs) ?h) b)) its = map (\<lambda>b. length (bh_data h b)) its"
    using Cons.IH [of "drop (length ?d) bs" ?h] Cons.prems unfolding same by auto
  have hd: "bh_data (fill_bufs its (drop (length ?d) bs) ?h) b = splice ?d 0 (take (length ?d) bs)"
    using Cons.prems(1) by (simp add: fill_bufs_frame)
  have "splice (?d @ concat (map (bh_data h) its)) 0 bs =
      splice ?d 0 (take (length ?d) bs) @ splice (concat (map (bh_data h) its)) 0 (drop (length ?d) bs)"
    using Cons.prems(2) by (cases "length bs \<le> length ?d") (auto simp: splice_def)
  then show ?case using IH hd by (auto simp: splice_def)
qed simp

lemma ctor_real_size:
  "length (concat (map (bh_data h) bufs)) + n < u32_max \<Longrightarrow>
     fold (\<lambda>b n. u32_add n (buffer_get_size h b)) bufs n = length (concat (map (bh_data h) bufs)) + n"
  by (induction bufs arbitrary: n) (simp_all add: buffer_get_size_def u32_add_nowrap)

text \<open>
  \<open>reads_file K fd content\<close>: what is relied on in \<open>preadv\<close> on a regular file. \<open>content\<close> reads the bytes of the file off the state
  of the kernel; a call may fail (with \<open>EINVAL\<close> for more than \<open>IOV_MAX\<close> vectors, for instance), may be interrupted, and may
  transfer less than was asked for, but what it transfers is a prefix of the requested range. \<open>page_ok\<close> is about the page size
  of the system.
\<close>

definition reads_file :: "'k kernel \<Rightarrow> int \<Rightarrow> ('k \<Rightarrow> u8 list) \<Rightarrow> bool" where
  "reads_file K fd content \<longleftrightarrow> (\<forall>lens off k r k'. k_preadv K fd lens off k = (r, k') \<longrightarrow> content k' = content k \<and>
     (\<forall>bs. r = Pread_ok bs \<longrightarrow> (\<exists>n. bs = take n (take (sum_list lens) (drop off (content k))))))"

definition page_ok :: "nat \<Rightarrow> bool" where
  "page_ok page \<longleftrightarrow> is_pow2 page \<and> page \<le> single_buf_size"

lemma read_geometry:
  assumes pg: "page_ok page" and sz: "0 < sz" and small: "offset + sz + page < u32_max"
  defines "a \<equiv> offset - offset mod page"
  defines "e \<equiv> (if (offset + sz) mod page = 0 then offset + sz else offset + sz - (offset + sz) mod page + page)"
  shows "align_down offset page = Inr a" and "align_up (u64_add offset sz) page = Inr e"
    and "u32_of a = a" and "u32_of e = e" and "u32_of (u64_sub offset a) = offset mod page" and "u32_sub e a = e - a"
    and "a + offset mod page = offset" and "offset + sz \<le> e" and "a < e" and "e < u32_max" and "offset mod page < page"
proof -
  have p: "is_pow2 page" "0 < page" using pg by (auto simp: page_ok_def is_pow2_iff)
  have lt: "offset < u64_max" "offset + sz + page < u64_max"
    using small u32_max_lt_u64_max by linarith+
  show m: "offset mod page < page" using p by simp
  show "align_down offset page = Inr a" using p lt by (simp add: align_down_eq a_def)
  have "u64_add offset sz = offset + sz" using lt by (intro u64_add_nowrap) auto
  then show "align_up (u64_add offset sz) page = Inr e" using p lt by (simp add: align_up_eq e_def)
  show ao: "a + offset mod page = offset" by (simp add: a_def)
  show ge: "offset + sz \<le> e" using mod_less_divisor [OF p(2), of "offset + sz"] by (simp add: e_def) linarith
  show "e < u32_max" using small by (auto simp: e_def)
  moreover show "a < e" using ge sz ao by simp
  ultimately show "u32_of a = a" "u32_of e = e" "u32_sub e a = e - a" by (simp_all add: u32_of_nowrap u32_sub_nowrap)
  have "u64_sub offset a = offset mod page" using lt ao by (subst u64_sub_nowrap) auto
  moreover have "offset mod page < u32_max" using m small by linarith
  ultimately show "u32_of (u64_sub offset a) = offset mod page" by (simp add: u32_of_nowrap)
qed

lemma alloc_bufs_error: "alloc_bufs new_addr al ns h = Inl x \<Longrightarrow> x = Bad_alloc"
  by (induction ns arbitrary: h) (auto simp: res_simps buffer_ctor_def split: option.splits)

text \<open>The multi-buffer built over filled buffers of the given lengths.\<close>

lemma filled_multi_buffer:
  assumes fr: "fresh_addr new_addr" and a: "alloc_bufs new_addr al lens h = Inr (bufs, h1)"
    and lens: "lens \<noteq> []" "\<And>n. n \<in> set lens \<Longrightarrow> 0 < n \<and> n < u32_max" "sum_list lens < u32_max"
    and bs: "length bs \<le> sum_list lens" and sh: "shift < hd lens" "shift + sz \<le> length bs"
  defines "h2 \<equiv> fill_bufs bufs bs h1"
  shows "\<exists>m. multi_buffer_ctor bufs sz shift h2 = Inr m \<and> mb_bytes h2 m = take sz (drop shift bs) \<and> mb_ok h2 m \<and> mb_size m = sz"
proof -
  note A = alloc_bufs_ok [OF fr a]
  have z: "length (concat (map (bh_data h1) bufs)) = sum_list lens"
    using A by (simp add: length_concat comp_def)
  have ls: "map (\<lambda>b. length (bh_data h1 b)) bufs = lens"
  proof -
    have "map length (map (bh_data h1) bufs) = map length (map (\<lambda>n. replicate n 0) lens :: u8 list list)" using A by simp
    then show ?thesis by (simp add: comp_def)
  qed
  have D: "concat (map (bh_data h2) bufs) = splice (concat (map (bh_data h1) bufs)) 0 bs"
    and S: "map (\<lambda>b. length (bh_data h2 b)) bufs = lens"
    using fill_bufs_data [of bufs bs h1] A bs z ls by (simp_all add: h2_def)
  let ?m = "\<lparr>mb_buffers = bufs, mb_size = sz, mb_left_off = shift\<rparr>"
  have dl: "length (concat (map (bh_data h2) bufs)) = sum_list lens" using D z bs by simp
  have ne: "bufs \<noteq> []" using S lens(1) by auto
  have hd: "length (bh_data h2 (hd bufs)) = hd lens" using S ne by (metis hd_map)
  have "fold (\<lambda>b n. u32_add n (buffer_get_size h2 b)) bufs 0 = sum_list lens"
    using ctor_real_size [of h2 bufs 0] dl lens(3) by simp
  moreover have "u32_add shift sz = shift + sz" using sh(2) bs lens(3) by (intro u32_add_nowrap) linarith
  ultimately have "multi_buffer_ctor bufs sz shift h2 = Inr ?m"
    using sh bs hd by (simp add: multi_buffer_ctor_def buffer_get_size_def)
  moreover have "mb_bytes h2 ?m = take sz (drop shift bs)"
    using sh(2) by (simp add: mb_bytes_def flat_def D splice_def)
  moreover have "mb_ok h2 ?m"
  proof -
    have "0 < length (bh_data h2 b) \<and> length (bh_data h2 b) < u32_max" if "b \<in> set bufs" for b
      using lens(2) [of "length (bh_data h2 b)"] S that by force
    then show ?thesis using dl lens(3) sh bs hd by (auto simp: mb_ok_def bufs_ok_def flat_def)
  qed
  ultimately show ?thesis by auto
qed

lemma preadv_retry_ok:
  assumes "reads_file K fd content" and "preadv_retry K fuel fd lens off k = Inr (Some bs, k')"
  shows "content k' = content k \<and> (\<exists>n. bs = take n (take (sum_list lens) (drop off (content k))))"
  using assms(2)
proof (induction fuel arbitrary: k)
  case (Suc fuel)
  obtain r k1 where p: "k_preadv K fd lens off k = (r, k1)" by fastforce
  then have c: "content k1 = content k" using assms(1) unfolding reads_file_def by blast
  show ?case
  proof (cases r)
    case (Pread_ok xs)
    then have "bs = xs" "k' = k1" using Suc.prems p by simp_all
    then show ?thesis using assms(1) p Pread_ok unfolding reads_file_def by blast
  next
    case Pread_eintr
    then have "preadv_retry K fuel fd lens off k1 = Inr (Some bs, k')" using Suc.prems p by simp
    from Suc.IH [OF this] show ?thesis unfolding c .
  qed (use Suc.prems p in simp)
qed simp

lemma preadv_retry_error: "preadv_retry K fuel fd lens off k = Inl e \<Longrightarrow> e = Diverges"
  by (induction fuel arbitrary: k) (auto split: prod.splits pread_result.splits)

text \<open>The page-aligned range of a request, and the vectors of its \<open>preadv\<close>.\<close>

definition range_start :: "nat \<Rightarrow> nat \<Rightarrow> nat" where
  "range_start page offset = offset - offset mod page"

definition range_lens :: "nat \<Rightarrow> nat \<Rightarrow> nat \<Rightarrow> nat list" where
  "range_lens page sz offset = buf_lens
     (if (offset + sz) mod page = 0 then offset + sz else offset + sz - (offset + sz) mod page + page) (range_start page offset)"

text \<open>
  \<open>read\<close> in terms of the two things that can fail, the allocation of the buffers and the call of \<open>preadv\<close>.
\<close>

lemma file_read_cases:
  assumes pg: "page_ok page" and sz: "0 < sz" and small: "offset + sz + page < u32_max"
    and op: "is_open f" and K: "reads_file K (f_fd f) content" and fr: "fresh_addr new_addr"
  obtains (no_memory) "alloc_bufs new_addr page (range_lens page sz offset) h = Inl Bad_alloc"
      "file_read K fuel page new_addr sz offset (f, k, h) = Inl Bad_alloc"
  | (interrupted) "is_ok (alloc_bufs new_addr page (range_lens page sz offset) h)"
      "preadv_retry K fuel (f_fd f) (range_lens page sz offset) (range_start page offset) k = Inl Diverges"
      "file_read K fuel page new_addr sz offset (f, k, h) = Inl Diverges"
  | (failed) k' where "is_ok (alloc_bufs new_addr page (range_lens page sz offset) h)"
      "preadv_retry K fuel (f_fd f) (range_lens page sz offset) (range_start page offset) k = Inr (None, k')"
      "file_read K fuel page new_addr sz offset (f, k, h) = Inl Io_exception"
  | (short) bs k' where "is_ok (alloc_bufs new_addr page (range_lens page sz offset) h)"
      "preadv_retry K fuel (f_fd f) (range_lens page sz offset) (range_start page offset) k = Inr (Some bs, k')"
      "length bs < sz + offset mod page" "file_read K fuel page new_addr sz offset (f, k, h) = Inl Io_exception"
  | (ok) bs k' m h' where "is_ok (alloc_bufs new_addr page (range_lens page sz offset) h)"
      "preadv_retry K fuel (f_fd f) (range_lens page sz offset) (range_start page offset) k = Inr (Some bs, k')"
      "sz + offset mod page \<le> length bs" "file_read K fuel page new_addr sz offset (f, k, h) = Inr (m, k', h')"
      "mb_bytes h' m = take sz (drop offset (content k))" "mb_ok h' m" "mb_size m = sz" "content k' = content k"
proof -
  note G = read_geometry [OF pg sz small]
  define a where "a = offset - offset mod page"
  define e where "e = (if (offset + sz) mod page = 0 then offset + sz else offset + sz - (offset + sz) mod page + page)"
  note G' = G [folded a_def e_def]
  have ra: "range_start page offset = a" "range_lens page sz offset = buf_lens e a"
    by (simp_all add: range_start_def range_lens_def a_def e_def)
  note cs = no_memory [unfolded ra] interrupted [unfolded ra] failed [unfolded ra] short [unfolded ra] ok [unfolded ra]
  have sum: "sum_list (buf_lens e a) = e - a" using sum_buf_lens G'(9) by simp
  have nb: "length (buf_lens e a) = (if (e - a) mod single_buf_size = 0 then (e - a) div single_buf_size else (e - a) div single_buf_size + 1)"
    by (simp add: length_buf_lens)
  have fits: "sz + offset mod page \<le> e - a" using G'(7,8) by linarith
  have "sz + offset mod page < u32_max" using small G'(11) by linarith
  then have nw: "u32_add sz (offset mod page) = sz + offset mod page" by (rule u32_add_nowrap)
  show thesis
  proof (cases "alloc_bufs new_addr page (buf_lens e a) h")
    case (Inl x)
    then show thesis using cs(1) alloc_bufs_error [OF Inl] op sz by (simp add: file_read_def G' Let_def nb)
  next
    case (Inr q)
    obtain bufs h1 where q: "q = (bufs, h1)" by (cases q)
    have al: "is_ok (alloc_bufs new_addr page (buf_lens e a) h)" using Inr by simp
    have read: "file_read K fuel page new_addr sz offset (f, k, h) =
        bind_res (preadv_retry K fuel (f_fd f) (buf_lens e a) a k) (\<lambda>(err, k). case err of
            None \<Rightarrow> Inl Io_exception
          | Some bs \<Rightarrow> if length bs \<noteq> e - a \<and> length bs < sz + offset mod page then Inl Io_exception
              else let h = fill_bufs bufs bs h1 in
                bind_res (multi_buffer_ctor bufs (min sz (length bs)) (offset mod page) h) (\<lambda>m. Inr (m, k, h)))"
      using op sz Inr q by (simp add: file_read_def G' Let_def nb nw cong: option.case_cong if_cong)
    show thesis
    proof (cases "preadv_retry K fuel (f_fd f) (buf_lens e a) a k")
      case e: (Inl x)
      then show thesis using cs(2) al preadv_retry_error [OF e] read by simp
    next
      case r: (Inr w)
      obtain o1 k' where w: "w = (o1, k')" by (cases w)
      show thesis
      proof (cases o1)
        case None
        then show thesis using cs(3) al r w read by simp
      next
        case (Some bs)
        note rd = r [unfolded w Some]
        obtain n where c: "content k' = content k" and n: "bs = take n (take (e - a) (drop a (content k)))"
          using preadv_retry_ok [OF K rd] sum by auto
        show thesis
        proof (cases "length bs < sz + offset mod page")
          case True
          then have "length bs \<noteq> e - a" using fits by linarith
          then show thesis using cs(4) [OF al rd True] read rd True by simp
        next
          case False
          then have len: "sz + offset mod page \<le> length bs" by simp
          note H = hd_buf_lens [OF G'(9)]
          have eq: "take sz (drop (offset mod page) bs) = take sz (drop offset (content k))"
            using len G'(7) unfolding n by (simp add: drop_take add.commute min_def split: if_splits)
          obtain m where m: "multi_buffer_ctor bufs sz (offset mod page) (fill_bufs bufs bs h1) = Inr m \<and>
              mb_bytes (fill_bufs bufs bs h1) m = take sz (drop (offset mod page) bs) \<and> mb_ok (fill_bufs bufs bs h1) m \<and> mb_size m = sz"
          proof (rule exE [OF filled_multi_buffer [OF fr Inr [unfolded q], of bs "offset mod page" sz]])
            show "offset mod page < hd (buf_lens e a)" using H G'(7-11) pg sz by (simp add: page_ok_def)
            show "0 < n \<and> n < u32_max" if "n \<in> set (buf_lens e a)" for n using buf_lens_pos [OF that] G'(10) by linarith
            show "length bs \<le> sum_list (buf_lens e a)" by (simp add: n sum)
          qed (use H sum G'(10) len in auto)
          have "file_read K fuel page new_addr sz offset (f, k, h) = Inr (m, k', fill_bufs bufs bs h1)"
            using read rd len m by (simp add: Let_def min_absorb1)
          then show thesis using cs(5) [OF al rd len _ _ _ _ c] m unfolding eq by blast
        qed
      qed
    qed
  qed
qed

section \<open>Writing\<close>


text \<open>
  \<open>regular_file K fd content\<close>: besides \<open>reads_file\<close>, a \<open>pwritev\<close> that succeeds stores as many bytes of its vectors as it says,
  possibly fewer than it was given, and fills a gap after the end of the file with zeros.
\<close>

definition overwrite :: "u8 list \<Rightarrow> nat \<Rightarrow> u8 list \<Rightarrow> u8 list" where
  "overwrite xs off ys = splice (xs @ replicate (off + length ys - length xs) 0) off ys"




text \<open>
  The factories return an open file or throw: the destructor of the file that could not be opened never fails, and a caller
  who passes one of the forbidden flags gets the assertion.
\<close>

lemma file_factories:
  "file_open_static K path flags x k = (if x then Inl D_assert else
     case k_open K path False flags 0 k of (fd, k) \<Rightarrow> if fd = -1 then Inl Io_exception else Inr (\<lparr>f_path = path, f_fd = fd\<rparr>, k))"
  "file_create_static K path flags x mode k = (if x then Inl D_assert else
     case k_open K path True flags mode k of (fd, k) \<Rightarrow> if fd = -1 then Inl Io_exception else Inr (\<lparr>f_path = path, f_fd = fd\<rparr>, k))"
  by (simp_all add: file_open_static_def file_create_static_def file_open_def file_create_def open_internal_def file_ctor_def file_dtor_def
      is_open_def NOT_OPEN_def d_assert_def split: prod.split)

text \<open>The message tells path, descriptor and error, but not the operation that failed.\<close>

lemma io_exception_op_lost: "io_exception_errno strerror f err ''preadv'' = io_exception_errno strerror f err ''pwritev''"
  by (simp add: io_exception_errno_def)

section \<open>Properties\<close>


text \<open>A file in memory that transfers at most \<open>IOV_MAX\<close> vectors per call.\<close>

definition mem_kernel :: "u8 list kernel" where
  "mem_kernel = \<lparr>k_open = (\<lambda>_ _ _ _ k. (3, k)), k_close = (\<lambda>_ k. (0, k)),
     k_preadv = (\<lambda>_ lens off k. if length lens > 1024 then (Pread_error, k) else (Pread_ok (take (sum_list lens) (drop off k)), k)),
     k_pwritev = (\<lambda>_ vecs off k. if length vecs > 1024 then (-1, k) else (int (length (concat vecs)), overwrite k off (concat vecs)))\<rparr>"

definition open_file :: util_file where
  "open_file = \<lparr>f_path = ''/tmp/f'', f_fd = 3\<rparr>"




lemma page_4096: "page_ok 4096"
proof -
  have "(4096::nat) = 2 ^ 12" by simp
  then have "is_pow2 4096" using is_pow2_iff by blast
  then show ?thesis by (simp add: page_ok_def single_buf_size_def)
qed







text \<open>
  With more than 512 MiB a read needs more vectors than \<open>IOV_MAX\<close> (1024 on Linux), so on a system that refuses such a call it
  cannot succeed.
\<close>

lemma large_read_fails:
  assumes "page_ok page" and "1024 * single_buf_size < sz" and "offset + sz + page < u32_max" and "is_open f"
    and "reads_file K (f_fd f) content" and "fresh_addr new_addr"
    and iov_max: "\<And>lens off k. length lens > 1024 \<Longrightarrow> k_preadv K (f_fd f) lens off k = (Pread_error, k)"
  shows "file_read K fuel page new_addr sz offset (f, k, h) \<noteq> Inr (m, k', h')"
proof -
  have sz: "0 < sz" using assms(2) by simp
  note G = read_geometry [OF assms(1) sz assms(3)]
  have "1024 < length (range_lens page sz offset)"
  proof -
    define d where "d = (if (offset + sz) mod page = 0 then offset + sz else offset + sz - (offset + sz) mod page + page) - range_start page offset"
    have "1024 * single_buf_size < d" using G(7,8) assms(2) unfolding d_def range_start_def by linarith
    then have "1024 \<le> d div single_buf_size" "d mod single_buf_size = 0 \<longrightarrow> 1024 < d div single_buf_size"
      by (auto simp: single_buf_size_def)
    then show ?thesis unfolding range_lens_def length_buf_lens d_def by auto
  qed
  then have "preadv_retry K fuel (f_fd f) (range_lens page sz offset) (range_start page offset) k \<noteq> Inr (Some bs, k'')" for bs k''
    by (cases fuel) (simp_all add: iov_max)
  then show ?thesis by (auto intro: file_read_cases [OF assms(1) sz assms(3-6), of h fuel k])
qed

lemma u32_of_plus: "u32_of x = x \<Longrightarrow> u32_of (x + q * u32_max) = x"
  by (simp add: u32_of_def)

text \<open>
  Offsets of 4 GiB and more: \<open>read\<close> keeps the aligned offsets in 32-bit variables, so reading at an
  offset and reading a multiple of 4 GiB further give the same result, for every kernel.
\<close>

theorem file_read_offset_truncated:
  assumes pg: "page_ok page" and sz: "0 < sz" and small: "offset + sz + page < u32_max"
    and big: "offset + q * u32_max + sz + page < u64_max"
  shows "file_read K fuel page new_addr sz (offset + q * u32_max) st = file_read K fuel page new_addr sz offset st"
proof -
  let ?o = "offset + q * u32_max"
  note G = read_geometry [OF pg sz small]
  obtain n where n: "page = 2 ^ n" "is_pow2 page" using pg by (auto simp: page_ok_def is_pow2_iff)
  have "page < u32_max" using small by linarith
  then have "n < 32" unfolding n(1) u32_max_def by (rule power_less_imp_less_exp [rotated]) simp
  then have dv: "page dvd q * u32_max" unfolding n(1) u32_max_def by (intro dvd_mult le_imp_power_dvd) simp
  have md: "(x + q * u32_max) mod page = x mod page" for x using dv by (metis mod_0_imp_dvd dvd_imp_mod_0 mod_add_right_eq add.right_neutral)
  have m1: "?o mod page = offset mod page" using md by simp
  have m2: "(?o + sz) mod page = (offset + sz) mod page" using md [of "offset + sz"] by (simp add: ac_simps)
  let ?a = "offset - offset mod page"
  let ?e = "if (offset + sz) mod page = 0 then offset + sz else offset + sz - (offset + sz) mod page + page"
  have le: "offset mod page \<le> offset" "(offset + sz) mod page \<le> offset + sz" by simp_all
  have d: "align_down ?o page = Inr (?a + q * u32_max)"
    using n(2) big le(1) by (subst align_down_eq) (simp_all add: m1)
  have s: "u64_add ?o sz = ?o + sz" using big by (intro u64_add_nowrap) simp
  have u: "align_up (u64_add ?o sz) page = Inr (?e + q * u32_max)"
  proof -
    have "?o + sz - (offset + sz) mod page + page = offset + sz - (offset + sz) mod page + page + q * u32_max"
      using le(2) by linarith
    then show ?thesis unfolding s using n(2) big by (subst align_up_eq) (simp_all add: m2)
  qed
  have t1: "u32_of (?a + q * u32_max) = ?a" "u32_of (?e + q * u32_max) = ?e"
    using u32_of_plus [OF G(3)] u32_of_plus [OF G(4)] .
  have "u64_sub ?o ?a = offset mod page + q * u32_max" using big le(1) by (subst u64_sub_nowrap) auto
  then have t2: "u32_of (u64_sub ?o ?a) = offset mod page" using G(11) small by (simp add: u32_of_def)
  show ?thesis
    using sz by (cases st) (simp only: file_read_def d u t1 t2 G(1-5) prod.case bind_res_Inr Let_def)
qed

theorem file_read_offset_truncated_witness:
  "file_read mem_kernel 1 4096 bump_addr 2 (1 + 1 * u32_max) (open_file, [5, 6, 7, 8], sample_heap) =
   file_read mem_kernel 1 4096 bump_addr 2 1 (open_file, [5, 6, 7, 8], sample_heap)"
  by (rule file_read_offset_truncated) (simp_all add: page_4096 u32_max_def u64_max_def)

end
