(* ===== verification/Ini_Config.thy ===== *)
theory Ini_Config
  imports Memory_Manager Std_Containers "HOL-Library.Char_ord" "HOL-Library.List_Lexorder"
begin

text \<open>
  \<open>src/config/config.cpp\<close> and \<open>src/include/config/config.h\<close>: the ini-file parser, the typed
  sections and the global configuration. A file is its contents, \<open>None\<close> when it cannot be
  opened. \<open>boost::regex_match\<close> and \<open>boost::lexical_cast\<close> are arguments; \<open>regex_engine\<close> states
  what matching means for the patterns of the source, which are sequences of character classes,
  each of them optionally starred. Characters compare as bytes, strings lexicographically.
\<close>

section \<open>Patterns\<close>

datatype re_item = One "char \<Rightarrow> bool" | Many "char \<Rightarrow> bool"

type_synonym regex = "re_item list"

inductive re_lang :: "regex \<Rightarrow> string \<Rightarrow> bool" where
  lang_Nil: "re_lang [] []"
| lang_One: "p c \<Longrightarrow> re_lang r s \<Longrightarrow> re_lang (One p # r) (c # s)"
| lang_Many: "list_all p xs \<Longrightarrow> re_lang r s \<Longrightarrow> re_lang (Many p # r) (xs @ s)"

inductive_simps re_lang_simps: "re_lang [] s" "re_lang (One p # r) s" "re_lang (Many p # r) s"

locale regex_engine =
  fixes regex_match :: "string \<Rightarrow> regex \<Rightarrow> bool"
  assumes regex_match_iff: "regex_match s r \<longleftrightarrow> re_lang r s"

function re_match :: "string \<Rightarrow> regex \<Rightarrow> bool" where
  "re_match s [] = (s = [])"
| "re_match s (One p # r) = (case s of [] \<Rightarrow> False | c # cs \<Rightarrow> p c \<and> re_match cs r)"
| "re_match s (Many p # r) = (re_match s r \<or> (case s of [] \<Rightarrow> False | c # cs \<Rightarrow> p c \<and> re_match cs (Many p # r)))"
  by pat_completeness auto
termination
  by (relation "measure (\<lambda>(s, r). length s + length r)") auto

lemma re_match_sound: "re_lang r s \<Longrightarrow> re_match s r"
proof (induction rule: re_lang.induct)
  case (lang_Many p xs r s)
  then show ?case by (induction xs) (auto split: list.splits)
qed auto

lemma re_match_complete: "re_match s r \<Longrightarrow> re_lang r s"
proof (induction s r rule: re_match.induct)
  case (3 s p r)
  show ?case
  proof (cases "re_match s r")
    case True
    then have "re_lang r s" using 3(1) by blast
    then show ?thesis using lang_Many [of p "[]" r s] by simp
  next
    case False
    then obtain c cs where s: "s = c # cs" "p c" "re_match cs (Many p # r)" using 3(3) by (auto split: list.splits)
    then have "re_lang (Many p # r) cs" using 3(2) [OF s(1)] by blast
    then obtain xs ys where "cs = xs @ ys" "list_all p xs" "re_lang r ys" by (auto simp: re_lang_simps)
    then show ?thesis using s lang_Many [of p "c # xs" r ys] by simp
  qed
qed (auto intro: re_lang.intros split: list.splits)

interpretation matcher: regex_engine re_match
  by unfold_locales (auto intro: re_match_sound re_match_complete)

section \<open>Characters and streams\<close>

definition isblank :: "char \<Rightarrow> bool" where
  "isblank c \<longleftrightarrow> c = CHR '' '' \<or> c = CHR 0x09"

definition isspace :: "char \<Rightarrow> bool" where
  "isspace c \<longleftrightarrow> c = CHR '' '' \<or> c \<in> {CHR 0x09, CHR 0x0A, CHR 0x0B, CHR 0x0C, CHR 0x0D}"

definition in_range :: "char \<Rightarrow> char \<Rightarrow> char \<Rightarrow> bool" where
  "in_range a b c \<longleftrightarrow> (of_char a :: nat) \<le> of_char c \<and> (of_char c :: nat) \<le> of_char b"

definition is_letter :: "char \<Rightarrow> bool" where
  "is_letter c \<longleftrightarrow> in_range (CHR ''a'') (CHR ''z'') c \<or> in_range (CHR ''A'') (CHR ''Z'') c"

definition is_ident :: "char \<Rightarrow> bool" where
  "is_ident c \<longleftrightarrow> is_letter c \<or> in_range (CHR ''0'') (CHR ''9'') c \<or> c = CHR ''_''"

text \<open>\<open>std::string::find\<close> of a character (\<open>None\<close> is \<open>npos\<close>), and \<open>ss >> res\<close> on a new stream.\<close>

definition str_find :: "char \<Rightarrow> string \<Rightarrow> nat option" where
  "str_find c s = (let n = length (takeWhile (\<lambda>x. x \<noteq> c) s) in if n < length s then Some n else None)"

definition read_word :: "string \<Rightarrow> string" where
  "read_word s = takeWhile (\<lambda>c. \<not> isspace c) (dropWhile isspace s)"

section \<open>Lines\<close>

definition line_is_white :: "string \<Rightarrow> bool" where
  "line_is_white s \<longleftrightarrow> list_all isblank s"

definition strip_comments :: "string \<Rightarrow> string" where
  "strip_comments s =
     (let res = (case str_find (CHR '';'') s of None \<Rightarrow> s | Some hash \<Rightarrow> take hash s)
      in if line_is_white res then '''' else res)"

definition get_attr :: "string \<Rightarrow> string res" where
  "get_attr attr_line = (case str_find (CHR ''='') attr_line of
     None \<Rightarrow> Inl D_assert
   | Some pos \<Rightarrow> Inr (read_word (take pos attr_line)))"

definition get_val :: "string \<Rightarrow> string res" where
  "get_val attr_line = (case str_find (CHR ''='') attr_line of
     None \<Rightarrow> Inl D_assert
   | Some pos \<Rightarrow>
       d_assert (pos + 1 < length attr_line)
         (let res = drop (pos + 1) attr_line in d_assert (\<not> line_is_white res) (Inr res)))"

definition get_sect_name :: "string \<Rightarrow> string res" where
  "get_sect_name s = (case str_find (CHR ''['') s of
     None \<Rightarrow> Inl D_assert
   | Some b \<Rightarrow> (case str_find (CHR '']'') s of
       None \<Rightarrow> Inl D_assert
     | Some e \<Rightarrow>
         d_assert (b < e)
           (let res_with_white = take (e - b - 1) (drop (b + 1) s) in
            d_assert (\<not> line_is_white res_with_white)
              (let res = read_word res_with_white in d_assert (res \<noteq> '''') (Inr res)))))"

section \<open>The parser\<close>

definition is_char :: "char \<Rightarrow> char \<Rightarrow> bool" where
  "is_char a c \<longleftrightarrow> c = a"

definition val_start :: "char \<Rightarrow> bool" where
  "val_start c \<longleftrightarrow> c \<noteq> CHR '' '' \<and> c \<noteq> CHR 0x09 \<and> c \<noteq> CHR ''='' \<and> c \<noteq> CHR ''[''"

definition val_char :: "char \<Rightarrow> bool" where
  "val_char c \<longleftrightarrow> c \<noteq> CHR ''='' \<and> c \<noteq> CHR ''['' \<and> c \<noteq> CHR '']''"

definition reg_attr :: regex where
  "reg_attr = [Many isblank, One is_letter, Many is_ident, Many isblank, One (is_char (CHR ''='')), Many isblank,
     One val_start, Many val_char]"

definition reg_sect :: regex where
  "reg_sect = [Many isblank, One (is_char (CHR ''['')), Many isblank, One is_letter, Many is_ident, Many isblank,
     One (is_char (CHR '']'')), Many isblank]"

type_synonym value_map = "((string \<times> string) \<times> string) list"

record ini_state =
  cur_sect :: string
  line_no :: int
  ini_values :: value_map

definition NO_LINE :: int where "NO_LINE = -1"

definition om_lower_bound :: "'k::linorder \<Rightarrow> ('k \<times> 'v) list \<Rightarrow> ('k \<times> 'v) list" where
  "om_lower_bound k m = dropWhile (\<lambda>e. fst e < k) m"

definition ini_line :: "(string \<Rightarrow> regex \<Rightarrow> bool) \<Rightarrow> string \<Rightarrow> ini_state \<Rightarrow> ini_state res" where
  "ini_line regex_match raw st =
     (let st = st\<lparr>line_no := line_no st + 1\<rparr>; line = strip_comments raw in
      if line = '''' then Inr st
      else if regex_match line reg_attr then
        if cur_sect st = '''' then Inl (Config_exception (line_no st) ''each attribute has to be in a section'')
        else bind_res (get_val line) (\<lambda>val. bind_res (get_attr line) (\<lambda>attr.
          if om_find (cur_sect st, attr) (ini_values st) \<noteq> None
          then Inl (Config_exception (line_no st) ''duplicate entry'')
          else Inr (st\<lparr>ini_values := om_insert (cur_sect st, attr) val (ini_values st)\<rparr>)))
      else if regex_match line reg_sect then
        bind_res (get_sect_name line) (\<lambda>sect.
          let st = st\<lparr>cur_sect := sect\<rparr>; it = om_lower_bound (sect, '''') (ini_values st) in
          if it \<noteq> [] \<and> fst (fst (hd it)) = sect
          then Inl (Config_exception (line_no st) ''section redefinition'')
          else Inr st)
      else Inl (Config_exception (line_no st) ''invalid line format''))"

text \<open>
  The reading loop. \<open>getline\<close> takes the characters up to the next newline or the end; when
  nothing is left it fails and the loop ends after that iteration, which sees an empty line.
\<close>

function ini_loop :: "(string \<Rightarrow> regex \<Rightarrow> bool) \<Rightarrow> string \<Rightarrow> ini_state \<Rightarrow> ini_state res" where
  "ini_loop regex_match in_f st =
     (if in_f = [] then ini_line regex_match '''' st
      else bind_res (ini_line regex_match (takeWhile (\<lambda>c. c \<noteq> CHR 0x0A) in_f) st)
             (ini_loop regex_match (drop 1 (dropWhile (\<lambda>c. c \<noteq> CHR 0x0A) in_f))))"
  by pat_completeness auto
termination
proof (relation "measure (\<lambda>(rm, s, st). length s)", simp)
  fix regex_match in_f st and st' :: ini_state
  assume "in_f \<noteq> ([] :: string)"
  then have "length (drop 1 (dropWhile (\<lambda>c. c \<noteq> CHR 0x0A) in_f)) < length in_f"
    using length_dropWhile_le [of "\<lambda>c. c \<noteq> CHR 0x0A" in_f] by (cases in_f) auto
  then show "((regex_match, drop 1 (dropWhile (\<lambda>c. c \<noteq> CHR 0x0A) in_f), st'), regex_match, in_f, st)
      \<in> measure (\<lambda>(rm, s, st). length s)" by simp
qed

declare ini_loop.simps [simp del]

definition ini_config :: "(string \<Rightarrow> regex \<Rightarrow> bool) \<Rightarrow> string \<Rightarrow> string option \<Rightarrow> value_map res" where
  "ini_config regex_match path in_f = (case in_f of
     None \<Rightarrow> Inl (Config_exception NO_LINE (''failed to open file '' @ [CHR 0x22] @ path @ [CHR 0x22]))
   | Some content \<Rightarrow>
       bind_res (ini_loop regex_match content \<lparr>cur_sect = '''', line_no = 0, ini_values = []\<rparr>) (\<lambda>st. Inr (ini_values st)))"

definition ini_get_value :: "value_map \<Rightarrow> string \<Rightarrow> string \<Rightarrow> string res" where
  "ini_get_value conf sect attr = (case om_find (sect, attr) conf of None \<Rightarrow> Inl D_assert | Some v \<Rightarrow> Inr v)"

definition get_attribute_names :: "value_map \<Rightarrow> string \<Rightarrow> string list" where
  "get_attribute_names conf sect =
     map (\<lambda>e. snd (fst e)) (takeWhile (\<lambda>e. fst (fst e) = sect) (om_lower_bound (sect, '''') conf))"

definition config_exception_to_string :: "(int \<Rightarrow> string) \<Rightarrow> int \<Rightarrow> string \<Rightarrow> string" where
  "config_exception_to_string lexical_cast l descr =
     (if l = NO_LINE then descr else ''line '' @ lexical_cast l @ '': '' @ descr)"

section \<open>Typed sections\<close>

record config_section =
  cs_conf :: value_map
  cs_name :: string
  cs_valid_names :: "string list"
  cs_present_names :: "string list"

definition config_section_ctor :: "string \<Rightarrow> value_map \<Rightarrow> config_section" where
  "config_section_ctor sect conf =
     \<lparr>cs_conf = conf, cs_name = sect, cs_valid_names = [],
      cs_present_names = fold os_insert (get_attribute_names conf sect) []\<rparr>"

definition section_message :: "config_section \<Rightarrow> string \<Rightarrow> string \<Rightarrow> exn" where
  "section_message cs name what =
     Config_exception NO_LINE (''section '' @ cs_name cs @ '', attribute '' @ name @ what)"

text \<open>\<open>get_value\<close>: with a default \<open>def\<close> and, for required attributes, without.\<close>

definition cs_get_value :: "(string \<Rightarrow> 'a option) \<Rightarrow> string \<Rightarrow> 'a option \<Rightarrow> config_section \<Rightarrow> ('a \<times> config_section) res" where
  "cs_get_value lexical_cast name def cs =
     d_assert (name \<notin> set (cs_valid_names cs))
       (let cs = cs\<lparr>cs_valid_names := os_insert name (cs_valid_names cs)\<rparr> in
        if name \<notin> set (cs_present_names cs) then
          (case def of
             Some d \<Rightarrow> Inr (d, cs)
           | None \<Rightarrow> Inl (section_message cs name '': required attribute not present''))
        else bind_res (ini_get_value (cs_conf cs) (cs_name cs) name) (\<lambda>v.
          case lexical_cast v of
            Some r \<Rightarrow> Inr (r, cs)
          | None \<Rightarrow> Inl (section_message cs name '': invalid value'')))"

fun check_names :: "config_section \<Rightarrow> string list \<Rightarrow> unit res" where
  "check_names cs [] = Inr ()"
| "check_names cs (n # ns) =
     (if n \<notin> set (cs_valid_names cs) then Inl (section_message cs n '': unknown attribute'') else check_names cs ns)"

definition check_no_others :: "config_section \<Rightarrow> unit res" where
  "check_no_others cs = check_names cs (cs_present_names cs)"

record buffer_cache_config =
  cfg_size :: nat
  cfg_syncer_sleep_time :: nat

text \<open>\<open>cast w\<close> is \<open>lexical_cast\<close> to the unsigned type of \<open>w\<close> bits.\<close>

definition buffer_cache_sect :: "(nat \<Rightarrow> string \<Rightarrow> nat option) \<Rightarrow> value_map \<Rightarrow> buffer_cache_config res" where
  "buffer_cache_sect cast conf =
     (let cs = config_section_ctor ''buffer_cache'' conf in
      bind_res (cs_get_value (cast 64) ''size'' None cs) (\<lambda>(sz, cs).
      bind_res (cs_get_value (cast 16) ''syncer_sleep_time'' (Some 30) cs) (\<lambda>(tm, cs).
      bind_res (check_no_others cs) (\<lambda>_. Inr \<lparr>cfg_size = sz, cfg_syncer_sleep_time = tm\<rparr>))))"

definition memory_manager_sect :: "(nat \<Rightarrow> string \<Rightarrow> nat option) \<Rightarrow> value_map \<Rightarrow> memory_manager_config res" where
  "memory_manager_sect cast conf =
     (let cs = config_section_ctor ''memory_manager'' conf in
      bind_res (cs_get_value (cast 64) ''ram_limit_bytes'' None cs) (\<lambda>(ram, cs).
      bind_res (cs_get_value (cast 64) ''total_limit_bytes'' None cs) (\<lambda>(total, cs).
      bind_res (cs_get_value (cast 64) ''default_session_ram_limit_bytes'' None cs) (\<lambda>(sram, cs).
      bind_res (cs_get_value (cast 64) ''default_session_total_limit_bytes'' None cs) (\<lambda>(stotal, cs).
      bind_res (cs_get_value (cast 16) ''max_small_alloc_pages_1024'' None cs) (\<lambda>(maxs, cs).
      bind_res (cs_get_value (cast 16) ''single_small_alloc_pages'' None cs) (\<lambda>(single, cs).
      bind_res (check_no_others cs) (\<lambda>_.
        Inr \<lparr>cfg_ram_limit_bytes = ram, cfg_total_limit_bytes = total,
          cfg_default_session_ram_limit_bytes = sram, cfg_default_session_total_limit_bytes = stotal,
          cfg_max_small_alloc_pages_1024 = maxs, cfg_single_small_alloc_pages = single\<rparr>))))))))"

record global_config =
  gc_buffer_cache :: buffer_cache_config
  gc_memory_manager :: memory_manager_config

definition global_config_ctor :: "(string \<Rightarrow> regex \<Rightarrow> bool) \<Rightarrow> (nat \<Rightarrow> string \<Rightarrow> nat option) \<Rightarrow> string \<Rightarrow> string option
    \<Rightarrow> global_config res" where
  "global_config_ctor regex_match cast file_name in_f =
     bind_res (ini_config regex_match file_name in_f) (\<lambda>conf.
     bind_res (buffer_cache_sect cast conf) (\<lambda>bc.
     bind_res (memory_manager_sect cast conf) (\<lambda>mm.
       Inr \<lparr>gc_buffer_cache = bc, gc_memory_manager = mm\<rparr>)))"

text \<open>\<open>get_version_string\<close>: the macros of the build are options.\<close>

definition get_version_string :: "string option \<Rightarrow> string option \<Rightarrow> string option \<Rightarrow> string" where
  "get_version_string official_release git_branch git_hash =
     ''CoherentDB'' @ (case official_release of
         Some r \<Rightarrow> '' '' @ r
       | None \<Rightarrow> '' unofficial release'' @ (case git_hash of
           Some h \<Rightarrow> (case git_branch of Some b \<Rightarrow> '' branch '' @ [CHR 0x22] @ b @ [CHR 0x22] | None \<Rightarrow> '''')
             @ '' commit hash: '' @ h
         | None \<Rightarrow> '' (unknown hash)''))"

end
