(* ===== verification/Ini_Config_Correct.thy ===== *)
theory Ini_Config_Correct
  imports Ini_Config
begin

text \<open>
  Correctness of the configuration reader: the patterns guarantee what the assertions behind them
  demand, a printed configuration is read back, and the typed sections accept exactly the
  configurations with the required attributes and no others.
\<close>

section \<open>What a matching line contains\<close>

definition ident :: "string \<Rightarrow> bool" where
  "ident s \<longleftrightarrow> s \<noteq> [] \<and> is_letter (hd s) \<and> list_all is_ident (tl s)"

lemmas char_classes = in_range_def is_letter_def is_ident_def isblank_def isspace_def is_char_def val_start_def val_char_def

lemma punctuation_not_ident:
  "\<not> is_ident (CHR ''='')" "\<not> is_ident (CHR ''['')" "\<not> is_ident (CHR '']'')" "\<not> is_ident (CHR '';'')" "\<not> is_ident (CHR 0x0A)"
  "\<not> isblank (CHR ''='')" "\<not> isblank (CHR ''['')" "\<not> isblank (CHR '']'')" "\<not> is_letter (CHR ''['')"
  by (simp_all add: char_classes)

lemma ident_not_space: "is_ident c \<Longrightarrow> \<not> isspace c"
  by (auto simp: char_classes)

lemma blank_space: "isblank c \<Longrightarrow> isspace c"
  by (auto simp: isblank_def isspace_def)

lemma letter_ident: "is_letter c \<Longrightarrow> is_ident c"
  by (simp add: is_ident_def)

lemma ident_all: "ident s \<Longrightarrow> list_all is_ident s"
  by (cases s) (auto simp: ident_def letter_ident)

lemma list_all_notin: "list_all P xs \<Longrightarrow> \<not> P c \<Longrightarrow> c \<notin> set xs"
  by (auto simp: list_all_iff)

lemma str_find_first: "c \<notin> set xs \<Longrightarrow> str_find c (xs @ c # ys) = Some (length xs)"
proof -
  assume "c \<notin> set xs"
  then have "takeWhile (\<lambda>x. x \<noteq> c) (xs @ c # ys) = xs" by (subst takeWhile_append2) auto
  then show ?thesis by (simp add: str_find_def)
qed

lemma str_find_none: "c \<notin> set xs \<Longrightarrow> str_find c xs = None"
proof -
  assume "c \<notin> set xs"
  then have "takeWhile (\<lambda>x. x \<noteq> c) xs = xs" by (subst takeWhile_eq_all_conv) auto
  from arg_cong [OF this, of length] show ?thesis by (simp add: str_find_def)
qed

lemma read_word_padded:
  assumes "list_all isblank b" and "list_all isblank b'" and "ident w"
  shows "read_word (b @ w @ b') = w"
proof -
  have "dropWhile isspace (b @ w @ b') = w @ b'"
    using assms(1,3) by (cases w) (auto simp: list_all_iff blank_space ident_def letter_ident ident_not_space dropWhile_append2)
  moreover have "takeWhile (\<lambda>c. \<not> isspace c) (w @ b') = w"
  proof -
    have "\<forall>c \<in> set w. \<not> isspace c" using ident_all [OF assms(3)] by (auto simp: list_all_iff ident_not_space)
    moreover have "takeWhile (\<lambda>c. \<not> isspace c) b' = []" using assms(2) by (cases b') (auto simp: blank_space)
    ultimately show ?thesis by (simp add: takeWhile_append2)
  qed
  ultimately show ?thesis by (simp add: read_word_def)
qed

lemma reg_attr_parts:
  "re_lang reg_attr s \<longleftrightarrow> (\<exists>b w b' v. s = b @ w @ b' @ CHR ''='' # v \<and> list_all isblank b \<and> ident w \<and> list_all isblank b' \<and>
     (\<exists>b3 d r. v = b3 @ d # r \<and> list_all isblank b3 \<and> val_start d \<and> list_all val_char r))"
proof
  assume "re_lang reg_attr s"
  then obtain b c n b' b3 d r where p: "s = b @ c # n @ b' @ CHR ''='' # b3 @ d # r" "list_all isblank b" "is_letter c" "list_all is_ident n"
    "list_all isblank b'" "list_all isblank b3" "val_start d" "list_all val_char r"
    unfolding reg_attr_def by (auto simp: re_lang_simps is_char_def)
  then show "\<exists>b w b' v. s = b @ w @ b' @ CHR ''='' # v \<and> list_all isblank b \<and> ident w \<and> list_all isblank b' \<and>
     (\<exists>b3 d r. v = b3 @ d # r \<and> list_all isblank b3 \<and> val_start d \<and> list_all val_char r)"
    by (intro exI [of _ b] exI [of _ "c # n"] exI [of _ b'] exI [of _ "b3 @ d # r"]) (auto simp: ident_def)
next
  assume "\<exists>b w b' v. s = b @ w @ b' @ CHR ''='' # v \<and> list_all isblank b \<and> ident w \<and> list_all isblank b' \<and>
     (\<exists>b3 d r. v = b3 @ d # r \<and> list_all isblank b3 \<and> val_start d \<and> list_all val_char r)"
  then obtain b w b' b3 d r where p: "s = b @ w @ b' @ CHR ''='' # b3 @ d # r" "list_all isblank b" "ident w" "list_all isblank b'"
    "list_all isblank b3" "val_start d" "list_all val_char r" by auto
  obtain c n where w: "w = c # n" "is_letter c" "list_all is_ident n" using p(3) by (cases w) (auto simp: ident_def)
  show "re_lang reg_attr s" unfolding reg_attr_def p(1) w(1) append_Cons
    by (intro lang_Many lang_One p(2,4-7) w(2,3)) (simp_all add: is_char_def lang_Many [of val_char r "[]" "[]", simplified] p(7) lang_Nil)
qed

lemma reg_sect_parts:
  "re_lang reg_sect s \<longleftrightarrow> (\<exists>b b1 w b2 b3. s = b @ CHR ''['' # b1 @ w @ b2 @ CHR '']'' # b3 \<and>
     list_all isblank b \<and> list_all isblank b1 \<and> ident w \<and> list_all isblank b2 \<and> list_all isblank b3)"
proof
  assume "re_lang reg_sect s"
  then obtain b b1 c n b2 b3 where p: "s = b @ CHR ''['' # b1 @ c # n @ b2 @ CHR '']'' # b3" "list_all isblank b" "list_all isblank b1"
    "is_letter c" "list_all is_ident n" "list_all isblank b2" "list_all isblank b3"
    unfolding reg_sect_def by (auto simp: re_lang_simps is_char_def)
  then show "\<exists>b b1 w b2 b3. s = b @ CHR ''['' # b1 @ w @ b2 @ CHR '']'' # b3 \<and>
     list_all isblank b \<and> list_all isblank b1 \<and> ident w \<and> list_all isblank b2 \<and> list_all isblank b3"
    by (intro exI [of _ b] exI [of _ b1] exI [of _ "c # n"] exI [of _ b2] exI [of _ b3]) (auto simp: ident_def)
next
  assume "\<exists>b b1 w b2 b3. s = b @ CHR ''['' # b1 @ w @ b2 @ CHR '']'' # b3 \<and>
     list_all isblank b \<and> list_all isblank b1 \<and> ident w \<and> list_all isblank b2 \<and> list_all isblank b3"
  then obtain b b1 w b2 b3 where p: "s = b @ CHR ''['' # b1 @ w @ b2 @ CHR '']'' # b3"
     "list_all isblank b" "list_all isblank b1" "ident w" "list_all isblank b2" "list_all isblank b3" by blast
  obtain c n where w: "w = c # n" "is_letter c" "list_all is_ident n" using p(4) by (cases w) (auto simp: ident_def)
  show "re_lang reg_sect s" unfolding reg_sect_def p(1) w(1) append_Cons
    by (intro lang_Many lang_One p(2,3,5) w(2,3)) (simp_all add: is_char_def lang_Many [of isblank b3 "[]" "[]", simplified] p(6) lang_Nil)
qed

lemma attr_line_parts:
  assumes b: "list_all isblank b" "ident w" "list_all isblank b'" and v: "v = b3 @ d # r" "val_start d"
  shows "get_attr (b @ w @ b' @ CHR ''='' # v) = Inr w" and "get_val (b @ w @ b' @ CHR ''='' # v) = Inr v"
proof -
  let ?pre = "b @ w @ b'"
  have "CHR ''='' \<notin> set ?pre"
    using list_all_notin [OF b(1)] list_all_notin [OF ident_all [OF b(2)]] list_all_notin [OF b(3)] punctuation_not_ident by auto
  then have f: "str_find (CHR ''='') (b @ w @ b' @ CHR ''='' # v) = Some (length ?pre)" using str_find_first [of "CHR ''=''" ?pre v] by simp
  show "get_attr (b @ w @ b' @ CHR ''='' # v) = Inr w"
    using read_word_padded [OF b(1,3,2)] by (simp add: get_attr_def f)
  have "\<not> isblank d" using v(2) by (auto simp: val_start_def isblank_def)
  then have "\<not> line_is_white v" using v(1) by (simp add: line_is_white_def)
  then show "get_val (b @ w @ b' @ CHR ''='' # v) = Inr v"
    unfolding get_val_def f option.case using v(1) by (simp add: Let_def)
qed

lemma attr_line_ok:
  assumes "re_lang reg_attr line"
  shows "\<exists>w v. get_attr line = Inr w \<and> ident w \<and> get_val line = Inr v"
proof -
  obtain b w b' b3 d r where p: "line = b @ w @ b' @ CHR ''='' # b3 @ d # r" "list_all isblank b" "ident w" "list_all isblank b'" "val_start d"
    using assms unfolding reg_attr_parts by auto
  show ?thesis using attr_line_parts [OF p(2,3,4) refl p(5), of b3 r] p(3) unfolding p(1) by auto
qed

lemma sect_line_parts:
  assumes b: "list_all isblank b" "list_all isblank b1" "ident w" "list_all isblank b2" "list_all isblank b3"
  shows "get_sect_name (b @ CHR ''['' # b1 @ w @ b2 @ CHR '']'' # b3) = Inr w"
proof -
  let ?mid = "b1 @ w @ b2"
  let ?s = "b @ CHR ''['' # ?mid @ CHR '']'' # b3"
  note nid = list_all_notin [OF ident_all [OF b(3)]]
  have n1: "CHR ''['' \<notin> set b" using list_all_notin [OF b(1)] punctuation_not_ident by auto
  have n2: "CHR '']'' \<notin> set (b @ CHR ''['' # ?mid)"
    using list_all_notin [OF b(1)] list_all_notin [OF b(2)] nid list_all_notin [OF b(4)] punctuation_not_ident by auto
  have f1: "str_find (CHR ''['') ?s = Some (length b)" using str_find_first [OF n1, of "?mid @ CHR '']'' # b3"] by simp
  have f2: "str_find (CHR '']'') ?s = Some (length b + Suc (length ?mid))" using str_find_first [OF n2, of b3] by simp
  have sub: "take (length b + Suc (length ?mid) - length b - 1) (drop (length b + 1) ?s) = ?mid" by simp
  have "w \<noteq> []" "is_letter (hd w)" using b(3) by (auto simp: ident_def)
  moreover have "\<not> isblank (hd w)" using ident_not_space [OF letter_ident] \<open>is_letter (hd w)\<close> blank_space by blast
  ultimately have "\<not> line_is_white ?mid" by (cases w) (simp_all add: line_is_white_def)
  then have "get_sect_name ?s = Inr w"
    unfolding get_sect_name_def f1 f2 option.case Let_def sub
    using read_word_padded [OF b(2,4,3)] \<open>w \<noteq> []\<close> by simp
  then show ?thesis by simp
qed

lemma sect_line_ok: "re_lang reg_sect line \<Longrightarrow> \<exists>w. get_sect_name line = Inr w \<and> ident w"
  using sect_line_parts by (auto simp: reg_sect_parts)

section \<open>The parser reports every problem as a configuration error\<close>

definition is_config_error :: "exn \<Rightarrow> bool" where
  "is_config_error e \<longleftrightarrow> (\<exists>l d. e = Config_exception l d)"

lemma is_config_errorI [simp]: "is_config_error (Config_exception l d)"
  by (simp add: is_config_error_def)

text \<open>\<open>good P r\<close>: \<open>r\<close> is a result in \<open>P\<close> or a configuration error.\<close>

definition good :: "('a \<Rightarrow> bool) \<Rightarrow> 'a res \<Rightarrow> bool" where
  "good P r \<longleftrightarrow> (case r of Inl e \<Rightarrow> is_config_error e | Inr a \<Rightarrow> P a)"

lemma good_simps [simp]: "good P (Inl e) \<longleftrightarrow> is_config_error e" "good P (Inr a) \<longleftrightarrow> P a"
  by (simp_all add: good_def)

lemma good_bind: "good P r \<Longrightarrow> (\<And>a. P a \<Longrightarrow> good Q (f a)) \<Longrightarrow> good Q (bind_res r f)"
  by (cases r) simp_all

context regex_engine
begin

lemma ini_line_good:
  assumes "om_inv (ini_values st)"
  shows "good (\<lambda>st. om_inv (ini_values st)) (ini_line regex_match raw st)"
proof -
  let ?line = "strip_comments raw"
  consider "?line = []" | "?line \<noteq> []" "re_lang reg_attr ?line" | "?line \<noteq> []" "\<not> re_lang reg_attr ?line" "re_lang reg_sect ?line"
    | "?line \<noteq> []" "\<not> re_lang reg_attr ?line" "\<not> re_lang reg_sect ?line" by blast
  then show ?thesis
  proof cases
    case 2
    obtain w v where "get_attr ?line = Inr w" "get_val ?line = Inr v" using attr_line_ok [OF 2(2)] by blast
    then show ?thesis using 2 assms by (simp add: ini_line_def regex_match_iff Let_def om_inv_insert)
  next
    case 3
    obtain w where "get_sect_name ?line = Inr w" using sect_line_ok [OF 3(3)] by blast
    then show ?thesis using 3 assms by (simp add: ini_line_def regex_match_iff Let_def)
  qed (use assms in \<open>simp_all add: ini_line_def regex_match_iff Let_def\<close>)
qed

lemma ini_loop_good:
  "om_inv (ini_values st) \<Longrightarrow> good (\<lambda>st. om_inv (ini_values st)) (ini_loop regex_match in_f st)"
proof (induction "length in_f" arbitrary: in_f st rule: less_induct)
  case less
  let ?rest = "drop 1 (dropWhile (\<lambda>c. c \<noteq> CHR 0x0A) in_f)"
  show ?case
  proof (cases "in_f = []")
    case True
    then show ?thesis using ini_line_good less.prems by (subst ini_loop.simps) simp
  next
    case False
    have "length ?rest < length in_f"
      using False length_dropWhile_le [of "\<lambda>c. c \<noteq> CHR 0x0A" in_f] by (cases in_f) auto
    then have "good (\<lambda>st. om_inv (ini_values st)) (bind_res (ini_line regex_match l st) (ini_loop regex_match ?rest))" for l
      using less by (intro good_bind [OF ini_line_good]) auto
    then show ?thesis using False by (subst ini_loop.simps) simp
  qed
qed

lemma ini_config_good: "good om_inv (ini_config regex_match path in_f)"
proof (cases in_f)
  case (Some content)
  let ?st = "\<lparr>cur_sect = '''', line_no = 0, ini_values = []\<rparr>"
  have "good (\<lambda>st. om_inv (ini_values st)) (ini_loop regex_match content ?st)" by (rule ini_loop_good) simp
  then have "good om_inv (bind_res (ini_loop regex_match content ?st) (\<lambda>st. Inr (ini_values st)))" by (rule good_bind) simp
  then show ?thesis using Some by (simp add: ini_config_def)
qed (simp add: ini_config_def)

end

section \<open>Typed sections\<close>

lemma lower_bound_names:
  assumes "om_inv (m :: value_map)"
  shows "set (takeWhile (\<lambda>e. fst (fst e) = s) (om_lower_bound (s, '''') m)) = {e \<in> set m. fst (fst e) = s}"
  using assms
proof (induction m)
  case (Cons e m)
  have inv: "om_inv m" and lt: "\<forall>e'\<in>set m. fst e < fst e'" using Cons.prems by (auto simp: om_inv_def)
  consider "fst (fst e) < s" | "fst (fst e) = s" | "s < fst (fst e)" by force
  then show ?case
  proof cases
    case 1
    then show ?thesis using Cons.IH [OF inv] by (auto simp: om_lower_bound_def less_prod_def)
  next
    case 2
    have lb: "om_lower_bound (s, '''') (e # m) = e # m" using 2 by (simp add: om_lower_bound_def less_prod_def)
    have "om_lower_bound (s, '''') m = m"
    proof (cases m)
      case (Cons d m')
      then have "\<not> fst d < (s, '''')" using lt 2 by (auto simp: less_prod_def)
      then show ?thesis using Cons by (simp add: om_lower_bound_def)
    qed (simp add: om_lower_bound_def)
    then show ?thesis using Cons.IH [OF inv] lb 2 by auto
  next
    case 3
    then have "om_lower_bound (s, '''') (e # m) = e # m" by (auto simp: om_lower_bound_def less_prod_def)
    moreover have "fst (fst e') \<noteq> s" if "e' \<in> set m" for e' using 3 lt that by (fastforce simp: less_prod_def)
    ultimately show ?thesis using 3 by auto
  qed
qed (simp add: om_lower_bound_def)

definition attrs :: "value_map \<Rightarrow> string \<Rightarrow> string set" where
  "attrs m s = {a. (s, a) \<in> fst ` set m}"

lemma set_get_attribute_names: "om_inv m \<Longrightarrow> set (get_attribute_names m s) = attrs m s"
  by (force simp: get_attribute_names_def lower_bound_names attrs_def)

lemma set_fold_os_insert: "set (fold os_insert xs s) = set xs \<union> set s"
  by (induction xs arbitrary: s) (auto simp: set_os_insert)

text \<open>A section object for the section \<open>s\<close> of \<open>m\<close> in which the names \<open>ns\<close> have been asked for.\<close>

definition section_of :: "value_map \<Rightarrow> string \<Rightarrow> string set \<Rightarrow> config_section \<Rightarrow> bool" where
  "section_of m s ns cs \<longleftrightarrow> cs_conf cs = m \<and> cs_name cs = s \<and> set (cs_valid_names cs) = ns \<and> set (cs_present_names cs) = attrs m s"

lemma section_of_ctor: "om_inv m \<Longrightarrow> section_of m s {} (config_section_ctor s m)"
  by (simp add: section_of_def config_section_ctor_def set_fold_os_insert set_get_attribute_names)

definition lookup_value :: "(string \<Rightarrow> 'a option) \<Rightarrow> 'a option \<Rightarrow> value_map \<Rightarrow> string \<Rightarrow> string \<Rightarrow> 'a option" where
  "lookup_value cast def m s n = (case om_find (s, n) m of None \<Rightarrow> def | Some v \<Rightarrow> cast v)"

lemma cs_get_value_ok:
  assumes "section_of m s ns cs" and "n \<notin> ns"
  shows "(case lookup_value cast def m s n of
      None \<Rightarrow> \<exists>e. cs_get_value cast n def cs = Inl e \<and> is_config_error e
    | Some r \<Rightarrow> \<exists>cs'. cs_get_value cast n def cs = Inr (r, cs') \<and> section_of m s (insert n ns) cs')"
proof -
  have d: "n \<notin> set (cs_valid_names cs)" using assms by (simp add: section_of_def)
  have p: "n \<in> set (cs_present_names cs) \<longleftrightarrow> om_find (s, n) m \<noteq> None"
    using assms by (simp add: section_of_def attrs_def om_find_None)
  have s: "section_of m s (insert n ns) (cs\<lparr>cs_valid_names := os_insert n (cs_valid_names cs)\<rparr>)"
    using assms by (simp add: section_of_def set_os_insert)
  have c: "cs_conf cs = m" "cs_name cs = s" using assms by (simp_all add: section_of_def)
  show ?thesis
  proof (cases "om_find (s, n) m")
    case None
    then show ?thesis using d p s by (cases def) (simp_all add: cs_get_value_def Let_def lookup_value_def section_message_def)
  next
    case (Some v)
    then show ?thesis using d p s c
      by (cases "cast v") (simp_all add: cs_get_value_def Let_def lookup_value_def section_message_def ini_get_value_def)
  qed
qed

lemma check_names_iff: "check_names cs ns = Inr () \<longleftrightarrow> set ns \<subseteq> set (cs_valid_names cs)"
  by (induction ns) (auto simp: section_message_def)

lemma check_names_good: "good (\<lambda>_. True) (check_names cs ns)"
  by (induction ns) (auto simp: section_message_def)

lemma check_no_others_ok:
  "section_of m s ns cs \<Longrightarrow> (check_no_others cs = Inr () \<longleftrightarrow> attrs m s \<subseteq> ns) \<and> good (\<lambda>_. True) (check_no_others cs)"
  by (simp add: check_no_others_def check_names_iff check_names_good section_of_def)

text \<open>Reading one more attribute and then going on.\<close>

lemma bind_get_value:
  assumes "section_of m s ns cs" and "n \<notin> ns"
    and "\<And>r cs'. lookup_value cast def m s n = Some r \<Longrightarrow> section_of m s (insert n ns) cs' \<Longrightarrow>
        (k (r, cs') = Inr x \<longleftrightarrow> P r) \<and> good (\<lambda>_. True) (k (r, cs'))"
  shows "(bind_res (cs_get_value cast n def cs) k = Inr x \<longleftrightarrow> (\<exists>r. lookup_value cast def m s n = Some r \<and> P r)) \<and>
    good (\<lambda>_. True) (bind_res (cs_get_value cast n def cs) k)"
  using cs_get_value_ok [OF assms(1,2), of cast def] assms(3) by (cases "lookup_value cast def m s n") auto

lemma bind_check_no_others:
  assumes "section_of m s ns cs"
  shows "(bind_res (check_no_others cs) (\<lambda>_. Inr y) = Inr x \<longleftrightarrow> attrs m s \<subseteq> ns \<and> y = x) \<and>
    good (\<lambda>_. True) (bind_res (check_no_others cs) (\<lambda>_. Inr y))"
  using check_no_others_ok [OF assms] by (cases "check_no_others cs") auto

lemma buffer_cache_sect_ok:
  assumes "om_inv m"
  shows "(buffer_cache_sect cast m = Inr bc \<longleftrightarrow>
      lookup_value (cast 64) None m ''buffer_cache'' ''size'' = Some (cfg_size bc) \<and>
      lookup_value (cast 16) (Some 30) m ''buffer_cache'' ''syncer_sleep_time'' = Some (cfg_syncer_sleep_time bc) \<and>
      attrs m ''buffer_cache'' \<subseteq> {''size'', ''syncer_sleep_time''}) \<and>
    good (\<lambda>_. True) (buffer_cache_sect cast m)"
proof -
  let ?s = "''buffer_cache''"
  let ?L = "\<lambda>w def n. lookup_value (cast w) def m ?s n"
  have "(buffer_cache_sect cast m = Inr bc \<longleftrightarrow>
      (\<exists>sz. ?L 64 None ''size'' = Some sz \<and> (\<exists>tm. ?L 16 (Some 30) ''syncer_sleep_time'' = Some tm \<and>
        attrs m ?s \<subseteq> {''syncer_sleep_time'', ''size''} \<and> \<lparr>cfg_size = sz, cfg_syncer_sleep_time = tm\<rparr> = bc))) \<and>
    good (\<lambda>_. True) (buffer_cache_sect cast m)"
    unfolding buffer_cache_sect_def Let_def
    apply (rule bind_get_value [OF section_of_ctor [OF assms]], simp, simp only: prod.case)
    apply (rule bind_get_value, assumption, simp, simp only: prod.case)
    apply (rule bind_check_no_others, assumption)
    done
  then show ?thesis by (cases bc) (auto simp: insert_commute)
qed

lemma memory_manager_sect_ok:
  fixes cast :: "nat \<Rightarrow> string \<Rightarrow> nat option" and m :: value_map
  assumes "om_inv m"
  defines "L \<equiv> \<lambda>w n. lookup_value (cast w) None m ''memory_manager'' n"
  shows "(memory_manager_sect cast m = Inr mm \<longleftrightarrow>
      L 64 ''ram_limit_bytes'' = Some (cfg_ram_limit_bytes mm) \<and>
      L 64 ''total_limit_bytes'' = Some (cfg_total_limit_bytes mm) \<and>
      L 64 ''default_session_ram_limit_bytes'' = Some (cfg_default_session_ram_limit_bytes mm) \<and>
      L 64 ''default_session_total_limit_bytes'' = Some (cfg_default_session_total_limit_bytes mm) \<and>
      L 16 ''max_small_alloc_pages_1024'' = Some (cfg_max_small_alloc_pages_1024 mm) \<and>
      L 16 ''single_small_alloc_pages'' = Some (cfg_single_small_alloc_pages mm) \<and>
      attrs m ''memory_manager'' \<subseteq> {''ram_limit_bytes'', ''total_limit_bytes'', ''default_session_ram_limit_bytes'',
        ''default_session_total_limit_bytes'', ''max_small_alloc_pages_1024'', ''single_small_alloc_pages''}) \<and>
    good (\<lambda>_. True) (memory_manager_sect cast m)"
proof -
  let ?s = "''memory_manager''"
  have "(memory_manager_sect cast m = Inr mm \<longleftrightarrow>
      (\<exists>a. L 64 ''ram_limit_bytes'' = Some a \<and> (\<exists>b. L 64 ''total_limit_bytes'' = Some b \<and>
      (\<exists>c. L 64 ''default_session_ram_limit_bytes'' = Some c \<and> (\<exists>d. L 64 ''default_session_total_limit_bytes'' = Some d \<and>
      (\<exists>e. L 16 ''max_small_alloc_pages_1024'' = Some e \<and> (\<exists>f. L 16 ''single_small_alloc_pages'' = Some f \<and>
        attrs m ?s \<subseteq> {''single_small_alloc_pages'', ''max_small_alloc_pages_1024'', ''default_session_total_limit_bytes'',
          ''default_session_ram_limit_bytes'', ''total_limit_bytes'', ''ram_limit_bytes''} \<and>
        \<lparr>cfg_ram_limit_bytes = a, cfg_total_limit_bytes = b, cfg_default_session_ram_limit_bytes = c,
          cfg_default_session_total_limit_bytes = d, cfg_max_small_alloc_pages_1024 = e, cfg_single_small_alloc_pages = f\<rparr> = mm)))))))
    \<and> good (\<lambda>_. True) (memory_manager_sect cast m)"
    unfolding memory_manager_sect_def Let_def L_def
    apply (rule bind_get_value [OF section_of_ctor [OF assms(1)]], simp, simp only: prod.case)
    apply (rule bind_get_value, assumption, simp, simp only: prod.case)+
    apply (rule bind_check_no_others, assumption)
    done
  then show ?thesis by (cases mm) (auto simp: insert_commute)
qed

section \<open>Printing and reading back\<close>

type_synonym ini_data = "(string \<times> (string \<times> string) list) list"

definition print_attr :: "string \<times> string \<Rightarrow> string" where
  "print_attr p = fst p @ ''='' @ snd p @ [CHR 0x0A]"

definition print_section :: "string \<times> (string \<times> string) list \<Rightarrow> string" where
  "print_section p = ''['' @ fst p @ '']'' @ [CHR 0x0A] @ concat (map print_attr (snd p))"

definition print_ini :: "ini_data \<Rightarrow> string" where
  "print_ini d = concat (map print_section d)"

definition entries :: "ini_data \<Rightarrow> ((string \<times> string) \<times> string) set" where
  "entries d = {((s, a), v) | s a v as. (s, as) \<in> set d \<and> (a, v) \<in> set as}"

definition val_ok :: "string \<Rightarrow> bool" where
  "val_ok v \<longleftrightarrow> v \<noteq> [] \<and> val_start (hd v) \<and> list_all val_char (tl v) \<and> list_all (\<lambda>c. c \<noteq> CHR '';'' \<and> c \<noteq> CHR 0x0A) v"

definition attr_ok :: "string \<times> string \<Rightarrow> bool" where
  "attr_ok p \<longleftrightarrow> ident (fst p) \<and> val_ok (snd p)"

definition data_ok :: "ini_data \<Rightarrow> bool" where
  "data_ok d \<longleftrightarrow> distinct (map fst d) \<and>
     list_all (\<lambda>(s, as). ident s \<and> distinct (map fst as) \<and> list_all attr_ok as) d"

lemma entries_eq: "entries d = set (concat (map (\<lambda>(s, as). map (\<lambda>(a, v). ((s, a), v)) as) d))"
  by (force simp: entries_def)

lemma strip_comments_none:
  assumes "CHR '';'' \<notin> set l" and "c \<in> set l" and "\<not> isblank c"
  shows "strip_comments l = l"
  using assms by (auto simp: strip_comments_def str_find_none line_is_white_def list_all_iff)

lemma ini_loop_line:
  assumes "CHR 0x0A \<notin> set l"
  shows "ini_loop rm (l @ CHR 0x0A # rest) st = bind_res (ini_line rm l st) (ini_loop rm rest)"
proof -
  have "takeWhile (\<lambda>c. c \<noteq> CHR 0x0A) (l @ CHR 0x0A # rest) = l" "dropWhile (\<lambda>c. c \<noteq> CHR 0x0A) (l @ CHR 0x0A # rest) = CHR 0x0A # rest"
    using assms by (subst takeWhile_append2 dropWhile_append2; auto)+
  then show ?thesis by (subst ini_loop.simps) simp
qed

lemma attr_text:
  assumes "attr_ok (a, v)"
  shows "strip_comments (a @ ''='' @ v) = a @ ''='' @ v" and "re_lang reg_attr (a @ ''='' @ v)"
    and "get_attr (a @ ''='' @ v) = Inr a" and "get_val (a @ ''='' @ v) = Inr v" and "CHR 0x0A \<notin> set (a @ ''='' @ v)"
proof -
  have a: "ident a" and v: "val_ok v" using assms by (simp_all add: attr_ok_def)
  obtain d r where vr: "v = d # r" "val_start d" "list_all val_char r" using v by (cases v) (auto simp: val_ok_def)
  note na = list_all_notin [OF ident_all [OF a]]
  have nv: "CHR '';'' \<notin> set v" "CHR 0x0A \<notin> set v" using v by (auto simp: val_ok_def list_all_iff)
  show "strip_comments (a @ ''='' @ v) = a @ ''='' @ v"
    by (rule strip_comments_none [of _ "CHR ''=''"]) (use na nv punctuation_not_ident in auto)
  show "CHR 0x0A \<notin> set (a @ ''='' @ v)" using na nv punctuation_not_ident by auto
  show "re_lang reg_attr (a @ ''='' @ v)" unfolding reg_attr_parts
    by (rule exI [of _ "[]"], rule exI [of _ a], rule exI [of _ "[]"], rule exI [of _ v])
       (use a vr in \<open>auto intro: exI [of _ "[]"]\<close>)
  show "get_attr (a @ ''='' @ v) = Inr a" "get_val (a @ ''='' @ v) = Inr v"
    using attr_line_parts [of "[]" a "[]" v "[]" d r] a vr by simp_all
qed

lemma sect_text:
  assumes "ident s"
  shows "strip_comments (''['' @ s @ '']'') = ''['' @ s @ '']''" and "re_lang reg_sect (''['' @ s @ '']'')"
    and "\<not> re_lang reg_attr (''['' @ s @ '']'')" and "get_sect_name (''['' @ s @ '']'') = Inr s" and "CHR 0x0A \<notin> set (''['' @ s @ '']'')"
proof -
  note ns = list_all_notin [OF ident_all [OF assms]]
  show "strip_comments (''['' @ s @ '']'') = ''['' @ s @ '']''"
    by (rule strip_comments_none [of _ "CHR ''[''"]) (use ns punctuation_not_ident in auto)
  show "CHR 0x0A \<notin> set (''['' @ s @ '']'')" using ns punctuation_not_ident by auto
  show "re_lang reg_sect (''['' @ s @ '']'')" unfolding reg_sect_parts
    by (rule exI [of _ "[]"], rule exI [of _ "[]"], rule exI [of _ s], rule exI [of _ "[]"], rule exI [of _ "[]"]) (simp add: assms)
  show "get_sect_name (''['' @ s @ '']'') = Inr s" using sect_line_parts [of "[]" "[]" s "[]" "[]"] assms by simp
  show "\<not> re_lang reg_attr (''['' @ s @ '']'')"
  proof
    assume "re_lang reg_attr (''['' @ s @ '']'')"
    then obtain b w x where e: "''['' @ s @ '']'' = b @ w @ x" "list_all isblank b" "ident w" unfolding reg_attr_parts by blast
    show False using e punctuation_not_ident by (cases b; cases w) (auto simp: ident_def)
  qed
qed

context regex_engine
begin

lemma loop_attrs:
  assumes "list_all attr_ok as" and "distinct (map fst as)" and "cur_sect st \<noteq> []" and "om_inv (ini_values st)"
    and "\<forall>a \<in> fst ` set as. (cur_sect st, a) \<notin> fst ` set (ini_values st)"
  shows "\<exists>st'. ini_loop regex_match (concat (map print_attr as) @ rest) st = ini_loop regex_match rest st' \<and>
    cur_sect st' = cur_sect st \<and> om_inv (ini_values st') \<and>
    set (ini_values st') = set (ini_values st) \<union> (\<lambda>p. ((cur_sect st, fst p), snd p)) ` set as"
  using assms
proof (induction as arbitrary: st)
  case (Cons p as)
  obtain a v where p: "p = (a, v)" by (cases p)
  have ok: "attr_ok (a, v)" using Cons.prems(1) p by simp
  let ?m = "om_insert (cur_sect st, a) v (ini_values st)"
  let ?st = "st\<lparr>line_no := line_no st + 1, ini_values := ?m\<rparr>"
  have fresh: "(cur_sect st, a) \<notin> fst ` set (ini_values st)" using Cons.prems(5) p by simp
  have "om_find (cur_sect st, a) (ini_values st) = None" using fresh by (simp add: om_find_None)
  then have "ini_line regex_match (a @ ''='' @ v) st = Inr ?st"
    using attr_text [OF ok] Cons.prems(3) by (simp add: ini_line_def regex_match_iff Let_def)
  then have step: "ini_loop regex_match (concat (map print_attr (p # as)) @ rest) st =
      ini_loop regex_match (concat (map print_attr as) @ rest) ?st"
    using ini_loop_line [OF attr_text(5) [OF ok], of regex_match "concat (map print_attr as) @ rest" st]
    by (simp add: p print_attr_def)
  have m: "set ?m = insert ((cur_sect st, a), v) (set (ini_values st))" using fresh by (rule set_om_insert_fresh)
  have "\<exists>st'. ini_loop regex_match (concat (map print_attr as) @ rest) ?st = ini_loop regex_match rest st' \<and>
      cur_sect st' = cur_sect ?st \<and> om_inv (ini_values st') \<and>
      set (ini_values st') = set (ini_values ?st) \<union> (\<lambda>p. ((cur_sect ?st, fst p), snd p)) ` set as"
    by (rule Cons.IH) (use Cons.prems p m in \<open>auto simp: om_inv_insert\<close>)
  then show ?case using step m p by auto
qed auto

lemma loop_sections:
  assumes "data_ok d" and "om_inv (ini_values st)" and "\<forall>s \<in> fst ` set d. s \<notin> fst ` fst ` set (ini_values st)"
  shows "\<exists>st'. ini_loop regex_match (print_ini d) st = Inr st' \<and> om_inv (ini_values st') \<and>
    set (ini_values st') = set (ini_values st) \<union> entries d"
  using assms
proof (induction d arbitrary: st)
  case Nil
  then show ?case by (simp add: print_ini_def ini_loop.simps ini_line_def strip_comments_def str_find_def line_is_white_def entries_def)
next
  case (Cons p d)
  obtain s as where p: "p = (s, as)" by (cases p)
  have s: "ident s" "distinct (map fst as)" "list_all attr_ok as" and d: "data_ok d" "s \<notin> fst ` set d"
    using Cons.prems(1) p by (auto simp: data_ok_def)
  let ?st = "st\<lparr>line_no := line_no st + 1, cur_sect := s\<rparr>"
  let ?it = "om_lower_bound (s, []) (ini_values st)"
  have new: "s \<notin> fst ` fst ` set (ini_values st)" using Cons.prems(3) p by simp
  have "?it = [] \<or> fst (fst (hd ?it)) \<noteq> s"
  proof (cases ?it)
    case (Cons e es)
    have "set ?it \<subseteq> set (ini_values st)" by (auto simp: om_lower_bound_def dest: set_dropWhileD)
    then have "e \<in> set (ini_values st)" using Cons by auto
    then show ?thesis using new Cons by auto
  qed simp
  then have line: "ini_line regex_match (''['' @ s @ '']'') st = Inr ?st"
    using sect_text [OF s(1)] by (auto simp: ini_line_def regex_match_iff Let_def)
  have "ini_loop regex_match (print_ini (p # d)) st = ini_loop regex_match (concat (map print_attr as) @ print_ini d) ?st"
    using ini_loop_line [OF sect_text(5) [OF s(1)], of regex_match "concat (map print_attr as) @ print_ini d" st] line
    by (simp add: print_ini_def print_section_def p)
  moreover obtain st1 where st1: "ini_loop regex_match (concat (map print_attr as) @ print_ini d) ?st = ini_loop regex_match (print_ini d) st1"
      "om_inv (ini_values st1)" "set (ini_values st1) = set (ini_values st) \<union> (\<lambda>p. ((s, fst p), snd p)) ` set as"
  proof -
    have "s \<noteq> []" using s(1) by (simp add: ident_def)
    moreover have "\<forall>a \<in> fst ` set as. (s, a) \<notin> fst ` set (ini_values st)" using new by force
    ultimately show ?thesis using loop_attrs [OF s(3,2), of ?st "print_ini d"] Cons.prems(2) that by auto
  qed
  moreover have "\<exists>st'. ini_loop regex_match (print_ini d) st1 = Inr st' \<and> om_inv (ini_values st') \<and>
      set (ini_values st') = set (ini_values st1) \<union> entries d"
    by (rule Cons.IH [OF d(1) st1(2)]) (use Cons.prems(3) d(2) p in \<open>auto simp: st1(3) image_Un image_image\<close>)
  moreover have "entries (p # d) = (\<lambda>q. ((s, fst q), snd q)) ` set as \<union> entries d"
    by (auto simp: entries_def p image_iff) force
  ultimately show ?case by auto
qed

lemma ini_config_print:
  assumes "data_ok d"
  shows "\<exists>m. ini_config regex_match path (Some (print_ini d)) = Inr m \<and> om_inv m \<and> set m = entries d"
proof -
  obtain st' where "ini_loop regex_match (print_ini d) \<lparr>cur_sect = [], line_no = 0, ini_values = []\<rparr> = Inr st'"
      "om_inv (ini_values st')" "set (ini_values st') = entries d"
    using loop_sections [OF assms, of "\<lparr>cur_sect = [], line_no = 0, ini_values = []\<rparr>"] by auto
  then show ?thesis by (simp add: ini_config_def)
qed

end

section \<open>Properties\<close>

lemma global_config_good:
  assumes "regex_engine rm"
  shows "good (\<lambda>_. True) (global_config_ctor rm cast path in_f)"
  unfolding global_config_ctor_def
proof (rule good_bind [OF regex_engine.ini_config_good [OF assms]])
  fix m :: value_map assume m: "om_inv m"
  have b: "good (\<lambda>_. True) (buffer_cache_sect cast m)" using buffer_cache_sect_ok [OF m] by blast
  have "good (\<lambda>_. True) (memory_manager_sect cast m)" using memory_manager_sect_ok [OF m] by blast
  then show "good (\<lambda>_. True) (bind_res (buffer_cache_sect cast m) (\<lambda>bc. bind_res (memory_manager_sect cast m) (\<lambda>mm.
      Inr \<lparr>gc_buffer_cache = bc, gc_memory_manager = mm\<rparr>)))"
    by (intro good_bind [OF b] good_bind [where P = "\<lambda>_. True"]) simp_all
qed

text \<open>
  C21. Reading a configuration file never fails an assertion: whatever the file contains, whether it can be
  opened and however values are cast, the result is a configuration or a \<open>config_exception\<close>. The
  asserts in \<open>get_val\<close>, \<open>get_attr\<close>, \<open>get_sect_name\<close>, \<open>ini_config::get_value\<close> and in the typed
  \<open>get_value\<close> are implied by the patterns and by the order of the calls. Assumes that
  \<open>regex_match\<close> decides the language of the patterns.
\<close>

theorem config_reports_errors_only:
  assumes "regex_engine rm" and "global_config_ctor rm cast path in_f = Inl e"
  shows "\<exists>l d. e = Config_exception l d"
  using global_config_good [OF assms(1), of cast path in_f] assms(2) by (simp add: is_config_error_def)

theorem config_reports_errors_only_witness:
  "global_config_ctor re_match (\<lambda>_ _. None) ''x'' (Some ''size=1'') = Inl (Config_exception 1 ''each attribute has to be in a section'') \<and>
   (\<exists>l d. Config_exception 1 ''each attribute has to be in a section'' = Config_exception l d)"
proof -
  have "global_config_ctor re_match (\<lambda>_ _. None) ''x'' (Some ''size=1'') = Inl (Config_exception 1 ''each attribute has to be in a section'')"
    by (simp add: global_config_ctor_def ini_config_def ini_loop.simps ini_line_def strip_comments_def str_find_def
        line_is_white_def reg_attr_def char_classes Let_def)
  then show ?thesis using config_reports_errors_only [OF matcher.regex_engine_axioms] by blast
qed

text \<open>
  C22. Print and parse: a configuration written section by section, one attribute per line, is read back as
  exactly its entries, in a map ordered by section and attribute.
\<close>

theorem config_print_parse:
  assumes "regex_engine rm" and "data_ok d"
  shows "\<exists>m. ini_config rm path (Some (print_ini d)) = Inr m \<and> om_inv m \<and>
    (\<forall>s a v. ini_get_value m s a = Inr v \<longleftrightarrow> ((s, a), v) \<in> entries d) \<and>
    (\<forall>s. set (get_attribute_names m s) = {a. \<exists>v. ((s, a), v) \<in> entries d})"
proof -
  obtain m where m: "ini_config rm path (Some (print_ini d)) = Inr m" "om_inv m" "set m = entries d"
    using regex_engine.ini_config_print [OF assms] by blast
  have "ini_get_value m s a = Inr v \<longleftrightarrow> ((s, a), v) \<in> entries d" for s a v
    using om_find_Some [OF m(2), of "(s, a)" v] m(3) by (auto simp: ini_get_value_def split: option.splits)
  moreover have "set (get_attribute_names m s) = {a. \<exists>v. ((s, a), v) \<in> entries d}" for s
    using m by (force simp: set_get_attribute_names attrs_def)
  ultimately show ?thesis using m by blast
qed

text \<open>The settings of \<open>doc/default.conf\<close>.\<close>

definition default_conf :: ini_data where
  "default_conf =
     [(''buffer_cache'', [(''size'', ''1048576'')]),
      (''memory_manager'',
        [(''ram_limit_bytes'', ''1073741824''), (''total_limit_bytes'', ''4294967296''),
         (''default_session_ram_limit_bytes'', ''67108864''), (''default_session_total_limit_bytes'', ''268435456''),
         (''max_small_alloc_pages_1024'', ''768''), (''single_small_alloc_pages'', ''64'')])]"

lemma default_conf_ok: "data_ok default_conf"
  by (simp add: data_ok_def default_conf_def attr_ok_def ident_def val_ok_def char_classes)

theorem config_print_parse_witness:
  "\<exists>m. ini_config re_match ''default.conf'' (Some (print_ini default_conf)) = Inr m \<and>
     ini_get_value m ''memory_manager'' ''single_small_alloc_pages'' = Inr ''64''"
proof -
  have "((''memory_manager'', ''single_small_alloc_pages''), ''64'') \<in> entries default_conf"
    unfolding entries_def default_conf_def by auto
  then show ?thesis using config_print_parse [OF matcher.regex_engine_axioms default_conf_ok, of "''default.conf''"] by blast
qed

text \<open>
  C23. The typed configuration: when the file parses, the global configuration is accepted exactly when all
  required attributes are present, every present value casts to its type and the two known sections
  have no unknown attribute; its fields are the cast values, and the default of
  \<open>syncer_sleep_time\<close> is 30.
\<close>

theorem global_config_accepts_iff:
  assumes "regex_engine rm" and "ini_config rm path in_f = Inr m"
  shows "global_config_ctor rm cast path in_f = Inr g \<longleftrightarrow>
     lookup_value (cast 64) None m ''buffer_cache'' ''size'' = Some (cfg_size (gc_buffer_cache g)) \<and>
     lookup_value (cast 16) (Some 30) m ''buffer_cache'' ''syncer_sleep_time'' = Some (cfg_syncer_sleep_time (gc_buffer_cache g)) \<and>
     attrs m ''buffer_cache'' \<subseteq> {''size'', ''syncer_sleep_time''} \<and>
     lookup_value (cast 64) None m ''memory_manager'' ''ram_limit_bytes'' = Some (cfg_ram_limit_bytes (gc_memory_manager g)) \<and>
     lookup_value (cast 64) None m ''memory_manager'' ''total_limit_bytes'' = Some (cfg_total_limit_bytes (gc_memory_manager g)) \<and>
     lookup_value (cast 64) None m ''memory_manager'' ''default_session_ram_limit_bytes'' =
       Some (cfg_default_session_ram_limit_bytes (gc_memory_manager g)) \<and>
     lookup_value (cast 64) None m ''memory_manager'' ''default_session_total_limit_bytes'' =
       Some (cfg_default_session_total_limit_bytes (gc_memory_manager g)) \<and>
     lookup_value (cast 16) None m ''memory_manager'' ''max_small_alloc_pages_1024'' =
       Some (cfg_max_small_alloc_pages_1024 (gc_memory_manager g)) \<and>
     lookup_value (cast 16) None m ''memory_manager'' ''single_small_alloc_pages'' =
       Some (cfg_single_small_alloc_pages (gc_memory_manager g)) \<and>
     attrs m ''memory_manager'' \<subseteq> {''ram_limit_bytes'', ''total_limit_bytes'', ''default_session_ram_limit_bytes'',
       ''default_session_total_limit_bytes'', ''max_small_alloc_pages_1024'', ''single_small_alloc_pages''}"
proof -
  have m: "om_inv m" using regex_engine.ini_config_good [OF assms(1), of path in_f] assms(2) by simp
  have "global_config_ctor rm cast path in_f = Inr g \<longleftrightarrow>
      buffer_cache_sect cast m = Inr (gc_buffer_cache g) \<and> memory_manager_sect cast m = Inr (gc_memory_manager g)"
    unfolding global_config_ctor_def assms(2) bind_res_Inr by (cases g) (auto simp: bind_res_eq_Inr)
  then show ?thesis
    unfolding buffer_cache_sect_ok [OF m, THEN conjunct1] memory_manager_sect_ok [OF m, THEN conjunct1] by (simp only: conj_assoc)
qed

definition dec_cast :: "nat \<Rightarrow> string \<Rightarrow> nat option" where
  "dec_cast w s =
     (let v = foldl (\<lambda>n c. 10 * n + (of_char c - of_char (CHR ''0''))) 0 s
      in if s \<noteq> [] \<and> list_all (in_range (CHR ''0'') (CHR ''9'')) s \<and> v < 2 ^ w then Some v else None)"

theorem global_config_accepts_iff_witness:
  "\<exists>g. global_config_ctor re_match dec_cast ''default.conf'' (Some (print_ini default_conf)) = Inr g \<and>
     cfg_ram_limit_bytes (gc_memory_manager g) = 1073741824 \<and> cfg_syncer_sleep_time (gc_buffer_cache g) = 30"
proof -
  obtain m where m: "ini_config re_match ''default.conf'' (Some (print_ini default_conf)) = Inr m" "om_inv m" "set m = entries default_conf"
    using matcher.ini_config_print [OF default_conf_ok] by blast
  have e: "set m = {((''buffer_cache'', ''size''), ''1048576''),
      ((''memory_manager'', ''ram_limit_bytes''), ''1073741824''), ((''memory_manager'', ''total_limit_bytes''), ''4294967296''),
      ((''memory_manager'', ''default_session_ram_limit_bytes''), ''67108864''),
      ((''memory_manager'', ''default_session_total_limit_bytes''), ''268435456''),
      ((''memory_manager'', ''max_small_alloc_pages_1024''), ''768''), ((''memory_manager'', ''single_small_alloc_pages''), ''64'')}"
    unfolding m(3) entries_eq default_conf_def
    by (simp only: list.map concat.simps prod.case append_Cons append_Nil append_Nil2 list.set)
  have f: "om_find (s, a) m = Some v" if "((s, a), v) \<in> set m" for s a v using om_find_Some [OF m(2)] that by simp
  have L: "lookup_value (dec_cast w) def m s a = dec_cast w v" if "((s, a), v) \<in> set m" for w def s a v
    using f [OF that] by (simp add: lookup_value_def)
  have D: "dec_cast 64 ''1048576'' = Some 1048576"
    "dec_cast 64 ''1073741824'' = Some 1073741824"
    "dec_cast 64 ''4294967296'' = Some 4294967296"
    "dec_cast 64 ''67108864'' = Some 67108864"
    "dec_cast 64 ''268435456'' = Some 268435456"
    "dec_cast 16 ''768'' = Some 768"
    "dec_cast 16 ''64'' = Some 64"
    by (simp_all add: dec_cast_def in_range_def)
  have V: "lookup_value (dec_cast 64) None m ''buffer_cache'' ''size'' = Some 1048576"
    "lookup_value (dec_cast 64) None m ''memory_manager'' ''ram_limit_bytes'' = Some 1073741824"
    "lookup_value (dec_cast 64) None m ''memory_manager'' ''total_limit_bytes'' = Some 4294967296"
    "lookup_value (dec_cast 64) None m ''memory_manager'' ''default_session_ram_limit_bytes'' = Some 67108864"
    "lookup_value (dec_cast 64) None m ''memory_manager'' ''default_session_total_limit_bytes'' = Some 268435456"
    "lookup_value (dec_cast 16) None m ''memory_manager'' ''max_small_alloc_pages_1024'' = Some 768"
    "lookup_value (dec_cast 16) None m ''memory_manager'' ''single_small_alloc_pages'' = Some 64"
    unfolding D [symmetric] by (rule L, simp add: e)+
  have "om_find (''buffer_cache'', ''syncer_sleep_time'') m = None" by (simp add: om_find_None e)
  then have V2: "lookup_value (dec_cast 16) (Some 30) m ''buffer_cache'' ''syncer_sleep_time'' = Some 30" by (simp add: lookup_value_def)
  have A: "attrs m ''buffer_cache'' \<subseteq> {''size'', ''syncer_sleep_time''}"
    "attrs m ''memory_manager'' \<subseteq> {''ram_limit_bytes'', ''total_limit_bytes'', ''default_session_ram_limit_bytes'',
       ''default_session_total_limit_bytes'', ''max_small_alloc_pages_1024'', ''single_small_alloc_pages''}"
    by (auto simp: attrs_def e)
  let ?g = "\<lparr>gc_buffer_cache = \<lparr>cfg_size = 1048576, cfg_syncer_sleep_time = 30\<rparr>,
        gc_memory_manager = \<lparr>cfg_ram_limit_bytes = 1073741824, cfg_total_limit_bytes = 4294967296,
          cfg_default_session_ram_limit_bytes = 67108864, cfg_default_session_total_limit_bytes = 268435456,
          cfg_max_small_alloc_pages_1024 = 768, cfg_single_small_alloc_pages = 64\<rparr>\<rparr>"
  have "global_config_ctor re_match dec_cast ''default.conf'' (Some (print_ini default_conf)) = Inr ?g"
    unfolding global_config_accepts_iff [OF matcher.regex_engine_axioms m(1)]
    using A by (simp only: V V2 global_config.simps buffer_cache_config.simps memory_manager_config.simps simp_thms)
  then show ?thesis by (intro exI [of _ ?g]) simp
qed

end
