(* ===== verification/Threads.thy ===== *)
theory Threads
  imports Simulation
begin

text \<open>
  \<open>src/include/util/thread.h\<close> and \<open>src/util/thread.cpp\<close>: the spin lock in its two
  implementations (compare-and-swap and exchange), the scoped locks built on it and
  \<open>completion\<close>. An atomic instruction or a critical section is one step, so a run is an
  interleaving of the threads, which are numbers. Every thread has one scoped lock object per
  mutex; \<open>sl_spinning\<close> says that the thread is inside the loop of \<open>SPIN_IMPL_LOCK\<close>.
\<close>

section \<open>Spin locks\<close>

definition SPIN_IMPL_LOCKED :: int where "SPIN_IMPL_LOCKED = 187"
definition SPIN_IMPL_UNLOCKED :: int where "SPIN_IMPL_UNLOCKED = 245"

lemma locked_neq_unlocked [simp]: "SPIN_IMPL_LOCKED \<noteq> SPIN_IMPL_UNLOCKED" "SPIN_IMPL_UNLOCKED \<noteq> SPIN_IMPL_LOCKED"
  by (simp_all add: SPIN_IMPL_LOCKED_def SPIN_IMPL_UNLOCKED_def)

text \<open>One iteration of the loop of \<open>SPIN_IMPL_LOCK\<close>, \<open>SPIN_IMPL_TRYLOCK\<close> and \<open>SPIN_IMPL_UNLOCK\<close>.\<close>

record spin_impl =
  si_attempt :: "int \<Rightarrow> (bool \<times> int) res"
  si_trylock :: "int \<Rightarrow> bool \<times> int"
  si_unlock :: "int \<Rightarrow> int res"

definition bool_compare_and_swap :: "int \<Rightarrow> int \<Rightarrow> int \<Rightarrow> bool \<times> int" where
  "bool_compare_and_swap v old new = (if v = old then (True, new) else (False, v))"

definition gnu_attempt :: "int \<Rightarrow> (bool \<times> int) res" where
  "gnu_attempt lock = Inr (bool_compare_and_swap lock SPIN_IMPL_UNLOCKED SPIN_IMPL_LOCKED)"

definition gnu_trylock :: "int \<Rightarrow> bool \<times> int" where
  "gnu_trylock lock = bool_compare_and_swap lock SPIN_IMPL_UNLOCKED SPIN_IMPL_LOCKED"

definition gnu_unlock :: "int \<Rightarrow> int res" where
  "gnu_unlock lock = (case bool_compare_and_swap lock SPIN_IMPL_LOCKED SPIN_IMPL_UNLOCKED of (res, lock) \<Rightarrow> d_assert res (Inr lock))"

definition gnu_impl :: spin_impl where
  "gnu_impl = \<lparr>si_attempt = gnu_attempt, si_trylock = gnu_trylock, si_unlock = gnu_unlock\<rparr>"

text \<open>\<open>EXCHANGE(lock, locker)\<close> swaps the two values.\<close>

definition asm_attempt :: "int \<Rightarrow> (bool \<times> int) res" where
  "asm_attempt lock =
     (let (lock, locker) = (SPIN_IMPL_LOCKED, lock) in
      if locker = SPIN_IMPL_LOCKED then Inr (False, lock)
      else d_assert (locker = SPIN_IMPL_UNLOCKED) (Inr (True, lock)))"

definition asm_trylock :: "int \<Rightarrow> bool \<times> int" where
  "asm_trylock lock = (let (lock, locker) = (SPIN_IMPL_LOCKED, lock) in (locker = SPIN_IMPL_UNLOCKED, lock))"

definition asm_unlock :: "int \<Rightarrow> int res" where
  "asm_unlock lock = (let (lock, unlocker) = (SPIN_IMPL_UNLOCKED, lock) in Inr lock)"

definition asm_impl :: spin_impl where
  "asm_impl = \<lparr>si_attempt = asm_attempt, si_trylock = asm_trylock, si_unlock = asm_unlock\<rparr>"

record spin_state =
  lock_impl :: int
  sl_locked :: "nat \<Rightarrow> bool"
  sl_spinning :: "nat \<Rightarrow> bool"

definition spin_mutex_ctor :: spin_state where
  "spin_mutex_ctor = \<lparr>lock_impl = SPIN_IMPL_UNLOCKED, sl_locked = (\<lambda>_. False), sl_spinning = (\<lambda>_. False)\<rparr>"

definition sl_lock :: "nat \<Rightarrow> spin_state \<Rightarrow> spin_state res" where
  "sl_lock t s = d_assert (\<not> sl_locked s t) (Inr (s\<lparr>sl_spinning := (sl_spinning s)(t := True)\<rparr>))"

definition sl_spin :: "spin_impl \<Rightarrow> nat \<Rightarrow> spin_state \<Rightarrow> spin_state res" where
  "sl_spin impl t s =
     bind_res (si_attempt impl (lock_impl s)) (\<lambda>(done, lock).
       Inr (if done
            then s\<lparr>lock_impl := lock, sl_spinning := (sl_spinning s)(t := False), sl_locked := (sl_locked s)(t := True)\<rparr>
            else s\<lparr>lock_impl := lock\<rparr>))"

definition sl_unlock :: "spin_impl \<Rightarrow> nat \<Rightarrow> spin_state \<Rightarrow> spin_state res" where
  "sl_unlock impl t s =
     d_assert (sl_locked s t) (bind_res (si_unlock impl (lock_impl s)) (\<lambda>lock.
       Inr (s\<lparr>lock_impl := lock, sl_locked := (sl_locked s)(t := False)\<rparr>)))"

definition sl_try_lock :: "spin_impl \<Rightarrow> nat \<Rightarrow> spin_state \<Rightarrow> spin_state res" where
  "sl_try_lock impl t s =
     d_assert (\<not> sl_locked s t) (case si_trylock impl (lock_impl s) of (res, lock) \<Rightarrow>
       Inr (s\<lparr>lock_impl := lock, sl_locked := (sl_locked s)(t := res)\<rparr>))"

definition owns_lock :: "nat \<Rightarrow> spin_state \<Rightarrow> bool" where
  "owns_lock t s = sl_locked s t"

text \<open>The destructor of a scoped lock; the thread's next scoped lock starts unlocked.\<close>

definition sl_dtor :: "spin_impl \<Rightarrow> nat \<Rightarrow> spin_state \<Rightarrow> spin_state res" where
  "sl_dtor impl t s =
     (if sl_locked s t
      then bind_res (si_unlock impl (lock_impl s)) (\<lambda>lock. Inr (s\<lparr>lock_impl := lock, sl_locked := (sl_locked s)(t := False)\<rparr>))
      else Inr s)"

text \<open>The constructors: \<open>scoped_lock\<close> starts to lock, \<open>scoped_try_lock\<close> tries once.\<close>

definition scoped_lock_base_ctor :: "nat \<Rightarrow> spin_state \<Rightarrow> spin_state" where
  "scoped_lock_base_ctor t s = s\<lparr>sl_locked := (sl_locked s)(t := False)\<rparr>"

definition scoped_lock_ctor :: "nat \<Rightarrow> spin_state \<Rightarrow> spin_state res" where
  "scoped_lock_ctor t s = sl_lock t (scoped_lock_base_ctor t s)"

definition scoped_try_lock_ctor :: "spin_impl \<Rightarrow> nat \<Rightarrow> spin_state \<Rightarrow> spin_state res" where
  "scoped_try_lock_ctor impl t s = sl_try_lock impl t (scoped_lock_base_ctor t s)"

datatype spin_event = Lock nat | Spin nat | Unlock nat | Try_lock nat | Destroy nat

fun spin_exec :: "spin_impl \<Rightarrow> spin_event \<Rightarrow> spin_state \<Rightarrow> spin_state res" where
  "spin_exec impl (Lock t) s = sl_lock t s"
| "spin_exec impl (Spin t) s = sl_spin impl t s"
| "spin_exec impl (Unlock t) s = sl_unlock impl t s"
| "spin_exec impl (Try_lock t) s = sl_try_lock impl t s"
| "spin_exec impl (Destroy t) s = sl_dtor impl t s"

text \<open>
  What a thread can do: inside the loop only the next iteration; outside, \<open>lock\<close> and
  \<open>try_lock\<close> on a lock it does not own and \<open>unlock\<close> on one it owns.
\<close>

fun spin_enabled :: "spin_event \<Rightarrow> spin_state \<Rightarrow> bool" where
  "spin_enabled (Lock t) s \<longleftrightarrow> \<not> sl_spinning s t \<and> \<not> owns_lock t s"
| "spin_enabled (Spin t) s \<longleftrightarrow> sl_spinning s t"
| "spin_enabled (Unlock t) s \<longleftrightarrow> \<not> sl_spinning s t \<and> owns_lock t s"
| "spin_enabled (Try_lock t) s \<longleftrightarrow> \<not> sl_spinning s t \<and> \<not> owns_lock t s"
| "spin_enabled (Destroy t) s \<longleftrightarrow> \<not> sl_spinning s t"

inductive spin_step :: "spin_impl \<Rightarrow> spin_state \<Rightarrow> spin_event \<Rightarrow> spin_state \<Rightarrow> bool" for impl where
  "spin_enabled ev s \<Longrightarrow> spin_exec impl ev s = Inr s' \<Longrightarrow> spin_step impl s ev s'"

inductive_simps spin_step_iff: "spin_step impl s ev s'"

text \<open>What the scoped locks rely on in an implementation of the spin lock.\<close>

locale spin_lock =
  fixes impl :: spin_impl
  assumes attempt_free: "si_attempt impl SPIN_IMPL_UNLOCKED = Inr (True, SPIN_IMPL_LOCKED)"
    and attempt_held: "si_attempt impl SPIN_IMPL_LOCKED = Inr (False, SPIN_IMPL_LOCKED)"
    and try_free: "si_trylock impl SPIN_IMPL_UNLOCKED = (True, SPIN_IMPL_LOCKED)"
    and try_held: "si_trylock impl SPIN_IMPL_LOCKED = (False, SPIN_IMPL_LOCKED)"
    and unlock_held: "si_unlock impl SPIN_IMPL_LOCKED = Inr SPIN_IMPL_UNLOCKED"

definition spin_inv :: "spin_state \<Rightarrow> bool" where
  "spin_inv s \<longleftrightarrow>
     (lock_impl s = SPIN_IMPL_UNLOCKED \<and> (\<forall>t. \<not> sl_locked s t) \<or>
      lock_impl s = SPIN_IMPL_LOCKED \<and> (\<exists>!t. sl_locked s t)) \<and>
     (\<forall>t. \<not> (sl_spinning s t \<and> sl_locked s t))"

lemma spin_inv_cases:
  assumes "spin_inv s"
  obtains "lock_impl s = SPIN_IMPL_UNLOCKED" and "\<And>t. \<not> sl_locked s t"
  | own where "lock_impl s = SPIN_IMPL_LOCKED" and "\<And>t. sl_locked s t \<longleftrightarrow> t = own"
  using assms unfolding spin_inv_def by blast

lemma spin_inv_ctor: "spin_inv spin_mutex_ctor"
  by (simp add: spin_inv_def spin_mutex_ctor_def)

context spin_lock
begin

lemma spin_exec_ok:
  assumes "spin_inv s" and "spin_enabled ev s"
  shows "\<exists>s'. spin_exec impl ev s = Inr s' \<and> spin_inv s'"
  using assms(1)
proof (cases rule: spin_inv_cases)
  case 1
  then show ?thesis using assms
    by (cases ev) (auto simp: spin_inv_def sl_lock_def sl_spin_def sl_unlock_def sl_try_lock_def sl_dtor_def owns_lock_def attempt_free try_free
        split: if_splits)
next
  case (2 own)
  note defs = spin_inv_def sl_lock_def sl_spin_def sl_unlock_def sl_try_lock_def sl_dtor_def owns_lock_def
    attempt_held try_held unlock_held
  show ?thesis
  proof (cases ev)
    case (Try_lock t)
    then have "(sl_locked s)(t := False) = sl_locked s" using assms(2) by (simp add: owns_lock_def fun_upd_idem_iff)
    then show ?thesis using 2(1) assms Try_lock by (auto simp: defs)
  qed (use 2 assms in \<open>auto simp: defs split: if_splits\<close>)
qed

text \<open>A new scoped lock is the event \<open>Lock\<close> or \<open>Try_lock\<close> of its thread; trying takes the mutex exactly when it is free.\<close>

lemma scoped_ctors:
  assumes "\<not> sl_locked s t"
  shows "scoped_lock_ctor t s = spin_exec impl (Lock t) s" and "scoped_try_lock_ctor impl t s = spin_exec impl (Try_lock t) s"
proof -
  have "scoped_lock_base_ctor t s = s" using assms by (simp add: scoped_lock_base_ctor_def fun_upd_idem)
  then show "scoped_lock_ctor t s = spin_exec impl (Lock t) s" and "scoped_try_lock_ctor impl t s = spin_exec impl (Try_lock t) s"
    by (simp_all add: scoped_lock_ctor_def scoped_try_lock_ctor_def)
qed

lemma scoped_try_lock_owns:
  assumes "spin_inv s" and "\<not> sl_locked s t" and "\<not> sl_spinning s t"
  shows "\<exists>s'. scoped_try_lock_ctor impl t s = Inr s' \<and> spin_inv s' \<and> (owns_lock t s' \<longleftrightarrow> lock_impl s = SPIN_IMPL_UNLOCKED)"
proof -
  obtain s' where s': "spin_exec impl (Try_lock t) s = Inr s'" "spin_inv s'"
    using spin_exec_ok [of s "Try_lock t"] assms by (auto simp: owns_lock_def)
  have ne: "SPIN_IMPL_LOCKED \<noteq> SPIN_IMPL_UNLOCKED" by (simp add: SPIN_IMPL_LOCKED_def SPIN_IMPL_UNLOCKED_def)
  have r: "s' = s\<lparr>lock_impl := snd (si_trylock impl (lock_impl s)), sl_locked := (sl_locked s)(t := fst (si_trylock impl (lock_impl s)))\<rparr>"
    using s'(1) assms(2) by (simp add: sl_try_lock_def d_assert_def split: prod.splits)
  from assms(1) have "owns_lock t s' \<longleftrightarrow> lock_impl s = SPIN_IMPL_UNLOCKED"
    by (cases rule: spin_inv_cases) (simp_all add: r owns_lock_def try_free try_held ne)
  then show ?thesis using s' scoped_ctors(2) [OF assms(2)] by simp
qed

end

sublocale spin_lock \<subseteq> spin_runs: step_invariant "spin_step impl" spin_inv
proof unfold_locales
  fix s l s' assume "spin_inv s" and "spin_step impl s l s'"
  then show "spin_inv s'" using spin_exec_ok [of s l] by (auto simp: spin_step_iff)
qed

text \<open>Two implementations cannot be told apart through a scoped lock.\<close>

locale spin_lock_pair = a: spin_lock impl + b: spin_lock impl' for impl impl'
begin

lemma exec_eq: "spin_inv s \<Longrightarrow> spin_exec impl ev s = spin_exec impl' ev s"
  by (erule spin_inv_cases; cases ev)
     (auto simp: sl_lock_def sl_spin_def sl_unlock_def sl_try_lock_def sl_dtor_def
       a.attempt_free a.attempt_held a.try_free a.try_held a.unlock_held b.attempt_free b.attempt_held b.try_free b.try_held b.unlock_held)

lemma run_eq: "run (spin_step impl) s evs s' \<Longrightarrow> spin_inv s \<Longrightarrow> run (spin_step impl') s evs s'"
proof (induction rule: run.induct)
  case (run_Cons s l s' ls s'')
  have "spin_step impl' s l s'" using run_Cons.hyps(1) exec_eq [OF run_Cons.prems] by (simp add: spin_step_iff)
  moreover have "spin_inv s'" using a.spin_runs.invar_step [OF run_Cons.prems run_Cons.hyps(1)] .
  ultimately show ?case using run_Cons.IH by (blast intro: run.run_Cons)
qed (simp add: run.run_Nil)

end

interpretation gnu: spin_lock gnu_impl
  by unfold_locales (simp_all add: gnu_impl_def gnu_attempt_def gnu_trylock_def gnu_unlock_def bool_compare_and_swap_def)

interpretation xchg: spin_lock asm_impl
  by unfold_locales (simp_all add: asm_impl_def asm_attempt_def asm_trylock_def asm_unlock_def)

interpretation gnu_xchg: spin_lock_pair gnu_impl asm_impl
  by unfold_locales

interpretation xchg_gnu: spin_lock_pair asm_impl gnu_impl
  by unfold_locales

section \<open>Completions\<close>

datatype wait_state = Outside | Blocked | Woken

record completion =
  completed :: bool
  waiter :: "nat \<Rightarrow> wait_state"

definition completion_ctor :: completion where
  "completion_ctor = \<lparr>completed = False, waiter = (\<lambda>_. Outside)\<rparr>"

text \<open>One pass of the loop of \<open>wait\<close> under the mutex: it returns or blocks on the condition variable.\<close>

definition completion_wait :: "nat \<Rightarrow> completion \<Rightarrow> bool \<times> completion" where
  "completion_wait t c =
     (if \<not> completed c then (False, c\<lparr>waiter := (waiter c)(t := Blocked)\<rparr>)
      else (True, c\<lparr>waiter := (waiter c)(t := Outside)\<rparr>))"

definition complete :: "completion \<Rightarrow> completion" where
  "complete c = c\<lparr>completed := True, waiter := (\<lambda>t. if waiter c t = Blocked then Woken else waiter c t)\<rparr>"

definition reset :: "completion \<Rightarrow> completion" where
  "reset c = c\<lparr>completed := False\<rparr>"

datatype completion_event = Wait nat bool | Complete | Reset | Spurious nat

inductive completion_step :: "completion \<Rightarrow> completion_event \<Rightarrow> completion \<Rightarrow> bool" where
  "waiter c t \<noteq> Blocked \<Longrightarrow> completion_wait t c = (r, c') \<Longrightarrow> completion_step c (Wait t r) c'"
| "completion_step c Complete (complete c)"
| "completion_step c Reset (reset c)"
| "waiter c t = Blocked \<Longrightarrow> completion_step c (Spurious t) (c\<lparr>waiter := (waiter c)(t := Woken)\<rparr>)"

inductive_cases completion_stepE: "completion_step c ev c'"

definition signalled :: "completion_event list \<Rightarrow> bool" where
  "signalled evs \<longleftrightarrow> (\<exists>xs ys. evs = xs @ Complete # ys \<and> Reset \<notin> set ys)"

lemma signalled_snoc: "signalled (evs @ [ev]) \<longleftrightarrow> ev = Complete \<or> ev \<noteq> Reset \<and> signalled evs"
proof
  assume "signalled (evs @ [ev])"
  then obtain xs ys where e: "evs @ [ev] = xs @ Complete # ys" "Reset \<notin> set ys" unfolding signalled_def by blast
  show "ev = Complete \<or> ev \<noteq> Reset \<and> signalled evs"
  proof (cases ys rule: rev_cases)
    case (snoc zs z)
    then have "evs = xs @ Complete # zs" "ev = z" using e(1) by auto
    then show ?thesis using e(2) snoc unfolding signalled_def by auto
  qed (use e in auto)
next
  assume "ev = Complete \<or> ev \<noteq> Reset \<and> signalled evs"
  then show "signalled (evs @ [ev])"
  proof
    assume "ev \<noteq> Reset \<and> signalled evs"
    then obtain xs ys where "evs @ [ev] = xs @ Complete # (ys @ [ev])" "Reset \<notin> set (ys @ [ev])" unfolding signalled_def by auto
    then show ?thesis unfolding signalled_def by blast
  next
    assume "ev = Complete"
    then have "evs @ [ev] = evs @ Complete # []" by simp
    then show ?thesis unfolding signalled_def by (metis empty_iff list.set(1))
  qed
qed

definition completion_inv :: "completion_event list \<Rightarrow> completion \<Rightarrow> bool" where
  "completion_inv h c \<longleftrightarrow> completed c = signalled h \<and> (completed c \<longrightarrow> (\<forall>t. waiter c t \<noteq> Blocked))"

interpretation completions: history_invariant completion_step completion_inv
proof unfold_locales
  fix h c ev c' assume "completion_inv h c" and "completion_step c ev c'"
  from this(2,1) show "completion_inv (h @ [ev]) c'"
    by (cases rule: completion_step.cases)
       (auto simp: completion_inv_def signalled_snoc completion_wait_def complete_def reset_def split: if_splits)
qed

section \<open>Properties\<close>

text \<open>
  C17. Mutual exclusion of the spin locks, for both implementations and any interleaving: no two threads own
  the lock, the lock word is LOCKED exactly when some thread owns it, and no operation a thread can
  perform fails an assertion (in particular not the one behind the releasing compare-and-swap).
\<close>

theorem spin_lock_mutual_exclusion:
  assumes "impl = gnu_impl \<or> impl = asm_impl" and "run (spin_step impl) spin_mutex_ctor evs s"
  shows "(owns_lock t s \<longrightarrow> owns_lock t' s \<longrightarrow> t = t') \<and>
    (lock_impl s = SPIN_IMPL_LOCKED \<longleftrightarrow> (\<exists>t. owns_lock t s)) \<and>
    (spin_enabled ev s \<longrightarrow> (\<exists>s'. spin_exec impl ev s = Inr s'))"
proof -
  have inv: "spin_inv s"
    using assms spin_inv_ctor gnu.spin_runs.invar_run xchg.spin_runs.invar_run by blast
  moreover have "spin_enabled ev s \<longrightarrow> (\<exists>s'. spin_exec impl ev s = Inr s')"
    using assms(1) gnu.spin_exec_ok [OF inv] xchg.spin_exec_ok [OF inv] by blast
  ultimately show ?thesis by (auto simp: owns_lock_def elim!: spin_inv_cases)
qed

theorem spin_lock_mutual_exclusion_witness:
  "\<exists>s. run (spin_step asm_impl) spin_mutex_ctor [Lock 7, Lock 8, Spin 7, Spin 8] s \<and> owns_lock 7 s \<and> \<not> owns_lock 8 s"
proof -
  let ?s = "\<lparr>lock_impl = SPIN_IMPL_LOCKED, sl_locked = (\<lambda>_. False)(7 := True), sl_spinning = ((\<lambda>_. False)(7 := True, 8 := True))(7 := False)\<rparr>"
  have r: "run (spin_step asm_impl) spin_mutex_ctor [Lock 7, Lock 8, Spin 7, Spin 8] ?s"
    by (simp add: run_Cons_iff spin_step_iff spin_mutex_ctor_def owns_lock_def sl_lock_def sl_spin_def asm_impl_def asm_attempt_def fun_eq_iff)
  then show ?thesis
    using spin_lock_mutual_exclusion [OF _ r, of 7 8 "Spin 8"] by (intro exI [of _ ?s]) (simp add: owns_lock_def)
qed

text \<open>
  The two implementations are equivalent: the interleavings of the compare-and-swap lock are exactly
  those of the exchange lock, with the same states.
\<close>

theorem spin_lock_implementations_equivalent:
  "run (spin_step gnu_impl) spin_mutex_ctor evs s \<longleftrightarrow> run (spin_step asm_impl) spin_mutex_ctor evs s"
  using gnu_xchg.run_eq xchg_gnu.run_eq spin_inv_ctor by blast

text \<open>
  C18. No lost wake-up in \<open>completion\<close>: after any interleaving of waits, completions, resets and spurious
  wake-ups the flag is set exactly when a \<open>complete\<close> was not followed by a \<open>reset\<close>; then nobody
  stays blocked and the next pass of every waiter returns.
\<close>

theorem completion_no_lost_wakeup:
  assumes "run completion_step completion_ctor evs c"
  shows "(completed c \<longleftrightarrow> signalled evs) \<and>
    (signalled evs \<longrightarrow> waiter c t \<noteq> Blocked \<and> fst (completion_wait t c))"
  using completions.hinv_run_start [OF assms] by (auto simp: completion_inv_def completion_ctor_def signalled_def completion_wait_def)

theorem completion_no_lost_wakeup_witness:
  "\<exists>c. run completion_step completion_ctor [Wait 7 False, Complete] c \<and> waiter c 7 \<noteq> Blocked \<and> fst (completion_wait 7 c)"
proof -
  have r: "run completion_step completion_ctor [Wait 7 False, Complete] (complete (snd (completion_wait 7 completion_ctor)))"
    by (auto simp: run_Cons_iff completion_step.simps completion_ctor_def completion_wait_def)
  have "signalled [Wait 7 False, Complete]" using signalled_snoc [of "[Wait 7 False]" Complete] by simp
  then show ?thesis using completion_no_lost_wakeup [OF r, of 7] r by blast
qed

end
