(* ===== verification/Worker_Pool.thy ===== *)
theory Worker_Pool
  imports Simulation "HOL-Library.Multiset"
begin

text \<open>
  \<open>src/include/util/worker_pool.h\<close>: the closing queue and the pool of threads that empties it.
  A step of the pool is a critical section of the queue or the completion of a worker's
  \<open>handle\<close>; the label records what happened. A worker that finds the queue empty sleeps on the
  condition variable until a \<open>push\<close> picks it, \<open>no_more_input\<close> wakes everybody, or it wakes up
  spuriously.
\<close>

section \<open>The queue\<close>

record 'a sync_queue =
  sq_q :: "'a list"
  sq_no_more_data :: bool

definition sync_queue_ctor :: "'a sync_queue" where
  "sync_queue_ctor = \<lparr>sq_q = [], sq_no_more_data = False\<rparr>"

definition sync_queue_dtor :: "'a sync_queue \<Rightarrow> unit res" where
  "sync_queue_dtor s = d_assert (sq_no_more_data s \<and> sq_q s = []) (Inr ())"

definition sq_push :: "'a \<Rightarrow> 'a sync_queue \<Rightarrow> 'a sync_queue res" where
  "sq_push t s = d_assert (\<not> sq_no_more_data s) (Inr (s\<lparr>sq_q := sq_q s @ [t]\<rparr>))"

text \<open>One pass of \<open>pop\<close> under the mutex: wait, an element, or the end of the input.\<close>

datatype 'a pop_result = Pop_wait | Pop_item 'a | Pop_none

definition sq_pop :: "'a sync_queue \<Rightarrow> 'a pop_result \<times> 'a sync_queue" where
  "sq_pop s =
     (if sq_q s = [] \<and> \<not> sq_no_more_data s then (Pop_wait, s)
      else if sq_q s \<noteq> [] then (Pop_item (hd (sq_q s)), s\<lparr>sq_q := tl (sq_q s)\<rparr>)
      else (Pop_none, s))"

definition no_more_input :: "'a sync_queue \<Rightarrow> 'a sync_queue" where
  "no_more_input s = s\<lparr>sq_no_more_data := True\<rparr>"

section \<open>The pool\<close>

datatype 'a wstate = At_pop | Waiting | Notified | Handling 'a | Finished

record 'a pool =
  p_queue :: "'a sync_queue"
  p_workers :: "'a wstate list"

definition worker_pool_ctor :: "'a pool" where
  "worker_pool_ctor = \<lparr>p_queue = sync_queue_ctor, p_workers = []\<rparr>"

definition worker_pool_dtor :: "'a pool \<Rightarrow> unit res" where
  "worker_pool_dtor p = d_assert (p_workers p = []) (sync_queue_dtor (p_queue p))"

definition pool_start :: "nat \<Rightarrow> 'a pool \<Rightarrow> 'a pool" where
  "pool_start num_workers p = p\<lparr>p_workers := p_workers p @ replicate num_workers At_pop\<rparr>"

definition set_worker :: "nat \<Rightarrow> 'a wstate \<Rightarrow> 'a pool \<Rightarrow> 'a pool" where
  "set_worker i w p = p\<lparr>p_workers := (p_workers p)[i := w]\<rparr>"

text \<open>\<open>notify_one\<close> wakes the sleeping worker \<open>i\<close>, \<open>None\<close> when nobody sleeps.\<close>

definition notify :: "nat option \<Rightarrow> 'a pool \<Rightarrow> 'a pool" where
  "notify i p = (case i of None \<Rightarrow> p | Some i \<Rightarrow> set_worker i Notified p)"

definition schedule_work :: "'a \<Rightarrow> nat option \<Rightarrow> 'a pool \<Rightarrow> 'a pool res" where
  "schedule_work work i p = bind_res (sq_push work (p_queue p)) (\<lambda>q. Inr (notify i (p\<lparr>p_queue := q\<rparr>)))"

text \<open>The two halves of \<open>stop\<close>: closing the queue, and joining the threads.\<close>

definition pool_stop :: "'a pool \<Rightarrow> 'a pool" where
  "pool_stop p = p\<lparr>p_queue := no_more_input (p_queue p),
     p_workers := map (\<lambda>w. case w of Waiting \<Rightarrow> Notified | _ \<Rightarrow> w) (p_workers p)\<rparr>"

definition pool_join :: "'a pool \<Rightarrow> 'a pool" where
  "pool_join p = p\<lparr>p_workers := []\<rparr>"

text \<open>A worker calls \<open>pop\<close> or goes on in it, and \<open>operator()\<close> acts on the result.\<close>

definition worker_pop :: "nat \<Rightarrow> 'a pool \<Rightarrow> 'a pop_result \<times> 'a pool" where
  "worker_pop i p = (case sq_pop (p_queue p) of (r, q) \<Rightarrow>
     (r, set_worker i (case r of Pop_wait \<Rightarrow> Waiting | Pop_item x \<Rightarrow> Handling x | Pop_none \<Rightarrow> Finished) (p\<lparr>p_queue := q\<rparr>)))"

datatype 'a pool_event = Start nat | Schedule 'a | Pop nat "'a pop_result" | Handled nat 'a | Stop | Join | Wake nat

inductive pool_step :: "'a pool \<Rightarrow> 'a pool_event \<Rightarrow> 'a pool \<Rightarrow> bool" where
  start: "pool_step p (Start n) (pool_start n p)"
| schedule_wake: "i < length (p_workers p) \<Longrightarrow> p_workers p ! i = Waiting \<Longrightarrow> schedule_work x (Some i) p = Inr p'
    \<Longrightarrow> pool_step p (Schedule x) p'"
| schedule: "Waiting \<notin> set (p_workers p) \<Longrightarrow> schedule_work x None p = Inr p' \<Longrightarrow> pool_step p (Schedule x) p'"
| pop: "i < length (p_workers p) \<Longrightarrow> p_workers p ! i = At_pop \<or> p_workers p ! i = Notified \<Longrightarrow> worker_pop i p = (r, p')
    \<Longrightarrow> pool_step p (Pop i r) p'"
| handled: "i < length (p_workers p) \<Longrightarrow> p_workers p ! i = Handling x \<Longrightarrow> pool_step p (Handled i x) (set_worker i At_pop p)"
| stop: "pool_step p Stop (pool_stop p)"
| join: "sq_no_more_data (p_queue p) \<Longrightarrow> set (p_workers p) \<subseteq> {Finished} \<Longrightarrow> pool_step p Join (pool_join p)"
| spurious: "i < length (p_workers p) \<Longrightarrow> p_workers p ! i = Waiting \<Longrightarrow> pool_step p (Wake i) (set_worker i Notified p)"

inductive_cases pool_stepE: "pool_step p ev p'"

section \<open>The history of the work\<close>

fun scheduled :: "'a pool_event list \<Rightarrow> 'a list" where
  "scheduled [] = []"
| "scheduled (Schedule x # h) = x # scheduled h"
| "scheduled (_ # h) = scheduled h"

fun taken :: "'a pool_event list \<Rightarrow> 'a list" where
  "taken [] = []"
| "taken (Pop i (Pop_item x) # h) = x # taken h"
| "taken (_ # h) = taken h"

fun handled_items :: "'a pool_event list \<Rightarrow> 'a list" where
  "handled_items [] = []"
| "handled_items (Handled i x # h) = x # handled_items h"
| "handled_items (_ # h) = handled_items h"

fun in_hand :: "'a wstate \<Rightarrow> 'a multiset" where
  "in_hand (Handling x) = {#x#}"
| "in_hand _ = {#}"

lemma scheduled_append: "scheduled (h @ h') = scheduled h @ scheduled h'"
  by (induction h rule: scheduled.induct) auto

lemma taken_append: "taken (h @ h') = taken h @ taken h'"
  by (induction h rule: taken.induct) auto

lemma handled_append: "handled_items (h @ h') = handled_items h @ handled_items h'"
  by (induction h rule: handled_items.induct) auto

definition awake :: "'a wstate \<Rightarrow> bool" where
  "awake w \<longleftrightarrow> w \<noteq> Waiting \<and> w \<noteq> Finished"

definition in_hands :: "'a wstate list \<Rightarrow> 'a multiset" where
  "in_hands ws = sum_list (map in_hand ws)"

text \<open>
  The invariant: work leaves the queue in the order in which it came; what has been taken is
  handled or in a worker's hands; queued work has a worker that will see it; and nobody
  sleeps or goes home at the wrong time.
\<close>

definition pool_inv :: "'a pool_event list \<Rightarrow> 'a pool \<Rightarrow> bool" where
  "pool_inv h p \<longleftrightarrow>
     scheduled h = taken h @ sq_q (p_queue p) \<and>
     mset (taken h) = mset (handled_items h) + in_hands (p_workers p) \<and>
     (sq_q (p_queue p) \<noteq> [] \<longrightarrow> p_workers p \<noteq> [] \<longrightarrow> (\<exists>w \<in> set (p_workers p). awake w)) \<and>
     (sq_no_more_data (p_queue p) \<longrightarrow> Waiting \<notin> set (p_workers p)) \<and>
     (Finished \<in> set (p_workers p) \<longrightarrow> sq_no_more_data (p_queue p) \<and> sq_q (p_queue p) = [])"

lemma in_hands_upd:
  "i < length ws \<Longrightarrow> in_hands (ws[i := w]) + in_hand (ws ! i) = in_hands ws + in_hand w"
proof (induction ws arbitrary: i)
  case (Cons v ws)
  show ?case
  proof (cases i)
    case (Suc j)
    then have "in_hands (ws[j := w]) + in_hand (ws ! j) = in_hands ws + in_hand w" using Cons by simp
    then show ?thesis using Suc by (simp add: in_hands_def add.assoc)
  qed (simp add: in_hands_def add.commute add.left_commute)
qed simp

lemma in_hands_same: "i < length ws \<Longrightarrow> in_hand (ws ! i) = {#} \<Longrightarrow> in_hand w = {#} \<Longrightarrow> in_hands (ws[i := w]) = in_hands ws"
  using in_hands_upd [of i ws w] by simp

lemma awake_upd: "w \<in> set ws \<Longrightarrow> awake w \<Longrightarrow> i < length ws \<Longrightarrow> awake v \<Longrightarrow> \<exists>w \<in> set (ws[i := v]). awake w"
  by (meson set_update_memI)

lemma schedule_inv:
  assumes inv: "pool_inv h p" and i: "case i of None \<Rightarrow> Waiting \<notin> set (p_workers p) | Some i \<Rightarrow> i < length (p_workers p) \<and> p_workers p ! i = Waiting"
    and s: "schedule_work x i p = Inr p'"
  shows "pool_inv (h @ [Schedule x]) p'"
proof -
  have n: "\<not> sq_no_more_data (p_queue p)" and p': "p' = notify i (p\<lparr>p_queue := (p_queue p)\<lparr>sq_q := sq_q (p_queue p) @ [x]\<rparr>\<rparr>)"
    using s by (auto simp: schedule_work_def sq_push_def res_simps)
  have nf: "Finished \<notin> set (p_workers p)" using inv n by (auto simp: pool_inv_def)
  show ?thesis
  proof (cases i)
    case None
    have "\<exists>w \<in> set (p_workers p). awake w" if "p_workers p \<noteq> []"
      using that nf i None by (cases "p_workers p") (auto simp: awake_def)
    then show ?thesis using inv n nf None p' by (auto simp: pool_inv_def notify_def scheduled_append taken_append handled_append)
  next
    case (Some j)
    let ?ws = "(p_workers p)[j := Notified]"
    have j: "j < length (p_workers p)" "p_workers p ! j = Waiting" using i Some by auto
    have "\<exists>w \<in> set ?ws. awake w" using j(1) by (intro bexI [of _ Notified]) (auto simp: awake_def set_update_memI)
    moreover have "Finished \<notin> set ?ws" using nf set_update_subset_insert [of "p_workers p" j Notified] by auto
    moreover have "in_hands ?ws = in_hands (p_workers p)" using j by (simp add: in_hands_same)
    ultimately show ?thesis using inv n Some p'
      by (auto simp: pool_inv_def notify_def set_worker_def scheduled_append taken_append handled_append)
  qed
qed

lemma pop_inv:
  assumes inv: "pool_inv h p" and i: "i < length (p_workers p)" "p_workers p ! i = At_pop \<or> p_workers p ! i = Notified"
    and s: "worker_pop i p = (r, p')"
  shows "pool_inv (h @ [Pop i r]) p'"
proof -
  let ?ws = "p_workers p"
  have ih: "in_hand (?ws ! i) = {#}" using i(2) by auto
  have sub: "set (?ws[i := w]) \<subseteq> insert w (set ?ws)" for w by (rule set_update_subset_insert)
  note simps = pool_inv_def scheduled_append taken_append handled_append worker_pop_def sq_pop_def set_worker_def
  consider "sq_q (p_queue p) = []" "\<not> sq_no_more_data (p_queue p)" | "sq_q (p_queue p) = []" "sq_no_more_data (p_queue p)"
    | x xs where "sq_q (p_queue p) = x # xs" by (cases "sq_q (p_queue p)") auto
  then show ?thesis
  proof cases
    case 1
    then have p': "r = Pop_wait" "p' = p\<lparr>p_workers := ?ws[i := Waiting]\<rparr>" using s by (auto simp: simps)
    have "Finished \<notin> set (?ws[i := Waiting])" using 1 inv sub [of Waiting] by (auto simp: pool_inv_def)
    then show ?thesis using inv 1 p' i ih by (auto simp: simps in_hands_same)
  next
    case 2
    then have p': "r = Pop_none" "p' = p\<lparr>p_workers := ?ws[i := Finished]\<rparr>" using s by (auto simp: simps)
    have "Waiting \<notin> set (?ws[i := Finished])" using 2 inv sub [of Finished] by (auto simp: pool_inv_def)
    then show ?thesis using inv 2 p' i ih by (auto simp: simps in_hands_same)
  next
    case (3 x xs)
    then have p': "r = Pop_item x" "p' = p\<lparr>p_queue := (p_queue p)\<lparr>sq_q := xs\<rparr>, p_workers := ?ws[i := Handling x]\<rparr>"
      using s by (auto simp: simps)
    have "Finished \<notin> set ?ws" using 3 inv by (auto simp: pool_inv_def)
    then have nf: "Finished \<notin> set (?ws[i := Handling x])" using sub [of "Handling x"] by auto
    have nw: "sq_no_more_data (p_queue p) \<longrightarrow> Waiting \<notin> set (?ws[i := Handling x])" using inv sub [of "Handling x"] by (auto simp: pool_inv_def)
    have aw: "\<exists>w \<in> set (?ws[i := Handling x]). awake w"
      using i(1) by (intro bexI [of _ "Handling x"]) (auto simp: awake_def set_update_memI)
    have "in_hands (?ws[i := Handling x]) = in_hands ?ws + {#x#}" using in_hands_upd [OF i(1), of "Handling x"] ih by simp
    then show ?thesis using inv 3 p' nf nw aw by (auto simp: pool_inv_def scheduled_append taken_append handled_append)
  qed
qed

lemma handled_inv:
  assumes inv: "pool_inv h p" and i: "i < length (p_workers p)" "p_workers p ! i = Handling x"
  shows "pool_inv (h @ [Handled i x]) (set_worker i At_pop p)"
proof -
  let ?ws = "(p_workers p)[i := At_pop]"
  have sub: "set ?ws \<subseteq> insert At_pop (set (p_workers p))" by (rule set_update_subset_insert)
  have aw: "\<exists>w \<in> set ?ws. awake w" using i(1) by (intro bexI [of _ At_pop]) (auto simp: awake_def set_update_memI)
  have "in_hands ?ws + {#x#} = in_hands (p_workers p)" using in_hands_upd [OF i(1), of At_pop] i(2) by simp
  then have "mset (taken h) = mset (handled_items h) + {#x#} + in_hands ?ws" using inv by (simp add: pool_inv_def add.commute add.left_commute)
  then show ?thesis using inv sub aw
    by (auto simp: pool_inv_def set_worker_def scheduled_append taken_append handled_append)
qed

lemma in_hands_map:
  "in_hands (map (\<lambda>w. case w of Waiting \<Rightarrow> Notified | _ \<Rightarrow> w) ws) = in_hands ws"
  by (induction ws) (auto simp: in_hands_def split: wstate.splits)

lemma stop_inv: "pool_inv h p \<Longrightarrow> pool_inv (h @ [Stop]) (pool_stop p)"
proof -
  assume inv: "pool_inv h p"
  let ?f = "\<lambda>w. case w of Waiting \<Rightarrow> Notified | _ \<Rightarrow> w"
  have "\<exists>w \<in> set (map ?f (p_workers p)). awake w" if "\<exists>w \<in> set (p_workers p). awake w"
    using that by (force simp: awake_def split: wstate.splits)
  moreover have "Waiting \<notin> set (map ?f (p_workers p))" by (auto split: wstate.splits)
  moreover have "Finished \<in> set (map ?f (p_workers p)) \<longleftrightarrow> Finished \<in> set (p_workers p)" by (force split: wstate.splits)
  ultimately show ?thesis using inv
    by (auto simp: pool_inv_def pool_stop_def no_more_input_def in_hands_map scheduled_append taken_append handled_append)
qed

lemma in_hands_append: "in_hands (xs @ ys) = in_hands xs + in_hands ys"
  by (simp add: in_hands_def)

lemma in_hands_replicate: "in_hand w = {#} \<Longrightarrow> in_hands (replicate n w) = {#}"
  by (induction n) (simp_all add: in_hands_def)

interpretation pools: history_invariant "pool_step :: 'a pool \<Rightarrow> 'a pool_event \<Rightarrow> 'a pool \<Rightarrow> bool" pool_inv
proof unfold_locales
  fix h and p p' :: "'a pool" and ev assume inv: "pool_inv h p" and "pool_step p ev p'"
  from this(2) show "pool_inv (h @ [ev]) p'"
  proof (cases rule: pool_step.cases)
    case (start n)
    have "\<exists>w \<in> set (p_workers p @ replicate n At_pop). awake w" if "p_workers p @ replicate n At_pop \<noteq> []" "sq_q (p_queue p) \<noteq> []"
    proof (cases "p_workers p = []")
      case True
      then show ?thesis using that(1) by (cases n) (auto simp: awake_def)
    qed (use that(2) inv in \<open>auto simp: pool_inv_def\<close>)
    then show ?thesis using inv start
      by (auto simp: pool_inv_def pool_start_def in_hands_append in_hands_replicate scheduled_append taken_append handled_append)
  next
    case (schedule_wake i x)
    then show ?thesis using schedule_inv [OF inv, of "Some i"] by simp
  next
    case (schedule x)
    then show ?thesis using schedule_inv [OF inv, of None] by simp
  next
    case (pop i r)
    then show ?thesis using pop_inv [OF inv] by simp
  next
    case (handled i x)
    then show ?thesis using handled_inv [OF inv] by simp
  next
    case stop
    then show ?thesis using stop_inv [OF inv] by simp
  next
    case join
    have "in_hands ws = {#}" if "set ws \<subseteq> {Finished}" for ws :: "'a wstate list"
      using that by (induction ws) (auto simp: in_hands_def)
    then show ?thesis using inv join by (auto simp: pool_inv_def pool_join_def scheduled_append taken_append handled_append in_hands_def)
  next
    case (spurious i)
    have sub: "set ((p_workers p)[i := Notified]) \<subseteq> insert Notified (set (p_workers p))" by (rule set_update_subset_insert)
    have aw: "\<exists>w \<in> set ((p_workers p)[i := Notified]). awake w"
      using spurious by (intro bexI [of _ Notified]) (auto simp: awake_def set_update_memI)
    have "in_hands ((p_workers p)[i := Notified]) = in_hands (p_workers p)" using spurious by (simp add: in_hands_same)
    then show ?thesis using inv spurious sub aw
      by (auto simp: pool_inv_def set_worker_def scheduled_append taken_append handled_append)
  qed
qed

lemma pool_inv_ctor: "pool_inv [] worker_pool_ctor"
  by (simp add: pool_inv_def worker_pool_ctor_def sync_queue_ctor_def in_hands_def)

section \<open>Stopping\<close>

fun worker_event :: "'a pool_event \<Rightarrow> bool" where
  "worker_event (Pop i r) = True"
| "worker_event (Handled i x) = True"
| "worker_event _ = False"

fun rank :: "'a wstate \<Rightarrow> nat" where
  "rank (Handling x) = 2"
| "rank Finished = 0"
| "rank _ = 1"

text \<open>How many steps the workers can still make once the queue is closed.\<close>

definition pool_measure :: "'a pool \<Rightarrow> nat" where
  "pool_measure p = 2 * length (sq_q (p_queue p)) + sum_list (map rank (p_workers p))"

lemma rank_upd: "i < length ws \<Longrightarrow> sum_list (map rank (ws[i := w])) + rank (ws ! i) = sum_list (map rank ws) + rank w"
proof (induction ws arbitrary: i)
  case (Cons v ws)
  show ?case
  proof (cases i)
    case (Suc j)
    then show ?thesis using Cons.IH [of j] Cons.prems by simp
  qed simp
qed simp

lemma worker_step_decreases:
  assumes "pool_step p ev p'" and "worker_event ev" and "sq_no_more_data (p_queue p)"
  shows "pool_measure p' < pool_measure p \<and> sq_no_more_data (p_queue p')"
  using assms(1)
proof (cases rule: pool_step.cases)
  case (pop i r)
  show ?thesis
  proof (cases "sq_q (p_queue p)")
    case Nil
    then have "p' = p\<lparr>p_workers := (p_workers p)[i := Finished]\<rparr>"
      using pop assms(3) by (auto simp: worker_pop_def sq_pop_def set_worker_def)
    then show ?thesis using rank_upd [OF pop(2), of Finished] pop(3) assms(3) by (auto simp: pool_measure_def)
  next
    case (Cons x xs)
    then have "p' = p\<lparr>p_queue := (p_queue p)\<lparr>sq_q := xs\<rparr>, p_workers := (p_workers p)[i := Handling x]\<rparr>"
      using pop by (auto simp: worker_pop_def sq_pop_def set_worker_def)
    then show ?thesis using rank_upd [OF pop(2), of "Handling x"] pop(3) Cons assms(3) by (auto simp: pool_measure_def)
  qed
next
  case (handled i x)
  then show ?thesis using rank_upd [OF handled(3), of At_pop] assms(3) by (auto simp: pool_measure_def set_worker_def)
qed (use assms(2) in auto)

lemma worker_run_bounded:
  assumes "run pool_step p evs p'" and "list_all worker_event evs" and "sq_no_more_data (p_queue p)"
  shows "length evs + pool_measure p' \<le> pool_measure p"
  using assms
proof (induction rule: run.induct)
  case (run_Cons p ev p' evs p'')
  have "pool_measure p' < pool_measure p \<and> sq_no_more_data (p_queue p')"
    using worker_step_decreases [OF run_Cons.hyps(1)] run_Cons.prems by simp
  then show ?case using run_Cons.IH run_Cons.prems by simp
qed simp

lemma worker_can_step:
  assumes "w \<in> set (p_workers p)" and "awake w"
  shows "\<exists>ev p'. worker_event ev \<and> pool_step p ev p'"
proof -
  obtain i where i: "i < length (p_workers p)" "p_workers p ! i = w" using assms(1) by (auto simp: in_set_conv_nth)
  consider "w = At_pop \<or> w = Notified" | x where "w = Handling x" using assms(2) by (cases w) (auto simp: awake_def)
  then show ?thesis
  proof cases
    case 1
    obtain r p' where "worker_pop i p = (r, p')" by fastforce
    then have "pool_step p (Pop i r) p'" using i 1 by (auto intro: pool_step.pop)
    then show ?thesis by (intro exI [of _ "Pop i r"] exI) auto
  next
    case (2 x)
    then have "pool_step p (Handled i x) (set_worker i At_pop p)" using i by (auto intro: pool_step.handled)
    then show ?thesis by (intro exI [of _ "Handled i x"] exI) auto
  qed
qed

lemma drains:
  "pool_inv h p \<Longrightarrow> sq_no_more_data (p_queue p) \<Longrightarrow>
     \<exists>evs p'. run pool_step p evs p' \<and> list_all worker_event evs \<and> set (p_workers p') \<subseteq> {Finished} \<and> pool_inv (h @ evs) p'"
proof (induction "pool_measure p" arbitrary: h p rule: less_induct)
  case less
  show ?case
  proof (cases "\<exists>w \<in> set (p_workers p). awake w")
    case True
    then obtain ev p1 where s: "worker_event ev" "pool_step p ev p1" using worker_can_step by blast
    note d = worker_step_decreases [OF s(2,1) less.prems(2)]
    have "pool_inv (h @ [ev]) p1" using pools.hinv_step [OF less.prems(1) s(2)] .
    then obtain evs p' where "run pool_step p1 evs p'" "list_all worker_event evs" "set (p_workers p') \<subseteq> {Finished}" "pool_inv (h @ ev # evs) p'"
      using less.hyps [of p1 "h @ [ev]"] d by auto
    then show ?thesis using s by (intro exI [of _ "ev # evs"] exI [of _ p']) (auto intro: run.run_Cons)
  next
    case False
    then have "set (p_workers p) \<subseteq> {Finished}" using less.prems by (auto simp: pool_inv_def awake_def)
    then show ?thesis using less.prems(1) by (intro exI [of _ "[]"] exI [of _ p]) simp
  qed
qed

lemma pool_inv_done:
  assumes "pool_inv h p" and "set (p_workers p) \<subseteq> {Finished}" and "p_workers p \<noteq> []"
  shows "sq_q (p_queue p) = [] \<and> mset (handled_items h) = mset (scheduled h)"
proof -
  have "in_hands ws = {#}" if "set ws \<subseteq> {Finished}" for ws :: "'a wstate list"
    using that by (induction ws) (auto simp: in_hands_def)
  moreover have "Finished \<in> set (p_workers p)" using assms(2,3) by (cases "p_workers p") auto
  ultimately show ?thesis using assms by (auto simp: pool_inv_def)
qed

lemma worker_event_length:
  assumes "pool_step p ev p'" and "worker_event ev"
  shows "length (p_workers p') = length (p_workers p)"
  using assms by (cases rule: pool_step.cases) (auto simp: worker_pop_def sq_pop_def set_worker_def split: if_splits)

lemma worker_run_length: "run pool_step p evs p' \<Longrightarrow> list_all worker_event evs \<Longrightarrow> length (p_workers p') = length (p_workers p)"
  by (induction rule: run.induct) (auto simp: worker_event_length)

section \<open>Properties\<close>

text \<open>
  C16. Work is taken in the order in which it was scheduled, and every item exactly once: in every
  interleaving the items taken so far followed by the queue are the items scheduled, and what was
  taken has been handled or is being handled.
\<close>

theorem worker_pool_fifo_exactly_once:
  assumes "run pool_step worker_pool_ctor evs p"
  shows "scheduled evs = taken evs @ sq_q (p_queue p) \<and> mset (taken evs) = mset (handled_items evs) + in_hands (p_workers p)"
  using pools.hinv_run_start [OF assms pool_inv_ctor] by (simp add: pool_inv_def)

theorem worker_pool_fifo_exactly_once_witness:
  "\<exists>p :: nat pool. run pool_step worker_pool_ctor [Start 1, Schedule 5, Schedule 6, Pop 0 (Pop_item 5)] p \<and>
     scheduled [Start 1, Schedule 5, Schedule 6, Pop 0 (Pop_item (5 :: nat))] = [5] @ sq_q (p_queue p)"
proof -
  let ?p0 = "worker_pool_ctor :: nat pool"
  let ?p1 = "pool_start 1 ?p0"
  let ?p2 = "?p1\<lparr>p_queue := \<lparr>sq_q = [5], sq_no_more_data = False\<rparr>\<rparr>"
  let ?p3 = "?p1\<lparr>p_queue := \<lparr>sq_q = [5, 6], sq_no_more_data = False\<rparr>\<rparr>"
  let ?p4 = "\<lparr>p_queue = \<lparr>sq_q = [6], sq_no_more_data = False\<rparr>, p_workers = [Handling 5]\<rparr>"
  note d = worker_pool_ctor_def sync_queue_ctor_def pool_start_def schedule_work_def sq_push_def notify_def
  have "pool_step ?p0 (Start 1) ?p1" by (rule pool_step.start)
  moreover have "pool_step ?p1 (Schedule 5) ?p2" by (rule pool_step.schedule) (simp_all add: d)
  moreover have "pool_step ?p2 (Schedule 6) ?p3" by (rule pool_step.schedule) (simp_all add: d)
  moreover have "pool_step ?p3 (Pop 0 (Pop_item 5)) ?p4"
    by (rule pool_step.pop) (simp_all add: d worker_pop_def sq_pop_def set_worker_def)
  ultimately have r: "run pool_step ?p0 [Start 1, Schedule 5, Schedule 6, Pop 0 (Pop_item 5)] ?p4"
    by (blast intro: run.intros)
  show ?thesis using worker_pool_fifo_exactly_once [OF r] r by (intro exI [of _ ?p4]) simp
qed

text \<open>
  No work is stranded: while the queue is not empty and the pool has workers, some worker is awake
  (in front of \<open>pop\<close>, notified or handling), so the queued work will be seen; and a sleeping
  worker implies that the queue is open. In particular a single \<open>notify_one\<close> per item is enough.
\<close>

theorem worker_pool_no_lost_wakeup:
  assumes "run pool_step worker_pool_ctor evs p" and "sq_q (p_queue p) \<noteq> []" and "p_workers p \<noteq> []"
  shows "\<exists>ev p'. worker_event ev \<and> pool_step p ev p'"
  using pools.hinv_run_start [OF assms(1) pool_inv_ctor] assms(2,3) worker_can_step [of _ p] by (auto simp: pool_inv_def)

theorem worker_pool_no_lost_wakeup_witness:
  "\<exists>p :: nat pool. run pool_step worker_pool_ctor [Start 1, Schedule 5] p \<and> (\<exists>ev p'. worker_event ev \<and> pool_step p ev p')"
proof -
  let ?p1 = "pool_start 1 (worker_pool_ctor :: nat pool)"
  let ?p2 = "?p1\<lparr>p_queue := \<lparr>sq_q = [5], sq_no_more_data = False\<rparr>\<rparr>"
  note d = worker_pool_ctor_def sync_queue_ctor_def pool_start_def schedule_work_def sq_push_def notify_def
  have "pool_step worker_pool_ctor (Start 1) ?p1" by (rule pool_step.start)
  moreover have "pool_step ?p1 (Schedule 5) ?p2" by (rule pool_step.schedule) (simp_all add: d)
  ultimately have r: "run pool_step worker_pool_ctor [Start 1, Schedule 5] ?p2" by (blast intro: run.intros)
  show ?thesis using worker_pool_no_lost_wakeup [OF r] r by (intro exI [of _ ?p2]) (simp add: d)
qed

text \<open>
  C15. \<open>stop\<close> terminates and loses nothing: once the queue is closed, every run of the workers is shorter
  than \<open>pool_measure\<close>; the workers can always go on to a state in which all have finished, and in
  such a state every scheduled item has been handled and the destructor's assertions hold
  after the join. For a pool that has workers.
\<close>

theorem worker_pool_stop_drains:
  assumes "run pool_step worker_pool_ctor evs p" and "sq_no_more_data (p_queue p)" and "p_workers p \<noteq> []"
  shows "(\<forall>evs' p'. run pool_step p evs' p' \<longrightarrow> list_all worker_event evs' \<longrightarrow> length evs' \<le> pool_measure p) \<and>
    (\<exists>evs' p'. run pool_step p evs' p' \<and> list_all worker_event evs' \<and> set (p_workers p') \<subseteq> {Finished} \<and>
       mset (handled_items (evs @ evs')) = mset (scheduled evs) \<and> worker_pool_dtor (pool_join p') = Inr ())"
proof -
  have inv: "pool_inv evs p" using pools.hinv_run_start [OF assms(1) pool_inv_ctor] .
  obtain evs' p' where d: "run pool_step p evs' p'" "list_all worker_event evs'" "set (p_workers p') \<subseteq> {Finished}" "pool_inv (evs @ evs') p'"
    using drains [OF inv assms(2)] by blast
  have "p_workers p' \<noteq> []" using worker_run_length [OF d(1,2)] assms(3) by auto
  note e = pool_inv_done [OF d(4,3) this]
  have "scheduled evs' = []" using d(2) by (induction evs' rule: scheduled.induct) auto
  moreover have "sq_no_more_data (p_queue p')" using d(3,4) \<open>p_workers p' \<noteq> []\<close> by (cases "p_workers p'") (auto simp: pool_inv_def)
  ultimately have "mset (handled_items (evs @ evs')) = mset (scheduled evs) \<and> worker_pool_dtor (pool_join p') = Inr ()"
    using e by (simp add: scheduled_append worker_pool_dtor_def pool_join_def sync_queue_dtor_def)
  moreover have "\<forall>evs' p'. run pool_step p evs' p' \<longrightarrow> list_all worker_event evs' \<longrightarrow> length evs' \<le> pool_measure p"
    using worker_run_bounded [OF _ _ assms(2)] by fastforce
  ultimately show ?thesis using d by blast
qed

theorem worker_pool_stop_drains_witness:
  "\<exists>p :: nat pool. run pool_step worker_pool_ctor [Start 1, Schedule 5, Stop] p \<and>
     (\<exists>evs' p'. run pool_step p evs' p' \<and> mset (handled_items ([Start 1, Schedule 5, Stop] @ evs')) = {#5#})"
proof -
  let ?p1 = "pool_start 1 (worker_pool_ctor :: nat pool)"
  let ?p2 = "?p1\<lparr>p_queue := \<lparr>sq_q = [5], sq_no_more_data = False\<rparr>\<rparr>"
  let ?p3 = "pool_stop ?p2"
  note d = worker_pool_ctor_def sync_queue_ctor_def pool_start_def schedule_work_def sq_push_def notify_def pool_stop_def no_more_input_def
  have "pool_step worker_pool_ctor (Start 1) ?p1" by (rule pool_step.start)
  moreover have "pool_step ?p1 (Schedule 5) ?p2" by (rule pool_step.schedule) (simp_all add: d)
  moreover have "pool_step ?p2 Stop ?p3" by (rule pool_step.stop)
  ultimately have r: "run pool_step worker_pool_ctor [Start 1, Schedule 5, Stop] ?p3" by (blast intro: run.intros)
  have q: "sq_no_more_data (p_queue ?p3)" "p_workers ?p3 \<noteq> []" by (simp_all add: d)
  show ?thesis using worker_pool_stop_drains [OF r q, THEN conjunct2] r by auto
qed

end
