(* ===== verification/Aio.thy ===== *)
theory Aio
  imports Worker_Pool
begin

text \<open>
  \<open>src/util/aio.cpp\<close> and \<open>src/include/util/aio.h\<close>: requests that a pool of threads turns into
  system calls and whose callbacks get the results, and \<open>async_file\<close>, which opens and closes
  itself through such requests. Callback objects and files are numbers. The calls of users'
  callbacks are collected in \<open>a_log\<close>; the system calls are the fields of an \<open>aio_kernel\<close> and
  return their result with \<open>errno\<close>. Memory is a map from addresses to bytes.

  A step carries the event of the worker pool it makes, so that a run of the context is a run
  of its pool.
\<close>

section \<open>Requests\<close>

type_synonym iovec = "nat \<times> nat"

datatype aio_request =
    Open_req (file_cb: nat) string int int
  | Pread_req nat int nat int nat
  | Preadv_req nat int "iovec list" int
  | Pwrite_req nat int nat int nat
  | Pwritev_req nat int "iovec list" int
  | Close_req (file_cb: nat) int

datatype user_callback =
    Open_done nat int
  | Pread_done nat int int
  | Preadv_done nat int int
  | Pwrite_done nat int int
  | Pwritev_done nat int int
  | Close_done nat int int

text \<open>
  The constructors of the requests. Those with vectors swap them into the request and leave the caller's vector, the second
  result, empty.
\<close>

definition aio_open_req :: "nat \<Rightarrow> string \<Rightarrow> int \<Rightarrow> int \<Rightarrow> aio_request" where
  [simp]: "aio_open_req cb path flags mode = Open_req cb path flags mode"

definition aio_pread_req :: "nat \<Rightarrow> int \<Rightarrow> nat \<Rightarrow> int \<Rightarrow> nat \<Rightarrow> aio_request" where
  [simp]: "aio_pread_req cb fd buf off sz = Pread_req cb fd buf off sz"

definition aio_preadv_req :: "nat \<Rightarrow> int \<Rightarrow> iovec list \<Rightarrow> int \<Rightarrow> aio_request \<times> iovec list" where
  [simp]: "aio_preadv_req cb fd iovecs off = (Preadv_req cb fd iovecs off, [])"

definition aio_pwrite_req :: "nat \<Rightarrow> int \<Rightarrow> nat \<Rightarrow> int \<Rightarrow> nat \<Rightarrow> aio_request" where
  [simp]: "aio_pwrite_req cb fd buf off sz = Pwrite_req cb fd buf off sz"

definition aio_pwritev_req :: "nat \<Rightarrow> int \<Rightarrow> iovec list \<Rightarrow> int \<Rightarrow> aio_request \<times> iovec list" where
  [simp]: "aio_pwritev_req cb fd iovecs off = (Pwritev_req cb fd iovecs off, [])"

definition aio_close_req :: "nat \<Rightarrow> int \<Rightarrow> aio_request" where
  [simp]: "aio_close_req cb fd = Close_req cb fd"

record 'k aio_kernel =
  ak_open :: "string \<Rightarrow> int \<Rightarrow> int \<Rightarrow> 'k \<Rightarrow> int \<times> int \<times> 'k"
  ak_pread :: "int \<Rightarrow> nat \<Rightarrow> int \<Rightarrow> 'k \<Rightarrow> int \<times> u8 list \<times> int \<times> 'k"
  ak_preadv :: "int \<Rightarrow> nat list \<Rightarrow> int \<Rightarrow> 'k \<Rightarrow> int \<times> u8 list \<times> int \<times> 'k"
  ak_pwrite :: "int \<Rightarrow> u8 list \<Rightarrow> int \<Rightarrow> 'k \<Rightarrow> int \<times> int \<times> 'k"
  ak_pwritev :: "int \<Rightarrow> u8 list list \<Rightarrow> int \<Rightarrow> 'k \<Rightarrow> int \<times> int \<times> 'k"
  ak_close :: "int \<Rightarrow> 'k \<Rightarrow> int \<times> int \<times> 'k"

section \<open>Files and the context\<close>

record async_file =
  af_path :: string
  af_open_cb :: "nat option"
  af_close_cb :: "nat option"
  af_fd :: int

definition AF_NOT_OPEN :: int where "AF_NOT_OPEN = -1"

definition async_file_ctor :: "string \<Rightarrow> async_file" where
  "async_file_ctor path = \<lparr>af_path = path, af_open_cb = None, af_close_cb = None, af_fd = AF_NOT_OPEN\<rparr>"

definition af_is_open :: "async_file \<Rightarrow> bool" where
  "af_is_open f \<longleftrightarrow> af_fd f \<noteq> AF_NOT_OPEN"

record 'k aio_context =
  a_pool :: "aio_request pool"
  a_files :: "nat \<Rightarrow> async_file"
  a_mem :: "nat \<Rightarrow> u8"
  a_kernel :: 'k
  a_log :: "(aio_request \<times> user_callback) list"

definition aio_context_ctor :: "nat \<Rightarrow> (nat \<Rightarrow> string) \<Rightarrow> (nat \<Rightarrow> u8) \<Rightarrow> 'k \<Rightarrow> 'k aio_context" where
  "aio_context_ctor num_workers paths m k =
     \<lparr>a_pool = pool_start num_workers worker_pool_ctor, a_files = (\<lambda>f. async_file_ctor (paths f)), a_mem = m,
      a_kernel = k, a_log = []\<rparr>"

definition aio_context_dtor :: "'k aio_context \<Rightarrow> 'k aio_context" where
  "aio_context_dtor s = s\<lparr>a_pool := pool_stop (a_pool s)\<rparr>"

text \<open>\<open>w\<close> is the sleeping worker that the notification reaches.\<close>

definition submit_request :: "aio_request \<Rightarrow> nat option \<Rightarrow> 'k aio_context \<Rightarrow> 'k aio_context res" where
  "submit_request req w s = bind_res (schedule_work req w (a_pool s)) (\<lambda>p. Inr (s\<lparr>a_pool := p\<rparr>))"

definition set_file :: "nat \<Rightarrow> async_file \<Rightarrow> 'k aio_context \<Rightarrow> 'k aio_context" where
  "set_file f v s = s\<lparr>a_files := (a_files s)(f := v)\<rparr>"

definition submit_open :: "nat \<Rightarrow> nat \<Rightarrow> int \<Rightarrow> int \<Rightarrow> nat option \<Rightarrow> 'k aio_context \<Rightarrow> (aio_request \<times> 'k aio_context) res" where
  "submit_open f cb flags mode w s =
     (let v = a_files s f in
      d_assert (\<not> af_is_open v) (d_assert (af_open_cb v = None) (d_assert (af_close_cb v = None)
        (let req = aio_open_req f (af_path v) flags mode in
         bind_res (submit_request req w (set_file f (v\<lparr>af_open_cb := Some cb\<rparr>) s)) (\<lambda>s. Inr (req, s))))))"

definition submit_pread :: "nat \<Rightarrow> nat \<Rightarrow> nat \<Rightarrow> int \<Rightarrow> nat \<Rightarrow> nat option \<Rightarrow> 'k aio_context \<Rightarrow> (aio_request \<times> 'k aio_context) res" where
  "submit_pread f cb buf off sz w s =
     d_assert (af_is_open (a_files s f))
       (let req = aio_pread_req cb (af_fd (a_files s f)) buf off sz in
        bind_res (submit_request req w s) (\<lambda>s. Inr (req, s)))"

definition submit_preadv :: "nat \<Rightarrow> nat \<Rightarrow> iovec list \<Rightarrow> int \<Rightarrow> nat option \<Rightarrow> 'k aio_context \<Rightarrow> (aio_request \<times> 'k aio_context) res" where
  "submit_preadv f cb iovecs off w s =
     d_assert (af_is_open (a_files s f))
       (let req = fst (aio_preadv_req cb (af_fd (a_files s f)) iovecs off) in
        bind_res (submit_request req w s) (\<lambda>s. Inr (req, s)))"

definition submit_pwrite :: "nat \<Rightarrow> nat \<Rightarrow> nat \<Rightarrow> int \<Rightarrow> nat \<Rightarrow> nat option \<Rightarrow> 'k aio_context \<Rightarrow> (aio_request \<times> 'k aio_context) res" where
  "submit_pwrite f cb buf off sz w s =
     d_assert (af_is_open (a_files s f))
       (let req = aio_pwrite_req cb (af_fd (a_files s f)) buf off sz in
        bind_res (submit_request req w s) (\<lambda>s. Inr (req, s)))"

definition submit_pwritev :: "nat \<Rightarrow> nat \<Rightarrow> iovec list \<Rightarrow> int \<Rightarrow> nat option \<Rightarrow> 'k aio_context \<Rightarrow> (aio_request \<times> 'k aio_context) res" where
  "submit_pwritev f cb iovecs off w s =
     d_assert (af_is_open (a_files s f))
       (let req = fst (aio_pwritev_req cb (af_fd (a_files s f)) iovecs off) in
        bind_res (submit_request req w s) (\<lambda>s. Inr (req, s)))"

definition submit_close :: "nat \<Rightarrow> nat \<Rightarrow> nat option \<Rightarrow> 'k aio_context \<Rightarrow> (aio_request \<times> 'k aio_context) res" where
  "submit_close f cb w s =
     (let v = a_files s f in
      d_assert (af_is_open v) (d_assert (af_close_cb v = None) (d_assert (af_open_cb v = None)
        (let req = aio_close_req f (af_fd v) in
         bind_res (submit_request req w (set_file f (v\<lparr>af_close_cb := Some cb\<rparr>) s)) (\<lambda>s. Inr (req, s))))))"

definition open_completed :: "aio_request \<Rightarrow> nat \<Rightarrow> int \<Rightarrow> int \<Rightarrow> 'k aio_context \<Rightarrow> 'k aio_context res" where
  "open_completed req f fd err s =
     (let v = a_files s f in
      d_assert (af_fd v = AF_NOT_OPEN) (case af_open_cb v of
        None \<Rightarrow> Inl D_assert
      | Some cb \<Rightarrow>
          let v = (if fd \<ge> 0 then v\<lparr>af_fd := fd\<rparr> else v);
              s = set_file f (v\<lparr>af_open_cb := None\<rparr>) s
          in Inr (s\<lparr>a_log := a_log s @ [(req, Open_done cb 0)]\<rparr>)))"

definition close_completed :: "aio_request \<Rightarrow> nat \<Rightarrow> int \<Rightarrow> int \<Rightarrow> 'k aio_context \<Rightarrow> 'k aio_context res" where
  "close_completed req f r err s =
     (let v = a_files s f in
      d_assert (af_fd v \<noteq> AF_NOT_OPEN) (case af_close_cb v of
        None \<Rightarrow> Inl D_assert
      | Some cb \<Rightarrow>
          let v = (if r = 0 then v\<lparr>af_fd := AF_NOT_OPEN\<rparr> else v);
              s = set_file f (v\<lparr>af_close_cb := None\<rparr>) s
          in Inr (s\<lparr>a_log := a_log s @ [(req, Close_done cb r err)]\<rparr>)))"

section \<open>The workers\<close>

definition aio_mem_read :: "nat \<Rightarrow> nat \<Rightarrow> (nat \<Rightarrow> u8) \<Rightarrow> u8 list" where
  "aio_mem_read a n m = map m [a..<a + n]"

definition mem_store :: "nat \<Rightarrow> u8 list \<Rightarrow> (nat \<Rightarrow> u8) \<Rightarrow> nat \<Rightarrow> u8" where
  "mem_store a bs m = (\<lambda>x. if a \<le> x \<and> x < a + length bs then bs ! (x - a) else m x)"

fun iov_store :: "iovec list \<Rightarrow> u8 list \<Rightarrow> (nat \<Rightarrow> u8) \<Rightarrow> nat \<Rightarrow> u8" where
  "iov_store [] bs m = m"
| "iov_store ((a, n) # vs) bs m = iov_store vs (drop n bs) (mem_store a (take n bs) m)"

definition log_cb :: "aio_request \<Rightarrow> user_callback \<Rightarrow> 'k aio_context \<Rightarrow> 'k aio_context" where
  "log_cb req ev s = s\<lparr>a_log := a_log s @ [(req, ev)]\<rparr>"

text \<open>\<open>handle_in_worker\<close> and the \<open>handle_exact\<close> it dispatches to.\<close>

fun handle_exact :: "'k aio_kernel \<Rightarrow> aio_request \<Rightarrow> 'k aio_context \<Rightarrow> 'k aio_context res" where
  "handle_exact K (Open_req f path flags mode) s =
     (case ak_open K path flags mode (a_kernel s) of (fd, err, k) \<Rightarrow>
        open_completed (Open_req f path flags mode) f fd err (s\<lparr>a_kernel := k\<rparr>))"
| "handle_exact K (Pread_req cb fd buf off sz) s =
     (case ak_pread K fd sz off (a_kernel s) of (r, bs, err, k) \<Rightarrow>
        Inr (log_cb (Pread_req cb fd buf off sz) (Pread_done cb r err) (s\<lparr>a_kernel := k, a_mem := mem_store buf bs (a_mem s)\<rparr>)))"
| "handle_exact K (Preadv_req cb fd iovecs off) s =
     (case ak_preadv K fd (map snd iovecs) off (a_kernel s) of (r, bs, err, k) \<Rightarrow>
        Inr (log_cb (Preadv_req cb fd iovecs off) (Preadv_done cb r err) (s\<lparr>a_kernel := k, a_mem := iov_store iovecs bs (a_mem s)\<rparr>)))"
| "handle_exact K (Pwrite_req cb fd buf off sz) s =
     (case ak_pwrite K fd (aio_mem_read buf sz (a_mem s)) off (a_kernel s) of (r, err, k) \<Rightarrow>
        Inr (log_cb (Pwrite_req cb fd buf off sz) (Pwrite_done cb r err) (s\<lparr>a_kernel := k\<rparr>)))"
| "handle_exact K (Pwritev_req cb fd iovecs off) s =
     (case ak_pwritev K fd (map (\<lambda>(a, n). aio_mem_read a n (a_mem s)) iovecs) off (a_kernel s) of (r, err, k) \<Rightarrow>
        Inr (log_cb (Pwritev_req cb fd iovecs off) (Pwritev_done cb r err) (s\<lparr>a_kernel := k\<rparr>)))"
| "handle_exact K (Close_req f fd) s =
     (case ak_close K fd (a_kernel s) of (r, err, k) \<Rightarrow>
        close_completed (Close_req f fd) f r err (s\<lparr>a_kernel := k\<rparr>))"

definition aio_handle :: "'k aio_kernel \<Rightarrow> aio_request \<Rightarrow> 'k aio_context \<Rightarrow> 'k aio_context res" where
  "aio_handle K req s = handle_exact K req s"

section \<open>Runs\<close>

definition wakes :: "nat option \<Rightarrow> 'a pool \<Rightarrow> bool" where
  "wakes w p = (case w of None \<Rightarrow> Waiting \<notin> set (p_workers p) | Some i \<Rightarrow> i < length (p_workers p) \<and> p_workers p ! i = Waiting)"

inductive submits :: "'k aio_context \<Rightarrow> nat option \<Rightarrow> aio_request \<Rightarrow> 'k aio_context \<Rightarrow> bool" where
  "submit_open f cb flags mode w s = Inr (req, s') \<Longrightarrow> submits s w req s'"
| "submit_pread f cb buf off sz w s = Inr (req, s') \<Longrightarrow> submits s w req s'"
| "submit_preadv f cb iovecs off w s = Inr (req, s') \<Longrightarrow> submits s w req s'"
| "submit_pwrite f cb buf off sz w s = Inr (req, s') \<Longrightarrow> submits s w req s'"
| "submit_pwritev f cb iovecs off w s = Inr (req, s') \<Longrightarrow> submits s w req s'"
| "submit_close f cb w s = Inr (req, s') \<Longrightarrow> submits s w req s'"

inductive aio_step :: "'k aio_kernel \<Rightarrow> 'k aio_context \<Rightarrow> aio_request pool_event \<Rightarrow> 'k aio_context \<Rightarrow> bool" for K where
  submit: "wakes w (a_pool s) \<Longrightarrow> submits s w req s' \<Longrightarrow> aio_step K s (Schedule req) s'"
| internal: "pool_step (a_pool s) ev p \<Longrightarrow> (\<forall>i req. ev \<noteq> Handled i req) \<Longrightarrow> (\<forall>req. ev \<noteq> Schedule req) \<Longrightarrow>
    aio_step K s ev (s\<lparr>a_pool := p\<rparr>)"
| handle: "pool_step (a_pool s) (Handled i req) p \<Longrightarrow> aio_handle K req s = Inr s' \<Longrightarrow> aio_step K s (Handled i req) (s'\<lparr>a_pool := p\<rparr>)"

lemma submits_request:
  assumes "submits s w req s'"
  shows "\<exists>s1. submit_request req w s1 = Inr s' \<and> a_pool s1 = a_pool s \<and> a_log s1 = a_log s"
  using assms
  by (cases rule: submits.cases)
     (auto simp: submit_open_def submit_pread_def submit_preadv_def submit_pwrite_def submit_pwritev_def submit_close_def
       Let_def res_simps set_file_def)

lemma submits_pool:
  assumes "submits s w req s'" and "wakes w (a_pool s)"
  shows "pool_step (a_pool s) (Schedule req) (a_pool s') \<and> a_log s' = a_log s"
proof -
  obtain p where p: "schedule_work req w (a_pool s) = Inr p" "a_pool s' = p" "a_log s' = a_log s"
    using submits_request [OF assms(1)] by (auto simp: submit_request_def res_simps)
  then show ?thesis using assms(2) by (cases w) (auto simp: wakes_def intro: pool_step.schedule pool_step.schedule_wake)
qed

lemma aio_handle_pool: "aio_handle K req s = Inr s' \<Longrightarrow> a_pool s' = a_pool s \<and> map fst (a_log s') = map fst (a_log s) @ [req]"
  by (cases req) (auto simp: aio_handle_def log_cb_def open_completed_def close_completed_def Let_def set_file_def res_simps
      split: prod.splits option.splits)

interpretation aio_pool: simulation "aio_step K" "\<lambda>_. True" pool_step a_pool for K :: "'k aio_kernel"
proof unfold_locales
  fix s s' :: "'k aio_context" and ev assume "aio_step K s ev s'"
  then show "pool_step (a_pool s) ev (a_pool s')"
    by (cases rule: aio_step.cases) (auto dest: submits_pool)
qed auto

section \<open>The invariant of the files\<close>

definition pending :: "'a pool \<Rightarrow> 'a multiset" where
  "pending p = mset (sq_q (p_queue p)) + in_hands (p_workers p)"

lemma pool_inv_pending: "pool_inv h p \<Longrightarrow> mset (scheduled h) = mset (handled_items h) + pending p"
  by (simp add: pool_inv_def pending_def ac_simps)

lemma pending_step:
  assumes "pool_inv h p" and "pool_inv (h @ [ev]) p'"
  shows "pending p' + mset (handled_items [ev]) = pending p + mset (scheduled [ev])"
proof -
  have "mset (handled_items h) + pending p + mset (scheduled [ev]) = mset (handled_items h) + mset (handled_items [ev]) + pending p'"
    using pool_inv_pending [OF assms(1)] pool_inv_pending [OF assms(2)] by (simp only: scheduled_append handled_append mset_append)
  then show ?thesis by (simp add: ac_simps)
qed

fun opens :: "nat \<Rightarrow> aio_request \<Rightarrow> bool" where
  "opens f (Open_req g _ _ _) = (g = f)"
| "opens f _ = False"

fun closes :: "nat \<Rightarrow> aio_request \<Rightarrow> bool" where
  "closes f (Close_req g _) = (g = f)"
| "closes f _ = False"

definition one_if :: "bool \<Rightarrow> nat" where
  "one_if b = (if b then 1 else 0)"

lemma one_if_simps [simp]: "one_if True = 1" "one_if False = 0"
  by (simp_all add: one_if_def)

text \<open>
  A file with an open callback has one open request under way and is not open; one with a close
  callback has one close request under way, for its own descriptor.
\<close>

definition file_inv :: "aio_request multiset \<Rightarrow> nat \<Rightarrow> async_file \<Rightarrow> bool" where
  "file_inv M f v \<longleftrightarrow>
     size (filter_mset (opens f) M) = one_if (af_open_cb v \<noteq> None) \<and>
     size (filter_mset (closes f) M) = one_if (af_close_cb v \<noteq> None) \<and>
     (af_open_cb v \<noteq> None \<longrightarrow> \<not> af_is_open v \<and> af_close_cb v = None) \<and>
     (af_close_cb v \<noteq> None \<longrightarrow> af_is_open v) \<and>
     (\<forall>fd. Close_req f fd \<in># M \<longrightarrow> fd = af_fd v)"

definition aio_inv :: "aio_request pool_event list \<Rightarrow> 'k aio_context \<Rightarrow> bool" where
  "aio_inv h s \<longleftrightarrow> pool_inv h (a_pool s) \<and> map fst (a_log s) = handled_items h \<and> (\<forall>f. file_inv (pending (a_pool s)) f (a_files s f))"

lemma file_inv_other: "\<not> opens f req \<Longrightarrow> \<not> closes f req \<Longrightarrow> file_inv (add_mset req M) f v \<longleftrightarrow> file_inv M f v"
  by (cases req) (auto simp: file_inv_def)

lemma submits_files:
  assumes "submits s w req s'" and "\<forall>f. file_inv M f (a_files s f)"
  shows "\<forall>f. file_inv (add_mset req M) f (a_files s' f)"
proof -
  have f: "a_files s' = a_files s1" if "submit_request req w s1 = Inr s'" for s1
    using that by (auto simp: submit_request_def res_simps)
  have fresh: "fd = x" if "size (filter_mset (closes g) M) = 0" "Close_req g fd \<in># M" for g fd x
  proof -
    have "Close_req g fd \<in># filter_mset (closes g) M" using that(2) by simp
    then show ?thesis using that(1) by auto
  qed
  show ?thesis
    using assms(1)
  proof (cases rule: submits.cases)
    case (1 g cb flags mode)
    let ?v = "a_files s g"
    have g: "\<not> af_is_open ?v" "af_open_cb ?v = None" "af_close_cb ?v = None" "req = Open_req g (af_path ?v) flags mode"
        "a_files s' = (a_files s)(g := ?v\<lparr>af_open_cb := Some cb\<rparr>)"
      using 1 f by (auto simp: submit_open_def Let_def res_simps set_file_def)
    have "file_inv (add_mset req M) g (?v\<lparr>af_open_cb := Some cb\<rparr>)"
      using assms(2) [rule_format, of g] g(1-4) by (auto simp: file_inv_def af_is_open_def dest: fresh)
    then show ?thesis using g(4,5) assms(2) file_inv_other [of _ req] by auto
  next
    case (6 g cb)
    let ?v = "a_files s g"
    have g: "af_is_open ?v" "af_open_cb ?v = None" "af_close_cb ?v = None" "req = Close_req g (af_fd ?v)"
        "a_files s' = (a_files s)(g := ?v\<lparr>af_close_cb := Some cb\<rparr>)"
      using 6 f by (auto simp: submit_close_def Let_def res_simps set_file_def)
    have "file_inv (add_mset req M) g (?v\<lparr>af_close_cb := Some cb\<rparr>)"
      using assms(2) [rule_format, of g] g(1-4) by (auto simp: file_inv_def af_is_open_def dest: fresh)
    then show ?thesis using g(4,5) assms(2) file_inv_other [of _ req] by auto
  qed (use assms(2) f in \<open>auto simp: submit_pread_def submit_preadv_def submit_pwrite_def submit_pwritev_def Let_def res_simps
      intro: file_inv_other [THEN iffD2]\<close>)
qed

lemma handle_files:
  assumes "\<forall>f. file_inv (add_mset req M) f (a_files s f)"
  shows "\<exists>s'. aio_handle K req s = Inr s' \<and> (\<forall>f. file_inv M f (a_files s' f))"
proof (cases req)
  case (Open_req g path flags mode)
  let ?v = "a_files s g"
  obtain fd err k where c: "ak_open K path flags mode (a_kernel s) = (fd, err, k)" by (metis prod_cases3)
  have i: "file_inv (add_mset req M) g ?v" using assms by blast
  then obtain cb where cb: "af_open_cb ?v = Some cb" "\<not> af_is_open ?v" "af_close_cb ?v = None"
    by (cases "af_open_cb ?v") (auto simp: file_inv_def Open_req)
  let ?v' = "(if fd \<ge> 0 then ?v\<lparr>af_fd := fd\<rparr> else ?v)\<lparr>af_open_cb := None\<rparr>"
  have no: "Close_req g x \<notin># M" for x
  proof
    assume "Close_req g x \<in># M"
    then have "Close_req g x \<in># filter_mset (closes g) M" by simp
    then show False using i cb(3) by (auto simp: file_inv_def Open_req)
  qed
  have "file_inv M g ?v'" using i cb no by (auto simp: file_inv_def Open_req)
  moreover have "file_inv M f (a_files s f)" if "f \<noteq> g" for f
    using assms file_inv_other [of f req M] that by (auto simp: Open_req)
  ultimately show ?thesis using c cb Open_req
    by (auto simp: aio_handle_def open_completed_def Let_def set_file_def af_is_open_def)
next
  case (Close_req g cfd)
  let ?v = "a_files s g"
  obtain r err k where c: "ak_close K cfd (a_kernel s) = (r, err, k)" by (metis prod_cases3)
  have i: "file_inv (add_mset req M) g ?v" using assms by blast
  then obtain cb where cb: "af_close_cb ?v = Some cb" "af_is_open ?v" "af_open_cb ?v = None"
    by (cases "af_close_cb ?v") (auto simp: file_inv_def Close_req)
  let ?v' = "(if r = 0 then ?v\<lparr>af_fd := AF_NOT_OPEN\<rparr> else ?v)\<lparr>af_close_cb := None\<rparr>"
  have no: "Close_req g x \<notin># M" for x
  proof
    assume "Close_req g x \<in># M"
    then have "Close_req g x \<in># filter_mset (closes g) M" by simp
    then show False using i cb(1) by (auto simp: file_inv_def Close_req)
  qed
  have "file_inv M g ?v'" using i cb no by (auto simp: file_inv_def Close_req)
  moreover have "file_inv M f (a_files s f)" if "f \<noteq> g" for f
    using assms file_inv_other [of f req M] that by (auto simp: Close_req)
  ultimately show ?thesis using c cb Close_req
    by (auto simp: aio_handle_def close_completed_def Let_def set_file_def af_is_open_def)
qed (use assms file_inv_other [of _ req M] in \<open>auto simp: aio_handle_def log_cb_def split: prod.splits\<close>)

lemma handling_pending: "pool_step p (Handled i req) p' \<Longrightarrow> req \<in># pending p"
proof (erule pool_stepE; simp)
  assume i: "i < length (p_workers p)" "p_workers p ! i = Handling req"
  have "in_hands ((p_workers p)[i := At_pop]) + {#req#} = in_hands (p_workers p)" using in_hands_upd [OF i(1), of At_pop] i(2) by simp
  then show "req \<in># pending p" unfolding pending_def by (metis union_iff union_single_eq_member add_mset_add_single)
qed

lemma aio_handled_ok:
  assumes "aio_inv h s" and "pool_step (a_pool s) (Handled i req) p"
  shows "\<exists>s'. aio_handle K req s = Inr s' \<and> (\<forall>f. file_inv (pending p) f (a_files s' f))"
proof -
  have "pool_inv (h @ [Handled i req]) p" using assms pools.hinv_step by (auto simp: aio_inv_def)
  then have "pending p + {#req#} = pending (a_pool s)" using pending_step assms(1) by (fastforce simp: aio_inv_def)
  then have e: "pending (a_pool s) = add_mset req (pending p)" by simp
  show ?thesis by (rule handle_files) (use assms(1) e in \<open>simp add: aio_inv_def\<close>)
qed

interpretation aio_runs: history_invariant "aio_step K" aio_inv for K :: "'k aio_kernel"
proof unfold_locales
  fix h and s s' :: "'k aio_context" and ev assume inv: "aio_inv h s" and st: "aio_step K s ev s'"
  have "pool_step (a_pool s) ev (a_pool s')" using aio_pool.sim_step st by blast
  then have p: "pool_inv (h @ [ev]) (a_pool s')" using inv pools.hinv_step by (auto simp: aio_inv_def)
  note pend = pending_step [OF _ p]
  from st show "aio_inv (h @ [ev]) s'"
  proof (cases rule: aio_step.cases)
    case (submit w req)
    have "pending (a_pool s') = add_mset req (pending (a_pool s))" using pend inv submit by (auto simp: aio_inv_def)
    then show ?thesis using inv p submit submits_files [of s w req s' "pending (a_pool s)"] submits_pool [of s w req s']
      by (auto simp: aio_inv_def handled_append)
  next
    case (internal q)
    have "handled_items [ev] = []" "scheduled [ev] = []" using internal(3,4) by (cases ev; auto)+
    moreover from this have "pending (a_pool s') = pending (a_pool s)" using pend inv by (auto simp: aio_inv_def)
    ultimately show ?thesis using inv p internal by (auto simp: aio_inv_def handled_append)
  next
    case (handle i req q s1)
    obtain s2 where s2: "aio_handle K req s = Inr s2" "\<forall>f. file_inv (pending q) f (a_files s2 f)"
      using aio_handled_ok [OF inv handle(3)] by blast
    then show ?thesis using inv p handle aio_handle_pool [of K req s s1] by (auto simp: aio_inv_def handled_append)
  qed
qed

lemma aio_inv_ctor: "aio_inv [Start n] (aio_context_ctor n paths m k)"
proof -
  have "pool_inv ([] @ [Start n]) (pool_start n worker_pool_ctor :: aio_request pool)"
    by (rule pools.hinv_step [OF pool_inv_ctor pool_step.start])
  moreover have "pending (pool_start n worker_pool_ctor :: aio_request pool) = {#}"
    by (simp add: pending_def pool_start_def worker_pool_ctor_def sync_queue_ctor_def in_hands_replicate)
  ultimately show ?thesis
    by (simp add: aio_inv_def aio_context_ctor_def file_inv_def async_file_ctor_def)
qed

section \<open>Properties\<close>

text \<open>
  C19. The assertions of the completion callbacks hold: in every interleaving of submissions and workers, a
  worker that holds a request can handle it, whatever the system calls return; and a file that waits
  for its open callback is not open, one that waits for its close callback is open.
\<close>

theorem aio_completions_never_assert:
  assumes "run (aio_step K) (aio_context_ctor n paths m k) evs s"
  shows "(pool_step (a_pool s) (Handled i req) p \<longrightarrow> (\<exists>s'. aio_handle K req s = Inr s')) \<and>
    (af_open_cb (a_files s f) \<noteq> None \<longrightarrow> \<not> af_is_open (a_files s f)) \<and>
    (af_close_cb (a_files s f) \<noteq> None \<longrightarrow> af_is_open (a_files s f))"
proof -
  have inv: "aio_inv ([Start n] @ evs) s" using aio_runs.hinv_run [OF assms aio_inv_ctor] .
  then have "file_inv (pending (a_pool s)) f (a_files s f)" by (simp add: aio_inv_def)
  then show ?thesis using aio_handled_ok [OF inv] by (fastforce simp: file_inv_def)
qed

definition null_kernel :: "unit aio_kernel" where
  "null_kernel = \<lparr>ak_open = (\<lambda>_ _ _ k. (-1, 2, k)), ak_pread = (\<lambda>_ _ _ k. (0, [], 0, k)), ak_preadv = (\<lambda>_ _ _ k. (0, [], 0, k)),
     ak_pwrite = (\<lambda>_ bs _ k. (int (length bs), 0, k)), ak_pwritev = (\<lambda>_ vs _ k. (int (length (concat vs)), 0, k)),
     ak_close = (\<lambda>_ k. (0, 0, k))\<rparr>"

definition sample_aio :: "unit aio_context" where
  "sample_aio = aio_context_ctor 1 (\<lambda>_. ''f'') (\<lambda>_. 0) ()"

lemma sample_open_run:
  "\<exists>s. run (aio_step null_kernel) sample_aio [Schedule (Open_req 3 ''f'' 0 0), Pop 0 (Pop_item (Open_req 3 ''f'' 0 0))] s \<and>
     a_pool s = \<lparr>p_queue = \<lparr>sq_q = [], sq_no_more_data = False\<rparr>, p_workers = [Handling (Open_req 3 ''f'' 0 0)]\<rparr> \<and>
     af_open_cb (a_files s 3) = Some 9"
proof -
  note d = sample_aio_def aio_context_ctor_def worker_pool_ctor_def sync_queue_ctor_def pool_start_def async_file_ctor_def
    submit_open_def submit_request_def schedule_work_def sq_push_def notify_def af_is_open_def set_file_def AF_NOT_OPEN_def
  let ?req = "Open_req 3 ''f'' 0 0"
  let ?p1 = "\<lparr>p_queue = \<lparr>sq_q = [?req], sq_no_more_data = False\<rparr>, p_workers = [At_pop]\<rparr>"
  let ?p2 = "\<lparr>p_queue = \<lparr>sq_q = [], sq_no_more_data = False\<rparr>, p_workers = [Handling ?req]\<rparr>"
  let ?s1 = "set_file 3 ((async_file_ctor ''f'')\<lparr>af_open_cb := Some 9\<rparr>) (sample_aio\<lparr>a_pool := ?p1\<rparr>)"
  have "submit_open 3 9 0 0 None sample_aio = Inr (?req, ?s1)" by (simp add: d Let_def)
  then have "aio_step null_kernel sample_aio (Schedule ?req) ?s1"
    by (intro aio_step.submit [of None] submits.intros(1)) (simp_all add: wakes_def d)
  moreover have "aio_step null_kernel ?s1 (Pop 0 (Pop_item ?req)) (?s1\<lparr>a_pool := ?p2\<rparr>)"
    by (intro aio_step.internal pool_step.pop) (simp_all add: set_file_def worker_pop_def sq_pop_def set_worker_def)
  ultimately show ?thesis by (intro exI [of _ "?s1\<lparr>a_pool := ?p2\<rparr>"]) (auto intro: run.intros simp: set_file_def)
qed

theorem aio_completions_never_assert_witness:
  "\<exists>s. run (aio_step null_kernel) sample_aio [Schedule (Open_req 3 ''f'' 0 0), Pop 0 (Pop_item (Open_req 3 ''f'' 0 0))] s \<and>
     \<not> af_is_open (a_files s 3) \<and> (\<exists>s'. aio_handle null_kernel (Open_req 3 ''f'' 0 0) s = Inr s')"
proof -
  obtain s where s: "run (aio_step null_kernel) sample_aio [Schedule (Open_req 3 ''f'' 0 0), Pop 0 (Pop_item (Open_req 3 ''f'' 0 0))] s"
     "a_pool s = \<lparr>p_queue = \<lparr>sq_q = [], sq_no_more_data = False\<rparr>, p_workers = [Handling (Open_req 3 ''f'' 0 0)]\<rparr>"
     "af_open_cb (a_files s 3) = Some 9" using sample_open_run by blast
  have "pool_step (a_pool s) (Handled 0 (Open_req 3 ''f'' 0 0)) (set_worker 0 At_pop (a_pool s))"
    by (rule pool_step.handled) (simp_all add: s(2))
  then show ?thesis using aio_completions_never_assert [OF s(1) [unfolded sample_aio_def]] s(1,3) by blast
qed

text \<open>
  C20. Every request completes exactly once: the requests whose callback was called are those whose handling
  the pool has finished, in that order; once the workers have finished after the context's
  destructor, every submitted request has been called back exactly once.
\<close>

theorem aio_every_request_completes_once:
  assumes "run (aio_step K) (aio_context_ctor n paths m k) evs s"
  shows "map fst (a_log s) = handled_items evs \<and>
    (p_workers (a_pool s) \<noteq> [] \<and> set (p_workers (a_pool s)) \<subseteq> {Finished} \<longrightarrow> mset (map fst (a_log s)) = mset (scheduled evs))"
proof -
  have "aio_inv ([Start n] @ evs) s" using aio_runs.hinv_run [OF assms aio_inv_ctor] .
  then show ?thesis using pool_inv_done [of "[Start n] @ evs" "a_pool s"] by (auto simp: aio_inv_def)
qed

theorem aio_every_request_completes_once_witness:
  "\<exists>s. run (aio_step null_kernel) sample_aio [Schedule (Open_req 3 ''f'' 0 0), Pop 0 (Pop_item (Open_req 3 ''f'' 0 0))] s \<and> map fst (a_log s) = []"
  using sample_open_run aio_every_request_completes_once [of null_kernel 1 "\<lambda>_. ''f''" "\<lambda>_. 0" "()"] unfolding sample_aio_def by fastforce

text \<open>
  A failed open is reported as a success: \<open>async_file::open_completed\<close> drops the error code, so the
  user's callback gets 0 although the file is not open, for every error the system reports.
\<close>

theorem aio_failed_open_reports_success:
  assumes "af_open_cb (a_files s f) = Some cb" and "\<not> af_is_open (a_files s f)" and "fd < 0"
  shows "\<exists>s'. open_completed req f fd err s = Inr s' \<and> a_log s' = a_log s @ [(req, Open_done cb 0)] \<and>
    \<not> af_is_open (a_files s' f)"
  using assms by (simp add: open_completed_def Let_def set_file_def af_is_open_def)

theorem aio_failed_open_reports_success_witness:
  "\<exists>s s'. af_open_cb (a_files (s :: unit aio_context) 3) = Some 9 \<and>
     open_completed (Open_req 3 ''f'' 0 0) 3 (-1) 2 s = Inr s' \<and> a_log s' = a_log s @ [(Open_req 3 ''f'' 0 0, Open_done 9 0)]"
proof -
  let ?s = "set_file 3 ((async_file_ctor ''f'')\<lparr>af_open_cb := Some 9\<rparr>) sample_aio"
  have o: "af_open_cb (a_files ?s 3) = Some 9" "\<not> af_is_open (a_files ?s 3)"
    by (simp_all add: set_file_def async_file_ctor_def af_is_open_def)
  show ?thesis using aio_failed_open_reports_success [OF o, of "-1" "Open_req 3 ''f'' 0 0" 2] o(1) by auto
qed

end
