(* ===== verification/Buffer_Cache.thy ===== *)
theory Buffer_Cache
  imports Multi_Buffer Simulation
begin

text \<open>
  \<open>src/buffercache/buffer_cache.cpp\<close> and \<open>src/include/buffercache/buffer_cache.h\<close>: frames that
  move between the lists of unbound, used and ready frames. A list node, and with it an iterator,
  is a number; \<open>bc_frames\<close> holds the \<open>bound_buffer\<close> of each node, so splicing moves a number. Files
  are numbers. The constructor leaves \<open>is_being_used\<close> uninitialized: its first value in each frame is what the
  argument \<open>garbage\<close> says. A failed assertion aborts the program.
\<close>

section \<open>Bound buffers\<close>

record bound_buffer =
  bb_buffer :: nat
  bb_file :: "nat option"
  bb_is_being_used :: bool

definition bound_buffer_ctor :: "nat \<Rightarrow> bool \<Rightarrow> bound_buffer" where
  "bound_buffer_ctor buffer garbage = \<lparr>bb_buffer = buffer, bb_file = None, bb_is_being_used = garbage\<rparr>"

definition is_bound :: "bound_buffer \<Rightarrow> bool" where
  "is_bound b \<longleftrightarrow> bb_file b \<noteq> None"

definition get_file :: "bound_buffer \<Rightarrow> nat res" where
  "get_file b = (case bb_file b of None \<Rightarrow> Inl D_assert | Some f \<Rightarrow> Inr f)"

definition bb_bind :: "nat \<Rightarrow> bound_buffer \<Rightarrow> bound_buffer res" where
  "bb_bind f b = d_assert (\<not> is_bound b) (Inr (b\<lparr>bb_file := Some f\<rparr>))"

definition bb_unbind :: "bound_buffer \<Rightarrow> bound_buffer res" where
  "bb_unbind b = d_assert (is_bound b) (d_assert (\<not> bb_is_being_used b) (Inr (b\<lparr>bb_file := None\<rparr>)))"

definition bb_ensure_uniq :: "new_addr \<Rightarrow> nat \<Rightarrow> bound_buffer \<Rightarrow> bheap \<Rightarrow> (bound_buffer \<times> bheap) res" where
  "bb_ensure_uniq new_addr alignment b h =
     bind_res (ensure_unique new_addr alignment (bb_buffer b) h) (\<lambda>(a, h). Inr (b\<lparr>bb_buffer := a\<rparr>, h))"

definition bb_use :: "bound_buffer \<Rightarrow> bound_buffer res" where
  "bb_use b = d_assert (is_bound b) (d_assert (\<not> bb_is_being_used b) (Inr (b\<lparr>bb_is_being_used := True\<rparr>)))"

definition bb_stop_using :: "bound_buffer \<Rightarrow> bound_buffer res" where
  "bb_stop_using b = d_assert (bb_is_being_used b) (Inr (b\<lparr>bb_is_being_used := False\<rparr>))"

definition bb_eq :: "bound_buffer \<Rightarrow> bound_buffer \<Rightarrow> bool" where
  "bb_eq b c \<longleftrightarrow> bb_buffer b = bb_buffer c \<and> bb_file b = bb_file c"

section \<open>The cache\<close>

record buffer_cache =
  bc_unbound :: "nat list"
  bc_in_use :: "nat list"
  bc_ready :: "nat list"
  bc_frames :: "nat \<Rightarrow> bound_buffer"
  bc_n_buffers :: nat
  bc_buffer_size :: nat
  bc_alignment :: nat

definition on_list :: "(nat \<Rightarrow> bound_buffer) \<Rightarrow> nat list \<Rightarrow> nat \<Rightarrow> bool" where
  "on_list frames l v \<longleftrightarrow> list_ex (\<lambda>x. bb_eq (frames x) (frames v)) l"

fun make_frames :: "new_addr \<Rightarrow> nat \<Rightarrow> nat \<Rightarrow> nat \<Rightarrow> (nat \<Rightarrow> bool) \<Rightarrow> bheap \<Rightarrow> ((nat \<Rightarrow> bound_buffer) \<times> nat list \<times> bheap) res" where
  "make_frames new_addr sz al 0 garbage h = Inr (\<lambda>i. bound_buffer_ctor 0 (garbage i), [], h)"
| "make_frames new_addr sz al (Suc i) garbage h =
     bind_res (make_frames new_addr sz al i garbage h) (\<lambda>(fr, unbound, h).
     bind_res (buffer_ctor new_addr al (replicate sz 0) h) (\<lambda>(a, h).
       Inr (fr(i := bound_buffer_ctor a (garbage i)), i # unbound, h)))"

definition buffer_cache_ctor :: "new_addr \<Rightarrow> nat \<Rightarrow> nat \<Rightarrow> nat \<Rightarrow> (nat \<Rightarrow> bool) \<Rightarrow> bheap \<Rightarrow> (buffer_cache \<times> bheap) res" where
  "buffer_cache_ctor new_addr n_buffers buffer_size alignment garbage h =
     bind_res (make_frames new_addr buffer_size alignment n_buffers garbage h) (\<lambda>(fr, unbound, h).
       Inr (\<lparr>bc_unbound = unbound, bc_in_use = [], bc_ready = [], bc_frames = fr, bc_n_buffers = n_buffers,
             bc_buffer_size = buffer_size, bc_alignment = alignment\<rparr>, h))"

text \<open>How \<open>get_frame\<close> ended, and the cache it leaves: when the copy cannot be allocated, the frame has already been moved.\<close>

definition get_frame :: "new_addr \<Rightarrow> nat \<Rightarrow> buffer_cache \<times> bheap \<Rightarrow> nat res \<times> buffer_cache \<times> bheap" where
  "get_frame new_addr f st = (case st of (bc, h) \<Rightarrow>
     if bc_unbound bc = [] \<and> bc_ready bc = [] then (Inl R_assert, bc, h)
     else
       let use_unbound = (bc_unbound bc \<noteq> []);
           frame = (if use_unbound then hd (bc_unbound bc) else hd (bc_ready bc));
           bc = (if use_unbound then bc\<lparr>bc_unbound := remove1 frame (bc_unbound bc)\<rparr>
                 else bc\<lparr>bc_ready := remove1 frame (bc_ready bc)\<rparr>)\<lparr>bc_in_use := bc_in_use bc @ [frame]\<rparr>
       in (case bb_ensure_uniq new_addr (bc_alignment bc) (bc_frames bc frame) h of
             Inl e \<Rightarrow> (Inl e, bc, h)
           | Inr (b, h) \<Rightarrow>
               (case bind_res (if use_unbound then Inr b else bb_unbind b) (\<lambda>b. bind_res (bb_bind f b) bb_use) of
                  Inl e \<Rightarrow> (Inl e, bc\<lparr>bc_frames := (bc_frames bc)(frame := b)\<rparr>, h)
                | Inr b \<Rightarrow> (Inr frame, bc\<lparr>bc_frames := (bc_frames bc)(frame := b)\<rparr>, h))))"

definition make_ready :: "nat \<Rightarrow> buffer_cache \<Rightarrow> buffer_cache res" where
  "make_ready buf bc =
     d_assert (on_list (bc_frames bc) (bc_in_use bc) buf)
       (let bc = bc\<lparr>bc_in_use := remove1 buf (bc_in_use bc), bc_ready := bc_ready bc @ [buf]\<rparr> in
        bind_res (bb_stop_using (bc_frames bc buf)) (\<lambda>b. Inr (bc\<lparr>bc_frames := (bc_frames bc)(buf := b)\<rparr>)))"

definition make_unbound :: "nat \<Rightarrow> buffer_cache \<Rightarrow> buffer_cache res" where
  "make_unbound buf bc =
     d_assert (on_list (bc_frames bc) (bc_ready bc) buf)
       (Inr (bc\<lparr>bc_ready := remove1 buf (bc_ready bc), bc_unbound := bc_unbound bc @ [buf]\<rparr>))"

definition register_hit :: "nat \<Rightarrow> buffer_cache \<Rightarrow> buffer_cache res" where
  "register_hit buf bc =
     d_assert (on_list (bc_frames bc) (bc_ready bc) buf)
       (Inr (bc\<lparr>bc_ready := remove1 buf (bc_ready bc) @ [buf]\<rparr>))"

text \<open>
  Histories. A client gets frames and makes those it holds ready; it hits and gives back frames that are ready. The third component is the set of
  frames that clients hold: a frame that \<open>get_frame\<close> moved before it ran out of memory is held by nobody. Between the calls clients copy and drop references to the buffers.
\<close>

type_synonym cache_state = "buffer_cache \<times> bheap \<times> nat set"

datatype cache_event = Get nat nat | Get_failed nat | Ready nat | Hit nat | Unbound nat | Clients

inductive cache_step :: "new_addr \<Rightarrow> cache_state \<Rightarrow> cache_event \<Rightarrow> cache_state \<Rightarrow> bool" for new_addr where
  get: "get_frame new_addr f (bc, h) = (Inr b, bc', h') \<Longrightarrow> cache_step new_addr (bc, h, held) (Get f b) (bc', h', insert b held)"
| get_failed: "get_frame new_addr f (bc, h) = (Inl Bad_alloc, bc', h') \<Longrightarrow> cache_step new_addr (bc, h, held) (Get_failed f) (bc', h', held)"
| ready: "b \<in> held \<Longrightarrow> make_ready b bc = Inr bc' \<Longrightarrow> cache_step new_addr (bc, h, held) (Ready b) (bc', h, held - {b})"
| hit: "b \<in> set (bc_ready bc) \<Longrightarrow> register_hit b bc = Inr bc' \<Longrightarrow> cache_step new_addr (bc, h, held) (Hit b) (bc', h, held)"
| unbound: "b \<in> set (bc_ready bc) \<Longrightarrow> make_unbound b bc = Inr bc' \<Longrightarrow> cache_step new_addr (bc, h, held) (Unbound b) (bc', h, held)"
| clients: "cache_step new_addr (bc, h, held) Clients (bc, h', held)"

section \<open>Least recently used\<close>

fun touches :: "nat \<Rightarrow> cache_event \<Rightarrow> bool" where
  "touches b (Ready c) = (b = c)"
| "touches b (Hit c) = (b = c)"
| "touches b _ = False"

text \<open>How long ago a frame was last released or hit.\<close>

definition age :: "cache_event list \<Rightarrow> nat \<Rightarrow> nat" where
  "age h b = length (takeWhile (\<lambda>ev. \<not> touches b ev) (rev h))"

lemma age_snoc: "age (h @ [ev]) b = (if touches b ev then 0 else Suc (age h b))"
  by (simp add: age_def)

text \<open>
  An unbound frame is new, with the flag the constructor left in it, or has been given back, and then it is still bound.
\<close>

definition unbound_ok :: "(nat \<Rightarrow> bool) \<Rightarrow> cache_event list \<Rightarrow> nat \<Rightarrow> bound_buffer \<Rightarrow> bool" where
  "unbound_ok garbage hist b v \<longleftrightarrow>
     (if Unbound b \<in> set hist then is_bound v else \<not> is_bound v \<and> bb_is_being_used v = garbage b)"

definition cache_inv :: "(nat \<Rightarrow> bool) \<Rightarrow> cache_event list \<Rightarrow> cache_state \<Rightarrow> bool" where
  "cache_inv garbage hist st \<longleftrightarrow> (case st of (bc, h, held) \<Rightarrow>
     distinct (bc_unbound bc @ bc_in_use bc @ bc_ready bc) \<and>
     set (bc_unbound bc @ bc_in_use bc @ bc_ready bc) = {..<bc_n_buffers bc} \<and>
     (\<forall>b \<in> set (bc_unbound bc). unbound_ok garbage hist b (bc_frames bc b)) \<and>
     held \<subseteq> set (bc_in_use bc) \<and> (\<forall>b \<in> held. is_bound (bc_frames bc b) \<and> bb_is_being_used (bc_frames bc b)) \<and>
     (\<forall>b \<in> set (bc_ready bc). is_bound (bc_frames bc b) \<and> \<not> bb_is_being_used (bc_frames bc b)) \<and>
     sorted_wrt (\<lambda>x y. age hist x > age hist y) (bc_ready bc))"

lemma on_list_self: "b \<in> set l \<Longrightarrow> on_list fr l b"
  by (auto simp: on_list_def list_ex_iff bb_eq_def)

lemma sorted_age_weaken:
  assumes "sorted_wrt (\<lambda>x y. age h x > age h y) xs" and "\<And>x. x \<in> set xs \<Longrightarrow> \<not> touches x ev"
  shows "sorted_wrt (\<lambda>x y. age (h @ [ev]) x > age (h @ [ev]) y) xs"
  by (rule sorted_wrt_mono_rel [OF _ assms(1)]) (use assms(2) in \<open>simp add: age_snoc\<close>)

lemma sorted_age_touch:
  assumes "sorted_wrt (\<lambda>x y. age h x > age h y) xs" and "b \<notin> set xs" and "\<And>x. touches x ev \<longleftrightarrow> x = b"
  shows "sorted_wrt (\<lambda>x y. age (h @ [ev]) x > age (h @ [ev]) y) (xs @ [b])"
proof -
  have "sorted_wrt (\<lambda>x y. age (h @ [ev]) x > age (h @ [ev]) y) xs" by (rule sorted_age_weaken [OF assms(1)]) (use assms(2,3) in auto)
  then show ?thesis using assms(2,3) by (auto simp: sorted_wrt_append age_snoc)
qed

lemma sorted_age_remove:
  assumes "sorted_wrt (\<lambda>x y. age h x > age h y) xs" and "distinct xs"
  shows "sorted_wrt (\<lambda>x y. age h x > age h y) (remove1 b xs)"
  using sorted_wrt_filter [OF assms(1)] assms(2) by (simp add: distinct_remove1_removeAll removeAll_filter_not_eq)

text \<open>What \<open>ensure_uniq\<close> does: it fails when the buffer is shared and a new one cannot be allocated.\<close>

definition copy_fails :: "new_addr \<Rightarrow> nat \<Rightarrow> bound_buffer \<Rightarrow> bheap \<Rightarrow> bool" where
  "copy_fails new_addr al b h \<longleftrightarrow> bh_refs h (bb_buffer b) \<noteq> 1 \<and> new_addr al h = None"

lemma ensure_uniq_cases:
  obtains (fails) "copy_fails new_addr al b h" "bb_ensure_uniq new_addr al b h = Inl Bad_alloc"
  | (ok) b' h' where "\<not> copy_fails new_addr al b h" "bb_ensure_uniq new_addr al b h = Inr (b', h')"
      "bb_file b' = bb_file b" "bb_is_being_used b' = bb_is_being_used b"
  by (cases "bb_ensure_uniq new_addr al b h")
    (auto simp: copy_fails_def bb_ensure_uniq_def ensure_unique_def buffer_ctor_def res_simps split: if_splits option.splits)

text \<open>The frame that \<open>get_frame\<close> takes, and the lists afterwards.\<close>

definition next_frame :: "buffer_cache \<Rightarrow> nat" where
  "next_frame bc = (if bc_unbound bc \<noteq> [] then hd (bc_unbound bc) else hd (bc_ready bc))"

definition moved :: "buffer_cache \<Rightarrow> bound_buffer \<Rightarrow> buffer_cache" where
  "moved bc v = bc\<lparr>bc_unbound := (if bc_unbound bc \<noteq> [] then tl (bc_unbound bc) else []),
     bc_ready := (if bc_unbound bc \<noteq> [] then bc_ready bc else tl (bc_ready bc)),
     bc_in_use := bc_in_use bc @ [next_frame bc], bc_frames := (bc_frames bc)(next_frame bc := v)\<rparr>"

text \<open>The exact outcome of \<open>get_frame\<close>.\<close>

definition frame_outcome :: "(nat \<Rightarrow> bool) \<Rightarrow> cache_event list \<Rightarrow> new_addr \<Rightarrow> buffer_cache \<times> bheap \<Rightarrow> nat res" where
  "frame_outcome garbage hist new_addr st = (case st of (bc, h) \<Rightarrow>
     if bc_unbound bc = [] \<and> bc_ready bc = [] then Inl R_assert
     else if copy_fails new_addr (bc_alignment bc) (bc_frames bc (next_frame bc)) h then Inl Bad_alloc
     else if bc_unbound bc \<noteq> [] \<and> (Unbound (next_frame bc) \<in> set hist \<or> garbage (next_frame bc)) then Inl D_assert
     else Inr (next_frame bc))"

lemma get_frame_unfold:
  assumes "bc_unbound bc \<noteq> [] \<or> bc_ready bc \<noteq> []"
  shows "get_frame new_addr f (bc, h) = (case bb_ensure_uniq new_addr (bc_alignment bc) (bc_frames bc (next_frame bc)) h of
      Inl e \<Rightarrow> (Inl e, moved bc (bc_frames bc (next_frame bc)), h)
    | Inr (b, h) \<Rightarrow>
        (case bind_res (if bc_unbound bc \<noteq> [] then Inr b else bb_unbind b) (\<lambda>b. bind_res (bb_bind f b) bb_use) of
           Inl e \<Rightarrow> (Inl e, moved bc b, h)
         | Inr b \<Rightarrow> (Inr (next_frame bc), moved bc b, h)))"
  using assms by (cases "bc_unbound bc"; cases "bc_ready bc")
    (auto simp: get_frame_def moved_def next_frame_def Let_def split: sum.splits)

lemma get_frame_ok:
  assumes inv: "cache_inv garbage hist (bc, h, held)" and av: "bc_unbound bc \<noteq> [] \<or> bc_ready bc \<noteq> []"
  shows "\<exists>v h'. get_frame new_addr f (bc, h) = (frame_outcome garbage hist new_addr (bc, h), moved bc v, h') \<and>
    (frame_outcome garbage hist new_addr (bc, h) = Inr (next_frame bc) \<longrightarrow> bb_file v = Some f \<and> bb_is_being_used v) \<and>
    (frame_outcome garbage hist new_addr (bc, h) = Inl Bad_alloc \<longrightarrow> v = bc_frames bc (next_frame bc))"
proof -
  note unfold = get_frame_unfold [OF av] frame_outcome_def
  show ?thesis
  proof (cases rule: ensure_uniq_cases [of new_addr "bc_alignment bc" "bc_frames bc (next_frame bc)" h])
    case fails
    then show ?thesis using av by (intro exI [of _ "bc_frames bc (next_frame bc)"] exI [of _ h]) (auto simp: unfold)
  next
    case (ok b' h')
    show ?thesis
    proof (cases "bc_unbound bc = []")
      case True
      then have "next_frame bc \<in> set (bc_ready bc)" using av by (simp add: next_frame_def)
      then have "is_bound b'" "\<not> bb_is_being_used b'" using inv ok by (auto simp: cache_inv_def is_bound_def)
      then show ?thesis using True av ok
        by (intro exI [of _ "b'\<lparr>bb_file := Some f, bb_is_being_used := True\<rparr>"] exI [of _ h'])
          (simp add: unfold bb_unbind_def bb_bind_def bb_use_def is_bound_def)
    next
      case False
      then have "next_frame bc \<in> set (bc_unbound bc)" by (simp add: next_frame_def)
      then have u: "unbound_ok garbage hist (next_frame bc) (bc_frames bc (next_frame bc))" using inv by (simp add: cache_inv_def)
      show ?thesis
      proof (cases "Unbound (next_frame bc) \<in> set hist \<or> garbage (next_frame bc)")
        case True
        then show ?thesis using False ok u by (intro exI [of _ b'] exI [of _ h'])
          (auto simp: unfold unbound_ok_def bb_bind_def bb_use_def is_bound_def d_assert_def split: if_splits)
      next
        case fresh: False
        then show ?thesis using False ok u
          by (intro exI [of _ "b'\<lparr>bb_file := Some f, bb_is_being_used := True\<rparr>"] exI [of _ h'])
            (simp add: unfold unbound_ok_def bb_bind_def bb_use_def is_bound_def)
      qed
    qed
  qed
qed

lemma get_frame_moved:
  assumes inv: "cache_inv garbage hist (bc, h, held)" and g: "get_frame new_addr f (bc, h) = (r, bc', h')" and r: "r = Inr b \<or> r = Inl Bad_alloc"
  obtains v where "bc' = moved bc v" "bc_unbound bc \<noteq> [] \<or> bc_ready bc \<noteq> []"
    "r = Inr b \<Longrightarrow> b = next_frame bc \<and> is_bound v \<and> bb_is_being_used v"
proof -
  have av: "bc_unbound bc \<noteq> [] \<or> bc_ready bc \<noteq> []" using g r by (auto simp: get_frame_def)
  obtain v h1 where v: "get_frame new_addr f (bc, h) = (frame_outcome garbage hist new_addr (bc, h), moved bc v, h1)"
    "frame_outcome garbage hist new_addr (bc, h) = Inr (next_frame bc) \<Longrightarrow> bb_file v = Some f \<and> bb_is_being_used v"
    using get_frame_ok [OF inv av] by blast
  have "b = next_frame bc" if "frame_outcome garbage hist new_addr (bc, h) = Inr b" using that by (simp add: frame_outcome_def split: if_splits)
  then show thesis using that [of v] v g av by (auto simp: is_bound_def)
qed

text \<open>Moving the next frame keeps the invariant, whatever the event is called.\<close>

lemma moved_inv:
  assumes inv: "cache_inv garbage hist (bc, h, held)" and av: "bc_unbound bc \<noteq> [] \<or> bc_ready bc \<noteq> []"
    and ev: "\<And>x. \<not> touches x ev" "\<And>x. ev \<noteq> Unbound x"
    and held': "held' = held \<or> held' = insert (next_frame bc) held \<and> is_bound v \<and> bb_is_being_used v"
  shows "cache_inv garbage (hist @ [ev]) (moved bc v, h', held')"
proof -
  have srt: "sorted_wrt (\<lambda>x y. age (hist @ [ev]) x > age (hist @ [ev]) y) (bc_ready bc)"
    by (rule sorted_age_weaken) (use inv ev in \<open>auto simp: cache_inv_def\<close>)
  have ub: "Unbound b \<in> set (hist @ [ev]) \<longleftrightarrow> Unbound b \<in> set hist" for b using ev(2) by auto
  have fresh: "next_frame bc \<notin> held" using inv av
    by (cases "bc_unbound bc"; cases "bc_ready bc") (auto simp: cache_inv_def next_frame_def)
  show ?thesis
  proof (cases "bc_unbound bc")
    case Nil
    then obtain x r where "bc_ready bc = x # r" using av by (cases "bc_ready bc") auto
    then show ?thesis using inv held' Nil srt fresh by (auto simp: cache_inv_def moved_def next_frame_def)
  next
    case (Cons x u)
    then show ?thesis using inv held' srt fresh ub by (auto simp: cache_inv_def moved_def next_frame_def unbound_ok_def)
  qed
qed

lemma ready_inv:
  assumes inv: "cache_inv garbage hist (bc, h, held)" and b: "b \<in> held"
  shows "\<exists>bc'. make_ready b bc = Inr bc' \<and> cache_inv garbage (hist @ [Ready b]) (bc', h, held - {b})"
proof -
  let ?v = "(bc_frames bc b)\<lparr>bb_is_being_used := False\<rparr>"
  let ?bc = "bc\<lparr>bc_in_use := remove1 b (bc_in_use bc), bc_ready := bc_ready bc @ [b], bc_frames := (bc_frames bc)(b := ?v)\<rparr>"
  have iu: "b \<in> set (bc_in_use bc)" using inv b by (auto simp: cache_inv_def)
  have "make_ready b bc = Inr ?bc" using inv b iu by (simp add: make_ready_def on_list_self bb_stop_using_def cache_inv_def Let_def)
  moreover have "sorted_wrt (\<lambda>x y. age (hist @ [Ready b]) x > age (hist @ [Ready b]) y) (bc_ready bc @ [b])"
    by (rule sorted_age_touch) (use inv iu in \<open>auto simp: cache_inv_def\<close>)
  moreover have "set (remove1 b (bc_in_use bc)) = set (bc_in_use bc) - {b}" using inv by (simp add: cache_inv_def)
  ultimately show ?thesis using inv b iu by (auto simp: cache_inv_def is_bound_def unbound_ok_def)
qed

lemma hit_inv:
  assumes inv: "cache_inv garbage hist (bc, h, held)" and b: "b \<in> set (bc_ready bc)"
  shows "\<exists>bc'. register_hit b bc = Inr bc' \<and> cache_inv garbage (hist @ [Hit b]) (bc', h, held)"
proof -
  let ?bc = "bc\<lparr>bc_ready := remove1 b (bc_ready bc) @ [b]\<rparr>"
  have "register_hit b bc = Inr ?bc" using b by (simp add: register_hit_def on_list_self)
  moreover have st: "set (remove1 b (bc_ready bc)) = set (bc_ready bc) - {b}" using inv by (simp add: cache_inv_def)
  moreover have "sorted_wrt (\<lambda>x y. age (hist @ [Hit b]) x > age (hist @ [Hit b]) y) (remove1 b (bc_ready bc) @ [b])"
    using inv by (intro sorted_age_touch sorted_age_remove) (auto simp: cache_inv_def)
  ultimately show ?thesis using inv b by (auto simp: cache_inv_def unbound_ok_def)
qed

lemma unbound_inv:
  assumes inv: "cache_inv garbage hist (bc, h, held)" and b: "b \<in> set (bc_ready bc)"
  shows "\<exists>bc'. make_unbound b bc = Inr bc' \<and> cache_inv garbage (hist @ [Unbound b]) (bc', h, held)"
proof -
  let ?bc = "bc\<lparr>bc_ready := remove1 b (bc_ready bc), bc_unbound := bc_unbound bc @ [b]\<rparr>"
  have "make_unbound b bc = Inr ?bc" using b by (simp add: make_unbound_def on_list_self)
  moreover have st: "set (remove1 b (bc_ready bc)) = set (bc_ready bc) - {b}" using inv by (simp add: cache_inv_def)
  moreover have "sorted_wrt (\<lambda>x y. age (hist @ [Unbound b]) x > age (hist @ [Unbound b]) y) (remove1 b (bc_ready bc))"
    using inv by (intro sorted_age_weaken sorted_age_remove) (auto simp: cache_inv_def)
  ultimately show ?thesis using inv b by (auto simp: cache_inv_def unbound_ok_def)
qed

lemma clients_inv: "cache_inv garbage hist (bc, h, held) \<Longrightarrow> cache_inv garbage (hist @ [Clients]) (bc, h', held)"
  using sorted_age_weaken [of hist "bc_ready bc" Clients] by (simp add: cache_inv_def unbound_ok_def)

interpretation cache: history_invariant "cache_step new_addr" "cache_inv garbage" for new_addr garbage
proof unfold_locales
  fix hist st ev st' assume inv: "cache_inv garbage hist st" and "cache_step new_addr st ev st'"
  from this(2) show "cache_inv garbage (hist @ [ev]) st'"
  proof (cases rule: cache_step.cases)
    case (get f bc h b bc' h' held)
    then obtain v where "bc' = moved bc v" "bc_unbound bc \<noteq> [] \<or> bc_ready bc \<noteq> []" "b = next_frame bc" "is_bound v" "bb_is_being_used v"
      using get_frame_moved [of garbage hist bc h held new_addr f "Inr b" bc' h' b] inv by auto
    then show ?thesis using moved_inv inv get by simp
  next
    case (get_failed f bc h bc' h' held)
    then obtain v where "bc' = moved bc v" "bc_unbound bc \<noteq> [] \<or> bc_ready bc \<noteq> []"
      using get_frame_moved [of garbage hist bc h held new_addr f "Inl Bad_alloc" bc' h' 0] inv by auto
    then show ?thesis using moved_inv inv get_failed by simp
  qed (use inv in \<open>auto dest: ready_inv hit_inv unbound_inv clients_inv\<close>)
qed

lemma make_frames_ok:
  "make_frames new_addr sz al n garbage h = Inr (fr, u, h') \<Longrightarrow>
     u = rev [0..<n] \<and> (\<forall>i < n. \<exists>a. fr i = bound_buffer_ctor a (garbage i))"
  by (induction n arbitrary: fr u h') (fastforce simp: res_simps less_Suc_eq)+

lemma cache_inv_ctor:
  assumes "buffer_cache_ctor new_addr n sz al garbage h = Inr (bc, h')"
  shows "cache_inv garbage [] (bc, h', {})" and "bc_n_buffers bc = n"
proof -
  obtain fr where f: "make_frames new_addr sz al n garbage h = Inr (fr, bc_unbound bc, h')" "bc_in_use bc = []" "bc_ready bc = []"
      "bc_frames bc = fr" "bc_n_buffers bc = n"
    using assms by (auto simp: buffer_cache_ctor_def res_simps)
  have "\<exists>a. fr i = bound_buffer_ctor a (garbage i)" if "i < n" for i using make_frames_ok [OF f(1)] that by blast
  then have "unbound_ok garbage [] i (fr i)" if "i < n" for i
    using that by (fastforce simp: bound_buffer_ctor_def is_bound_def unbound_ok_def)
  then show "cache_inv garbage [] (bc, h', {})" using make_frames_ok [OF f(1)] f by (auto simp: cache_inv_def)
  show "bc_n_buffers bc = n" by (rule f)
qed

section \<open>Properties\<close>

text \<open>
  C24. The buffer cache partitions its frames and replaces the least recently used one. Take any history of
  \<open>get_frame\<close> (also when it runs out of memory), \<open>make_ready\<close>, \<open>register_hit\<close> and \<open>make_unbound\<close>, with clients sharing and dropping
  buffers in between, from a cache whose constructor left arbitrary values in the \<open>is_being_used\<close> flags. Then every frame is
  on exactly one list, and \<open>get_frame\<close> takes an unbound frame while there is one, and otherwise the ready frame whose last release or hit is the
  oldest. It fails exactly in these cases: \<open>r_assert\<close> when no frame is unbound or ready; \<open>bad_alloc\<close> when the buffer is shared and cannot be copied; a debug
  assertion when the unbound frame has been given back by \<open>make_unbound\<close> before, or is new and its uninitialized flag is set. Otherwise the frame is bound to the file and in use.
\<close>

theorem buffer_cache_lru:
  assumes "buffer_cache_ctor new_addr n sz al garbage h0 = Inr (bc0, h1)" and "run (cache_step new_addr) (bc0, h1, {}) hist (bc, h, held)"
  shows "distinct (bc_unbound bc @ bc_in_use bc @ bc_ready bc) \<and>
    set (bc_unbound bc @ bc_in_use bc @ bc_ready bc) = {..<bc_n_buffers bc} \<and>
    (bc_unbound bc = [] \<and> bc_ready bc \<noteq> [] \<longrightarrow>
       next_frame bc \<in> set (bc_ready bc) \<and> (\<forall>c \<in> set (bc_ready bc). age hist c \<le> age hist (next_frame bc))) \<and>
    (case get_frame new_addr f (bc, h) of (r, bc', h') \<Rightarrow> r = frame_outcome garbage hist new_addr (bc, h) \<and>
       (\<forall>b. r = Inr b \<longrightarrow> b \<in> set (bc_in_use bc') \<and> bb_file (bc_frames bc' b) = Some f \<and> bb_is_being_used (bc_frames bc' b)))"
proof -
  have inv: "cache_inv garbage hist (bc, h, held)" using cache.hinv_run_start [OF assms(2)] cache_inv_ctor(1) [OF assms(1)] by blast
  have old: "next_frame bc \<in> set (bc_ready bc) \<and> (\<forall>c \<in> set (bc_ready bc). age hist c \<le> age hist (next_frame bc))"
    if "bc_unbound bc = []" "bc_ready bc \<noteq> []"
    using inv that by (cases "bc_ready bc") (auto simp: cache_inv_def next_frame_def intro: less_imp_le)
  have "case get_frame new_addr f (bc, h) of (r, bc', h') \<Rightarrow> r = frame_outcome garbage hist new_addr (bc, h) \<and>
       (\<forall>b. r = Inr b \<longrightarrow> b \<in> set (bc_in_use bc') \<and> bb_file (bc_frames bc' b) = Some f \<and> bb_is_being_used (bc_frames bc' b))"
  proof (cases "bc_unbound bc = [] \<and> bc_ready bc = []")
    case True
    then show ?thesis by (simp add: get_frame_def frame_outcome_def)
  next
    case False
    then obtain v h' where v: "get_frame new_addr f (bc, h) = (frame_outcome garbage hist new_addr (bc, h), moved bc v, h')"
      "frame_outcome garbage hist new_addr (bc, h) = Inr (next_frame bc) \<Longrightarrow> bb_file v = Some f \<and> bb_is_being_used v"
      using get_frame_ok [OF inv, of new_addr f] by blast
    have "b = next_frame bc" if "frame_outcome garbage hist new_addr (bc, h) = Inr b" for b using that by (simp add: frame_outcome_def split: if_splits)
    then show ?thesis using v by (auto simp: moved_def)
  qed
  then show ?thesis using inv old by (auto simp: cache_inv_def)
qed

text \<open>A cache of two frames, and the executable runs of the step relation.\<close>

definition count_up :: new_addr where
  "count_up al h = (if bh_refs h 1 = 0 then Some 1 else if bh_refs h 2 = 0 then Some 2 else None)"

definition empty_heap :: bheap where
  "empty_heap = \<lparr>bh_data = (\<lambda>_. []), bh_refs = (\<lambda>_. 0)\<rparr>"

fun exec_event :: "new_addr \<Rightarrow> cache_event \<Rightarrow> cache_state \<Rightarrow> cache_state option" where
  "exec_event na (Get f b) (bc, h, held) = (case get_frame na f (bc, h) of
     (Inr b', bc', h') \<Rightarrow> if b' = b then Some (bc', h', insert b held) else None | _ \<Rightarrow> None)"
| "exec_event na (Ready b) (bc, h, held) = (if b \<in> held then (case make_ready b bc of Inr bc' \<Rightarrow> Some (bc', h, held - {b}) | _ \<Rightarrow> None) else None)"
| "exec_event na (Hit b) (bc, h, held) = (if b \<in> set (bc_ready bc) then (case register_hit b bc of Inr bc' \<Rightarrow> Some (bc', h, held) | _ \<Rightarrow> None) else None)"
| "exec_event na (Unbound b) (bc, h, held) = (if b \<in> set (bc_ready bc) then (case make_unbound b bc of Inr bc' \<Rightarrow> Some (bc', h, held) | _ \<Rightarrow> None) else None)"
| "exec_event na _ st = None"

fun exec_events :: "new_addr \<Rightarrow> cache_event list \<Rightarrow> cache_state \<Rightarrow> cache_state option" where
  "exec_events na [] st = Some st"
| "exec_events na (ev # evs) st = Option.bind (exec_event na ev st) (exec_events na evs)"

lemma exec_event_step: "exec_event na ev st = Some st' \<Longrightarrow> cache_step na st ev st'"
  by (cases "(na, ev, st)" rule: exec_event.cases) (auto intro: cache_step.intros split: if_splits sum.splits prod.splits)

lemma exec_events_run: "exec_events na evs st = Some st' \<Longrightarrow> run (cache_step na) st evs st'"
proof (induction evs arbitrary: st)
  case (Cons ev evs)
  then obtain st1 where "exec_event na ev st = Some st1" "exec_events na evs st1 = Some st'" by (auto simp: bind_eq_Some_conv)
  then show ?case using Cons.IH [of st1] exec_event_step [of na ev st st1] run.run_Cons [of "cache_step na" st ev st1 evs st'] by blast
qed (simp add: run.run_Nil)

lemmas cache_exec = buffer_cache_ctor_def numeral_2_eq_2 buffer_ctor_def count_up_def empty_heap_def get_frame_def bb_ensure_uniq_def
  ensure_unique_def bound_buffer_ctor_def bb_bind_def bb_unbind_def bb_use_def is_bound_def make_ready_def register_hit_def make_unbound_def
  on_list_def bb_eq_def bb_stop_using_def Let_def

text \<open>
  Two frames are taken for the files 5 and 6 and released in that order, then the first is hit: the next file gets the second frame.
\<close>

theorem buffer_cache_lru_witness:
  "\<exists>bc0 h1 bc h held. buffer_cache_ctor count_up 2 1 0 (\<lambda>_. False) empty_heap = Inr (bc0, h1) \<and>
     run (cache_step count_up) (bc0, h1, {}) [Get 5 1, Get 6 0, Ready 1, Ready 0, Hit 1] (bc, h, held) \<and>
     fst (get_frame count_up 7 (bc, h)) = Inr 0 \<and> age [Get 5 1, Get 6 0, Ready 1, Ready 0, Hit 1] 1 \<le> age [Get 5 1, Get 6 0, Ready 1, Ready 0, Hit 1] 0"
proof -
  let ?evs = "[Get 5 1, Get 6 0, Ready 1, Ready 0, Hit 1]"
  obtain bc0 h1 bc h held where c: "buffer_cache_ctor count_up 2 1 0 (\<lambda>_. False) empty_heap = Inr (bc0, h1)"
    and e: "exec_events count_up ?evs (bc0, h1, {}) = Some (bc, h, held)" and r: "bc_unbound bc = []" "bc_ready bc = [0, 1]"
    "bh_refs h (bb_buffer (bc_frames bc 0)) = 1"
    by (simp add: cache_exec)
  have rn: "run (cache_step count_up) (bc0, h1, {}) ?evs (bc, h, held)" by (rule exec_events_run [OF e])
  have o: "frame_outcome (\<lambda>_. False) ?evs count_up (bc, h) = Inr 0" using r by (simp add: frame_outcome_def copy_fails_def next_frame_def)
  show ?thesis
    using buffer_cache_lru [OF c rn, of 7] c rn o r unfolding case_prod_beta by (auto simp: next_frame_def)
qed

text \<open>
  A frame given back with \<open>make_unbound\<close> cannot be used again: the frame stays bound to its file, so when
  \<open>get_frame\<close> reaches it the binding fails an assertion.
\<close>

theorem make_unbound_breaks_get_frame:
  assumes "b \<in> set (bc_ready bc)" and "is_bound (bc_frames bc b)" and "bc_unbound bc = []"
    and "\<not> copy_fails new_addr (bc_alignment bc) (bc_frames bc b) h"
  shows "\<exists>bc'. make_unbound b bc = Inr bc' \<and> fst (get_frame new_addr f (bc', h)) = Inl D_assert"
proof -
  let ?bc = "bc\<lparr>bc_ready := remove1 b (bc_ready bc), bc_unbound := [b]\<rparr>"
  have "make_unbound b bc = Inr ?bc" using assms by (simp add: make_unbound_def on_list_self)
  moreover have "fst (get_frame new_addr f (?bc, h)) = Inl D_assert"
    by (cases rule: ensure_uniq_cases [of new_addr "bc_alignment bc" "bc_frames bc b" h])
      (use assms in \<open>simp_all add: get_frame_unfold next_frame_def bb_bind_def is_bound_def\<close>)
  ultimately show ?thesis by blast
qed

text \<open>A frame that \<open>get_frame\<close> moved before it ran out of memory is lost: it stays among the used frames, and no caller has it.\<close>

lemma frame_lost_on_bad_alloc:
  assumes "bc_ready bc = b # r" and "bc_unbound bc = []" and "copy_fails new_addr (bc_alignment bc) (bc_frames bc b) h"
  shows "\<exists>bc'. get_frame new_addr f (bc, h) = (Inl Bad_alloc, bc', h) \<and> bc_in_use bc' = bc_in_use bc @ [b] \<and> bc_ready bc' = r"
  by (cases rule: ensure_uniq_cases [of new_addr "bc_alignment bc" "bc_frames bc b" h])
    (use assms in \<open>simp_all add: get_frame_unfold next_frame_def moved_def\<close>)

end
