(* ===== verification/Write_Queue.thy ===== *)
theory Write_Queue
  imports Simulation "HOL-Library.Multiset"
begin

text \<open>
  \<open>src/netserver/queue.h\<close> and \<open>src/netserver/write_queue.cpp\<close>, \<open>.h\<close>: the outgoing side of a
  connection. \<open>write\<close> and the completion handler take the mutex for their decision and act after
  they have released it, so each of them is two steps here: \<open>wq_calls\<close> holds the second halves
  of running \<open>write\<close> calls, \<open>wq_ops\<close> the state of the asynchronous operations of the socket.
  A completed operation has put a prefix of its message on the wire (\<open>wq_sent\<close>); whether the
  completion carried an error does not matter, since the handler ignores it. Handlers
  are numbers.
\<close>

section \<open>The synchronized queue\<close>

definition nq_push :: "'a \<Rightarrow> 'a list \<Rightarrow> 'a list" where
  "nq_push x container = container @ [x]"

text \<open>One pass of \<open>pop\<close>: \<open>None\<close> when the caller has to wait.\<close>

definition nq_pop :: "'a list \<Rightarrow> ('a \<times> 'a list) option" where
  "nq_pop container = (case container of [] \<Rightarrow> None | x # xs \<Rightarrow> Some (x, xs))"

definition nq_empty :: "'a list \<Rightarrow> bool" where
  "nq_empty container \<longleftrightarrow> container = []"

section \<open>The write queue\<close>

type_synonym message = "u8 list \<times> nat"

datatype wq_call = Do_push message | Do_send message

datatype wq_op =
    Sending message
  | Completed nat message
  | Resend message
  | Pop_next

record write_queue =
  wq_waits :: bool
  wq_messages_queue :: "message list"
  wq_bytes_unconfirmed :: nat
  wq_messages_unconfirmed :: nat
  wq_calls :: "wq_call list"
  wq_ops :: "wq_op list"
  wq_sent :: "u8 list"

definition write_queue_ctor :: write_queue where
  "write_queue_ctor = \<lparr>wq_waits = False, wq_messages_queue = [], wq_bytes_unconfirmed = 0, wq_messages_unconfirmed = 0,
     wq_calls = [], wq_ops = [], wq_sent = []\<rparr>"

text \<open>The locked part of \<open>write\<close>; \<open>elem_size\<close> is \<open>sizeof(memory_t)\<close>.\<close>

definition wq_write :: "u8 list \<Rightarrow> nat \<Rightarrow> nat \<Rightarrow> write_queue \<Rightarrow> write_queue" where
  "wq_write memory elem_size handler s =
     (let message = (memory, handler);
          s = s\<lparr>wq_bytes_unconfirmed := u64_add (wq_bytes_unconfirmed s) (u64_mul (length memory) elem_size),
                wq_messages_unconfirmed := u64_add (wq_messages_unconfirmed s) 1\<rparr>
      in if wq_waits s then s\<lparr>wq_calls := wq_calls s @ [Do_push message]\<rparr>
         else s\<lparr>wq_waits := True, wq_calls := wq_calls s @ [Do_send message]\<rparr>)"

definition asio_direct_send :: "message \<Rightarrow> write_queue \<Rightarrow> write_queue" where
  "asio_direct_send message s = s\<lparr>wq_ops := wq_ops s @ [Sending message]\<rparr>"

text \<open>The part of \<open>write\<close> after the mutex is released.\<close>

fun wq_finish_write :: "wq_call \<Rightarrow> write_queue \<Rightarrow> write_queue" where
  "wq_finish_write (Do_push m) s = s\<lparr>wq_messages_queue := nq_push m (wq_messages_queue s)\<rparr>"
| "wq_finish_write (Do_send m) s = asio_direct_send m s"

text \<open>The locked part of \<open>handle_write\<close>: what is left to do, \<open>None\<close> for nothing.\<close>

definition handle_write :: "nat \<Rightarrow> message \<Rightarrow> write_queue \<Rightarrow> wq_op option \<times> write_queue" where
  "handle_write bytes_transferred message s =
     (let s = s\<lparr>wq_messages_unconfirmed := u64_sub (wq_messages_unconfirmed s) 1,
                wq_bytes_unconfirmed := u64_sub (wq_bytes_unconfirmed s) bytes_transferred\<rparr>;
          message_size = length (fst message)
      in if message_size \<noteq> bytes_transferred then (Some (Resend (drop bytes_transferred (fst message), snd message)), s)
         else if \<not> nq_empty (wq_messages_queue s) then (Some Pop_next, s)
         else (None, s\<lparr>wq_waits := False\<rparr>))"

definition set_ops :: "wq_op list \<Rightarrow> wq_op option \<Rightarrow> wq_op list \<Rightarrow> write_queue \<Rightarrow> write_queue" where
  "set_ops xs op ys s = s\<lparr>wq_ops := xs @ (case op of None \<Rightarrow> [] | Some op \<Rightarrow> [op]) @ ys\<rparr>"

datatype wq_event = Write "u8 list" | Push | Begin "u8 list" | Transferred nat | Handled | Resent

inductive wq_step :: "write_queue \<Rightarrow> wq_event \<Rightarrow> write_queue \<Rightarrow> bool" where
  write_call: "wq_step s (Write memory) (wq_write memory elem_size handler s)"
| push: "wq_calls s = xs @ Do_push m # ys \<Longrightarrow> wq_step s Push (wq_finish_write (Do_push m) (s\<lparr>wq_calls := xs @ ys\<rparr>))"
| send: "wq_calls s = xs @ Do_send m # ys \<Longrightarrow> wq_step s (Begin (fst m)) (wq_finish_write (Do_send m) (s\<lparr>wq_calls := xs @ ys\<rparr>))"
| transferred: "wq_ops s = xs @ Sending m # ys \<Longrightarrow> n \<le> length (fst m) \<Longrightarrow>
    wq_step s (Transferred n) (set_ops xs (Some (Completed n m)) ys (s\<lparr>wq_sent := wq_sent s @ take n (fst m)\<rparr>))"
| handled: "wq_ops s = xs @ Completed n m # ys \<Longrightarrow> handle_write n m s = (op, s') \<Longrightarrow> wq_step s Handled (set_ops xs op ys s')"
| resent: "wq_ops s = xs @ Resend m # ys \<Longrightarrow> wq_step s Resent (asio_direct_send m (s\<lparr>wq_ops := xs @ ys\<rparr>))"
| pop_next: "wq_ops s = xs @ Pop_next # ys \<Longrightarrow> nq_pop (wq_messages_queue s) = Some (m, q) \<Longrightarrow>
    wq_step s (Begin (fst m)) (asio_direct_send m (s\<lparr>wq_ops := xs @ ys, wq_messages_queue := q\<rparr>))"

section \<open>The byte stream\<close>

fun written :: "wq_event list \<Rightarrow> u8 list list" where
  "written [] = []"
| "written (Write m # h) = m # written h"
| "written (_ # h) = written h"

fun begun :: "wq_event list \<Rightarrow> u8 list list" where
  "begun [] = []"
| "begun (Begin m # h) = m # begun h"
| "begun (_ # h) = begun h"

lemma written_append: "written (h @ h') = written h @ written h'"
  by (induction h rule: written.induct) auto

lemma begun_append: "begun (h @ h') = begun h @ begun h'"
  by (induction h rule: begun.induct) auto

text \<open>The bytes an operation still has to put on the wire.\<close>

fun unsent :: "wq_op \<Rightarrow> u8 list" where
  "unsent (Sending m) = fst m"
| "unsent (Completed n m) = drop n (fst m)"
| "unsent (Resend m) = fst m"
| "unsent Pop_next = []"

fun op_ok :: "message list \<Rightarrow> wq_op \<Rightarrow> bool" where
  "op_ok q (Completed n m) \<longleftrightarrow> n \<le> length (fst m)"
| "op_ok q Pop_next \<longleftrightarrow> q \<noteq> []"
| "op_ok q _ \<longleftrightarrow> True"

fun call_msg :: "wq_call \<Rightarrow> message" where
  "call_msg (Do_push m) = m"
| "call_msg (Do_send m) = m"

fun sends :: "wq_call \<Rightarrow> nat" where
  "sends (Do_send m) = 1"
| "sends (Do_push m) = 0"

definition wq_inv :: "wq_event list \<Rightarrow> write_queue \<Rightarrow> bool" where
  "wq_inv h s \<longleftrightarrow>
     length (wq_ops s) + sum_list (map sends (wq_calls s)) = (if wq_waits s then 1 else 0) \<and>
     list_all (op_ok (wq_messages_queue s)) (wq_ops s) \<and>
     wq_sent s @ concat (map unsent (wq_ops s)) = concat (begun h) \<and>
     mset (written h) = mset (begun h) + mset (map fst (wq_messages_queue s)) + mset (map (fst \<circ> call_msg) (wq_calls s))"

lemma wq_inv_single:
  assumes "wq_inv h s" and "wq_ops s = xs @ op # ys"
  shows "xs = []" and "ys = []" and "wq_waits s" and "sum_list (map sends (wq_calls s)) = 0"
  using assms by (auto simp: wq_inv_def split: if_splits)

interpretation wq: history_invariant wq_step wq_inv
proof unfold_locales
  fix h s ev s' assume inv: "wq_inv h s" and "wq_step s ev s'"
  from this(2) show "wq_inv (h @ [ev]) s'"
  proof (cases rule: wq_step.cases)
    case (write_call memory elem_size handler)
    then show ?thesis using inv by (auto simp: wq_inv_def wq_write_def Let_def written_append begun_append)
  next
    case (push xs m ys)
    have "list_all (op_ok (nq_push m (wq_messages_queue s))) (wq_ops s)"
    proof -
      have "op_ok q op \<Longrightarrow> op_ok (nq_push m q) op" for q op by (cases op) (auto simp: nq_push_def)
      then show ?thesis using inv by (auto simp: wq_inv_def list_all_iff)
    qed
    then show ?thesis using inv push by (auto simp: wq_inv_def written_append begun_append nq_push_def)
  next
    case (send xs m ys)
    then have "wq_ops s = []" "sum_list (map sends (xs @ ys)) = 0" "wq_waits s" using inv by (auto simp: wq_inv_def split: if_splits)
    then show ?thesis using inv send by (auto simp: wq_inv_def asio_direct_send_def written_append begun_append)
  next
    case (transferred xs m ys n)
    then show ?thesis using inv wq_inv_single [OF inv transferred(3)]
      by (auto simp: wq_inv_def set_ops_def written_append begun_append)
  next
    case (handled xs n m ys op s1)
    note one = wq_inv_single [OF inv handled(3)]
    have n: "n \<le> length (fst m)" using inv handled by (auto simp: wq_inv_def)
    consider "length (fst m) \<noteq> n" | "length (fst m) = n" "wq_messages_queue s \<noteq> []" | "length (fst m) = n" "wq_messages_queue s = []" by blast
    then show ?thesis
      by cases (use inv one n handled in \<open>auto simp: wq_inv_def handle_write_def Let_def set_ops_def nq_empty_def written_append begun_append\<close>)
  next
    case (resent xs m ys)
    then show ?thesis using inv wq_inv_single [OF inv resent(3)]
      by (auto simp: wq_inv_def asio_direct_send_def written_append begun_append)
  next
    case (pop_next xs ys m q)
    have "wq_messages_queue s = m # q" using pop_next(4) by (auto simp: nq_pop_def split: list.splits)
    then show ?thesis using inv pop_next wq_inv_single [OF inv pop_next(3)]
      by (auto simp: wq_inv_def asio_direct_send_def written_append begun_append)
  qed
qed

lemma wq_inv_ctor: "wq_inv [] write_queue_ctor"
  by (simp add: wq_inv_def write_queue_ctor_def)

section \<open>Properties\<close>

text \<open>
  C25. Messages do not mix on the wire: in every interleaving of \<open>write\<close> calls from any threads with the
  completions of the socket, however the messages are cut into partial transfers, at most one
  operation is under way, the bytes sent are the messages in the order in which they were begun
  (the last one perhaps cut), and every message written is begun, queued or about to be.
\<close>

theorem write_queue_stream:
  assumes "run wq_step write_queue_ctor evs s"
  shows "length (wq_ops s) \<le> 1 \<and> (\<exists>rest. wq_sent s @ rest = concat (begun evs)) \<and>
    mset (written evs) = mset (begun evs) + mset (map fst (wq_messages_queue s)) + mset (map (fst \<circ> call_msg) (wq_calls s))"
proof -
  have inv: "wq_inv evs s" using wq.hinv_run_start [OF assms wq_inv_ctor] .
  then have "length (wq_ops s) \<le> 1" by (auto simp: wq_inv_def split: if_splits)
  then show ?thesis using inv by (auto simp: wq_inv_def)
qed

theorem write_queue_stream_witness:
  "\<exists>s. run wq_step write_queue_ctor [Write [1, 2], Begin [1, 2], Transferred 1] s \<and>
     (\<exists>rest. wq_sent s @ rest = concat (begun [Write [1, 2], Begin [1, 2], Transferred 1]))"
proof -
  let ?s1 = "wq_write [1, 2] 1 0 write_queue_ctor"
  let ?s2 = "wq_finish_write (Do_send ([1, 2], 0)) (?s1\<lparr>wq_calls := [] @ []\<rparr>)"
  let ?s3 = "set_ops [] (Some (Completed 1 ([1, 2], 0))) [] (?s2\<lparr>wq_sent := wq_sent ?s2 @ take 1 (fst ([1, 2], 0 :: nat))\<rparr>)"
  note d = wq_write_def write_queue_ctor_def Let_def asio_direct_send_def
  have "wq_step write_queue_ctor (Write [1, 2]) ?s1" by (rule wq_step.write_call)
  moreover have "wq_step ?s1 (Begin (fst ([1, 2] :: u8 list, 0 :: nat))) ?s2" by (rule wq_step.send) (simp add: d)
  moreover have "wq_step ?s2 (Transferred 1) ?s3" by (rule wq_step.transferred) (simp_all add: d)
  ultimately have r: "run wq_step write_queue_ctor [Write [1, 2], Begin [1, 2], Transferred 1] ?s3" by (auto intro: run.intros)
  show ?thesis using write_queue_stream [OF r] r by blast
qed

text \<open>
  A message can be stranded: \<open>write\<close> decides to queue a message under the mutex but pushes it after
  releasing it; when the completion handler runs in between, it sees an empty queue and clears
  \<open>waits\<close>. Then the message sits in the queue while nothing is under way and no call is running.
  In the same run the counter of unconfirmed messages of a message sent in two parts has been
  decremented twice, so that it is 0 although the second message is not sent.
\<close>

theorem write_queue_strands_message:
  "\<exists>evs s. run wq_step write_queue_ctor evs s \<and> written evs = [[1, 2], [3]] \<and> wq_sent s = [1, 2] \<and>
     map fst (wq_messages_queue s) = [[3]] \<and> wq_ops s = [] \<and> wq_calls s = [] \<and> \<not> wq_waits s \<and> wq_messages_unconfirmed s = 0"
proof -
  let ?m = "([1, 2], 7) :: message"
  let ?n = "([3], 8) :: message"
  let ?r = "([2], 7) :: message"
  let ?s = "\<lambda>w q b c calls ops sent. \<lparr>wq_waits = w, wq_messages_queue = q, wq_bytes_unconfirmed = b, wq_messages_unconfirmed = c,
     wq_calls = calls, wq_ops = ops, wq_sent = sent\<rparr>"
  note d = wq_write_def write_queue_ctor_def Let_def asio_direct_send_def set_ops_def handle_write_def nq_empty_def nq_push_def
    u64_add_def u64_sub_def u64_mul_def u64_max_def
  have s1: "wq_step write_queue_ctor (Write [1, 2]) (?s True [] 2 1 [Do_send ?m] [] [])"
  proof -
    have "wq_write [1, 2] 1 7 write_queue_ctor = ?s True [] 2 1 [Do_send ?m] [] []" by (simp add: d)
    then show ?thesis using wq_step.write_call [of write_queue_ctor "[1, 2]" 1 7] by (simp only:)
  qed
  have s2: "wq_step (?s True [] 2 1 [Do_send ?m] [] []) (Begin [1, 2]) (?s True [] 2 1 [] [Sending ?m] [])"
    using wq_step.send [of "?s True [] 2 1 [Do_send ?m] [] []" "[]" ?m "[]"] by (simp add: d)
  have s3: "wq_step (?s True [] 2 1 [] [Sending ?m] []) (Transferred 1) (?s True [] 2 1 [] [Completed 1 ?m] [1])"
    using wq_step.transferred [of "?s True [] 2 1 [] [Sending ?m] []" "[]" ?m "[]" 1] by (simp add: d)
  have s4: "wq_step (?s True [] 2 1 [] [Completed 1 ?m] [1]) Handled (?s True [] 1 0 [] [Resend ?r] [1])"
    using wq_step.handled [of "?s True [] 2 1 [] [Completed 1 ?m] [1]" "[]" 1 ?m "[]" "Some (Resend ?r)" "?s True [] 1 0 [] [Completed 1 ?m] [1]"]
    by (simp add: d)
  have s5: "wq_step (?s True [] 1 0 [] [Resend ?r] [1]) Resent (?s True [] 1 0 [] [Sending ?r] [1])"
    using wq_step.resent [of "?s True [] 1 0 [] [Resend ?r] [1]" "[]" ?r "[]"] by (simp add: d)
  have s6: "wq_step (?s True [] 1 0 [] [Sending ?r] [1]) (Write [3]) (?s True [] 2 1 [Do_push ?n] [Sending ?r] [1])"
  proof -
    have "wq_write [3] 1 8 (?s True [] 1 0 [] [Sending ?r] [1]) = ?s True [] 2 1 [Do_push ?n] [Sending ?r] [1]" by (simp add: d)
    then show ?thesis using wq_step.write_call [of "?s True [] 1 0 [] [Sending ?r] [1]" "[3]" 1 8] by (simp only:)
  qed
  have s7: "wq_step (?s True [] 2 1 [Do_push ?n] [Sending ?r] [1]) (Transferred 1) (?s True [] 2 1 [Do_push ?n] [Completed 1 ?r] [1, 2])"
    using wq_step.transferred [of "?s True [] 2 1 [Do_push ?n] [Sending ?r] [1]" "[]" ?r "[]" 1] by (simp add: d)
  have s8: "wq_step (?s True [] 2 1 [Do_push ?n] [Completed 1 ?r] [1, 2]) Handled (?s False [] 1 0 [Do_push ?n] [] [1, 2])"
    using wq_step.handled [of "?s True [] 2 1 [Do_push ?n] [Completed 1 ?r] [1, 2]" "[]" 1 ?r "[]" None
      "?s False [] 1 0 [Do_push ?n] [Completed 1 ?r] [1, 2]"]
    by (simp add: d)
  have s9: "wq_step (?s False [] 1 0 [Do_push ?n] [] [1, 2]) Push (?s False [?n] 1 0 [] [] [1, 2])"
    using wq_step.push [of "?s False [] 1 0 [Do_push ?n] [] [1, 2]" "[]" ?n "[]"] by (simp add: d)
  let ?evs = "[Write [1, 2], Begin [1, 2], Transferred 1, Handled, Resent, Write [3], Transferred 1, Handled, Push]"
  have "run wq_step write_queue_ctor ?evs (?s False [?n] 1 0 [] [] [1, 2])"
    by (rule run.run_Cons, rule s1, rule run.run_Cons, rule s2, rule run.run_Cons, rule s3, rule run.run_Cons, rule s4, rule run.run_Cons,
      rule s5, rule run.run_Cons, rule s6, rule run.run_Cons, rule s7, rule run.run_Cons, rule s8, rule run.run_Cons, rule s9, rule run.run_Nil)
  then show ?thesis by (intro exI [of _ ?evs] exI [of _ "?s False [?n] 1 0 [] [] [1, 2]"]) simp
qed

end
