(* ===== verification/Journal.thy ===== *)
theory Journal
  imports Worker_Pool Std_Containers Multi_Buffer
begin

text \<open>
  \<open>src/journal/journal.cpp\<close>, \<open>journal_file.cpp\<close> and their headers: the journal thread takes insert
  and erase requests from a queue and leaves the callbacks to a pool of workers. The requests'
  buffers are multi-buffers, callbacks are numbers, and the calls of users' callbacks are
  collected in \<open>j_log\<close>. The block and the file operations are the stubs of \<open>journal_file.cpp\<close>;
  \<open>max_handle\<close> and the block's header are not initialized by the constructor, so their first
  values are arguments. What \<open>recs_data\<close> points to is a function from offsets to records; the loop
  over the records of a block ends only if their sizes make progress, so it is a partial function.
\<close>

section \<open>Blocks and files\<close>

datatype rec_type = INSERT_REC | ERASE_REC

record journal_record =
  jr_rec_size :: nat
  jr_rec_type :: rec_type
  jr_owner :: nat
  jr_handle :: nat

record journal_block =
  jb_rec_sum_size :: nat
  jb_checksum :: nat
  jb_recs_data :: "nat \<Rightarrow> journal_record"

text \<open>\<open>for_each_record\<close> with the body of its only use, which logs owner and handle.\<close>

partial_function (option) for_each_record :: "journal_block \<Rightarrow> nat \<Rightarrow> (nat \<times> nat) list \<Rightarrow> (nat \<times> nat) list option" where
  "for_each_record b offset trace =
     (if offset < jb_rec_sum_size b
      then for_each_record b (u64_add offset (jr_rec_size (jb_recs_data b offset)))
             (trace @ [(jr_owner (jb_recs_data b offset), jr_handle (jb_recs_data b offset))])
      else Some trace)"

definition jb_clear :: "journal_block \<Rightarrow> journal_block" where
  "jb_clear b = b"

definition append_insert_record :: "nat \<Rightarrow> nat \<Rightarrow> multi_buffer \<Rightarrow> journal_block \<Rightarrow> bool \<times> journal_block" where
  "append_insert_record owner handle buf b = (False, b)"

definition append_erase_record :: "nat \<Rightarrow> nat \<Rightarrow> journal_block \<Rightarrow> bool \<times> journal_block" where
  "append_erase_record owner handle b = (False, b)"

definition ready_to_sync :: "journal_block \<Rightarrow> bool" where
  "ready_to_sync b = False"

definition write_block :: "journal_block \<Rightarrow> 'file \<Rightarrow> 'file" where
  "write_block b f = f"

section \<open>Requests\<close>

record insert_req =
  ir_owner :: nat
  ir_buf :: multi_buffer
  ir_cb :: nat

record erase_req =
  er_owner :: nat
  er_handle :: nat
  er_cb :: nat

datatype internal_req = Insert_req insert_req | Erase_req erase_req

datatype cb_req = Insert_cb_req nat nat bool | Erase_cb_req nat nat bool

datatype journal_callback = Insert_success nat nat multi_buffer nat | Erase_success nat nat nat

record 'file journal =
  j_insert_reqs :: "((nat \<times> nat) \<times> insert_req) list"
  j_erase_reqs :: "((nat \<times> nat) \<times> erase_req) list"
  j_reqs :: "internal_req sync_queue"
  j_cb_workers :: "cb_req pool"
  j_max_handle :: nat
  j_MAX_REC_SIZE :: nat
  j_BLOCKS_NUM :: nat
  j_file :: 'file
  j_block_buf :: journal_block
  j_log :: "journal_callback list"

definition journal_ctor :: "nat \<Rightarrow> journal_block \<Rightarrow> 'file \<Rightarrow> 'file journal" where
  "journal_ctor garbage block f =
     \<lparr>j_insert_reqs = [], j_erase_reqs = [], j_reqs = sync_queue_ctor, j_cb_workers = pool_start 2 worker_pool_ctor,
      j_max_handle = garbage, j_MAX_REC_SIZE = 1024, j_BLOCKS_NUM = 100, j_file = f, j_block_buf = block, j_log = []\<rparr>"

text \<open>The destructor closes the queue and stops the callback workers before it joins the journal thread.\<close>

definition journal_dtor :: "'file journal \<Rightarrow> 'file journal" where
  "journal_dtor j = j\<lparr>j_reqs := no_more_input (j_reqs j), j_cb_workers := pool_stop (j_cb_workers j)\<rparr>"

definition journal_insert :: "nat \<Rightarrow> multi_buffer \<Rightarrow> nat \<Rightarrow> 'file journal \<Rightarrow> 'file journal res" where
  "journal_insert owner buf cb j =
     bind_res (sq_push (Insert_req \<lparr>ir_owner = owner, ir_buf = buf, ir_cb = cb\<rparr>) (j_reqs j)) (\<lambda>q. Inr (j\<lparr>j_reqs := q\<rparr>))"

definition journal_erase :: "nat \<Rightarrow> nat \<Rightarrow> nat \<Rightarrow> 'file journal \<Rightarrow> 'file journal res" where
  "journal_erase owner handle cb j =
     bind_res (sq_push (Erase_req \<lparr>er_owner = owner, er_handle = handle, er_cb = cb\<rparr>) (j_reqs j)) (\<lambda>q. Inr (j\<lparr>j_reqs := q\<rparr>))"

text \<open>\<open>m[k] = v\<close> and \<open>get_map_val\<close>.\<close>

definition om_assign :: "'k::linorder \<Rightarrow> 'v \<Rightarrow> ('k \<times> 'v) list \<Rightarrow> ('k \<times> 'v) list" where
  "om_assign k v m = om_insert k v (om_erase k m)"

definition get_map_val :: "('k \<times> 'v) list \<Rightarrow> 'k \<Rightarrow> 'v res" where
  "get_map_val m k = (case om_find k m of None \<Rightarrow> Inl R_assert | Some v \<Rightarrow> Inr v)"

definition insert_execute :: "insert_req \<Rightarrow> 'file journal \<Rightarrow> 'file journal res option" where
  "insert_execute r j =
     (let handle = j_max_handle j;
          j = j\<lparr>j_max_handle := u32_add handle 1, j_insert_reqs := om_assign (ir_owner r, handle) r (j_insert_reqs j)\<rparr>;
          (appended, b) = append_insert_record (ir_owner r) handle (ir_buf r) (j_block_buf j);
          j = j\<lparr>j_block_buf := b\<rparr>;
          synced = (if ready_to_sync (j_block_buf j) \<or> \<not> appended
               then map_option (\<lambda>_. j\<lparr>j_file := write_block (j_block_buf j) (j_file j), j_block_buf := jb_clear (j_block_buf j)\<rparr>)
                      (for_each_record (j_block_buf j) 0 [])
               else Some j)
      in map_option (\<lambda>j.
           if \<not> appended
           then (case append_insert_record handle (ir_owner r) (ir_buf r) (j_block_buf j) of
                   (ok, b) \<Rightarrow> r_assert ok (Inr (j\<lparr>j_block_buf := b\<rparr>)))
           else Inr j) synced)"

text \<open>\<open>erase_req::execute\<close> is two accesses to shared data: it stores the request in the map, without a lock, and schedules the callback.\<close>

definition erase_store :: "erase_req \<Rightarrow> 'file journal \<Rightarrow> 'file journal" where
  "erase_store r j = j\<lparr>j_erase_reqs := om_assign (er_owner r, er_handle r) r (j_erase_reqs j)\<rparr>"

definition erase_schedule :: "erase_req \<Rightarrow> nat option \<Rightarrow> 'file journal \<Rightarrow> 'file journal res" where
  "erase_schedule r w j =
     bind_res (schedule_work (Erase_cb_req (er_owner r) (er_handle r) True) w (j_cb_workers j)) (\<lambda>p. Inr (j\<lparr>j_cb_workers := p\<rparr>))"

definition erase_execute :: "erase_req \<Rightarrow> nat option \<Rightarrow> 'file journal \<Rightarrow> 'file journal res" where
  "erase_execute r w j = erase_schedule r w (erase_store r j)"

definition journal_execute :: "internal_req \<Rightarrow> nat option \<Rightarrow> 'file journal \<Rightarrow> 'file journal res option" where
  "journal_execute req w j = (case req of Insert_req r \<Rightarrow> insert_execute r j | Erase_req r \<Rightarrow> Some (erase_execute r w j))"

text \<open>
  One round of the journal thread: \<open>Inr None\<close> when it finishes or has to wait, \<open>None\<close> when
  executing the request does not return.
\<close>

definition journal_thread_round :: "nat option \<Rightarrow> 'file journal \<Rightarrow> 'file journal option res option" where
  "journal_thread_round w j = (case sq_pop (j_reqs j) of
     (Pop_item req, q) \<Rightarrow> map_option (\<lambda>x. bind_res x (\<lambda>j. Inr (Some j))) (journal_execute req w (j\<lparr>j_reqs := q\<rparr>))
   | _ \<Rightarrow> Some (Inr None))"

text \<open>Executing a callback request finds the request in the map, again without a lock, and then calls the user's callback.\<close>

fun cb_lookup :: "cb_req \<Rightarrow> 'file journal \<Rightarrow> internal_req res" where
  "cb_lookup (Insert_cb_req owner handle success) j = bind_res (get_map_val (j_insert_reqs j) (owner, handle)) (\<lambda>r. Inr (Insert_req r))"
| "cb_lookup (Erase_cb_req owner handle success) j = bind_res (get_map_val (j_erase_reqs j) (owner, handle)) (\<lambda>r. Inr (Erase_req r))"

fun cb_answer :: "cb_req \<Rightarrow> internal_req \<Rightarrow> 'file journal \<Rightarrow> 'file journal res" where
  "cb_answer (Insert_cb_req owner handle success) (Insert_req r) j =
     r_assert (ir_owner r = owner) (Inr (j\<lparr>j_log := j_log j @ [Insert_success (ir_cb r) (ir_owner r) (ir_buf r) handle]\<rparr>))"
| "cb_answer (Erase_cb_req owner handle success) (Erase_req r) j =
     r_assert (er_owner r = owner) (Inr (j\<lparr>j_log := j_log j @ [Erase_success (er_cb r) (er_owner r) (er_handle r)]\<rparr>))"
| "cb_answer _ _ j = Inl Bad_access"

definition cb_execute :: "cb_req \<Rightarrow> 'file journal \<Rightarrow> 'file journal res" where
  "cb_execute req j = bind_res (cb_lookup req j) (\<lambda>r. cb_answer req r j)"

section \<open>Erasing works, inserting aborts\<close>

lemma om_find_assign: "om_inv m \<Longrightarrow> om_find k (om_assign k v m) = Some v"
  unfolding om_assign_def by (rule std_map.look_ins_same) (auto simp: om_inv_erase set_om_erase)

lemma om_find_erase_other: "k \<noteq> k' \<Longrightarrow> om_find k (om_erase k' m) = om_find k m"
  by (induction m) (auto simp: om_find_def om_erase_def)

lemma om_find_assign_other: "om_inv m \<Longrightarrow> k \<noteq> k' \<Longrightarrow> om_find k (om_assign k' v m) = om_find k m"
  unfolding om_assign_def by (simp add: std_map.look_ins_other om_inv_erase om_find_erase_other)

lemma om_inv_assign: "om_inv m \<Longrightarrow> om_inv (om_assign k v m)"
  by (simp add: om_assign_def om_inv_insert om_inv_erase)

definition journal_ok :: "'file journal \<Rightarrow> bool" where
  "journal_ok j \<longleftrightarrow> om_inv (j_erase_reqs j) \<and> (\<forall>k r. om_find k (j_erase_reqs j) = Some r \<longrightarrow> k = (er_owner r, er_handle r))"

lemma erase_execute_ok:
  assumes "journal_ok j" and "\<not> sq_no_more_data (p_queue (j_cb_workers j))"
  shows "\<exists>j'. erase_execute r w j = Inr j' \<and> journal_ok j' \<and>
    cb_execute (Erase_cb_req (er_owner r) (er_handle r) True) j' =
      Inr (j'\<lparr>j_log := j_log j' @ [Erase_success (er_cb r) (er_owner r) (er_handle r)]\<rparr>)"
proof -
  let ?m = "om_assign (er_owner r, er_handle r) r (j_erase_reqs j)"
  have inv: "om_inv (j_erase_reqs j)" using assms(1) by (simp add: journal_ok_def)
  obtain p where p: "schedule_work (Erase_cb_req (er_owner r) (er_handle r) True) w (j_cb_workers j) = Inr p"
    using assms(2) by (simp add: schedule_work_def sq_push_def)
  have "om_find k ?m = Some r' \<longrightarrow> k = (er_owner r', er_handle r')" for k r'
    using assms(1) om_find_assign [OF inv] om_find_assign_other [OF inv]
    by (cases k; cases "k = (er_owner r, er_handle r)") (auto simp: journal_ok_def)
  then have "journal_ok (j\<lparr>j_erase_reqs := ?m, j_cb_workers := p\<rparr>)" using om_inv_assign [OF inv] by (simp add: journal_ok_def)
  then show ?thesis using p om_find_assign [OF inv, of "(er_owner r, er_handle r)" r]
    by (simp add: erase_execute_def erase_store_def erase_schedule_def cb_execute_def get_map_val_def)
qed

section \<open>Inserting\<close>

lemma insert_execute_cases:
  "insert_execute r j = map_option (\<lambda>_. Inl R_assert) (for_each_record (j_block_buf j) 0 [])"
  by (simp add: insert_execute_def append_insert_record_def Let_def map_option.compositionality comp_def)

text \<open>
  No insert ever succeeds: \<open>append_insert_record\<close> never appends, so the journal thread that
  executes an insert request fails the release assertion after the retry (which also swaps owner
  and handle) whenever the loop over the records of the block returns, in particular when the
  block is empty; an erase request in an open journal, in contrast, schedules its callback, and
  executing that reports the request's owner and handle.
\<close>

theorem journal_insert_aborts:
  "insert_execute r j \<noteq> Some (Inr j'') \<and>
   (jb_rec_sum_size (j_block_buf j) = 0 \<longrightarrow> insert_execute r j = Some (Inl R_assert)) \<and>
   (journal_ok j \<and> \<not> sq_no_more_data (p_queue (j_cb_workers j)) \<longrightarrow>
      (\<exists>j'. erase_execute e w j = Inr j' \<and> journal_ok j' \<and>
         cb_execute (Erase_cb_req (er_owner e) (er_handle e) True) j' =
           Inr (j'\<lparr>j_log := j_log j' @ [Erase_success (er_cb e) (er_owner e) (er_handle e)]\<rparr>)))"
  using erase_execute_ok [of j e w] by (auto simp: insert_execute_cases for_each_record.simps [of _ 0])

definition sample_journal :: "unit journal" where
  "sample_journal = journal_ctor 0 \<lparr>jb_rec_sum_size = 0, jb_checksum = 0,
     jb_recs_data = \<lambda>_. \<lparr>jr_rec_size = 0, jr_rec_type = INSERT_REC, jr_owner = 0, jr_handle = 0\<rparr>\<rparr> ()"

text \<open>
  After the destructor has stopped the callback workers, the journal thread still executes the
  requests that were queued, and an erase among them fails the assertion in \<open>push\<close>.
\<close>

lemma journal_dtor_race: "erase_execute r w (journal_dtor j) = Inl D_assert"
  by (simp add: erase_execute_def erase_store_def erase_schedule_def journal_dtor_def pool_stop_def no_more_input_def schedule_work_def sq_push_def Let_def)

end
