(* ===== verification/Journal_Runs.thy ===== *)
theory Journal_Runs
  imports Journal Aio
begin

text \<open>
  The journal in operation: clients that erase, the journal thread, and the two callback workers (\<open>journal_callback_worker\<close>) on
  their pool, in any interleaving. Clients only erase here, because an insert aborts the process (\<open>Journal\<close>). A call is
  recorded as the request it makes.

  The map \<open>erase_reqs\<close> has no lock: the journal thread stores into it while the workers search it. Storing and searching are
  therefore intervals with a beginning and an end here, and when a store and a search overlap the state is marked as raced. What
  a \<open>std::map\<close> does then is undefined, so nothing follows a raced state.
\<close>

section \<open>Steps\<close>

datatype thread_phase = J_idle | J_storing erase_req | J_scheduling erase_req

datatype lookup_phase = Cb_searching cb_req | Cb_found cb_req internal_req

record 'file jrun =
  jn_journal :: "'file journal"
  jn_thread :: thread_phase
  jn_lookups :: "nat \<Rightarrow> lookup_phase option"
  jn_race :: bool

definition jrun_start :: "'file journal \<Rightarrow> 'file jrun" where
  "jrun_start j = \<lparr>jn_journal = j, jn_thread = J_idle, jn_lookups = (\<lambda>_. None), jn_race = False\<rparr>"

datatype journal_event = Erase_call erase_req | Begin_store | End_store | Schedule_callback | Begin_search nat | End_search nat
  | Callback_pool "cb_req pool_event"

definition storing :: "'file jrun \<Rightarrow> bool" where
  "storing s \<longleftrightarrow> (\<exists>r. jn_thread s = J_storing r)"

definition searching :: "'file jrun \<Rightarrow> bool" where
  "searching s \<longleftrightarrow> (\<exists>i req. jn_lookups s i = Some (Cb_searching req))"

text \<open>\<open>journal_callback_worker::handle\<close>: the search and the callback, which the steps below take apart.\<close>

definition callback_worker_handle :: "cb_req \<Rightarrow> 'file journal \<Rightarrow> 'file journal res" where
  "callback_worker_handle t j = cb_execute t j"

lemma callback_worker_parts:
  "callback_worker_handle t j = Inr j' \<longleftrightarrow> (\<exists>x. cb_lookup t j = Inr x \<and> cb_answer t x j = Inr j')"
  by (auto simp: callback_worker_handle_def cb_execute_def res_simps)

text \<open>The journal thread takes a request (\<open>begin_store\<close>), has it stored (\<open>end_store\<close>) and schedules its callback; this is its round.\<close>

inductive journal_step :: "'file jrun \<Rightarrow> journal_event \<Rightarrow> 'file jrun \<Rightarrow> bool" where
  erase_call: "\<not> jn_race s \<Longrightarrow> journal_erase (er_owner r) (er_handle r) (er_cb r) (jn_journal s) = Inr j \<Longrightarrow>
    journal_step s (Erase_call r) (s\<lparr>jn_journal := j\<rparr>)"
| begin_store: "\<not> jn_race s \<Longrightarrow> jn_thread s = J_idle \<Longrightarrow> sq_pop (j_reqs (jn_journal s)) = (Pop_item (Erase_req r), q) \<Longrightarrow>
    journal_step s Begin_store (s\<lparr>jn_journal := (jn_journal s)\<lparr>j_reqs := q\<rparr>, jn_thread := J_storing r, jn_race := searching s\<rparr>)"
| end_store: "\<not> jn_race s \<Longrightarrow> jn_thread s = J_storing r \<Longrightarrow>
    journal_step s End_store (s\<lparr>jn_journal := erase_store r (jn_journal s), jn_thread := J_scheduling r\<rparr>)"
| schedule_callback: "\<not> jn_race s \<Longrightarrow> jn_thread s = J_scheduling r \<Longrightarrow> wakes w (j_cb_workers (jn_journal s)) \<Longrightarrow>
    erase_schedule r w (jn_journal s) = Inr j \<Longrightarrow> journal_step s Schedule_callback (s\<lparr>jn_journal := j, jn_thread := J_idle\<rparr>)"
| begin_search: "\<not> jn_race s \<Longrightarrow> i < length (p_workers (j_cb_workers (jn_journal s))) \<Longrightarrow>
    p_workers (j_cb_workers (jn_journal s)) ! i = Handling req \<Longrightarrow> jn_lookups s i = None \<Longrightarrow>
    journal_step s (Begin_search i) (s\<lparr>jn_lookups := (jn_lookups s)(i := Some (Cb_searching req)), jn_race := storing s\<rparr>)"
| end_search: "\<not> jn_race s \<Longrightarrow> jn_lookups s i = Some (Cb_searching req) \<Longrightarrow> cb_lookup req (jn_journal s) = Inr x \<Longrightarrow>
    journal_step s (End_search i) (s\<lparr>jn_lookups := (jn_lookups s)(i := Some (Cb_found req x))\<rparr>)"
| callback: "\<not> jn_race s \<Longrightarrow> jn_lookups s i = Some (Cb_found req x) \<Longrightarrow> pool_step (j_cb_workers (jn_journal s)) (Handled i req) p \<Longrightarrow>
    cb_answer req x (jn_journal s) = Inr j \<Longrightarrow>
    journal_step s (Callback_pool (Handled i req)) (s\<lparr>jn_journal := j\<lparr>j_cb_workers := p\<rparr>, jn_lookups := (jn_lookups s)(i := None)\<rparr>)"
| pool: "\<not> jn_race s \<Longrightarrow> pool_step (j_cb_workers (jn_journal s)) ev p \<Longrightarrow> (\<forall>i req. ev \<noteq> Handled i req) \<Longrightarrow> (\<forall>req. ev \<noteq> Schedule req) \<Longrightarrow>
    journal_step s (Callback_pool ev) (s\<lparr>jn_journal := (jn_journal s)\<lparr>j_cb_workers := p\<rparr>\<rparr>)"

text \<open>A round of the journal thread on an erase request, as \<open>Journal\<close> has it, is its three steps.\<close>

lemma thread_round_steps:
  assumes r: "journal_thread_round w (jn_journal s) = Some (Inr (Some j'))" and w: "wakes w (j_cb_workers (jn_journal s))"
    and q: "sq_q (j_reqs (jn_journal s)) = Erase_req e # xs" and s: "\<not> jn_race s" "jn_thread s = J_idle" "\<not> searching s"
  shows "run journal_step s [Begin_store, End_store, Schedule_callback] (s\<lparr>jn_journal := j'\<rparr>)"
proof -
  let ?q = "(j_reqs (jn_journal s))\<lparr>sq_q := xs\<rparr>"
  let ?s1 = "s\<lparr>jn_journal := (jn_journal s)\<lparr>j_reqs := ?q\<rparr>, jn_thread := J_storing e, jn_race := False\<rparr>"
  let ?s2 = "?s1\<lparr>jn_journal := erase_store e (jn_journal ?s1), jn_thread := J_scheduling e\<rparr>"
  have pop: "sq_pop (j_reqs (jn_journal s)) = (Pop_item (Erase_req e), ?q)" using q by (simp add: sq_pop_def)
  have "journal_step s Begin_store (s\<lparr>jn_journal := (jn_journal s)\<lparr>j_reqs := ?q\<rparr>, jn_thread := J_storing e, jn_race := searching s\<rparr>)"
    by (rule journal_step.begin_store [OF s(1,2) pop])
  then have s1: "journal_step s Begin_store ?s1" using s(3) by simp
  have "journal_step ?s1 End_store ?s2" by (rule journal_step.end_store) simp_all
  moreover have ex: "erase_schedule e w (jn_journal ?s2) = Inr j'"
    using r pop by (simp add: journal_thread_round_def journal_execute_def erase_execute_def res_simps)
  have "journal_step ?s2 Schedule_callback (?s2\<lparr>jn_journal := j', jn_thread := J_idle\<rparr>)"
    by (rule journal_step.schedule_callback [OF _ _ _ ex]) (use w in \<open>simp_all add: erase_store_def\<close>)
  moreover have "?s2\<lparr>jn_journal := j', jn_thread := J_idle\<rparr> = s\<lparr>jn_journal := j'\<rparr>" using s by simp
  ultimately show ?thesis using s1 by (metis run.run_Cons run.run_Nil)
qed

fun erase_calls :: "journal_event list \<Rightarrow> erase_req list" where
  "erase_calls [] = []"
| "erase_calls (Erase_call r # evs) = r # erase_calls evs"
| "erase_calls (_ # evs) = erase_calls evs"

lemma erase_calls_append: "erase_calls (xs @ ys) = erase_calls xs @ erase_calls ys"
  by (induction xs rule: erase_calls.induct) auto

section \<open>The invariant\<close>

definition erase_key :: "erase_req \<Rightarrow> nat \<times> nat" where
  "erase_key r = (er_owner r, er_handle r)"

definition erase_answer :: "erase_req \<Rightarrow> journal_callback" where
  "erase_answer r = Erase_success (er_cb r) (er_owner r) (er_handle r)"

fun cb_key :: "cb_req \<Rightarrow> nat \<times> nat" where
  "cb_key (Insert_cb_req ow h _) = (ow, h)"
| "cb_key (Erase_cb_req ow h _) = (ow, h)"

fun answer_key :: "journal_callback \<Rightarrow> nat \<times> nat" where
  "answer_key (Insert_success _ ow _ h) = (ow, h)"
| "answer_key (Erase_success _ ow h) = (ow, h)"

fun req_of :: "internal_req \<Rightarrow> erase_req option" where
  "req_of (Erase_req r) = Some r"
| "req_of _ = None"

definition queued :: "'file journal \<Rightarrow> erase_req list" where
  "queued j = List.map_filter req_of (sq_q (j_reqs j))"

fun in_thread :: "thread_phase \<Rightarrow> erase_req list" where
  "in_thread J_idle = []"
| "in_thread (J_storing r) = [r]"
| "in_thread (J_scheduling r) = [r]"

definition cb_stored :: "'file journal \<Rightarrow> cb_req \<Rightarrow> bool" where
  "cb_stored j x \<longleftrightarrow> (\<exists>ow h. x = Erase_cb_req ow h True \<and> om_find (ow, h) (j_erase_reqs j) \<noteq> None)"

definition lookup_ok :: "erase_req list \<Rightarrow> 'file journal \<Rightarrow> lookup_phase \<Rightarrow> bool" where
  "lookup_ok rs j l = (case l of
     Cb_searching req \<Rightarrow> cb_stored j req
   | Cb_found req x \<Rightarrow> (\<exists>r \<in> set rs. x = Erase_req r \<and> req = Erase_cb_req (er_owner r) (er_handle r) True))"

definition jr_inv :: "erase_req list \<Rightarrow> 'file jrun \<Rightarrow> bool" where
  "jr_inv rs s \<longleftrightarrow> journal_ok (jn_journal s) \<and>
     (\<forall>x \<in> set (sq_q (j_reqs (jn_journal s))). \<exists>r \<in> set rs. x = Erase_req r) \<and>
     set (in_thread (jn_thread s)) \<subseteq> set rs \<and>
     (\<forall>r. jn_thread s = J_scheduling r \<longrightarrow> om_find (erase_key r) (j_erase_reqs (jn_journal s)) \<noteq> None) \<and>
     (\<forall>k r. om_find k (j_erase_reqs (jn_journal s)) = Some r \<longrightarrow> r \<in> set rs) \<and>
     (\<forall>x \<in># pending (j_cb_workers (jn_journal s)). cb_stored (jn_journal s) x) \<and>
     (\<forall>i l. jn_lookups s i = Some l \<longrightarrow> lookup_ok rs (jn_journal s) l) \<and>
     (\<forall>a \<in> set (j_log (jn_journal s)). \<exists>r \<in> set rs. a = erase_answer r) \<and>
     image_mset erase_key (mset rs) =
       image_mset erase_key (mset (queued (jn_journal s))) + image_mset erase_key (mset (in_thread (jn_thread s))) +
       image_mset cb_key (pending (j_cb_workers (jn_journal s))) + image_mset answer_key (mset (j_log (jn_journal s)))"

lemma answer_key_answer [simp]: "answer_key (erase_answer r) = erase_key r"
  by (simp add: erase_answer_def erase_key_def)

text \<open>What scheduling, taking and handling do to the pending work of a pool, whatever its history.\<close>

lemma pending_schedule:
  assumes "wakes w p" and "schedule_work x w p = Inr p'"
  shows "pending p' = add_mset x (pending p)"
proof (cases w)
  case None
  then show ?thesis using assms(2) by (auto simp: schedule_work_def sq_push_def notify_def pending_def res_simps)
next
  case (Some i)
  then have i: "i < length (p_workers p)" "p_workers p ! i = Waiting" using assms(1) by (simp_all add: wakes_def)
  then have "in_hands ((p_workers p)[i := Notified]) = in_hands (p_workers p)" by (intro in_hands_same) simp_all
  then show ?thesis using assms(2) Some
    by (auto simp: schedule_work_def sq_push_def notify_def set_worker_def pending_def res_simps)
qed

lemma pending_handled:
  assumes "pool_step p (Handled i x) p'"
  shows "pending p = add_mset x (pending p')"
  using assms
proof (cases rule: pool_step.cases)
  case handled
  then show ?thesis using in_hands_upd [OF handled(2), of At_pop] by (simp add: pending_def set_worker_def)
qed

lemma in_hands_stop: "in_hands (map (\<lambda>w. case w of Waiting \<Rightarrow> Notified | _ \<Rightarrow> w) ws) = in_hands ws"
  unfolding in_hands_def by (induction ws) (auto split: wstate.split)

lemma in_hands_Nil [simp]: "in_hands [] = {#}"
  by (simp add: in_hands_def)

lemma in_hands_finished: "set ws \<subseteq> {Finished} \<Longrightarrow> in_hands ws = {#}"
  unfolding in_hands_def by (induction ws) auto

lemma pending_internal:
  assumes "pool_step p ev p'" and "\<forall>i x. ev \<noteq> Handled i x" and "\<forall>x. ev \<noteq> Schedule x"
  shows "pending p' = pending p"
  using assms(1)
proof (cases rule: pool_step.cases)
  case (start n)
  have "in_hands (replicate n At_pop :: 'a wstate list) = {#}" unfolding in_hands_def by (induction n) simp_all
  then show ?thesis using start by (simp add: pool_start_def pending_def in_hands_def)
next
  case (pop i r)
  have hand: "in_hand (p_workers p ! i) = {#}" using pop(3) by auto
  have upd: "in_hands ((p_workers p)[i := w]) = in_hands (p_workers p) + in_hand w" for w
    using in_hands_upd [OF pop(2), of w] hand by simp
  show ?thesis using pop(4) upd
    by (cases "sq_q (p_queue p)") (auto simp: worker_pop_def sq_pop_def set_worker_def pending_def split: if_splits)
next
  case (spurious i)
  then show ?thesis using in_hands_same [OF spurious(3), of Notified] by (simp add: set_worker_def pending_def)
qed (use assms in \<open>auto simp: pool_stop_def no_more_input_def pending_def in_hands_stop pool_join_def in_hands_finished\<close>)

section \<open>Every step keeps it\<close>

lemma lookup_ok_mono:
  assumes "lookup_ok rs j l" and "set rs \<subseteq> set rs'" and "\<And>x. cb_stored j x \<Longrightarrow> cb_stored j' x"
  shows "lookup_ok rs' j' l"
  using assms by (auto simp: lookup_ok_def split: lookup_phase.splits)

lemma erase_call_inv:
  assumes "jr_inv rs s" and "journal_erase (er_owner r) (er_handle r) (er_cb r) (jn_journal s) = Inr j"
  shows "jr_inv (rs @ [r]) (s\<lparr>jn_journal := j\<rparr>)"
proof -
  let ?j = "jn_journal s"
  have j: "j = ?j\<lparr>j_reqs := (j_reqs ?j)\<lparr>sq_q := sq_q (j_reqs ?j) @ [Erase_req r]\<rparr>\<rparr>"
    using assms(2) by (auto simp: journal_erase_def sq_push_def res_simps)
  have q: "queued j = queued ?j @ [r]" by (simp add: j queued_def map_filter_def)
  have st: "cb_stored j = cb_stored ?j" by (simp add: cb_stored_def fun_eq_iff j)
  have lk: "lookup_ok (rs @ [r]) j l" if "jn_lookups s i = Some l" for i l
    by (rule lookup_ok_mono [of rs ?j]) (use assms(1) that st in \<open>auto simp: jr_inv_def\<close>)
  show ?thesis using assms(1) lk unfolding jr_inv_def by (auto simp: q st) (auto simp: j journal_ok_def)
qed

lemma begin_store_inv:
  assumes inv: "jr_inv rs s" and t: "jn_thread s = J_idle" and p: "sq_pop (j_reqs (jn_journal s)) = (Pop_item (Erase_req r), q)"
  shows "jr_inv rs (s\<lparr>jn_journal := (jn_journal s)\<lparr>j_reqs := q\<rparr>, jn_thread := J_storing r, jn_race := b\<rparr>)"
proof -
  let ?j = "jn_journal s"
  have q: "sq_q (j_reqs ?j) = Erase_req r # sq_q q" using p by (cases "sq_q (j_reqs ?j)") (auto simp: sq_pop_def split: if_splits)
  have qs: "queued ?j = r # queued (?j\<lparr>j_reqs := q\<rparr>)" by (simp add: queued_def q map_filter_simps)
  have st: "cb_stored (?j\<lparr>j_reqs := q\<rparr>) = cb_stored ?j" by (simp add: cb_stored_def fun_eq_iff)
  have lk: "lookup_ok rs (?j\<lparr>j_reqs := q\<rparr>) l" if "jn_lookups s i = Some l" for i l
    by (rule lookup_ok_mono [of rs ?j]) (use inv that st in \<open>auto simp: jr_inv_def\<close>)
  show ?thesis using inv t lk unfolding jr_inv_def qs by (auto simp: st q journal_ok_def)
qed

lemma end_store_inv:
  assumes inv: "jr_inv rs s" and t: "jn_thread s = J_storing r"
  shows "jr_inv rs (s\<lparr>jn_journal := erase_store r (jn_journal s), jn_thread := J_scheduling r\<rparr>)"
proof -
  let ?j = "jn_journal s" and ?j' = "erase_store r (jn_journal s)"
  have om: "om_inv (j_erase_reqs ?j)" using inv by (simp add: jr_inv_def journal_ok_def)
  have rs: "r \<in> set rs" using inv t by (simp add: jr_inv_def)
  have find: "om_find k (j_erase_reqs ?j') = (if k = erase_key r then Some r else om_find k (j_erase_reqs ?j))" for k
    using om_find_assign [OF om] om_find_assign_other [OF om] by (simp add: erase_store_def erase_key_def)
  have ok: "journal_ok ?j'" using inv find om_inv_assign [OF om]
    by (auto simp: journal_ok_def jr_inv_def erase_store_def erase_key_def)
  have st: "cb_stored ?j' x" if "cb_stored ?j x" for x using that find by (auto simp: cb_stored_def)
  have lk: "lookup_ok rs ?j' l" if "jn_lookups s i = Some l" for i l
    by (rule lookup_ok_mono [of rs ?j]) (use inv that st in \<open>auto simp: jr_inv_def\<close>)
  have same: "j_reqs ?j' = j_reqs ?j" "j_cb_workers ?j' = j_cb_workers ?j" "j_log ?j' = j_log ?j" "queued ?j' = queued ?j"
    by (simp_all add: erase_store_def queued_def)
  have reqs: "r' \<in> set rs" if "om_find k (j_erase_reqs ?j') = Some r'" for k r'
  proof (cases "k = erase_key r")
    case False
    then have "om_find k (j_erase_reqs ?j) = Some r'" using that find [of k] by simp
    then show ?thesis using inv unfolding jr_inv_def by blast
  qed (use that find [of k] rs in simp)
  show ?thesis using inv t ok lk st reqs rs unfolding jr_inv_def by (simp add: same find)
qed

lemma schedule_callback_inv:
  assumes inv: "jr_inv rs s" and t: "jn_thread s = J_scheduling r" and w: "wakes w (j_cb_workers (jn_journal s))"
    and e: "erase_schedule r w (jn_journal s) = Inr j"
  shows "jr_inv rs (s\<lparr>jn_journal := j, jn_thread := J_idle\<rparr>)"
proof -
  let ?j = "jn_journal s" and ?cb = "Erase_cb_req (er_owner r) (er_handle r) True"
  obtain p where p: "schedule_work ?cb w (j_cb_workers ?j) = Inr p" and j: "j = ?j\<lparr>j_cb_workers := p\<rparr>"
    using e by (auto simp: erase_schedule_def res_simps)
  have pend: "pending p = add_mset ?cb (pending (j_cb_workers ?j))" by (rule pending_schedule [OF w p])
  have st: "cb_stored j = cb_stored ?j" by (simp add: cb_stored_def fun_eq_iff j)
  have new: "cb_stored ?j ?cb" using inv t by (auto simp: cb_stored_def jr_inv_def erase_key_def)
  have lk: "lookup_ok rs j l" if "jn_lookups s i = Some l" for i l
    by (rule lookup_ok_mono [of rs ?j]) (use inv that st in \<open>auto simp: jr_inv_def\<close>)
  have same: "j_reqs j = j_reqs ?j" "j_erase_reqs j = j_erase_reqs ?j" "j_log j = j_log ?j" "queued j = queued ?j" "j_cb_workers j = p" "journal_ok j = journal_ok ?j"
    by (simp_all add: j queued_def journal_ok_def)
  show ?thesis using inv t lk new unfolding jr_inv_def by (simp add: same st pend erase_key_def [of r])
qed

lemma begin_search_inv:
  assumes inv: "jr_inv rs s" and i: "i < length (p_workers (j_cb_workers (jn_journal s)))" "p_workers (j_cb_workers (jn_journal s)) ! i = Handling req"
  shows "jr_inv rs (s\<lparr>jn_lookups := (jn_lookups s)(i := Some (Cb_searching req)), jn_race := b\<rparr>)"
proof -
  have "pending (j_cb_workers (jn_journal s)) = add_mset req (pending (set_worker i At_pop (j_cb_workers (jn_journal s))))"
    by (rule pending_handled [OF pool_step.handled [OF i]])
  then have "cb_stored (jn_journal s) req" using inv by (simp add: jr_inv_def)
  then show ?thesis using inv by (simp add: jr_inv_def lookup_ok_def)
qed

lemma search_ok:
  assumes inv: "jr_inv rs s" and l: "jn_lookups s i = Some (Cb_searching req)"
  obtains r where "cb_lookup req (jn_journal s) = Inr (Erase_req r)" "lookup_ok rs (jn_journal s) (Cb_found req (Erase_req r))"
proof -
  have "lookup_ok rs (jn_journal s) (Cb_searching req)" using inv l unfolding jr_inv_def by blast
  then obtain ow h r where r: "req = Erase_cb_req ow h True" "om_find (ow, h) (j_erase_reqs (jn_journal s)) = Some r"
    by (auto simp: lookup_ok_def cb_stored_def)
  then have "er_owner r = ow" "er_handle r = h" "r \<in> set rs" using inv by (auto simp: jr_inv_def journal_ok_def)
  then show thesis using that [of r] r by (simp add: get_map_val_def lookup_ok_def)
qed

lemma end_search_inv:
  assumes inv: "jr_inv rs s" and l: "jn_lookups s i = Some (Cb_searching req)" and x: "cb_lookup req (jn_journal s) = Inr x"
  shows "jr_inv rs (s\<lparr>jn_lookups := (jn_lookups s)(i := Some (Cb_found req x))\<rparr>)"
proof -
  have "lookup_ok rs (jn_journal s) (Cb_found req x)" by (rule search_ok [OF inv l]) (use x in auto)
  then show ?thesis using inv by (simp add: jr_inv_def)
qed

lemma callback_ok:
  assumes inv: "jr_inv rs s" and l: "jn_lookups s i = Some (Cb_found req x)"
  obtains r where "r \<in> set rs" "req = Erase_cb_req (er_owner r) (er_handle r) True"
    "cb_answer req x (jn_journal s) = Inr ((jn_journal s)\<lparr>j_log := j_log (jn_journal s) @ [erase_answer r]\<rparr>)"
proof -
  have "lookup_ok rs (jn_journal s) (Cb_found req x)" using inv l unfolding jr_inv_def by blast
  then show thesis using that by (auto simp: lookup_ok_def erase_answer_def)
qed

lemma callback_inv:
  assumes inv: "jr_inv rs s" and l: "jn_lookups s i = Some (Cb_found req x)"
    and p: "pool_step (j_cb_workers (jn_journal s)) (Handled i req) p" and a: "cb_answer req x (jn_journal s) = Inr j"
  shows "jr_inv rs (s\<lparr>jn_journal := j\<lparr>j_cb_workers := p\<rparr>, jn_lookups := (jn_lookups s)(i := None)\<rparr>)"
proof -
  let ?j = "jn_journal s"
  obtain r where r: "r \<in> set rs" "req = Erase_cb_req (er_owner r) (er_handle r) True" "j = ?j\<lparr>j_log := j_log ?j @ [erase_answer r]\<rparr>"
    by (rule callback_ok [OF inv l]) (use a in auto)
  let ?j' = "j\<lparr>j_cb_workers := p\<rparr>"
  have pend: "pending (j_cb_workers ?j) = add_mset req (pending p)" by (rule pending_handled [OF p])
  have st: "cb_stored ?j' = cb_stored ?j" by (simp add: cb_stored_def fun_eq_iff r(3))
  have lk: "lookup_ok rs ?j' l" if "jn_lookups s k = Some l" for k l
    by (rule lookup_ok_mono [of rs ?j]) (use inv that st in \<open>auto simp: jr_inv_def\<close>)
  have same: "j_reqs ?j' = j_reqs ?j" "j_erase_reqs ?j' = j_erase_reqs ?j" "queued ?j' = queued ?j" "j_cb_workers ?j' = p" "journal_ok ?j' = journal_ok ?j"
    "j_log ?j' = j_log ?j @ [erase_answer r]"
    by (simp_all add: r(3) queued_def journal_ok_def)
  have key: "cb_key req = erase_key r" by (simp add: r(2) erase_key_def)
  show ?thesis using inv lk r(1) unfolding jr_inv_def by (auto simp: same st pend key simp del: fun_upd_apply split: if_splits) (auto split: if_splits)
qed

lemma pool_inv:
  assumes inv: "jr_inv rs s" and p: "pool_step (j_cb_workers (jn_journal s)) ev p" "\<forall>i req. ev \<noteq> Handled i req" "\<forall>req. ev \<noteq> Schedule req"
  shows "jr_inv rs (s\<lparr>jn_journal := (jn_journal s)\<lparr>j_cb_workers := p\<rparr>\<rparr>)"
proof -
  let ?j = "jn_journal s"
  have st: "cb_stored (?j\<lparr>j_cb_workers := p\<rparr>) = cb_stored ?j" by (simp add: cb_stored_def fun_eq_iff)
  have lk: "lookup_ok rs (?j\<lparr>j_cb_workers := p\<rparr>) l" if "jn_lookups s i = Some l" for i l
    by (rule lookup_ok_mono [of rs ?j]) (use inv that st in \<open>auto simp: jr_inv_def\<close>)
  show ?thesis using inv lk pending_internal [OF p] unfolding jr_inv_def by (simp add: st journal_ok_def queued_def)
qed

interpretation journal_runs: history_invariant journal_step "\<lambda>evs. jr_inv (erase_calls evs)"
proof
  fix evs ev and s s' :: "'file jrun"
  assume inv: "jr_inv (erase_calls evs) s" and "journal_step s ev s'"
  from this(2) show "jr_inv (erase_calls (evs @ [ev])) s'"
  proof (cases rule: journal_step.cases)
    case (erase_call r j)
    then show ?thesis using erase_call_inv [OF inv] by (simp add: erase_calls_append)
  next
    case (begin_store r q)
    then show ?thesis using begin_store_inv [OF inv] by (simp add: erase_calls_append)
  next
    case (end_store r)
    then show ?thesis using end_store_inv [OF inv] by (simp add: erase_calls_append)
  next
    case (schedule_callback r w j)
    then show ?thesis using schedule_callback_inv [OF inv] by (simp add: erase_calls_append)
  next
    case (begin_search i req)
    then show ?thesis using begin_search_inv [OF inv] by (simp add: erase_calls_append)
  next
    case (end_search i req x)
    then show ?thesis using end_search_inv [OF inv] by (simp add: erase_calls_append)
  next
    case (callback i req x p j)
    then show ?thesis using callback_inv [OF inv] by (simp add: erase_calls_append)
  next
    case (pool pev p)
    then show ?thesis using pool_inv [OF inv] by (simp add: erase_calls_append)
  qed
qed

lemma jr_inv_start: "jr_inv [] (jrun_start (journal_ctor garbage block f))"
  by (simp add: jr_inv_def jrun_start_def journal_ok_def journal_ctor_def queued_def sync_queue_ctor_def pool_start_def worker_pool_ctor_def pending_def
      in_hands_def om_find_def om_inv_def map_filter_def numeral_2_eq_2)

text \<open>With different keys an answer is determined by its key.\<close>

lemma answers_from_keys:
  assumes "distinct (map erase_key rs)" and "\<forall>a \<in> set as. \<exists>r \<in> set rs. a = erase_answer r"
    and "image_mset answer_key (mset as) = image_mset erase_key (mset rs)"
  shows "mset as = mset (map erase_answer rs)"
proof -
  define g where "g k = erase_answer (the (map_of (map (\<lambda>r. (erase_key r, r)) rs) k))" for k
  have g: "g (erase_key r) = erase_answer r" if "r \<in> set rs" for r
  proof -
    have "map_of (map (\<lambda>r. (erase_key r, r)) rs) (erase_key r) = Some r"
      by (rule map_of_is_SomeI) (use that assms(1) in \<open>auto simp: comp_def\<close>)
    then show ?thesis by (simp add: g_def)
  qed
  have "mset as = image_mset (\<lambda>a. g (answer_key a)) (mset as)"
    using assms(2) g by (force intro!: multiset.map_ident_strong [symmetric])
  also have "\<dots> = image_mset g (image_mset answer_key (mset as))" by (simp add: multiset.map_comp comp_def)
  also have "\<dots> = image_mset (\<lambda>r. g (erase_key r)) (mset rs)" by (simp add: assms(3) multiset.map_comp comp_def)
  also have "\<dots> = image_mset erase_answer (mset rs)" using g by (intro image_mset_cong) simp
  finally show ?thesis by simp
qed

section \<open>Properties\<close>

text \<open>
  C40. Erasing through the journal thread and the callback workers. The map of the requests has no lock, so the statement is about runs in which no store of the
  journal thread has overlapped a search of a callback worker: in every such interleaving, what was erased is queued, in the hands of the journal
  thread, waits for its callback or has been answered, each call once; a callback worker finds its request and fails no assertion; and when the
  erased records are different and nothing is queued, in hand or pending any more, every call has been answered exactly once,
  through its own callback.
\<close>

theorem journal_erase_answered:
  assumes "run journal_step (jrun_start (journal_ctor garbage block f)) evs s" and "\<not> jn_race s"
  shows "image_mset erase_key (mset (erase_calls evs)) =
      image_mset erase_key (mset (queued (jn_journal s))) + image_mset erase_key (mset (in_thread (jn_thread s))) +
      image_mset cb_key (pending (j_cb_workers (jn_journal s))) + image_mset answer_key (mset (j_log (jn_journal s))) \<and>
    (\<forall>i req. jn_lookups s i = Some (Cb_searching req) \<longrightarrow> (\<exists>x. cb_lookup req (jn_journal s) = Inr x)) \<and>
    (\<forall>i req x. jn_lookups s i = Some (Cb_found req x) \<longrightarrow> (\<exists>j. cb_answer req x (jn_journal s) = Inr j)) \<and>
    (distinct (map erase_key (erase_calls evs)) \<and> queued (jn_journal s) = [] \<and> jn_thread s = J_idle \<and> pending (j_cb_workers (jn_journal s)) = {#} \<longrightarrow>
      mset (j_log (jn_journal s)) = mset (map erase_answer (erase_calls evs)))"
proof -
  have inv: "jr_inv (erase_calls evs) s" using journal_runs.hinv_run_start [OF assms(1)] jr_inv_start [of garbage block f] by simp
  then have sums: "image_mset erase_key (mset (erase_calls evs)) =
      image_mset erase_key (mset (queued (jn_journal s))) + image_mset erase_key (mset (in_thread (jn_thread s))) +
      image_mset cb_key (pending (j_cb_workers (jn_journal s))) + image_mset answer_key (mset (j_log (jn_journal s)))"
    and log: "\<forall>a \<in> set (j_log (jn_journal s)). \<exists>r \<in> set (erase_calls evs). a = erase_answer r" by (simp_all add: jr_inv_def)
  have "\<exists>x. cb_lookup req (jn_journal s) = Inr x" if "jn_lookups s i = Some (Cb_searching req)" for i req
    by (rule search_ok [OF inv that]) blast
  moreover have "\<exists>j. cb_answer req x (jn_journal s) = Inr j" if "jn_lookups s i = Some (Cb_found req x)" for i req x
    by (rule callback_ok [OF inv that]) blast
  moreover have "mset (j_log (jn_journal s)) = mset (map erase_answer (erase_calls evs))"
    if "distinct (map erase_key (erase_calls evs))" "queued (jn_journal s) = []" "jn_thread s = J_idle" "pending (j_cb_workers (jn_journal s)) = {#}"
    using answers_from_keys [OF that(1) log] sums that by simp
  ultimately show ?thesis using sums by blast
qed

text \<open>One erase, its round of the journal thread and its callback by the first worker.\<close>

definition sample_erase :: erase_req where
  "sample_erase = \<lparr>er_owner = 1, er_handle = 5, er_cb = 3\<rparr>"

definition erase_stored :: "cb_req pool \<Rightarrow> unit jrun" where
  "erase_stored p = jrun_start (sample_journal\<lparr>j_erase_reqs := [((1, 5), sample_erase)], j_cb_workers := p\<rparr>)"

definition erase_scheduled :: "unit jrun" where
  "erase_scheduled = erase_stored \<lparr>p_queue = \<lparr>sq_q = [Erase_cb_req 1 5 True], sq_no_more_data = False\<rparr>, p_workers = [At_pop, At_pop]\<rparr>"

definition erase_taken :: "unit jrun" where
  "erase_taken = erase_stored \<lparr>p_queue = \<lparr>sq_q = [], sq_no_more_data = False\<rparr>, p_workers = [Handling (Erase_cb_req 1 5 True), At_pop]\<rparr>"

definition erase_done :: "unit jrun" where
  "erase_done = jrun_start (sample_journal\<lparr>j_erase_reqs := [((1, 5), sample_erase)], j_log := [erase_answer sample_erase]\<rparr>)"

lemmas sample_defs = sample_journal_def journal_ctor_def sync_queue_ctor_def pool_start_def worker_pool_ctor_def sample_erase_def numeral_2_eq_2

lemmas journal_run = run.run_Cons [of journal_step] run.run_Nil [of journal_step]

lemma run_two: "run st a xs b \<Longrightarrow> run st b ys c \<Longrightarrow> run st a (xs @ ys) c"
  by (induction rule: run.induct) (auto intro: run.run_Cons)

lemma sample_erase_taken:
  "run journal_step (jrun_start sample_journal)
     [Erase_call sample_erase, Begin_store, End_store, Schedule_callback, Callback_pool (Pop 0 (Pop_item (Erase_cb_req 1 5 True)))] erase_taken"
proof -
  let ?q = "\<lparr>sq_q = [Erase_req sample_erase], sq_no_more_data = False\<rparr>"
  let ?j1 = "sample_journal\<lparr>j_reqs := ?q\<rparr>"
  have "journal_step (jrun_start sample_journal) (Erase_call sample_erase) ((jrun_start sample_journal)\<lparr>jn_journal := ?j1\<rparr>)"
    by (rule journal_step.erase_call) (simp_all add: jrun_start_def journal_erase_def sq_push_def d_assert_def sample_defs)
  then have s1: "journal_step (jrun_start sample_journal) (Erase_call sample_erase) (jrun_start ?j1)" by (simp add: jrun_start_def)
  have "journal_thread_round None ?j1 = Some (Inr (Some (jn_journal erase_scheduled)))"
    by (simp add: journal_thread_round_def sq_pop_def journal_execute_def erase_execute_def erase_store_def erase_schedule_def schedule_work_def sq_push_def
        d_assert_def notify_def om_assign_def om_erase_def om_find_def erase_scheduled_def erase_stored_def jrun_start_def sample_defs Let_def)
  then have "run journal_step (jrun_start ?j1) [Begin_store, End_store, Schedule_callback] ((jrun_start ?j1)\<lparr>jn_journal := jn_journal erase_scheduled\<rparr>)"
    by (intro thread_round_steps [where w = None and e = sample_erase and xs = "[]"])
      (simp_all add: jrun_start_def searching_def wakes_def sample_defs)
  then have s2: "run journal_step (jrun_start ?j1) [Begin_store, End_store, Schedule_callback] erase_scheduled"
    by (simp add: jrun_start_def erase_scheduled_def erase_stored_def)
  have "pool_step (j_cb_workers (jn_journal erase_scheduled)) (Pop 0 (Pop_item (Erase_cb_req 1 5 True))) (j_cb_workers (jn_journal erase_taken))"
    by (rule pool_step.pop) (simp_all add: erase_scheduled_def erase_taken_def erase_stored_def jrun_start_def worker_pop_def sq_pop_def set_worker_def)
  then have "journal_step erase_scheduled (Callback_pool (Pop 0 (Pop_item (Erase_cb_req 1 5 True))))
      (erase_scheduled\<lparr>jn_journal := (jn_journal erase_scheduled)\<lparr>j_cb_workers := j_cb_workers (jn_journal erase_taken)\<rparr>\<rparr>)"
    by (intro journal_step.pool) (simp_all add: erase_scheduled_def erase_stored_def jrun_start_def)
  then have "journal_step erase_scheduled (Callback_pool (Pop 0 (Pop_item (Erase_cb_req 1 5 True)))) erase_taken"
    by (simp add: erase_scheduled_def erase_taken_def erase_stored_def jrun_start_def)
  from run_two [OF journal_run(1) [OF s1 s2] journal_run(1) [OF this journal_run(2)]] show ?thesis by simp
qed

lemma sample_erase_run:
  "run journal_step (jrun_start sample_journal)
     [Erase_call sample_erase, Begin_store, End_store, Schedule_callback, Callback_pool (Pop 0 (Pop_item (Erase_cb_req 1 5 True))),
      Begin_search 0, End_search 0, Callback_pool (Handled 0 (Erase_cb_req 1 5 True))] erase_done"
proof -
  let ?cb = "Erase_cb_req 1 5 True"
  note d = erase_taken_def erase_stored_def jrun_start_def
  let ?s1 = "erase_taken\<lparr>jn_lookups := (jn_lookups erase_taken)(0 := Some (Cb_searching ?cb)), jn_race := storing erase_taken\<rparr>"
  let ?s2 = "?s1\<lparr>jn_lookups := (jn_lookups ?s1)(0 := Some (Cb_found ?cb (Erase_req sample_erase)))\<rparr>"
  let ?p = "set_worker 0 At_pop (j_cb_workers (jn_journal ?s2))"
  let ?j = "(jn_journal ?s2)\<lparr>j_log := [erase_answer sample_erase]\<rparr>"
  have race: "storing erase_taken = False" by (simp add: storing_def d)
  have s1: "journal_step erase_taken (Begin_search 0) ?s1" by (rule journal_step.begin_search) (simp_all add: d)
  have s2: "journal_step ?s1 (End_search 0) ?s2"
    by (rule journal_step.end_search [where req = ?cb]) (simp_all add: race, simp add: d get_map_val_def om_find_def)
  have pl: "pool_step (j_cb_workers (jn_journal ?s2)) (Handled 0 ?cb) ?p" by (rule pool_step.handled) (simp_all add: d)
  have s3: "journal_step ?s2 (Callback_pool (Handled 0 ?cb)) (?s2\<lparr>jn_journal := ?j\<lparr>j_cb_workers := ?p\<rparr>, jn_lookups := (jn_lookups ?s2)(0 := None)\<rparr>)"
    by (rule journal_step.callback [OF _ _ pl]) (simp_all add: race, simp add: d erase_answer_def sample_defs)
  have "?s2\<lparr>jn_journal := ?j\<lparr>j_cb_workers := ?p\<rparr>, jn_lookups := (jn_lookups ?s2)(0 := None)\<rparr> = erase_done"
    by (simp add: race) (simp add: d erase_done_def set_worker_def sample_defs fun_upd_idem)
  then have "run journal_step erase_taken [Begin_search 0, End_search 0, Callback_pool (Handled 0 ?cb)] erase_done"
    using journal_run(1) [OF s1 journal_run(1) [OF s2 journal_run(1) [OF s3 journal_run(2)]]] by simp
  from run_two [OF sample_erase_taken this] show ?thesis by simp
qed

theorem journal_erase_answered_witness:
  "\<exists>evs s. run journal_step (jrun_start sample_journal) evs s \<and> erase_calls evs = [sample_erase] \<and> mset (j_log (jn_journal s)) = {#Erase_success 3 1 5#}"
proof -
  have "queued (jn_journal erase_done) = []" "pending (j_cb_workers (jn_journal erase_done)) = {#}" "jn_thread erase_done = J_idle" "\<not> jn_race erase_done"
    by (simp_all add: erase_done_def jrun_start_def queued_def pending_def in_hands_def map_filter_simps sample_defs)
  then have "mset (j_log (jn_journal erase_done)) = {#Erase_success 3 1 5#}"
    using journal_erase_answered [OF sample_erase_run [unfolded sample_journal_def]] by (simp add: erase_answer_def sample_erase_def)
  then show ?thesis using sample_erase_run by (intro exI conjI) (assumption, simp_all)
qed

text \<open>The race is real: a second erase is stored while the worker searches the map for the first.\<close>

lemma erase_race_reachable:
  "\<exists>evs s. run journal_step (jrun_start sample_journal) evs s \<and> erase_calls evs = [sample_erase, \<lparr>er_owner = 2, er_handle = 6, er_cb = 3\<rparr>] \<and> jn_race s"
proof -
  let ?r = "\<lparr>er_owner = 2, er_handle = 6, er_cb = 3\<rparr>"
  note d = erase_taken_def erase_stored_def jrun_start_def
  let ?j1 = "(jn_journal erase_taken)\<lparr>j_reqs := \<lparr>sq_q = [Erase_req ?r], sq_no_more_data = False\<rparr>\<rparr>"
  let ?s1 = "erase_taken\<lparr>jn_journal := ?j1\<rparr>"
  let ?s2 = "?s1\<lparr>jn_lookups := (jn_lookups ?s1)(0 := Some (Cb_searching (Erase_cb_req 1 5 True))), jn_race := storing ?s1\<rparr>"
  let ?s3 = "?s2\<lparr>jn_journal := (jn_journal ?s2)\<lparr>j_reqs := \<lparr>sq_q = [], sq_no_more_data = False\<rparr>\<rparr>, jn_thread := J_storing ?r, jn_race := searching ?s2\<rparr>"
  have race: "storing ?s1 = False" by (simp add: storing_def d)
  have "journal_erase 2 6 3 (jn_journal erase_taken) = Inr ?j1" by (simp add: d journal_erase_def sq_push_def d_assert_def sample_defs)
  then have s1: "journal_step erase_taken (Erase_call ?r) ?s1" by (intro journal_step.erase_call) (simp_all add: d)
  have s2: "journal_step ?s1 (Begin_search 0) ?s2" by (rule journal_step.begin_search) (simp_all add: d)
  have s3: "journal_step ?s2 Begin_store ?s3" by (rule journal_step.begin_store) (simp_all add: race, simp_all add: d sq_pop_def)
  have "jn_race ?s3" by (auto simp: searching_def)
  moreover have "run journal_step erase_taken [Erase_call ?r, Begin_search 0, Begin_store] ?s3"
    by (rule journal_run(1) [OF s1 journal_run(1) [OF s2 journal_run(1) [OF s3 journal_run(2)]]])
  ultimately show ?thesis using run_two [OF sample_erase_taken] by fastforce
qed

text \<open>
  A second erase of the same record replaces the request of the first, so if both are executed before their callbacks, both
  callbacks answer the second call.
\<close>

lemma duplicate_erase_answers_last:
  assumes "journal_ok j" and "erase_key r1 = erase_key r2" and "erase_execute r1 w1 j = Inr j1" and "erase_execute r2 w2 j1 = Inr j2"
  shows "cb_execute (Erase_cb_req (er_owner r1) (er_handle r1) True) j2 = Inr (j2\<lparr>j_log := j_log j2 @ [erase_answer r2]\<rparr>)"
proof -
  have e: "er_owner r1 = er_owner r2" "er_handle r1 = er_handle r2" using assms(2) by (simp_all add: erase_key_def)
  have "\<not> sq_no_more_data (p_queue (j_cb_workers j))" "\<not> sq_no_more_data (p_queue (j_cb_workers j1))"
    using assms(3,4) by (auto simp: erase_execute_def erase_schedule_def erase_store_def schedule_work_def sq_push_def res_simps Let_def)
  then show ?thesis
    using erase_execute_ok [OF assms(1), of r1 w1] erase_execute_ok [of j1 r2 w2] assms(3,4) by (auto simp: e erase_answer_def)
qed

end
