(* ===== verification/Virtual_Class.thy ===== *)
theory Virtual_Class
  imports Coh_Prelude
begin

text \<open>
  \<open>src/include/misc/type_list.h\<close>, \<open>type_tree.h\<close>, \<open>pointer_policy.h\<close> and \<open>virtual_class.h\<close>: encoding
  and decoding an object through a pointer to its base class. The compile-time lists and trees of
  types are data here, and \<open>fold\<close> over them is recursion on that data. A type is what the code
  uses of it: its \<open>TAG\<close>, its default-constructed object and its encoding and decoding.

  \<^item> \<open>cast\<close> is the conversion of a \<open>TAG\<close> to \<open>tag_type\<close>; the values of \<open>tag_type\<close> are integers.
  \<^item> A pointer policy works on its pointer \<open>ptr_\<close> (\<open>None\<close> is null) and a heap of objects; an access
    through a null or dangling pointer, or a second \<open>delete\<close>, is \<open>Bad_access\<close>.
  \<^item> The functor that \<open>fold\<close> drives is a record of its four member templates.
\<close>

section \<open>Type lists and type trees\<close>

datatype 'ty type_list = List_head | List_elem 'ty "'ty type_list"

datatype 'ty type_tree = Tree_leaf | Tree_node 'ty "'ty type_tree" "'ty type_tree"

definition create_tree_node :: "'ty \<Rightarrow> 'ty type_tree" where
  "create_tree_node T = Tree_node T Tree_leaf Tree_leaf"

definition make_list1 :: "'ty \<Rightarrow> 'ty type_list" where
  "make_list1 a = List_elem a List_head"

definition make_list2 :: "'ty \<Rightarrow> 'ty \<Rightarrow> 'ty type_list" where
  "make_list2 a b = List_elem a (make_list1 b)"

definition make_list3 :: "'ty \<Rightarrow> 'ty \<Rightarrow> 'ty \<Rightarrow> 'ty type_list" where
  "make_list3 a b c = List_elem a (make_list2 b c)"

definition make_list4 :: "'ty \<Rightarrow> 'ty \<Rightarrow> 'ty \<Rightarrow> 'ty \<Rightarrow> 'ty type_list" where
  "make_list4 a b c d = List_elem a (make_list3 b c d)"

definition make_list5 :: "'ty \<Rightarrow> 'ty \<Rightarrow> 'ty \<Rightarrow> 'ty \<Rightarrow> 'ty \<Rightarrow> 'ty type_list" where
  "make_list5 a b c d e = List_elem a (make_list4 b c d e)"

fun list_apply :: "('a \<Rightarrow> 'b) \<Rightarrow> 'a type_list \<Rightarrow> 'b type_list" where
  "list_apply F List_head = List_head"
| "list_apply F (List_elem T Ts) = List_elem (F T) (list_apply F Ts)"

fun list_apply_fn :: "('ty \<Rightarrow> 's \<Rightarrow> 's) \<Rightarrow> 'ty type_list \<Rightarrow> 's \<Rightarrow> 's" where
  "list_apply_fn F List_head s = s"
| "list_apply_fn F (List_elem T Ts) s = list_apply_fn F Ts (F T s)"

fun list_join :: "'ty type_list \<Rightarrow> 'ty type_list \<Rightarrow> 'ty type_list" where
  "list_join (List_elem T Ts) L = List_elem T (list_join Ts L)"
| "list_join List_head L = L"

section \<open>Folds and the tree check\<close>

record ('ty, 's) visitor =
  f_process :: "'ty \<Rightarrow> 's \<Rightarrow> (bool \<times> 's) res"
  f_process_node :: "'ty \<Rightarrow> 's \<Rightarrow> (int \<times> 's) res"
  f_process_unchecked :: "'ty \<Rightarrow> 's \<Rightarrow> 's res"
  f_process_checked :: "'ty \<Rightarrow> 's \<Rightarrow> 's res"
  f_tag :: int

fun fold_list :: "'ty type_list \<Rightarrow> ('ty, 's) visitor \<Rightarrow> 's \<Rightarrow> 's res" where
  "fold_list List_head f s = Inl Runtime_error"
| "fold_list (List_elem T Ts) f s = bind_res (f_process f T s) (\<lambda>(found, s). if found then Inr s else fold_list Ts f s)"

fun fold_tree :: "'ty type_tree \<Rightarrow> ('ty, 's) visitor \<Rightarrow> 's \<Rightarrow> 's res" where
  "fold_tree Tree_leaf f s = Inl Runtime_error"
| "fold_tree (Tree_node T l r) f s =
     bind_res (f_process_node f T s) (\<lambda>(ret, s).
       if ret = 0 then Inr s else if ret < 0 then fold_tree l f s else fold_tree r f s)"

text \<open>The static members of \<open>tree_checker\<close>; \<open>min_\<close> and \<open>max_\<close> of a leaf do not exist.\<close>

fun tc_min :: "('ty \<Rightarrow> int) \<Rightarrow> 'ty type_tree \<Rightarrow> int" where
  "tc_min TAG (Tree_node T Tree_leaf Tree_leaf) = TAG T"
| "tc_min TAG (Tree_node T (Tree_node a b c) Tree_leaf) =
     (let lmin = tc_min TAG (Tree_node a b c) in if TAG T < lmin then TAG T else lmin)"
| "tc_min TAG (Tree_node T Tree_leaf (Tree_node a b c)) =
     (let rmin = tc_min TAG (Tree_node a b c) in if TAG T < rmin then TAG T else rmin)"
| "tc_min TAG (Tree_node T (Tree_node a b c) (Tree_node d e f)) =
     (let lmin = tc_min TAG (Tree_node a b c); rmin = tc_min TAG (Tree_node d e f);
          child_min = (if lmin < rmin then lmin else rmin)
      in if TAG T < child_min then TAG T else child_min)"

fun tc_max :: "('ty \<Rightarrow> int) \<Rightarrow> 'ty type_tree \<Rightarrow> int" where
  "tc_max TAG (Tree_node T Tree_leaf Tree_leaf) = TAG T"
| "tc_max TAG (Tree_node T (Tree_node a b c) Tree_leaf) =
     (let lmax = tc_max TAG (Tree_node a b c) in if TAG T > lmax then TAG T else lmax)"
| "tc_max TAG (Tree_node T Tree_leaf (Tree_node a b c)) =
     (let rmax = tc_max TAG (Tree_node a b c) in if TAG T > rmax then TAG T else rmax)"
| "tc_max TAG (Tree_node T (Tree_node a b c) (Tree_node d e f)) =
     (let lmax = tc_max TAG (Tree_node a b c); rmax = tc_max TAG (Tree_node d e f);
          child_max = (if lmax > rmax then lmax else rmax)
      in if TAG T > child_max then TAG T else child_max)"

fun tc_ok :: "('ty \<Rightarrow> int) \<Rightarrow> 'ty type_tree \<Rightarrow> bool" where
  "tc_ok TAG Tree_leaf = True"
| "tc_ok TAG (Tree_node T Tree_leaf Tree_leaf) = True"
| "tc_ok TAG (Tree_node T (Tree_node a b c) Tree_leaf) =
     (tc_ok TAG (Tree_node a b c) \<and> tc_max TAG (Tree_node a b c) < TAG T)"
| "tc_ok TAG (Tree_node T Tree_leaf (Tree_node a b c)) =
     (tc_ok TAG (Tree_node a b c) \<and> tc_min TAG (Tree_node a b c) > TAG T)"
| "tc_ok TAG (Tree_node T (Tree_node a b c) (Tree_node d e f)) =
     (tc_ok TAG (Tree_node a b c) \<and> tc_ok TAG (Tree_node d e f) \<and>
      TAG T > tc_max TAG (Tree_node a b c) \<and> TAG T < tc_min TAG (Tree_node d e f))"

definition check_tree :: "('ty \<Rightarrow> int) \<Rightarrow> 'ty type_tree \<Rightarrow> unit res" where
  "check_tree TAG t = r_assert (tc_ok TAG t) (Inr ())"

section \<open>Pointer policies\<close>

record 'obj obj_heap =
  oh_obj :: "nat \<Rightarrow> 'obj option"
  oh_refs :: "nat \<Rightarrow> nat"
  oh_next :: nat

definition oh_new :: "'obj \<Rightarrow> 'obj obj_heap \<Rightarrow> nat \<times> 'obj obj_heap" where
  "oh_new x h = (oh_next h, h\<lparr>oh_obj := (oh_obj h)(oh_next h \<mapsto> x), oh_next := oh_next h + 1\<rparr>)"

definition oh_delete :: "nat \<Rightarrow> 'obj obj_heap \<Rightarrow> 'obj obj_heap res" where
  "oh_delete a h = (if oh_obj h a = None then Inl Bad_access else Inr (h\<lparr>oh_obj := (oh_obj h)(a := None)\<rparr>))"

type_synonym 'obj ptr_state = "nat option \<times> 'obj obj_heap"

definition ptr_get :: "'obj ptr_state \<Rightarrow> 'obj res" where
  "ptr_get st = (case fst st of
     None \<Rightarrow> Inl Bad_access
   | Some a \<Rightarrow> (case oh_obj (snd st) a of None \<Rightarrow> Inl Bad_access | Some x \<Rightarrow> Inr x))"

definition ptr_is_null :: "'obj ptr_state \<Rightarrow> bool" where
  "ptr_is_null st \<longleftrightarrow> fst st = None"

text \<open>Writing through the reference that \<open>get\<close> returns.\<close>

definition ptr_put :: "'obj \<Rightarrow> 'obj ptr_state \<Rightarrow> 'obj ptr_state res" where
  "ptr_put x st = bind_res (ptr_get st) (\<lambda>_. case st of (p, h) \<Rightarrow> Inr (p, h\<lparr>oh_obj := (oh_obj h)(the p \<mapsto> x)\<rparr>))"

text \<open>\<open>std_ptr_policy\<close>: a raw pointer that \<open>set\<close> and \<open>reset\<close> delete.\<close>

definition std_delete :: "'obj ptr_state \<Rightarrow> 'obj obj_heap res" where
  "std_delete st = (case st of (None, h) \<Rightarrow> Inr h | (Some a, h) \<Rightarrow> oh_delete a h)"

definition std_set :: "nat option \<Rightarrow> 'obj ptr_state \<Rightarrow> 'obj ptr_state res" where
  "std_set p st = bind_res (std_delete st) (\<lambda>h. Inr (p, h))"

definition std_set_copy :: "'obj \<Rightarrow> 'obj ptr_state \<Rightarrow> 'obj ptr_state res" where
  "std_set_copy x st = bind_res (std_delete st) (\<lambda>h. case oh_new x h of (a, h) \<Rightarrow> Inr (Some a, h))"

definition std_reset :: "'obj ptr_state \<Rightarrow> 'obj ptr_state res" where
  "std_reset st = bind_res (std_delete st) (\<lambda>h. Inr (None, h))"

text \<open>\<open>auto_ptr_policy\<close>: \<open>auto_ptr::reset\<close> keeps the object when it is given its own pointer.\<close>

definition auto_reset :: "nat option \<Rightarrow> 'obj ptr_state \<Rightarrow> 'obj ptr_state res" where
  "auto_reset p st = (if p = fst st then Inr st else bind_res (std_delete st) (\<lambda>h. Inr (p, h)))"

text \<open>\<open>shared_ptr_policy\<close>: \<open>reset\<close> releases one reference and takes the only one to the new object.\<close>

definition shared_release :: "'obj ptr_state \<Rightarrow> 'obj obj_heap res" where
  "shared_release st = (case st of
     (None, h) \<Rightarrow> Inr h
   | (Some a, h) \<Rightarrow>
       if oh_refs h a = 1 then bind_res (oh_delete a h) (\<lambda>h. Inr (h\<lparr>oh_refs := (oh_refs h)(a := 0)\<rparr>))
       else Inr (h\<lparr>oh_refs := (oh_refs h)(a := oh_refs h a - 1)\<rparr>))"

definition shared_acquire :: "nat option \<Rightarrow> 'obj obj_heap \<Rightarrow> 'obj obj_heap" where
  "shared_acquire p h = (case p of None \<Rightarrow> h | Some a \<Rightarrow> h\<lparr>oh_refs := (oh_refs h)(a := oh_refs h a + 1)\<rparr>)"

definition shared_set :: "nat option \<Rightarrow> 'obj ptr_state \<Rightarrow> 'obj ptr_state res" where
  "shared_set p st = (case st of (q, h) \<Rightarrow> bind_res (shared_release (q, shared_acquire p h)) (\<lambda>h. Inr (p, h)))"

definition shared_reset_new :: "nat \<Rightarrow> 'obj ptr_state \<Rightarrow> 'obj ptr_state res" where
  "shared_reset_new a st = (case st of (q, h) \<Rightarrow>
     bind_res (shared_release (q, h\<lparr>oh_refs := (oh_refs h)(a := 1)\<rparr>)) (\<lambda>h. Inr (Some a, h)))"

definition shared_reset :: "'obj ptr_state \<Rightarrow> 'obj ptr_state res" where
  "shared_reset st = bind_res (shared_release st) (\<lambda>h. Inr (None, h))"

text \<open>The operations and constructors that take a pointer or copy an object.\<close>

definition auto_set_copy :: "'obj \<Rightarrow> 'obj ptr_state \<Rightarrow> 'obj ptr_state res" where
  "auto_set_copy x st = (case st of (p, h) \<Rightarrow> case oh_new x h of (a, h) \<Rightarrow> auto_reset (Some a) (p, h))"

definition shared_set_copy :: "'obj \<Rightarrow> 'obj ptr_state \<Rightarrow> 'obj ptr_state res" where
  "shared_set_copy x st = (case st of (p, h) \<Rightarrow> case oh_new x h of (a, h) \<Rightarrow> shared_reset_new a (p, h))"

definition std_ptr_ctor :: "nat option \<Rightarrow> 'obj obj_heap \<Rightarrow> 'obj ptr_state res" where
  "std_ptr_ctor p h = std_set p (None, h)"

definition std_ptr_ctor_copy :: "'obj \<Rightarrow> 'obj obj_heap \<Rightarrow> 'obj ptr_state res" where
  "std_ptr_ctor_copy x h = std_set_copy x (None, h)"

definition auto_ptr_ctor :: "nat option \<Rightarrow> 'obj obj_heap \<Rightarrow> 'obj ptr_state res" where
  "auto_ptr_ctor p h = auto_reset p (None, h)"

definition auto_ptr_ctor_copy :: "'obj \<Rightarrow> 'obj obj_heap \<Rightarrow> 'obj ptr_state res" where
  "auto_ptr_ctor_copy x h = auto_set_copy x (None, h)"

definition shared_ptr_ctor :: "nat option \<Rightarrow> 'obj obj_heap \<Rightarrow> 'obj ptr_state res" where
  "shared_ptr_ctor p h = shared_set p (None, h)"

definition shared_ptr_ctor_copy :: "'obj \<Rightarrow> 'obj obj_heap \<Rightarrow> 'obj ptr_state res" where
  "shared_ptr_ctor_copy x h = shared_set_copy x (None, h)"

text \<open>What \<open>Virtual\<close> uses of its policy; \<open>pp_set_new\<close> is \<open>set(new Type())\<close>.\<close>

record ('p, 'obj) ptr_policy =
  pp_is_null :: "'p \<Rightarrow> bool"
  pp_get :: "'p \<Rightarrow> 'obj res"
  pp_put :: "'obj \<Rightarrow> 'p \<Rightarrow> 'p res"
  pp_set_new :: "'obj \<Rightarrow> 'p \<Rightarrow> 'p res"
  pp_reset :: "'p \<Rightarrow> 'p res"

definition std_ptr_policy :: "('obj ptr_state, 'obj) ptr_policy" where
  "std_ptr_policy = \<lparr>pp_is_null = ptr_is_null, pp_get = ptr_get, pp_put = ptr_put,
     pp_set_new = (\<lambda>x (p, h). case oh_new x h of (a, h) \<Rightarrow> std_set (Some a) (p, h)), pp_reset = std_reset\<rparr>"

definition auto_ptr_policy :: "('obj ptr_state, 'obj) ptr_policy" where
  "auto_ptr_policy = \<lparr>pp_is_null = ptr_is_null, pp_get = ptr_get, pp_put = ptr_put,
     pp_set_new = (\<lambda>x (p, h). case oh_new x h of (a, h) \<Rightarrow> auto_reset (Some a) (p, h)), pp_reset = auto_reset None\<rparr>"

definition shared_ptr_policy :: "('obj ptr_state, 'obj) ptr_policy" where
  "shared_ptr_policy = \<lparr>pp_is_null = ptr_is_null, pp_get = ptr_get, pp_put = ptr_put,
     pp_set_new = (\<lambda>x (p, h). case oh_new x h of (a, h) \<Rightarrow> shared_reset_new a (p, h)), pp_reset = shared_reset\<rparr>"

locale pointer_policy =
  fixes P :: "('p, 'obj) ptr_policy"
    and inv :: "'p \<Rightarrow> bool"
    and pointee :: "'p \<Rightarrow> 'obj option"
  assumes is_null: "inv p \<Longrightarrow> pp_is_null P p \<longleftrightarrow> pointee p = None"
    and get: "inv p \<Longrightarrow> pointee p = Some x \<Longrightarrow> pp_get P p = Inr x"
    and put: "inv p \<Longrightarrow> pointee p = Some x \<Longrightarrow> \<exists>p'. pp_put P y p = Inr p' \<and> inv p' \<and> pointee p' = Some y"
    and set_new: "inv p \<Longrightarrow> \<exists>p'. pp_set_new P y p = Inr p' \<and> inv p' \<and> pointee p' = Some y"
    and reset_ok: "inv p \<Longrightarrow> \<exists>p'. pp_reset P p = Inr p' \<and> inv p' \<and> pointee p' = None"

definition ptr_val :: "'obj ptr_state \<Rightarrow> 'obj option" where
  "ptr_val st = (case fst st of None \<Rightarrow> None | Some a \<Rightarrow> oh_obj (snd st) a)"

definition ptr_inv :: "'obj ptr_state \<Rightarrow> bool" where
  "ptr_inv st \<longleftrightarrow> (\<forall>a \<ge> oh_next (snd st). oh_obj (snd st) a = None) \<and> (\<forall>a. fst st = Some a \<longrightarrow> oh_obj (snd st) a \<noteq> None)"

text \<open>A \<open>shared_ptr\<close>'s object is counted, and so is every live object of the heap.\<close>

definition shared_inv :: "'obj ptr_state \<Rightarrow> bool" where
  "shared_inv st \<longleftrightarrow> ptr_inv st \<and> (\<forall>a. oh_obj (snd st) a \<noteq> None \<longrightarrow> 0 < oh_refs (snd st) a)"

lemmas ptr_defs = ptr_val_def ptr_inv_def ptr_is_null_def ptr_get_def ptr_put_def oh_new_def oh_delete_def

lemma ptr_is_null_iff: "ptr_inv st \<Longrightarrow> ptr_is_null st \<longleftrightarrow> ptr_val st = None"
  by (cases "fst st") (simp_all add: ptr_defs)

lemma ptr_get_val: "ptr_val st = Some x \<Longrightarrow> ptr_get st = Inr x"
  by (cases "fst st") (simp_all add: ptr_defs)

lemma ptr_put_ok:
  assumes "ptr_inv st" and "ptr_val st = Some x"
  shows "\<exists>st'. ptr_put y st = Inr st' \<and> ptr_inv st' \<and> ptr_val st' = Some y \<and> oh_refs (snd st') = oh_refs (snd st) \<and>
    dom (oh_obj (snd st')) = dom (oh_obj (snd st))"
proof -
  obtain a h where st: "st = (Some a, h)" "oh_obj h a = Some x"
    using assms(2) by (cases st; cases "fst st") (auto simp: ptr_val_def)
  then have "a < oh_next h" using assms(1) by (fastforce simp: ptr_inv_def not_less [symmetric])
  then show ?thesis using st assms(1) by (auto simp: ptr_defs)
qed

lemma std_delete_ok:
  "ptr_inv (p, h) \<Longrightarrow> std_delete (p, h) = Inr (case p of None \<Rightarrow> h | Some a \<Rightarrow> h\<lparr>oh_obj := (oh_obj h)(a := None)\<rparr>)"
  by (cases p) (simp_all add: std_delete_def ptr_defs)

text \<open>Taking a new object and deleting the old one.\<close>

lemma ptr_replace:
  assumes "ptr_inv (p, h)" and "oh_new y h = (a, h1)"
  shows "ptr_inv (p, h1) \<and> p \<noteq> Some a \<and>
    (case std_delete (p, h1) of Inr h2 \<Rightarrow> ptr_inv (Some a, h2) \<and> ptr_val (Some a, h2) = Some y | Inl _ \<Rightarrow> False)"
proof -
  have "ptr_inv (p, h1)" using assms by (auto simp: ptr_inv_def oh_new_def)
  moreover have "p \<noteq> Some a" using assms by (auto simp: ptr_inv_def oh_new_def)
  ultimately show ?thesis using assms(2) std_delete_ok [of p h1] assms(1)
    by (cases p) (auto simp: ptr_inv_def oh_new_def ptr_val_def)
qed

interpretation std_ptr: pointer_policy std_ptr_policy ptr_inv ptr_val
proof
  fix p :: "'a ptr_state" and y assume inv: "ptr_inv p"
  obtain q h a h1 where p: "p = (q, h)" "oh_new y h = (a, h1)" by (meson surj_pair)
  show "\<exists>p'. pp_set_new std_ptr_policy y p = Inr p' \<and> ptr_inv p' \<and> ptr_val p' = Some y"
    using ptr_replace [OF inv [unfolded p(1)] p(2)] by (auto simp: std_ptr_policy_def p std_set_def split: sum.splits)
  show "\<exists>p'. pp_reset std_ptr_policy p = Inr p' \<and> ptr_inv p' \<and> ptr_val p' = None"
    using std_delete_ok [OF inv [unfolded p(1)]] inv
    by (cases q) (auto simp: std_ptr_policy_def p std_reset_def ptr_inv_def ptr_val_def)
qed (use ptr_put_ok in \<open>fastforce simp: std_ptr_policy_def ptr_is_null_iff ptr_get_val\<close>)+

interpretation auto_ptr: pointer_policy auto_ptr_policy ptr_inv ptr_val
proof
  fix p :: "'a ptr_state" and y assume inv: "ptr_inv p"
  obtain q h a h1 where p: "p = (q, h)" "oh_new y h = (a, h1)" by (meson surj_pair)
  show "\<exists>p'. pp_set_new auto_ptr_policy y p = Inr p' \<and> ptr_inv p' \<and> ptr_val p' = Some y"
    using ptr_replace [OF inv [unfolded p(1)] p(2)] by (auto simp: auto_ptr_policy_def p auto_reset_def split: sum.splits)
  show "\<exists>p'. pp_reset auto_ptr_policy p = Inr p' \<and> ptr_inv p' \<and> ptr_val p' = None"
    using std_delete_ok [OF inv [unfolded p(1)]] inv
    by (cases q) (auto simp: auto_ptr_policy_def p auto_reset_def ptr_inv_def ptr_val_def)
qed (use ptr_put_ok in \<open>fastforce simp: auto_ptr_policy_def ptr_is_null_iff ptr_get_val\<close>)+

lemma shared_release_ok:
  assumes "shared_inv (q, h)"
  shows "\<exists>h'. shared_release (q, h) = Inr h' \<and> oh_next h' = oh_next h \<and>
    (\<forall>a. oh_obj h' a = oh_obj h a \<or> q = Some a \<and> oh_obj h' a = None) \<and>
    (\<forall>a. q \<noteq> Some a \<longrightarrow> oh_refs h' a = oh_refs h a) \<and> (\<forall>a. oh_obj h' a \<noteq> None \<longrightarrow> 0 < oh_refs h' a)"
proof (cases q)
  case (Some b)
  then have "oh_obj h b \<noteq> None" "0 < oh_refs h b" using assms by (auto simp: shared_inv_def ptr_inv_def)
  then show ?thesis using assms Some by (auto simp: shared_release_def oh_delete_def shared_inv_def)
qed (use assms in \<open>auto simp: shared_release_def shared_inv_def\<close>)

interpretation shared_ptr: pointer_policy shared_ptr_policy shared_inv ptr_val
proof
  fix p :: "'a ptr_state" and y assume inv: "shared_inv p"
  obtain q h where p: "p = (q, h)" by (cases p) auto
  define h1 where "h1 = h\<lparr>oh_obj := (oh_obj h)(oh_next h \<mapsto> y), oh_next := oh_next h + 1, oh_refs := (oh_refs h)(oh_next h := 1)\<rparr>"
  have q: "q \<noteq> Some (oh_next h)" using inv by (auto simp: p shared_inv_def ptr_inv_def)
  have inv1: "shared_inv (q, h1)" using inv by (auto simp: p h1_def shared_inv_def ptr_inv_def)
  show "\<exists>p'. pp_set_new shared_ptr_policy y p = Inr p' \<and> shared_inv p' \<and> ptr_val p' = Some y"
  proof -
    obtain h2 where h2: "shared_release (q, h1) = Inr h2" "oh_next h2 = oh_next h1"
      "\<And>a. oh_obj h2 a = oh_obj h1 a \<or> q = Some a \<and> oh_obj h2 a = None" "\<And>a. oh_obj h2 a \<noteq> None \<Longrightarrow> 0 < oh_refs h2 a"
      using shared_release_ok [OF inv1] by blast
    have new: "oh_obj h2 (oh_next h) = Some y" using h2(3) [of "oh_next h"] q by (simp add: h1_def)
    have free: "oh_obj h2 a = None" if "oh_next h2 \<le> a" for a
      using h2(2) h2(3) [of a] that inv1 by (auto simp: shared_inv_def ptr_inv_def)
    have "pp_set_new shared_ptr_policy y p = Inr (Some (oh_next h), h2)"
      using h2(1) by (simp add: shared_ptr_policy_def p shared_reset_new_def oh_new_def h1_def)
    then show ?thesis using new free h2(4) by (simp add: shared_inv_def ptr_inv_def ptr_val_def)
  qed
  obtain h3 where h3: "shared_release (q, h) = Inr h3" "oh_next h3 = oh_next h"
      "\<And>a. oh_obj h3 a = oh_obj h a \<or> q = Some a \<and> oh_obj h3 a = None" "\<And>a. oh_obj h3 a \<noteq> None \<Longrightarrow> 0 < oh_refs h3 a"
    using shared_release_ok [OF inv [unfolded p]] by blast
  have "oh_obj h3 a = None" if "oh_next h3 \<le> a" for a
    using h3(2) h3(3) [of a] that inv by (auto simp: p shared_inv_def ptr_inv_def)
  then show "\<exists>p'. pp_reset shared_ptr_policy p = Inr p' \<and> shared_inv p' \<and> ptr_val p' = None"
    using h3(1,4) by (simp add: shared_ptr_policy_def p shared_reset_def shared_inv_def ptr_inv_def ptr_val_def)
next
  fix p :: "'a ptr_state" and x y assume inv: "shared_inv p" and x: "ptr_val p = Some x"
  show "\<exists>p'. pp_put shared_ptr_policy y p = Inr p' \<and> shared_inv p' \<and> ptr_val p' = Some y"
    using ptr_put_ok [OF _ x, of y] inv by (fastforce simp: shared_ptr_policy_def shared_inv_def)
qed (auto simp: shared_ptr_policy_def shared_inv_def ptr_is_null_iff ptr_get_val)

text \<open>The copying constructors of the three policies own a fresh copy.\<close>

lemma copy_ctors:
  assumes "shared_inv (None, h)"
  shows "\<exists>st. std_ptr_ctor_copy x h = Inr st \<and> ptr_inv st \<and> ptr_val st = Some x"
    and "\<exists>st. auto_ptr_ctor_copy x h = Inr st \<and> ptr_inv st \<and> ptr_val st = Some x"
    and "\<exists>st. shared_ptr_ctor_copy x h = Inr st \<and> shared_inv st \<and> ptr_val st = Some x"
proof -
  have inv: "ptr_inv (None, h)" using assms by (simp add: shared_inv_def)
  show "\<exists>st. auto_ptr_ctor_copy x h = Inr st \<and> ptr_inv st \<and> ptr_val st = Some x"
    using auto_ptr.set_new [OF inv, of x] by (simp add: auto_ptr_ctor_copy_def auto_set_copy_def auto_ptr_policy_def)
  show "\<exists>st. shared_ptr_ctor_copy x h = Inr st \<and> shared_inv st \<and> ptr_val st = Some x"
    using shared_ptr.set_new [OF assms, of x] by (simp add: shared_ptr_ctor_copy_def shared_set_copy_def shared_ptr_policy_def)
  show "\<exists>st. std_ptr_ctor_copy x h = Inr st \<and> ptr_inv st \<and> ptr_val st = Some x"
    using inv by (auto simp: std_ptr_ctor_copy_def std_set_copy_def std_delete_def ptr_defs)
qed

text \<open>Giving \<open>std_ptr_policy::set\<close> the pointer it already holds leaves it dangling.\<close>

lemma std_set_own_pointer:
  assumes "ptr_inv (Some a, h)"
  shows "\<exists>st. std_set (Some a) (Some a, h) = Inr st \<and> ptr_get st = Inl Bad_access"
  using assms by (auto simp: std_set_def std_delete_def ptr_defs)

section \<open>Virtual\<close>

record ('obj, 's, 'r) vtype =
  vt_TAG :: int
  vt_new :: 'obj
  vt_encode :: "'obj \<Rightarrow> 's \<Rightarrow> 's res"
  vt_decode :: "'obj \<Rightarrow> 'r \<Rightarrow> ('obj \<times> 'r) res"

text \<open>\<open>tagged_encoder\<close>, constructed on the encoded object and its tag.\<close>

definition te_process_unchecked :: "(int \<Rightarrow> int) \<Rightarrow> (int \<Rightarrow> 's \<Rightarrow> 's res) \<Rightarrow> 'obj \<Rightarrow> ('obj, 's, 'r) vtype \<Rightarrow> 's \<Rightarrow> 's res" where
  "te_process_unchecked cast tag_enc x T s = bind_res (tag_enc (cast (vt_TAG T)) s) (vt_encode T x)"

definition te_process :: "(int \<Rightarrow> int) \<Rightarrow> (int \<Rightarrow> 's \<Rightarrow> 's res) \<Rightarrow> 'obj \<Rightarrow> int \<Rightarrow> ('obj, 's, 'r) vtype \<Rightarrow> 's \<Rightarrow> (bool \<times> 's) res" where
  "te_process cast tag_enc x tag T s =
     (if cast (vt_TAG T) = tag
      then bind_res (tag_enc (cast (vt_TAG T)) s) (\<lambda>s. bind_res (vt_encode T x s) (\<lambda>s. Inr (True, s)))
      else Inr (False, s))"

definition te_process_node :: "(int \<Rightarrow> int) \<Rightarrow> (int \<Rightarrow> 's \<Rightarrow> 's res) \<Rightarrow> 'obj \<Rightarrow> int \<Rightarrow> ('obj, 's, 'r) vtype \<Rightarrow> 's \<Rightarrow> (int \<times> 's) res" where
  "te_process_node cast tag_enc x tag T s =
     (if cast (vt_TAG T) = tag
      then bind_res (tag_enc (cast (vt_TAG T)) s) (\<lambda>s. bind_res (vt_encode T x s) (\<lambda>s. Inr (0, s)))
      else if tag < cast (vt_TAG T) then Inr (-1, s)
      else Inr (1, s))"

definition te_process_checked :: "(int \<Rightarrow> int) \<Rightarrow> (int \<Rightarrow> 's \<Rightarrow> 's res) \<Rightarrow> 'obj \<Rightarrow> int \<Rightarrow> ('obj, 's, 'r) vtype \<Rightarrow> 's \<Rightarrow> 's res" where
  "te_process_checked cast tag_enc x tag T s = r_assert (cast (vt_TAG T) = tag) (te_process_unchecked cast tag_enc x T s)"

definition tagged_encoder :: "(int \<Rightarrow> int) \<Rightarrow> (int \<Rightarrow> 's \<Rightarrow> 's res) \<Rightarrow> 'obj \<Rightarrow> int \<Rightarrow> (('obj, 's, 'r) vtype, 's) visitor" where
  "tagged_encoder cast tag_enc x tag =
     \<lparr>f_process = te_process cast tag_enc x tag, f_process_node = te_process_node cast tag_enc x tag,
      f_process_unchecked = te_process_unchecked cast tag_enc x, f_process_checked = te_process_checked cast tag_enc x tag,
      f_tag = tag\<rparr>"

text \<open>\<open>tagged_decoder\<close>; its state is the pointer and the decoder.\<close>

definition td_process_unchecked :: "('p, 'obj) ptr_policy \<Rightarrow> ('obj, 's, 'r) vtype \<Rightarrow> 'p \<times> 'r \<Rightarrow> ('p \<times> 'r) res" where
  "td_process_unchecked P T st = (case st of (p, r) \<Rightarrow>
     bind_res (pp_set_new P (vt_new T) p) (\<lambda>p.
     bind_res (pp_get P p) (\<lambda>x.
     bind_res (vt_decode T x r) (\<lambda>(x, r).
     bind_res (pp_put P x p) (\<lambda>p. Inr (p, r))))))"

definition td_process :: "(int \<Rightarrow> int) \<Rightarrow> ('p, 'obj) ptr_policy \<Rightarrow> int \<Rightarrow> ('obj, 's, 'r) vtype \<Rightarrow> 'p \<times> 'r \<Rightarrow> (bool \<times> 'p \<times> 'r) res" where
  "td_process cast P tag T st =
     (if cast (vt_TAG T) = tag then bind_res (td_process_unchecked P T st) (\<lambda>st. Inr (True, st)) else Inr (False, st))"

definition td_process_node :: "(int \<Rightarrow> int) \<Rightarrow> ('p, 'obj) ptr_policy \<Rightarrow> int \<Rightarrow> ('obj, 's, 'r) vtype \<Rightarrow> 'p \<times> 'r \<Rightarrow> (int \<times> 'p \<times> 'r) res" where
  "td_process_node cast P tag T st =
     (if cast (vt_TAG T) = tag then bind_res (td_process_unchecked P T st) (\<lambda>st. Inr (0, st))
      else if tag < cast (vt_TAG T) then Inr (-1, st)
      else Inr (1, st))"

definition td_process_checked :: "(int \<Rightarrow> int) \<Rightarrow> ('p, 'obj) ptr_policy \<Rightarrow> int \<Rightarrow> ('obj, 's, 'r) vtype \<Rightarrow> 'p \<times> 'r \<Rightarrow> ('p \<times> 'r) res" where
  "td_process_checked cast P tag T st = r_assert (cast (vt_TAG T) = tag) (td_process_unchecked P T st)"

definition tagged_decoder :: "(int \<Rightarrow> int) \<Rightarrow> ('p, 'obj) ptr_policy \<Rightarrow> int \<Rightarrow> (('obj, 's, 'r) vtype, 'p \<times> 'r) visitor" where
  "tagged_decoder cast P tag =
     \<lparr>f_process = td_process cast P tag, f_process_node = td_process_node cast P tag,
      f_process_unchecked = td_process_unchecked P, f_process_checked = td_process_checked cast P tag, f_tag = tag\<rparr>"

text \<open>\<open>fld\<close> is the fold over \<open>TypeList\<close>: \<open>fold_list Ts\<close>, \<open>fold_tree t\<close> or the operator of an object factory.\<close>

definition virtual_encode :: "((('obj, 's, 'r) vtype, 's) visitor \<Rightarrow> 's \<Rightarrow> 's res) \<Rightarrow> (int \<Rightarrow> int) \<Rightarrow> (int \<Rightarrow> 's \<Rightarrow> 's res) \<Rightarrow>
    ('obj \<Rightarrow> int) \<Rightarrow> ('p, 'obj) ptr_policy \<Rightarrow> 'p \<Rightarrow> 's \<Rightarrow> 's res" where
  "virtual_encode fld cast tag_enc get_tag P p s =
     (if pp_is_null P p then tag_enc 0 s
      else bind_res (pp_get P p) (\<lambda>x. fld (tagged_encoder cast tag_enc x (get_tag x)) s))"

definition virtual_decode :: "((('obj, 's, 'r) vtype, 'p \<times> 'r) visitor \<Rightarrow> 'p \<times> 'r \<Rightarrow> ('p \<times> 'r) res) \<Rightarrow> (int \<Rightarrow> int) \<Rightarrow>
    ('r \<Rightarrow> (int \<times> 'r) res) \<Rightarrow> ('p, 'obj) ptr_policy \<Rightarrow> 'p \<Rightarrow> 'r \<Rightarrow> ('p \<times> 'r) res" where
  "virtual_decode fld cast tag_dec P p r =
     bind_res (tag_dec r) (\<lambda>(tag, r).
       if tag = 0 then bind_res (pp_reset P p) (\<lambda>p. Inr (p, r))
       else fld (tagged_decoder cast P tag) (p, r))"

section \<open>Dispatch on the tag\<close>

text \<open>
  Both functors do the same: they work on the first type whose tag is theirs and tell a search
  tree where to go on. The folds are searches for that type.
\<close>

fun types_of :: "'ty type_list \<Rightarrow> 'ty list" where
  "types_of List_head = []"
| "types_of (List_elem T Ts) = T # types_of Ts"

fun inorder_list :: "'ty type_tree \<Rightarrow> 'ty list" where
  "inorder_list Tree_leaf = []"
| "inorder_list (Tree_node T l r) = inorder_list l @ T # inorder_list r"

fun type_list_of :: "'ty list \<Rightarrow> 'ty type_list" where
  "type_list_of [] = List_head"
| "type_list_of (T # Ts) = List_elem T (type_list_of Ts)"

lemma types_of_type_list_of [simp]: "types_of (type_list_of Ts) = Ts"
  by (induction Ts) simp_all

lemma types_of_join [simp]: "types_of (list_join L L') = types_of L @ types_of L'"
  by (induction L) simp_all

lemma types_of_apply [simp]: "types_of (list_apply F L) = map F (types_of L)"
  by (induction L) simp_all

lemma list_apply_fn_fold: "list_apply_fn F L = fold F (types_of L)"
  by (induction L) (simp_all add: fun_eq_iff)

lemma find_append: "find Q (xs @ ys) = (case find Q xs of None \<Rightarrow> find Q ys | Some x \<Rightarrow> Some x)"
  by (induction xs) simp_all

definition dispatch :: "'ty list \<Rightarrow> (int \<Rightarrow> int) \<Rightarrow> ('ty \<Rightarrow> int) \<Rightarrow> ('ty, 's) visitor \<Rightarrow> 's \<Rightarrow> 's res" where
  "dispatch Ts cast TAG f s = (case find (\<lambda>T. cast (TAG T) = f_tag f) Ts of
     None \<Rightarrow> Inl Runtime_error | Some T \<Rightarrow> f_process_unchecked f T s)"

locale tag_dispatch =
  fixes cast :: "int \<Rightarrow> int" and TAG :: "'ty \<Rightarrow> int" and f :: "('ty, 's) visitor"
  assumes process: "f_process f T s =
      (if cast (TAG T) = f_tag f then bind_res (f_process_unchecked f T s) (\<lambda>s. Inr (True, s)) else Inr (False, s))"
    and process_node: "f_process_node f T s =
      (if cast (TAG T) = f_tag f then bind_res (f_process_unchecked f T s) (\<lambda>s. Inr (0, s))
       else if f_tag f < cast (TAG T) then Inr (-1, s) else Inr (1, s))"
    and process_checked: "f_process_checked f T s = r_assert (cast (TAG T) = f_tag f) (f_process_unchecked f T s)"
begin

lemma fold_list_dispatch: "fold_list L f s = dispatch (types_of L) cast TAG f s"
proof (induction L)
  case (List_elem T Ts)
  then show ?case by (cases "f_process_unchecked f T s") (simp_all add: dispatch_def process)
qed (simp add: dispatch_def)

lemma fold_tree_dispatch:
  assumes "sorted_wrt (<) (map TAG (inorder_list t))" and "\<forall>T \<in> set (inorder_list t). cast (TAG T) = TAG T"
  shows "fold_tree t f s = dispatch (inorder_list t) cast TAG f s"
  using assms
proof (induction t)
  case (Tree_node T l r)
  note IH = Tree_node.IH
  have l: "sorted_wrt (<) (map TAG (inorder_list l))" and r: "sorted_wrt (<) (map TAG (inorder_list r))"
    and lt: "\<And>U. U \<in> set (inorder_list l) \<Longrightarrow> TAG U < TAG T" and gt: "\<And>U. U \<in> set (inorder_list r) \<Longrightarrow> TAG T < TAG U"
    and c: "\<And>U. U \<in> set (inorder_list l) \<or> U = T \<or> U \<in> set (inorder_list r) \<Longrightarrow> cast (TAG U) = TAG U"
    using Tree_node.prems by (auto simp: sorted_wrt_append)
  let ?tag = "\<lambda>U. cast (TAG U) = f_tag f"
  have none: "find ?tag xs = None" if "\<And>U. U \<in> set xs \<Longrightarrow> \<not> ?tag U" for xs
    using that by (auto simp: find_None_iff)
  consider "f_tag f = TAG T" | "f_tag f < TAG T" | "f_tag f > TAG T" by linarith
  then show ?case
  proof cases
    case 1
    have "find ?tag (inorder_list l) = None" by (rule none) (use lt c 1 in fastforce)
    then show ?thesis using 1 c [of T]
      by (cases "f_process_unchecked f T s") (simp_all add: dispatch_def process_node find_append)
  next
    case 2
    have "find ?tag (inorder_list r) = None" by (rule none) (use gt c 2 in fastforce)
    then show ?thesis using 2 c [of T] IH(1) [OF l] c
      by (simp add: dispatch_def process_node find_append split: option.split)
  next
    case 3
    have "find ?tag (inorder_list l) = None" by (rule none) (use lt c 3 in fastforce)
    then show ?thesis using 3 c [of T] IH(2) [OF r] c
      by (simp add: dispatch_def process_node find_append)
  qed
qed (simp add: dispatch_def)

end

lemma tagged_sel [simp]:
  "f_tag (tagged_encoder cast tag_enc x tag) = tag" "f_process_unchecked (tagged_encoder cast tag_enc x tag) = te_process_unchecked cast tag_enc x"
  "f_tag (tagged_decoder cast P tag) = tag" "f_process_unchecked (tagged_decoder cast P tag) = td_process_unchecked P"
  by (simp_all add: tagged_encoder_def tagged_decoder_def)

interpretation te: tag_dispatch cast vt_TAG "tagged_encoder cast tag_enc x tag"
  by unfold_locales (simp_all add: tagged_encoder_def te_process_def te_process_node_def te_process_checked_def
      te_process_unchecked_def bind_res_assoc)

interpretation td: tag_dispatch cast vt_TAG "tagged_decoder cast P tag"
  by unfold_locales (simp_all add: tagged_decoder_def td_process_def td_process_node_def td_process_checked_def)

text \<open>\<open>tree_checker\<close> accepts exactly the search trees for the tags.\<close>

lemma tc_min_node: "tc_min TAG (Tree_node T l r) =
    (if l = Tree_leaf then if r = Tree_leaf then TAG T else min (TAG T) (tc_min TAG r)
     else if r = Tree_leaf then min (TAG T) (tc_min TAG l) else min (TAG T) (min (tc_min TAG l) (tc_min TAG r)))"
  by (cases l; cases r) (simp_all add: Let_def min_def)

lemma tc_max_node: "tc_max TAG (Tree_node T l r) =
    (if l = Tree_leaf then if r = Tree_leaf then TAG T else max (TAG T) (tc_max TAG r)
     else if r = Tree_leaf then max (TAG T) (tc_max TAG l) else max (TAG T) (max (tc_max TAG l) (tc_max TAG r)))"
  by (cases l; cases r) (simp_all add: Let_def max_def)

lemma tc_ok_node: "tc_ok TAG (Tree_node T l r) \<longleftrightarrow> tc_ok TAG l \<and> tc_ok TAG r \<and>
    (l \<noteq> Tree_leaf \<longrightarrow> tc_max TAG l < TAG T) \<and> (r \<noteq> Tree_leaf \<longrightarrow> TAG T < tc_min TAG r)"
  by (cases l; cases r) auto

lemma tc_min_less: "t \<noteq> Tree_leaf \<Longrightarrow> k < tc_min TAG t \<longleftrightarrow> (\<forall>T \<in> set (inorder_list t). k < TAG T)"
  by (induction t) (auto simp: tc_min_node simp del: tc_min.simps)

lemma tc_max_less: "t \<noteq> Tree_leaf \<Longrightarrow> tc_max TAG t < k \<longleftrightarrow> (\<forall>T \<in> set (inorder_list t). TAG T < k)"
  by (induction t) (auto simp: tc_max_node simp del: tc_max.simps)

lemma tc_ok_iff: "tc_ok TAG t \<longleftrightarrow> sorted_wrt (<) (map TAG (inorder_list t))"
proof (induction t)
  case (Tree_node T l r)
  have "(l \<noteq> Tree_leaf \<longrightarrow> tc_max TAG l < TAG T) \<longleftrightarrow> (\<forall>U \<in> set (inorder_list l). TAG U < TAG T)"
    "(r \<noteq> Tree_leaf \<longrightarrow> TAG T < tc_min TAG r) \<longleftrightarrow> (\<forall>U \<in> set (inorder_list r). TAG T < TAG U)"
    by (auto simp: tc_min_less tc_max_less)
  then show ?case unfolding tc_ok_node using Tree_node.IH by (fastforce simp: sorted_wrt_append)
qed simp

end
