(* ===== verification/Gen_Tree.thy ===== *)
theory Gen_Tree
  imports Virtual_Class
begin

text \<open>
  \<open>src/serialization/vc_gen_test.cpp\<close>: the program that generates a hierarchy of classes \<open>Foo_1\<close>, ..., \<open>Foo_n\<close> and
  a balanced type tree for them. \<open>makeTreeFor\<close> prints one \<open>typedef\<close> per node; a line is a record here
  instead of text, a name \<open>tree_node_l_r\<close> the pair of its numbers and the class \<open>Foo_c\<close> the number \<open>c\<close>. What
  the compiler makes of the lines is \<open>resolve\<close>: every name must be declared before it is used and
  only once.

  The recursion is on unsigned numbers that may wrap, so it is a partial function.
\<close>

record typedef_line =
  tl_level :: nat
  tl_curr :: nat
  tl_left :: "(nat \<times> nat) option"
  tl_right :: "(nat \<times> nat) option"
  tl_name :: "nat \<times> nat"

partial_function (option) makeTreeFor :: "nat \<Rightarrow> nat \<Rightarrow> nat \<Rightarrow> typedef_line list option" where
  "makeTreeFor left right level =
     (if left > right then Some []
      else let curr = u64_add left (u64_sub (u64_add 1 right) left div 2) in
        Option.bind (makeTreeFor left (u64_sub curr 1) (u64_add level 2)) (\<lambda>ls.
        Option.bind (makeTreeFor (u64_add curr 1) right (u64_add level 2)) (\<lambda>rs.
          Some (ls @ rs @ [\<lparr>tl_level = u64_sub (level div 2) 1, tl_curr = curr,
            tl_left = (if left < curr then Some (left, u64_sub curr 1) else None),
            tl_right = (if curr < right then Some (u64_add curr 1, right) else None),
            tl_name = (left, right)\<rparr>]))))"

type_synonym tree_env = "nat \<times> nat \<Rightarrow> nat type_tree option"

definition child_tree :: "tree_env \<Rightarrow> (nat \<times> nat) option \<Rightarrow> nat type_tree option" where
  "child_tree env c = (case c of None \<Rightarrow> Some Tree_leaf | Some nm \<Rightarrow> env nm)"

fun resolve :: "tree_env \<Rightarrow> typedef_line list \<Rightarrow> tree_env option" where
  "resolve env [] = Some env"
| "resolve env (ln # lns) =
     (if env (tl_name ln) \<noteq> None then None
      else case (child_tree env (tl_left ln), child_tree env (tl_right ln)) of
        (Some l, Some r) \<Rightarrow> resolve (env(tl_name ln \<mapsto> Tree_node (tl_curr ln) l r)) lns
      | _ \<Rightarrow> None)"

text \<open>
  The classes. \<open>rnd\<close> gives the answers of \<open>rand\<close>, two per class: the number of the base class (0 is \<open>Base\<close>) and the
  index of the type of the new field. \<open>TAG\<close> is the number of the class, converted to \<open>uint16_t\<close>.
\<close>

datatype field_type = F_int8 | F_uint16 | F_vector_char | F_string | F_pair_uint32

definition field_types :: "field_type list" where
  "field_types = [F_int8, F_uint16, F_vector_char, F_string, F_pair_uint32]"

record gen_class =
  gc_id :: nat
  gc_base :: nat
  gc_field :: field_type

definition gen_class_for :: "(nat \<Rightarrow> nat) \<Rightarrow> nat \<Rightarrow> gen_class" where
  "gen_class_for rnd cid =
     \<lparr>gc_id = cid, gc_base = rnd (2 * (cid - 1)) mod cid, gc_field = field_types ! (rnd (2 * (cid - 1) + 1) mod length field_types)\<rparr>"

definition gen_classes :: "(nat \<Rightarrow> nat) \<Rightarrow> nat \<Rightarrow> gen_class list" where
  "gen_classes rnd n = map (gen_class_for rnd) [1..<Suc n]"

definition foo_tag :: "nat \<Rightarrow> int" where
  "foo_tag cid = int (cid mod 2 ^ 16)"

text \<open>The generated \<open>BaseTree\<close>, when the program returns and its output compiles.\<close>

definition base_tree :: "nat \<Rightarrow> nat type_tree option" where
  "base_tree n = Option.bind (makeTreeFor 1 n 2) (\<lambda>lns. Option.bind (resolve (\<lambda>_. None) lns) (\<lambda>env. env (1, n)))"

section \<open>The generated tree\<close>

fun tree_height :: "'ty type_tree \<Rightarrow> nat" where
  "tree_height Tree_leaf = 0"
| "tree_height (Tree_node T l r) = Suc (max (tree_height l) (tree_height r))"

lemma resolve_append: "resolve env (xs @ ys) = Option.bind (resolve env xs) (\<lambda>env. resolve env ys)"
  by (induction xs arbitrary: env) (simp_all split: option.split)

definition inside :: "nat \<Rightarrow> nat \<Rightarrow> nat \<times> nat \<Rightarrow> bool" where
  "inside l r nm \<longleftrightarrow> l \<le> fst nm \<and> fst nm \<le> snd nm \<and> snd nm \<le> r"

text \<open>What the lines for an interval declare, put in front of anything that does not declare a part of it.\<close>

definition declares :: "nat \<Rightarrow> nat \<Rightarrow> typedef_line list \<Rightarrow> bool" where
  "declares l r lns \<longleftrightarrow> (\<forall>env. (\<forall>nm. inside l r nm \<longrightarrow> env nm = None) \<longrightarrow>
     (\<exists>env'. resolve env lns = Some env' \<and> (\<forall>nm. \<not> inside l r nm \<longrightarrow> env' nm = env nm) \<and>
        (l \<le> r \<longrightarrow> (\<exists>t. env' (l, r) = Some t \<and> inorder_list t = [l..<Suc r] \<and> 2 ^ tree_height t \<le> 2 * (Suc r - l)))))"

lemma declaresD:
  "declares l r lns \<Longrightarrow> (\<And>nm. inside l r nm \<Longrightarrow> env nm = None) \<Longrightarrow>
     \<exists>env'. resolve env lns = Some env' \<and> (\<forall>nm. \<not> inside l r nm \<longrightarrow> env' nm = env nm) \<and>
        (l \<le> r \<longrightarrow> (\<exists>t. env' (l, r) = Some t \<and> inorder_list t = [l..<Suc r] \<and> 2 ^ tree_height t \<le> 2 * (Suc r - l)))"
  unfolding declares_def by blast

lemma makeTreeFor_declares:
  "1 \<le> l \<Longrightarrow> Suc r < u64_max \<Longrightarrow> \<exists>lns. makeTreeFor l r lv = Some lns \<and> declares l r lns"
proof (induction "Suc r - l" arbitrary: l r lv rule: less_induct)
  case less
  show ?case
  proof (cases "l \<le> r")
    case False
    then have "makeTreeFor l r lv = Some []" by (subst makeTreeFor.simps) simp
    then show ?thesis using False by (auto simp: declares_def)
  next
    case True
    define c where "c = l + (Suc r - l) div 2"
    have c: "l \<le> c" "c \<le> r" "Suc (c - 1) - l < Suc r - l" "2 * (c - l) \<le> Suc r - l" "2 * (r - c) \<le> Suc r - l"
      using True less.prems(1) by (auto simp: c_def)
    have curr: "u64_add l (u64_sub (u64_add 1 r) l div 2) = c" "u64_sub c 1 = c - 1" "u64_add c 1 = Suc c"
      using less.prems c by (simp_all add: c_def u64_add_nowrap u64_sub_nowrap)
    have fits: "Suc (c - 1) < u64_max" using c(2) less.prems(2) by linarith
    obtain ls where ls: "makeTreeFor l (c - 1) (u64_add lv 2) = Some ls" "declares l (c - 1) ls"
      using less.hyps [OF c(3) less.prems(1) fits] by blast
    obtain rs where rs: "makeTreeFor (Suc c) r (u64_add lv 2) = Some rs" "declares (Suc c) r rs"
      using less.hyps [of r "Suc c" "u64_add lv 2"] less.prems c by auto
    define ln where "ln = \<lparr>tl_level = u64_sub (lv div 2) 1, tl_curr = c, tl_left = (if l < c then Some (l, c - 1) else None),
      tl_right = (if c < r then Some (Suc c, r) else None), tl_name = (l, r)\<rparr>"
    have "makeTreeFor l r lv = Some (ls @ rs @ [ln])"
      using True by (subst makeTreeFor.simps, unfold Let_def curr ls(1) rs(1)) (simp add: ln_def)
    moreover have "declares l r (ls @ rs @ [ln])"
      unfolding declares_def
    proof (intro allI impI)
      fix env :: tree_env assume env: "\<forall>nm. inside l r nm \<longrightarrow> env nm = None"
      have sub: "inside l (c - 1) nm \<Longrightarrow> inside l r nm" "inside (Suc c) r nm \<Longrightarrow> inside l r nm \<and> \<not> inside l (c - 1) nm" for nm
        using c by (auto simp: inside_def)
      obtain e1 where e1: "resolve env ls = Some e1" "\<And>nm. \<not> inside l (c - 1) nm \<Longrightarrow> e1 nm = env nm"
        "l \<le> c - 1 \<Longrightarrow> \<exists>t. e1 (l, c - 1) = Some t \<and> inorder_list t = [l..<Suc (c - 1)] \<and> 2 ^ tree_height t \<le> 2 * (Suc (c - 1) - l)"
        using declaresD [OF ls(2), of env] env sub(1) by blast
      obtain e2 where e2: "resolve e1 rs = Some e2" "\<And>nm. \<not> inside (Suc c) r nm \<Longrightarrow> e2 nm = e1 nm"
        "Suc c \<le> r \<Longrightarrow> \<exists>t. e2 (Suc c, r) = Some t \<and> inorder_list t = [Suc c..<Suc r] \<and> 2 ^ tree_height t \<le> 2 * (Suc r - Suc c)"
        using declaresD [OF rs(2), of e1] env e1(2) sub(2) by auto
      obtain tl where tl: "child_tree e2 (tl_left ln) = Some tl" "inorder_list tl = [l..<c]" "2 ^ tree_height tl \<le> Suc r - l"
      proof (cases "l < c")
        case True
        then have less_imp_pred: "l \<le> c - 1" by linarith
        from True obtain t where t: "e1 (l, c - 1) = Some t" "inorder_list t = [l..<c]" "2 ^ tree_height t \<le> 2 * (c - l)"
          using e1(3) [OF less_imp_pred] Suc_pred' [of c] by auto
        moreover have "e2 (l, c - 1) = e1 (l, c - 1)" by (rule e2(2)) (auto simp: inside_def)
        ultimately show ?thesis using that [of t] True c(4) by (simp add: child_tree_def ln_def)
      qed (use that [of Tree_leaf] c True in \<open>simp add: child_tree_def ln_def\<close>)
      obtain tr where tr: "child_tree e2 (tl_right ln) = Some tr" "inorder_list tr = [Suc c..<Suc r]" "2 ^ tree_height tr \<le> Suc r - l"
      proof (cases "c < r")
        case True
        then obtain t where t: "e2 (Suc c, r) = Some t" "inorder_list t = [Suc c..<Suc r]" "2 ^ tree_height t \<le> 2 * (r - c)"
          using e2(3) by auto
        then show ?thesis using that [of t] True c(5) by (simp add: child_tree_def ln_def)
      qed (use that [of Tree_leaf] c True in \<open>simp add: child_tree_def ln_def\<close>)
      have new: "e2 (l, r) = None"
        using e2(2) [of "(l, r)"] e1(2) [of "(l, r)"] env c less.prems(1) True by (auto simp: inside_def)
      define e3 where "e3 = e2((l, r) \<mapsto> Tree_node c tl tr)"
      have "resolve env (ls @ rs @ [ln]) = Some e3"
        using tl(1) tr(1) new by (simp add: resolve_append e1(1) e2(1) e3_def) (simp add: ln_def)
      moreover have "e3 nm = env nm" if "\<not> inside l r nm" for nm
      proof -
        have "\<not> inside l (c - 1) nm" "\<not> inside (Suc c) r nm" "nm \<noteq> (l, r)" using that sub [of nm] True by (auto simp: inside_def)
        then show ?thesis using e1(2) [of nm] e2(2) [of nm] by (simp add: e3_def)
      qed
      moreover have "inorder_list (Tree_node c tl tr) = [l..<Suc r]" 
        using tl(2) tr(2) upt_conv_Cons [of c "Suc r"] upt_add_eq_append [of l c "Suc r - c"] c(1,2) by (simp del: upt_Suc)
      moreover have "e3 (l, r) = Some (Tree_node c tl tr)" by (simp add: e3_def)
      moreover have "(2 :: nat) ^ tree_height (Tree_node c tl tr) \<le> 2 * (Suc r - l)" using tl(3) tr(3) by (simp add: max_def)
      ultimately show "\<exists>env'. resolve env (ls @ rs @ [ln]) = Some env' \<and> (\<forall>nm. \<not> inside l r nm \<longrightarrow> env' nm = env nm) \<and>
        (l \<le> r \<longrightarrow> (\<exists>t. env' (l, r) = Some t \<and> inorder_list t = [l..<Suc r] \<and> 2 ^ tree_height t \<le> 2 * (Suc r - l)))"
        by blast
    qed
    ultimately show ?thesis by blast
  qed
qed

section \<open>The generated classes\<close>

lemma gen_class_ids: "map gc_id (gen_classes rnd n) = [1..<Suc n]"
  by (simp add: gen_classes_def gen_class_for_def comp_def del: upt_Suc)

lemma gen_class_base:
  assumes "i < length (gen_classes rnd n)" and "gc_base (gen_classes rnd n ! i) \<noteq> 0"
  shows "gc_base (gen_classes rnd n ! i) \<in> set (map gc_id (take i (gen_classes rnd n)))"
proof -
  have i: "i < n" using assms(1) by (simp add: gen_classes_def del: upt_Suc)
  have "gc_base (gen_classes rnd n ! i) < Suc i" using i by (simp add: gen_classes_def gen_class_for_def del: upt_Suc)
  moreover have "map gc_id (take i (gen_classes rnd n)) = [1..<Suc i]"
    using i by (simp add: take_map [symmetric] gen_class_ids del: upt_Suc)
  ultimately show ?thesis using assms(2) by auto
qed

lemma foo_tags_sorted: "sorted_wrt (<) (map foo_tag [1..<Suc n]) \<longleftrightarrow> n < 65536"
proof
  assume s: "sorted_wrt (<) (map foo_tag [1..<Suc n])"
  show "n < 65536"
  proof (rule ccontr)
    assume "\<not> n < 65536"
    then have "foo_tag ([1..<Suc n] ! 0) < foo_tag ([1..<Suc n] ! 65535)"
      using sorted_wrt_nth_less [OF s, of 0 65535] by (simp del: upt_Suc)
    then show False using \<open>\<not> n < 65536\<close> by (simp add: foo_tag_def del: upt_Suc)
  qed
next
  assume "n < 65536"
  then show "sorted_wrt (<) (map foo_tag [1..<Suc n])"
    by (auto simp: sorted_wrt_iff_nth_less foo_tag_def simp del: upt_Suc)
qed

section \<open>Properties\<close>

text \<open>
  C34. The generator of type trees: for every number of classes from 1 on (below the range of \<open>size_t\<close>) the
  recursion returns, its output declares every name once and before its use, the tree it
  declares holds the classes in the order of their numbers and its height is at most one more than
  the binary logarithm of their number; \<open>check_tree\<close> accepts it exactly when the tags fit \<open>uint16_t\<close>. Every class
  derives from \<open>Base\<close> or from a class declared before it. For no classes nothing is declared
  and the \<open>typedef\<close> of \<open>BaseTree\<close> names an undeclared tree.
\<close>

theorem generated_tree_correct:
  "(1 \<le> n \<and> Suc n < u64_max \<longrightarrow>
     (\<exists>t. base_tree n = Some t \<and> inorder_list t = map gc_id (gen_classes rnd n) \<and> 2 ^ tree_height t \<le> 2 * n \<and>
        (check_tree foo_tag t = Inr () \<longleftrightarrow> n < 65536))) \<and>
   (\<forall>i < length (gen_classes rnd n). gc_base (gen_classes rnd n ! i) \<noteq> 0 \<longrightarrow>
      gc_base (gen_classes rnd n ! i) \<in> set (map gc_id (take i (gen_classes rnd n)))) \<and>
   base_tree 0 = None"
proof (intro conjI impI allI)
  assume n: "1 \<le> n \<and> Suc n < u64_max"
  obtain lns where lns: "makeTreeFor 1 n 2 = Some lns" "declares 1 n lns"
    using makeTreeFor_declares [of 1 n 2] n by auto
  have "\<exists>env t. resolve (\<lambda>_. None) lns = Some env \<and> env (1, n) = Some t \<and> inorder_list t = [1..<Suc n] \<and> 2 ^ tree_height t \<le> 2 * (Suc n - 1)"
    using declaresD [OF lns(2), of "\<lambda>_. None"] n by blast
  then obtain env t where "resolve (\<lambda>_. None) lns = Some env" "env (1, n) = Some t" "inorder_list t = [1..<Suc n]" "2 ^ tree_height t \<le> 2 * n"
    by (auto simp del: upt_Suc)
  then show "\<exists>t. base_tree n = Some t \<and> inorder_list t = map gc_id (gen_classes rnd n) \<and> 2 ^ tree_height t \<le> 2 * n \<and>
      (check_tree foo_tag t = Inr () \<longleftrightarrow> n < 65536)"
    using lns(1) foo_tags_sorted [of n] by (auto simp: base_tree_def check_tree_def tc_ok_iff gen_class_ids simp del: upt_Suc)
next
  fix i assume "i < length (gen_classes rnd n)" and "gc_base (gen_classes rnd n ! i) \<noteq> 0"
  then show "gc_base (gen_classes rnd n ! i) \<in> set (map gc_id (take i (gen_classes rnd n)))" by (rule gen_class_base)
next
  show "base_tree 0 = None" by (subst base_tree_def, subst makeTreeFor.simps) simp
qed

theorem generated_tree_correct_witness:
  "\<exists>t. base_tree 3 = Some t \<and> inorder_list t = [1, 2, 3] \<and> check_tree foo_tag t = Inr () \<and> 2 ^ tree_height t \<le> (6 :: nat)"
proof -
  have "map gc_id (gen_classes id 3) = [1, 2, 3]" unfolding gen_class_ids by (simp add: upt_conv_Cons)
  moreover have "(1 :: nat) \<le> 3 \<and> Suc 3 < u64_max" by (simp add: u64_max_def)
  ultimately show ?thesis using conjunct1 [OF generated_tree_correct [of 3 id]] by auto
qed

end
