(* ===== verification/Virtual_Class_Correct.thy ===== *)
theory Virtual_Class_Correct
  imports Virtual_Class Codecs_Correct
begin

text \<open>
  Correctness of \<open>Virtual\<close>: what the folds, the tree check and the pointer policies give together.
  The concrete hierarchy is the one of \<open>src/serialization/vc_example.cpp\<close>: a base class with a
  32-bit tag, a class that holds a string and one that holds a 64-bit integer, encoded by
  \<open>buffer_encoder<little_endian_codec>\<close>.
\<close>

section \<open>The hierarchy of \<open>vc_example.cpp\<close>\<close>

datatype a_obj = A1_obj "u8 list" | A2_obj "64 word"

fun a_get_tag :: "a_obj \<Rightarrow> int" where
  "a_get_tag (A1_obj _) = 1"
| "a_get_tag (A2_obj _) = 2"

text \<open>\<open>tag_type\<close> is \<open>int32_t\<close>.\<close>

definition int32_cast :: "int \<Rightarrow> int" where
  "int32_cast x = sint (word_of_int x :: 32 word)"

definition int32_encode :: "int \<Rightarrow> u8 list \<Rightarrow> u8 list res" where
  "int32_encode x = le_int_encode buffer_encoder signed_drop_bit (word_of_int x :: 32 word)"

definition int32_decode :: "u8 list \<Rightarrow> (int \<times> u8 list) res" where
  "int32_decode r = bind_res (le_int_decode buffer_decoder r) (\<lambda>(w :: 32 word, r). Inr (sint w, r))"

type_synonym a_type = "(a_obj, u8 list, u8 list) vtype"

text \<open>A \<open>static_cast\<close> to the wrong class is a bad access; \<open>A2()\<close> leaves its field uninitialized.\<close>

definition A1 :: a_type where
  "A1 = \<lparr>vt_TAG = 1, vt_new = A1_obj [],
     vt_encode = (\<lambda>x. case x of A1_obj s \<Rightarrow> le_string_encode buffer_encoder s | _ \<Rightarrow> (\<lambda>_. Inl Bad_access)),
     vt_decode = (\<lambda>x r. case x of
        A1_obj _ \<Rightarrow> bind_res (le_string_decode buffer_decoder r) (\<lambda>(s, r). Inr (A1_obj s, r)) | _ \<Rightarrow> Inl Bad_access)\<rparr>"

definition A2 :: "64 word \<Rightarrow> a_type" where
  "A2 garbage = \<lparr>vt_TAG = 2, vt_new = A2_obj garbage,
     vt_encode = (\<lambda>x. case x of A2_obj v \<Rightarrow> le_int_encode buffer_encoder drop_bit v | _ \<Rightarrow> (\<lambda>_. Inl Bad_access)),
     vt_decode = (\<lambda>x r. case x of
        A2_obj _ \<Rightarrow> bind_res (le_int_decode buffer_decoder r) (\<lambda>(v, r). Inr (A2_obj v, r)) | _ \<Rightarrow> Inl Bad_access)\<rparr>"

definition VTree :: "64 word \<Rightarrow> a_type type_tree" where
  "VTree garbage = Tree_node (A2 garbage) (create_tree_node A1) Tree_leaf"

definition VList :: "64 word \<Rightarrow> a_type type_list" where
  "VList garbage = make_list2 A1 (A2 garbage)"

text \<open>\<open>AFactory\<close>: a table of \<open>process_checked\<close> indexed by the tag.\<close>

definition AFactory :: "64 word \<Rightarrow> (a_type, 's) visitor \<Rightarrow> 's \<Rightarrow> 's res" where
  "AFactory garbage f s =
     (if \<not> (0 < f_tag f \<and> f_tag f < 3) then Inl C_assert
      else if f_tag f = 1 then f_process_checked f A1 s else f_process_checked f (A2 garbage) s)"

text \<open>
  The helper constructors. Encoding copies the \<open>shared_ptr\<close> for the time of the call; decoding
  fills a fresh \<open>Virtual\<close> and assigns its pointer.
\<close>

definition helper_encode :: "((a_type, u8 list) visitor \<Rightarrow> u8 list \<Rightarrow> u8 list res) \<Rightarrow> a_obj ptr_state \<Rightarrow> u8 list \<Rightarrow> u8 list res" where
  "helper_encode fld a s = (case a of (p, h) \<Rightarrow>
     virtual_encode fld int32_cast int32_encode a_get_tag shared_ptr_policy (p, shared_acquire p h) s)"

definition helper_decode :: "((a_type, a_obj ptr_state \<times> u8 list) visitor \<Rightarrow> a_obj ptr_state \<times> u8 list \<Rightarrow> (a_obj ptr_state \<times> u8 list) res) \<Rightarrow>
    a_obj ptr_state \<Rightarrow> u8 list \<Rightarrow> (a_obj ptr_state \<times> u8 list) res" where
  "helper_decode fld a r = (case a of (p, h) \<Rightarrow>
     bind_res (virtual_decode fld int32_cast int32_decode shared_ptr_policy (None, h) r) (\<lambda>((q, h), r).
     bind_res (shared_set q (p, h)) (\<lambda>(p, h).
     bind_res (shared_release (q, h)) (\<lambda>h. Inr ((p, h), r)))))"

text \<open>\<open>AContPtr\<close> assigns the raw pointer to its member.\<close>

definition acont_ptr_decode :: "64 word \<Rightarrow> a_obj ptr_state \<Rightarrow> u8 list \<Rightarrow> (a_obj ptr_state \<times> u8 list) res" where
  "acont_ptr_decode g a r = (case a of (p, h) \<Rightarrow>
     virtual_decode (fold_tree (VTree g)) int32_cast int32_decode std_ptr_policy (None, h) r)"

section \<open>Round trips through a pointer\<close>

text \<open>\<open>codes e d x\<close>: \<open>e\<close> appends bytes for \<open>x\<close>, and \<open>d\<close> in front of them returns \<open>x\<close>.\<close>

definition codes :: "('a \<Rightarrow> u8 list \<Rightarrow> u8 list res) \<Rightarrow> (u8 list \<Rightarrow> ('a \<times> u8 list) res) \<Rightarrow> 'a \<Rightarrow> bool" where
  "codes e d x \<longleftrightarrow> (\<exists>bs. (\<forall>s. e x s = Inr (s @ bs)) \<and> (\<forall>ys. d (bs @ ys) = Inr (x, ys)))"

lemma codesI:
  "(\<And>s. e x s = Inr (s @ bs)) \<Longrightarrow> (\<And>ys. d (bs @ ys) = Inr (x, ys)) \<Longrightarrow> codes e d x"
  by (auto simp: codes_def)

lemma codes_buffer:
  assumes "buf_sink.emits e f" and "buf_source.reads d f D" and "D x"
  shows "codes e d x"
proof (rule codesI)
  show "e x s = Inr (s @ f x)" for s using buf_sink.emitsD [OF assms(1), where s = s and x = x] by auto
  show "d (f x @ ys) = Inr (x, ys)" for ys using buf_source.readsD [OF assms(2,3), of "f x @ ys" ys] by auto
qed

context pointer_policy
begin

lemma decode_unchecked_ok:
  assumes "inv p" and "vt_decode T (vt_new T) r = Inr (x, r')"
  shows "\<exists>q. td_process_unchecked P T (p, r) = Inr (q, r') \<and> inv q \<and> pointee q = Some x"
proof -
  obtain p1 where p1: "pp_set_new P (vt_new T) p = Inr p1" "inv p1" "pointee p1 = Some (vt_new T)"
    using set_new [OF assms(1)] by blast
  obtain p2 where "pp_put P x p1 = Inr p2" "inv p2" "pointee p2 = Some x" using put [OF p1(2,3)] by blast
  then show ?thesis using p1(1) get [OF p1(2,3)] assms(2) by (simp add: td_process_unchecked_def)
qed

lemma encode_eq:
  assumes "inv p"
  shows "virtual_encode (fold_list L) cast tag_enc get_tag P p s = (case pointee p of
      None \<Rightarrow> tag_enc 0 s
    | Some x \<Rightarrow> (case find (\<lambda>T. cast (vt_TAG T) = get_tag x) (types_of L) of
        None \<Rightarrow> Inl Runtime_error
      | Some T \<Rightarrow> bind_res (tag_enc (get_tag x) s) (vt_encode T x)))"
proof (cases "pointee p")
  case (Some x)
  have "find (\<lambda>T. cast (vt_TAG T) = get_tag x) (types_of L) = Some T \<Longrightarrow> cast (vt_TAG T) = get_tag x" for T
    by (auto simp: find_Some_iff)
  then show ?thesis using Some assms is_null get
    by (auto simp: virtual_encode_def te.fold_list_dispatch dispatch_def te_process_unchecked_def
        split: option.split)
qed (use assms is_null in \<open>simp add: virtual_encode_def\<close>)

lemma decode_null:
  assumes "inv p" and "tag_dec r = Inr (0, r')"
  shows "\<exists>q. virtual_decode fld cast tag_dec P p r = Inr (q, r') \<and> inv q \<and> pointee q = None"
  using reset_ok [OF assms(1)] assms(2) by (auto simp: virtual_decode_def)

lemma decode_found:
  assumes "inv p" and "tag_dec r = Inr (tag, r1)" and "tag \<noteq> 0"
    and "find (\<lambda>T. cast (vt_TAG T) = tag) (types_of L) = Some T" and "vt_decode T (vt_new T) r1 = Inr (x, r2)"
  shows "\<exists>q. virtual_decode (fold_list L) cast tag_dec P p r = Inr (q, r2) \<and> inv q \<and> pointee q = Some x"
  using decode_unchecked_ok [OF assms(1,5)] assms(2-4)
  by (simp add: virtual_decode_def td.fold_list_dispatch dispatch_def)

lemma decode_unknown:
  assumes "tag_dec r = Inr (tag, r1)" and "tag \<noteq> 0" and "find (\<lambda>T. cast (vt_TAG T) = tag) (types_of L) = None"
  shows "virtual_decode (fold_list L) cast tag_dec P p r = Inl Runtime_error"
  using assms by (simp add: virtual_decode_def td.fold_list_dispatch dispatch_def)

end

lemma virtual_roundtrip_gen:
  assumes "pointer_policy P J val" and "J p" and "pointer_policy P' J' val'" and "J' p'"
    and tags: "\<And>t. t = 0 \<or> (\<exists>x. val p = Some x \<and> t = get_tag x) \<Longrightarrow> codes tag_enc tag_dec t"
    and obj: "\<And>x. val p = Some x \<Longrightarrow> get_tag x \<noteq> 0 \<and> (\<exists>T. find (\<lambda>T. cast (vt_TAG T) = get_tag x) (types_of L) = Some T \<and>
          codes (vt_encode T) (vt_decode T (vt_new T)) x)"
  shows "\<exists>bs. (\<forall>s. virtual_encode (fold_list L) cast tag_enc get_tag P p s = Inr (s @ bs)) \<and>
    (\<forall>ys. \<exists>q. virtual_decode (fold_list L) cast tag_dec P' p' (bs @ ys) = Inr (q, ys) \<and> J' q \<and> val' q = val p)"
proof -
  note enc = pointer_policy.encode_eq [OF assms(1,2)]
  show ?thesis
  proof (cases "val p")
    case None
    obtain bs where "\<And>s. tag_enc 0 s = Inr (s @ bs)" "\<And>ys. tag_dec (bs @ ys) = Inr (0, ys)"
      using tags [of 0] by (auto simp: codes_def)
    then show ?thesis using None pointer_policy.decode_null [OF assms(3,4)] by (fastforce simp: enc)
  next
    case (Some x)
    obtain T where T: "get_tag x \<noteq> 0" "find (\<lambda>T. cast (vt_TAG T) = get_tag x) (types_of L) = Some T"
      "codes (vt_encode T) (vt_decode T (vt_new T)) x" using obj [OF Some] by blast
    obtain bs where bs: "\<And>s. tag_enc (get_tag x) s = Inr (s @ bs)" "\<And>ys. tag_dec (bs @ ys) = Inr (get_tag x, ys)"
      using tags [of "get_tag x"] Some by (auto simp: codes_def)
    obtain cs where cs: "\<And>s. vt_encode T x s = Inr (s @ cs)" "\<And>ys. vt_decode T (vt_new T) (cs @ ys) = Inr (x, ys)"
      using T(3) by (auto simp: codes_def)
    have "virtual_encode (fold_list L) cast tag_enc get_tag P p s = Inr (s @ bs @ cs)" for s
      using Some T(2) bs(1) cs(1) by (simp add: enc)
    moreover have "\<exists>q. virtual_decode (fold_list L) cast tag_dec P' p' ((bs @ cs) @ ys) = Inr (q, ys) \<and> J' q \<and> val' q = val p" for ys
      using pointer_policy.decode_found [OF assms(3,4) _ T(1,2), of tag_dec "bs @ cs @ ys" "cs @ ys" x ys] bs(2) cs(2) Some by simp
    ultimately show ?thesis by blast
  qed
qed

section \<open>Trees and factories\<close>

lemma tree_fold_eq:
  assumes "check_tree vt_TAG t = Inr ()" and "\<forall>T \<in> set (inorder_list t). cast (vt_TAG T) = vt_TAG T"
  shows "fold_tree t (tagged_encoder cast tag_enc x tag) s = fold_list (type_list_of (inorder_list t)) (tagged_encoder cast tag_enc x tag) s"
    and "fold_tree t (tagged_decoder cast P tag) st = fold_list (type_list_of (inorder_list t)) (tagged_decoder cast P tag) st"
proof -
  have "sorted_wrt (<) (map vt_TAG (inorder_list t))"
    using assms(1) by (simp add: check_tree_def res_simps tc_ok_iff)
  note td.fold_tree_dispatch [OF this assms(2)] te.fold_tree_dispatch [OF this assms(2)]
  then show "fold_tree t (tagged_encoder cast tag_enc x tag) s = fold_list (type_list_of (inorder_list t)) (tagged_encoder cast tag_enc x tag) s"
    and "fold_tree t (tagged_decoder cast P tag) st = fold_list (type_list_of (inorder_list t)) (tagged_decoder cast P tag) st"
    by (simp_all add: te.fold_list_dispatch td.fold_list_dispatch)
qed

text \<open>
  The check compares the tags as \<open>int\<close>, the search as \<open>tag_type\<close>: with an 8-bit unsigned
  \<open>tag_type\<close> a tree with the tags -1 and 1 passes the check, and its class with tag -1, which is 255
  as \<open>uint8_t\<close>, is in the list but not found in the tree.
\<close>

lemma check_tree_ignores_cast:
  fixes T U :: "('obj, 's, 'r) vtype"
  assumes "vt_TAG T = 1" and "vt_TAG U = -1" and "t = Tree_node T (create_tree_node U) Tree_leaf"
  shows "check_tree vt_TAG t = Inr ()"
    and "fold_tree t (tagged_encoder (\<lambda>x. x mod 256) tag_enc x 255) s = Inl Runtime_error"
    and "fold_list (type_list_of (inorder_list t)) (tagged_encoder (\<lambda>x. x mod 256) tag_enc x 255) s =
      bind_res (tag_enc 255 s) (vt_encode U x)"
  using assms by (simp_all add: check_tree_def create_tree_node_def te.fold_list_dispatch dispatch_def te_process_unchecked_def
      te.process_node)

lemma int32_cast_small [simp]: "int32_cast 1 = 1" "int32_cast 2 = 2"
  by (simp_all add: int32_cast_def)

lemma a_types_simps [simp]: "vt_TAG A1 = 1" "vt_TAG (A2 g) = 2"
  by (simp_all add: A1_def A2_def)

lemma factory_dispatch:
  assumes "tag_dispatch int32_cast vt_TAG f" and "f_tag f = 1 \<or> f_tag f = 2"
  shows "AFactory g f s = fold_list (VList g) f s"
  using assms(2) tag_dispatch.process_checked [OF assms(1)]
  by (auto simp: AFactory_def tag_dispatch.fold_list_dispatch [OF assms(1)] VList_def make_list2_def make_list1_def dispatch_def)

lemma le_string_codes: "length s < u32_max \<Longrightarrow> codes (le_string_encode buffer_encoder) (le_string_decode buffer_decoder) s"
  unfolding le_string_encode_def le_string_decode_def le_u32_encode_def
  by (rule codes_buffer [OF buf_sink.emits_sequence [OF buf_sink.emits_le [OF shr_ok_unsigned] buf_sink.emits_char]
        buf_source.reads_sequence [OF buf_source.reads_le_all [OF whole_bytes_sizes(2)] buf_source.reads_char]])
    (simp add: countable_def)

lemma le_u64_codes: "codes (le_int_encode buffer_encoder drop_bit) (le_int_decode buffer_decoder) (v :: 64 word)"
  by (rule codes_buffer [OF buf_sink.emits_le [OF shr_ok_unsigned] buf_source.reads_le_all [OF whole_bytes_sizes(3)]]) simp

lemma int32_codes:
  assumes "int32_cast t = t"
  shows "codes int32_encode int32_decode t"
proof -
  have "codes (le_int_encode buffer_encoder signed_drop_bit) (le_int_decode buffer_decoder) (word_of_int t :: 32 word)"
    by (rule codes_buffer [OF buf_sink.emits_le [OF shr_ok_signed] buf_source.reads_le_all [OF whole_bytes_sizes(2)]]) simp
  then show ?thesis using assms by (auto simp: codes_def int32_encode_def int32_decode_def int32_cast_def)
qed

definition a_ok :: "a_obj option \<Rightarrow> bool" where
  "a_ok v = (case v of Some (A1_obj s) \<Rightarrow> length s < u32_max | _ \<Rightarrow> True)"

lemma a_obj_found:
  assumes "a_ok (Some x)"
  shows "a_get_tag x \<noteq> 0 \<and> (\<exists>T. find (\<lambda>T. int32_cast (vt_TAG T) = a_get_tag x) (types_of (VList g)) = Some T \<and>
     codes (vt_encode T) (vt_decode T (vt_new T)) x)"
proof (cases x)
  case (A1_obj s)
  then have "length s < u32_max" using assms by (simp add: a_ok_def)
  from le_string_codes [OF this] show ?thesis
    by (auto simp: A1_obj VList_def make_list2_def make_list1_def codes_def A1_def)
next
  case (A2_obj v)
  from le_u64_codes [of v] show ?thesis
    by (auto simp: A2_obj VList_def make_list2_def make_list1_def codes_def A1_def A2_def)
qed

section \<open>The helper of a container\<close>

lemma shared_decode_fresh:
  assumes "vt_decode T (vt_new T) r = Inr (x, r')"
  shows "td_process_unchecked shared_ptr_policy T ((None, h), r) =
    Inr ((Some (oh_next h), h\<lparr>oh_obj := (oh_obj h)(oh_next h \<mapsto> x), oh_next := oh_next h + 1, oh_refs := (oh_refs h)(oh_next h := 1)\<rparr>), r')"
  using assms by (simp add: td_process_unchecked_def shared_ptr_policy_def shared_reset_new_def shared_release_def oh_new_def
      ptr_get_def ptr_put_def)

text \<open>Moving the reference of the temporary into the member keeps the counts right.\<close>

lemma shared_handover:
  assumes inv: "shared_inv (p, h)"
    and h1: "h1 = h\<lparr>oh_obj := (oh_obj h)(oh_next h \<mapsto> x), oh_next := oh_next h + 1, oh_refs := (oh_refs h)(oh_next h := 1)\<rparr>"
  shows "\<exists>h3. bind_res (shared_set (Some (oh_next h)) (p, h1)) (\<lambda>(p, h). bind_res (shared_release (Some (oh_next h1 - 1), h)) (\<lambda>h. Inr (p, h))) =
      Inr (Some (oh_next h), h3) \<and> shared_inv (Some (oh_next h), h3) \<and> ptr_val (Some (oh_next h), h3) = Some x"
proof -
  let ?n = "oh_next h" and ?h = "shared_acquire (Some (oh_next h)) h1"
  have p: "p \<noteq> Some ?n" using inv by (auto simp: shared_inv_def ptr_inv_def)
  have "shared_inv (p, ?h)" using inv by (auto simp: h1 shared_acquire_def shared_inv_def ptr_inv_def)
  then obtain h2 where h2: "shared_release (p, ?h) = Inr h2" "oh_next h2 = oh_next ?h"
      "\<And>a. oh_obj h2 a = oh_obj ?h a \<or> p = Some a \<and> oh_obj h2 a = None"
      "\<And>a. p \<noteq> Some a \<Longrightarrow> oh_refs h2 a = oh_refs ?h a" "\<And>a. oh_obj h2 a \<noteq> None \<Longrightarrow> 0 < oh_refs h2 a"
    using shared_release_ok by blast
  let ?h3 = "h2\<lparr>oh_refs := (oh_refs h2)(?n := 1)\<rparr>"
  have x: "oh_obj h2 ?n = Some x" using h2(3) [of ?n] p by (simp add: h1 shared_acquire_def)
  have refs: "oh_refs h2 ?n = 2" using h2(4) [OF p] by (simp add: h1 shared_acquire_def)
  have free: "oh_obj h2 a = None" if "oh_next h2 \<le> a" for a
    using h2(2) h2(3) [of a] that inv by (auto simp: h1 shared_acquire_def shared_inv_def ptr_inv_def)
  have "shared_set (Some ?n) (p, h1) = Inr (Some ?n, h2)" using h2(1) by (simp add: shared_set_def)
  moreover have "shared_release (Some ?n, h2) = Inr ?h3" using refs by (simp add: shared_release_def)
  ultimately show ?thesis using x free h2(5) by (auto simp: h1 shared_inv_def ptr_inv_def ptr_val_def)
qed

lemma helper_decode_list:
  assumes "shared_inv (p, h)" and "int32_decode r = Inr (tag, r1)" and "tag \<noteq> 0"
    and "find (\<lambda>T. int32_cast (vt_TAG T) = tag) (types_of L) = Some T" and "vt_decode T (vt_new T) r1 = Inr (x, r2)"
  shows "\<exists>b. helper_decode (fold_list L) (p, h) r = Inr (b, r2) \<and> shared_inv b \<and> ptr_val b = Some x"
proof -
  define h1 where "h1 = h\<lparr>oh_obj := (oh_obj h)(oh_next h \<mapsto> x), oh_next := oh_next h + 1, oh_refs := (oh_refs h)(oh_next h := 1)\<rparr>"
  have vd: "virtual_decode (fold_list L) int32_cast int32_decode shared_ptr_policy (None, h) r = Inr ((Some (oh_next h), h1), r2)"
    using assms(2-4) shared_decode_fresh [OF assms(5), of h]
    by (simp add: virtual_decode_def td.fold_list_dispatch dispatch_def h1_def)
  obtain h2 where h2: "shared_set (Some (oh_next h)) (p, h1) = Inr (Some (oh_next h), h2)"
    "\<exists>h3. shared_release (Some (oh_next h), h2) = Inr h3 \<and> shared_inv (Some (oh_next h), h3) \<and> ptr_val (Some (oh_next h), h3) = Some x"
    using shared_handover [OF assms(1) h1_def] by (fastforce simp: res_simps h1_def)
  then show ?thesis by (auto simp: helper_decode_def vd)
qed

lemma helper_decode_null:
  assumes "shared_inv (p, h)" and "int32_decode r = Inr (0, r1)"
  shows "\<exists>b. helper_decode fld (p, h) r = Inr (b, r1) \<and> shared_inv b \<and> ptr_val b = None"
proof -
  obtain h2 where "shared_release (p, h) = Inr h2" "oh_next h2 = oh_next h"
      "\<And>a. oh_obj h2 a = oh_obj h a \<or> p = Some a \<and> oh_obj h2 a = None" "\<And>a. oh_obj h2 a \<noteq> None \<Longrightarrow> 0 < oh_refs h2 a"
    using shared_release_ok [OF assms(1)] by blast
  moreover from this have "oh_obj h2 a = None" if "oh_next h2 \<le> a" for a
    using that assms(1) unfolding shared_inv_def ptr_inv_def by (metis snd_conv)
  moreover have release_null: "shared_release (None, h) = Inr h" for h :: "a_obj obj_heap" by (simp add: shared_release_def)
  moreover have "virtual_decode fld int32_cast int32_decode shared_ptr_policy (None, h) r = Inr ((None, h), r1)"
    using assms(2) release_null by (simp add: virtual_decode_def shared_ptr_policy_def shared_reset_def)
  ultimately have "helper_decode fld (p, h) r = Inr ((None, h2), r1)" and "shared_inv (None, h2)"
    by (simp_all add: helper_decode_def shared_set_def shared_acquire_def shared_inv_def ptr_inv_def)
  then show ?thesis by (auto simp: ptr_val_def)
qed

lemma VTree_inorder: "type_list_of (inorder_list (VTree g)) = VList g"
  by (simp add: VTree_def VList_def create_tree_node_def make_list2_def make_list1_def)

lemma VTree_ok: "check_tree vt_TAG (VTree g) = Inr ()" "\<forall>T \<in> set (inorder_list (VTree g)). int32_cast (vt_TAG T) = vt_TAG T"
  by (simp_all add: VTree_def create_tree_node_def check_tree_def)

text \<open>The three ways to look up a class agree on the tags of the hierarchy.\<close>

lemma a_folds_encode:
  "helper_encode (fold_tree (VTree g)) a s = helper_encode (fold_list (VList g)) a s"
  "helper_encode (AFactory g) a s = helper_encode (fold_list (VList g)) a s"
proof -
  have tag: "a_get_tag x = 1 \<or> a_get_tag x = 2" for x by (cases x) simp_all
  show "helper_encode (fold_tree (VTree g)) a s = helper_encode (fold_list (VList g)) a s"
    by (simp add: helper_encode_def virtual_encode_def tree_fold_eq(1) [OF VTree_ok] VTree_inorder cong: if_cong)
  show "helper_encode (AFactory g) a s = helper_encode (fold_list (VList g)) a s"
    by (simp add: helper_encode_def virtual_encode_def factory_dispatch [OF te.tag_dispatch_axioms] tag cong: if_cong)
qed

lemma a_folds_decode:
  assumes "int32_decode r = Inr (tag, r1)" and "tag = 0 \<or> tag = 1 \<or> tag = 2"
  shows "helper_decode (fold_tree (VTree g)) a r = helper_decode (fold_list (VList g)) a r"
    and "helper_decode (AFactory g) a r = helper_decode (fold_list (VList g)) a r"
  using assms by (auto simp: helper_decode_def virtual_decode_def tree_fold_eq(2) [OF VTree_ok] VTree_inorder
      factory_dispatch [OF td.tag_dispatch_axioms])

lemma acont_roundtrip_list:
  assumes "shared_inv a" and "shared_inv b" and "a_ok (ptr_val a)"
  shows "\<exists>bs tag. (\<forall>s. helper_encode (fold_list (VList g)) a s = Inr (s @ bs)) \<and>
    (\<forall>ys. (\<exists>r. int32_decode (bs @ ys) = Inr (tag, r)) \<and>
       (\<exists>b'. helper_decode (fold_list (VList g)) b (bs @ ys) = Inr (b', ys) \<and> shared_inv b' \<and> ptr_val b' = ptr_val a)) \<and>
    (tag = 0 \<or> tag = 1 \<or> tag = 2)"
proof -
  obtain p h q k where ab: "a = (p, h)" "b = (q, k)" by (meson surj_pair)
  have inv: "shared_inv (p, shared_acquire p h)"
    using assms(1) by (auto simp: ab shared_inv_def ptr_inv_def shared_acquire_def split: option.split)
  have val: "ptr_val (p, shared_acquire p h) = ptr_val a" by (simp add: ab ptr_val_def shared_acquire_def split: option.split)
  note enc = shared_ptr.encode_eq [OF inv, unfolded val]
  show ?thesis
  proof (cases "ptr_val a")
    case None
    have "int32_cast 0 = 0" by (simp add: int32_cast_def)
    then obtain bs where bs: "\<And>s. int32_encode 0 s = Inr (s @ bs)" "\<And>ys. int32_decode (bs @ ys) = Inr (0, ys)"
      using int32_codes [of 0] by (auto simp: codes_def)
    have "\<exists>b'. helper_decode (fold_list (VList g)) b (bs @ ys) = Inr (b', ys) \<and> shared_inv b' \<and> ptr_val b' = ptr_val a" for ys
      using helper_decode_null [OF assms(2) [unfolded ab(2)] bs(2)] None by (simp add: ab(2))
    moreover have "helper_encode (fold_list (VList g)) a s = Inr (s @ bs)" for s
      using None bs(1) by (simp add: helper_encode_def ab(1) enc [unfolded ab(1)])
    ultimately show ?thesis using bs(2) by blast
  next
    case (Some x)
    have tag: "a_get_tag x = 1 \<or> a_get_tag x = 2" by (cases x) simp_all
    obtain T where T: "find (\<lambda>T. int32_cast (vt_TAG T) = a_get_tag x) (types_of (VList g)) = Some T"
      "codes (vt_encode T) (vt_decode T (vt_new T)) x" "a_get_tag x \<noteq> 0"
      using a_obj_found [of x g] assms(3) Some by auto
    obtain bs where bs: "\<And>s. int32_encode (a_get_tag x) s = Inr (s @ bs)" "\<And>ys. int32_decode (bs @ ys) = Inr (a_get_tag x, ys)"
      using int32_codes [of "a_get_tag x"] tag by (auto simp: codes_def)
    obtain cs where cs: "\<And>s. vt_encode T x s = Inr (s @ cs)" "\<And>ys. vt_decode T (vt_new T) (cs @ ys) = Inr (x, ys)"
      using T(2) by (auto simp: codes_def)
    have "helper_encode (fold_list (VList g)) a s = Inr (s @ bs @ cs)" for s
      using Some T(1) bs(1) cs(1) by (simp add: helper_encode_def ab(1) enc [unfolded ab(1)])
    moreover have "\<exists>b'. helper_decode (fold_list (VList g)) b ((bs @ cs) @ ys) = Inr (b', ys) \<and> shared_inv b' \<and> ptr_val b' = ptr_val a" for ys
      using helper_decode_list [OF assms(2) [unfolded ab(2)] _ T(3,1), of "bs @ cs @ ys" "cs @ ys" x ys] bs(2) cs(2) Some by (simp add: ab(2))
    ultimately show ?thesis using bs(2) tag by (metis append.assoc)
  qed
qed

text \<open>What \<open>AContPtr\<close> held before is never deleted: reading null over an object leaks the object.\<close>

lemma acont_ptr_leaks:
  assumes "oh_obj h a = Some x" and "int32_decode r = Inr (0, r1)"
  shows "\<exists>h'. acont_ptr_decode g (Some a, h) r = Inr ((None, h'), r1) \<and> oh_obj h' a = Some x"
  using assms by (simp add: acont_ptr_decode_def virtual_decode_def std_ptr_policy_def std_reset_def std_delete_def)

definition sample_ptr :: "a_obj \<Rightarrow> a_obj ptr_state" where
  "sample_ptr x = (Some 0, \<lparr>oh_obj = [0 \<mapsto> x], oh_refs = (\<lambda>a. if a = 0 then 1 else 0), oh_next = 1\<rparr>)"

lemma sample_ptr_ok: "shared_inv (sample_ptr x)" "ptr_inv (sample_ptr x)" "ptr_val (sample_ptr x) = Some x"
  by (auto simp: sample_ptr_def shared_inv_def ptr_inv_def ptr_val_def)

section \<open>Properties\<close>



text \<open>
  C28. Round trip through a pointer to the base class: an object whose tag is not 0 and belongs to a type
  of the list, or a null pointer, is encoded to bytes in front of which decoding gives an equal
  object (or null) in a well-formed pointer and leaves the bytes that follow, whatever the two
  pointer policies and whatever the target pointed to before.
\<close>

theorem virtual_roundtrip:
  assumes "pointer_policy P J val" and "J p" and "pointer_policy P' J' val'" and "J' p'"
    and "codes tag_enc tag_dec 0"
    and "\<forall>x. val p = Some x \<longrightarrow> get_tag x \<noteq> 0 \<and> codes tag_enc tag_dec (get_tag x) \<and>
          (\<exists>T. find (\<lambda>T. cast (vt_TAG T) = get_tag x) (types_of L) = Some T \<and> codes (vt_encode T) (vt_decode T (vt_new T)) x)"
  shows "\<exists>bs. (\<forall>s. virtual_encode (fold_list L) cast tag_enc get_tag P p s = Inr (s @ bs)) \<and>
    (\<forall>ys. \<exists>q. virtual_decode (fold_list L) cast tag_dec P' p' (bs @ ys) = Inr (q, ys) \<and> J' q \<and> val' q = val p)"
  using virtual_roundtrip_gen [OF assms(1-4), of get_tag tag_enc tag_dec cast L] assms(5,6) by auto

theorem virtual_roundtrip_witness:
  "\<exists>bs q. virtual_encode (fold_list (VList 7)) int32_cast int32_encode a_get_tag shared_ptr_policy (sample_ptr (A1_obj [65, 66])) [] = Inr bs \<and>
     virtual_decode (fold_list (VList 7)) int32_cast int32_decode std_ptr_policy (sample_ptr (A2_obj 777)) (bs @ [1]) = Inr (q, [1]) \<and>
     ptr_val q = Some (A1_obj [65, 66])"
proof -
  have "codes int32_encode int32_decode 0" "codes int32_encode int32_decode 1"
    by (simp_all add: int32_codes int32_cast_def)
  moreover have "a_ok (Some (A1_obj [65, 66]))" by (simp add: a_ok_def u32_max_def)
  note a_obj_found [OF this, of 7]
  ultimately show ?thesis
    using virtual_roundtrip [OF shared_ptr.pointer_policy_axioms sample_ptr_ok(1) std_ptr.pointer_policy_axioms sample_ptr_ok(2),
        of int32_encode int32_decode "A1_obj [65, 66]" a_get_tag int32_cast "VList 7" "A2_obj 777"]
    by (auto simp: sample_ptr_ok) (metis append_Nil)
qed

text \<open>
  The containers of the example program: a null pointer, a string object or an integer object held
  by a \<open>shared_ptr\<close> is written the same way by the list, the tree and the factory, and each of
  the three reads it back into another container, releases what that held and leaves exactly
  one reference to the new object.
\<close>

theorem acont_roundtrip:
  assumes "shared_inv a" and "shared_inv b" and "a_ok (ptr_val a)"
  shows "\<exists>bs. (\<forall>s. helper_encode (fold_list (VList g)) a s = Inr (s @ bs) \<and> helper_encode (fold_tree (VTree g)) a s = Inr (s @ bs) \<and>
      helper_encode (AFactory g) a s = Inr (s @ bs)) \<and>
    (\<forall>ys. \<exists>b'. helper_decode (fold_list (VList g)) b (bs @ ys) = Inr (b', ys) \<and> helper_decode (fold_tree (VTree g)) b (bs @ ys) = Inr (b', ys) \<and>
      helper_decode (AFactory g) b (bs @ ys) = Inr (b', ys) \<and> shared_inv b' \<and> ptr_val b' = ptr_val a)"
  using acont_roundtrip_list [OF assms, of g] a_folds_decode [of _ _ _ g b] by (simp add: a_folds_encode) metis

theorem acont_roundtrip_witness:
  "\<exists>bs b'. helper_encode (fold_tree (VTree 7)) (sample_ptr (A2_obj 777)) [] = Inr bs \<and>
     helper_decode (AFactory 7) (sample_ptr (A1_obj [65])) (bs @ [1]) = Inr (b', [1]) \<and> ptr_val b' = Some (A2_obj 777)"
proof -
  have "a_ok (ptr_val (sample_ptr (A2_obj 777)))" by (simp add: sample_ptr_ok a_ok_def)
  from acont_roundtrip [OF sample_ptr_ok(1) sample_ptr_ok(1) [of "A1_obj [65]"] this, of 7]
  show ?thesis by (metis append_Nil sample_ptr_ok(3))
qed

end
