(* ===== verification/Pimpl.thy ===== *)
theory Pimpl
  imports Virtual_Class_Correct
begin

text \<open>
  \<open>src/include/misc/pimpl_generator.h\<close>, \<open>src/include/serialization/encoders/encoders_pimpl.h\<close> and their
  predecessors \<open>src/serialization/encoders/virtual_encoder.h\<close> and \<open>virtual_decoder.h\<close>: classes generated from a
  type list that hide which encoder or decoder is used behind virtual functions.

  What the compiler computes from the templates is computed by functions here. An encoder and a decoder
  differ only in the object behind the call, so a class is the same for both: \<open>foo\<close> is the call
  operator of the hidden encoder or decoder, given the type of the argument, the version (if the
  call has one), the argument and the state. \<open>None\<close> is a call that does not compile.
\<close>

section \<open>The pimpl generator\<close>

text \<open>A list element is a type, possibly wrapped in \<open>__default\<close>, \<open>__version\<close> or \<open>__both\<close>.\<close>

datatype 'ty entry = Plain 'ty | Default 'ty | Version 'ty | Both 'ty

fun type_extractor :: "'ty entry \<Rightarrow> 'ty" where
  "type_extractor (Plain T) = T"
| "type_extractor (Default T) = T"
| "type_extractor (Version T) = T"
| "type_extractor (Both T) = T"

text \<open>
  The pure virtual operators of \<open>virtual_encoder_function\<close> and \<open>virtual_decoder_function\<close>: \<open>False\<close> stands for the
  operator without, \<open>True\<close> for the one with a version.
\<close>

fun virtual_function :: "'ty entry \<Rightarrow> bool list" where
  "virtual_function (Plain T) = [False]"
| "virtual_function (Default T) = [False]"
| "virtual_function (Version T) = [True]"
| "virtual_function (Both T) = [False, True]"

text \<open>The slots of the abstract class: one per base class and operator.\<close>

fun create_class_abs :: "'ty entry type_list \<Rightarrow> ('ty entry \<times> bool) list" where
  "create_class_abs List_head = []"
| "create_class_abs (List_elem e es) = map (Pair e) (virtual_function e) @ create_class_abs es"

type_synonym ('ty, 'x, 'r) methods = "(('ty \<times> bool) \<times> (nat option \<Rightarrow> 'x \<Rightarrow> 'r)) list"

text \<open>The operators that \<open>default_implementation::tmpl\<close> defines for an element; they call \<open>getFoo()\<close>.\<close>

fun tmpl :: "('ty \<Rightarrow> nat option \<Rightarrow> 'x \<Rightarrow> 'r) \<Rightarrow> 'ty entry \<Rightarrow> ('ty, 'x, 'r) methods" where
  "tmpl foo (Plain T) = [((T, False), \<lambda>_ x. foo T None x)]"
| "tmpl foo (Default T) = [((T, False), \<lambda>_ x. foo T None x)]"
| "tmpl foo (Version T) = [((T, True), \<lambda>v x. foo T v x)]"
| "tmpl foo (Both T) = [((T, False), \<lambda>_ x. foo T None x), ((T, True), \<lambda>v x. foo T v x)]"

text \<open>The generated implementation, the most derived class first: the first operator of a signature overrides the others.\<close>

fun create_class_impl :: "('ty \<Rightarrow> nat option \<Rightarrow> 'x \<Rightarrow> 'r) \<Rightarrow> 'ty entry type_list \<Rightarrow> ('ty, 'x, 'r) methods" where
  "create_class_impl foo List_head = []"
| "create_class_impl foo (List_elem e es) = tmpl foo e @ create_class_impl foo es"

text \<open>The final overrider of a slot; a class in which a slot has none is abstract.\<close>

definition overrider :: "('ty, 'x, 'r) methods \<Rightarrow> 'ty entry \<times> bool \<Rightarrow> (nat option \<Rightarrow> 'x \<Rightarrow> 'r) option" where
  "overrider ms slot = map_of ms (type_extractor (fst slot), snd slot)"

definition instantiable :: "'ty entry type_list \<Rightarrow> ('ty, 'x, 'r) methods \<Rightarrow> bool" where
  "instantiable es ms \<longleftrightarrow> (\<forall>slot \<in> set (create_class_abs es). overrider ms slot \<noteq> None)"

text \<open>\<open>find_class_super\<close>: the base class of \<open>class_type\<close> for the first element with that type.\<close>

fun find_class_super :: "'ty entry type_list \<Rightarrow> 'ty \<Rightarrow> 'ty entry type_list option" where
  "find_class_super List_head T = None"
| "find_class_super (List_elem e es) T = (if type_extractor e = T then Some (List_elem e es) else find_class_super es T)"

text \<open>
  \<open>create_class_type::foo\<close> of the base class found: the cast to \<open>VirtualFnTmpl<CurrentType>&\<close> is ambiguous when the
  element is in the list twice, and the operator must be declared there. A call through an empty
  \<open>shared_ptr\<close> is a bad access.
\<close>

definition class_type_foo :: "'ty entry type_list \<Rightarrow> ('ty, 'x, 's res) methods option \<Rightarrow> 'ty entry type_list \<Rightarrow> nat option \<Rightarrow> 'x \<Rightarrow> 's res option" where
  "class_type_foo es impl super v x = (case super of
     List_head \<Rightarrow> None
   | List_elem e _ \<Rightarrow>
       if count_list (types_of es) e = 1 \<and> (v \<noteq> None) \<in> set (virtual_function e)
       then (case impl of None \<Rightarrow> Some (Inl Bad_access) | Some ms \<Rightarrow> map_option (\<lambda>m. m v x) (overrider ms (e, v \<noteq> None)))
       else None)"

definition class_type_call :: "'ty entry type_list \<Rightarrow> ('ty, 'x, 's res) methods option \<Rightarrow> 'ty \<Rightarrow> nat option \<Rightarrow> 'x \<Rightarrow> 's res option" where
  "class_type_call es impl T v x = (case find_class_super es T of
     None \<Rightarrow> None | Some super \<Rightarrow> class_type_foo es impl super v x)"

text \<open>The call operators of \<open>encoder_type\<close> and \<open>decoder_type\<close> over \<open>encoder_impl\<close> and \<open>decoder_impl\<close>, which hold a reference (\<open>ref_policy\<close>).\<close>

definition encoder_type_call :: "'ty entry type_list \<Rightarrow> ('ty \<Rightarrow> nat option \<Rightarrow> 'x \<times> 's \<Rightarrow> 's res) \<Rightarrow> 'ty \<Rightarrow> nat option \<Rightarrow> 'x \<Rightarrow> 's \<Rightarrow> 's res option" where
  "encoder_type_call es enc T v x s = class_type_call es (Some (create_class_impl enc es)) T v (x, s)"

definition decoder_type_call :: "'ty entry type_list \<Rightarrow> ('ty \<Rightarrow> nat option \<Rightarrow> 's \<Rightarrow> ('x \<times> 's) res) \<Rightarrow> 'ty \<Rightarrow> nat option \<Rightarrow> 's \<Rightarrow> ('x \<times> 's) res option" where
  "decoder_type_call es dec T v s = class_type_call es (Some (create_class_impl dec es)) T v s"

section \<open>The older virtual encoders and decoders\<close>

fun CreateEncoderAbs :: "'ty type_list \<Rightarrow> 'ty list" where
  "CreateEncoderAbs List_head = []"
| "CreateEncoderAbs (List_elem T Ts) = T # CreateEncoderAbs Ts"

fun CreateEncoderImpl :: "('ty \<Rightarrow> 'x \<Rightarrow> 'r) \<Rightarrow> 'ty type_list \<Rightarrow> ('ty \<times> ('x \<Rightarrow> 'r)) list" where
  "CreateEncoderImpl enc List_head = []"
| "CreateEncoderImpl enc (List_elem T Ts) = (T, enc T) # CreateEncoderImpl enc Ts"

fun FindEncoderSuper :: "'ty type_list \<Rightarrow> 'ty \<Rightarrow> 'ty type_list option" where
  "FindEncoderSuper List_head T = None"
| "FindEncoderSuper (List_elem U Us) T = (if U = T then Some (List_elem U Us) else FindEncoderSuper Us T)"

definition EncoderType_call :: "'ty type_list \<Rightarrow> ('ty \<times> ('x \<Rightarrow> 's res)) list option \<Rightarrow> 'ty \<Rightarrow> 'x \<Rightarrow> 's res option" where
  "EncoderType_call Ts impl T x = (case FindEncoderSuper Ts T of
     None \<Rightarrow> None
   | Some List_head \<Rightarrow> None
   | Some (List_elem U _) \<Rightarrow>
       if count_list (CreateEncoderAbs Ts) U = 1
       then (case impl of None \<Rightarrow> Some (Inl Bad_access) | Some ms \<Rightarrow> map_option (\<lambda>m. m x) (map_of ms U))
       else None)"

fun CreateDecoderAbs :: "'ty type_list \<Rightarrow> 'ty list" where
  "CreateDecoderAbs List_head = []"
| "CreateDecoderAbs (List_elem T Ts) = T # CreateDecoderAbs Ts"

fun CreateDecoderImpl :: "('ty \<Rightarrow> 's \<Rightarrow> 'r) \<Rightarrow> 'ty type_list \<Rightarrow> ('ty \<times> ('s \<Rightarrow> 'r)) list" where
  "CreateDecoderImpl dec List_head = []"
| "CreateDecoderImpl dec (List_elem T Ts) = (T, dec T) # CreateDecoderImpl dec Ts"

fun FindDecoderSuper :: "'ty type_list \<Rightarrow> 'ty \<Rightarrow> 'ty type_list option" where
  "FindDecoderSuper List_head T = None"
| "FindDecoderSuper (List_elem U Us) T = (if U = T then Some (List_elem U Us) else FindDecoderSuper Us T)"

definition DecoderType_call :: "'ty type_list \<Rightarrow> ('ty \<times> ('s \<Rightarrow> 'r res)) list option \<Rightarrow> 'ty \<Rightarrow> 's \<Rightarrow> 'r res option" where
  "DecoderType_call Ts impl T s = (case FindDecoderSuper Ts T of
     None \<Rightarrow> None
   | Some List_head \<Rightarrow> None
   | Some (List_elem U _) \<Rightarrow>
       if count_list (CreateDecoderAbs Ts) U = 1
       then (case impl of None \<Rightarrow> Some (Inl Bad_access) | Some ms \<Rightarrow> map_option (\<lambda>m. m s) (map_of ms U))
       else None)"

section \<open>What a call does\<close>

lemma map_of_tmpl:
  "map_of (tmpl foo e) (T, b) =
     (if type_extractor e = T \<and> b \<in> set (virtual_function e) then Some (\<lambda>v x. foo T (if b then v else None) x) else None)"
  by (cases e) auto

lemma map_of_impl:
  "map_of (create_class_impl foo es) (T, b) =
     (if \<exists>e \<in> set (types_of es). type_extractor e = T \<and> b \<in> set (virtual_function e)
      then Some (\<lambda>v x. foo T (if b then v else None) x) else None)"
  by (induction es) (auto simp: map_add_def map_of_tmpl split: option.splits)

lemma class_abs_slots: "(e, b) \<in> set (create_class_abs es) \<longleftrightarrow> e \<in> set (types_of es) \<and> b \<in> set (virtual_function e)"
  by (induction es) auto

lemma impl_instantiable: "instantiable es (create_class_impl foo es)"
  by (auto simp: instantiable_def overrider_def map_of_impl class_abs_slots)

lemma find_class_super_eq:
  "find_class_super es T = None \<longleftrightarrow> find (\<lambda>e. type_extractor e = T) (types_of es) = None"
  "find_class_super es T = Some super \<Longrightarrow> \<exists>e rest. super = List_elem e rest \<and> find (\<lambda>e. type_extractor e = T) (types_of es) = Some e"
  by (induction es) (auto split: if_splits)

lemma class_type_call_eq:
  "class_type_call es (Some (create_class_impl foo es)) T v x = (case find (\<lambda>e. type_extractor e = T) (types_of es) of
      None \<Rightarrow> None
    | Some e \<Rightarrow> if count_list (types_of es) e = 1 \<and> (v \<noteq> None) \<in> set (virtual_function e) then Some (foo T v x) else None)"
proof (cases "find_class_super es T")
  case (Some super)
  obtain e rest where e: "super = List_elem e rest" "find (\<lambda>e. type_extractor e = T) (types_of es) = Some e"
    using find_class_super_eq(2) [OF Some] by blast
  have mem: "e \<in> set (types_of es)" "type_extractor e = T" using e(2) by (auto simp: find_Some_iff)
  have "(v \<noteq> None) \<in> set (virtual_function e) \<Longrightarrow>
      overrider (create_class_impl foo es) (e, v \<noteq> None) = Some (\<lambda>w x. foo T (if v \<noteq> None then w else None) x)"
    using mem by (auto simp: overrider_def map_of_impl)
  then show ?thesis by (simp add: class_type_call_def Some class_type_foo_def e)
next
  case None
  then show ?thesis using find_class_super_eq(1) [of es T] by (simp add: class_type_call_def)
qed

lemma CreateEncoderAbs_types: "CreateEncoderAbs Ts = types_of Ts"
  by (induction Ts) simp_all

lemma FindEncoderSuper_eq: "find_class_super (list_apply Plain Ts) T = map_option (list_apply Plain) (FindEncoderSuper Ts T)"
  by (induction Ts) auto

lemma map_of_CreateEncoderImpl: "map_of (CreateEncoderImpl enc Ts) T = (if T \<in> set (types_of Ts) then Some (enc T) else None)"
  by (induction Ts) auto

lemma FindEncoderSuper_cases: "FindEncoderSuper Ts T = Some super \<Longrightarrow> (\<exists>Us. super = List_elem T Us) \<and> T \<in> set (types_of Ts)"
  by (induction Ts) (auto split: if_splits)

lemma decoder_classes: "CreateDecoderAbs Ts = CreateEncoderAbs Ts" "FindDecoderSuper Ts T = FindEncoderSuper Ts T"
  "CreateDecoderImpl dec Ts = CreateEncoderImpl dec Ts"
  by (induction Ts) simp_all

lemma decoder_is_encoder: "DecoderType_call Ts impl T s = EncoderType_call Ts impl T s"
  unfolding DecoderType_call_def EncoderType_call_def decoder_classes ..

lemma count_list_Plain: "count_list (map Plain Ts) (Plain U) = count_list Ts U"
  by (induction Ts) auto

lemma encoder_type_equivalent:
  "EncoderType_call Ts (Some (CreateEncoderImpl enc Ts)) T x =
     class_type_call (list_apply Plain Ts) (Some (create_class_impl (\<lambda>T _. enc T) (list_apply Plain Ts))) T None x \<and>
   EncoderType_call Ts None T x = class_type_call (list_apply Plain Ts) None T None x"
proof (cases "FindEncoderSuper Ts T")
  case None
  then show ?thesis by (simp add: EncoderType_call_def class_type_call_def FindEncoderSuper_eq)
next
  case (Some super)
  then obtain Us where super: "super = List_elem T Us" "T \<in> set (types_of Ts)"
    using FindEncoderSuper_cases by metis
  then have "\<exists>e \<in> set (types_of (list_apply Plain Ts)). type_extractor e = T \<and> False \<in> set (virtual_function e)" by force
  then show ?thesis using Some super
    by (simp add: EncoderType_call_def class_type_call_def FindEncoderSuper_eq class_type_foo_def CreateEncoderAbs_types
        count_list_Plain map_of_CreateEncoderImpl overrider_def map_of_impl)
qed

section \<open>The program \<open>venc_test.cpp\<close>\<close>

datatype venc_type = String_type | Uint32_type | Int64_type

datatype venc_value = String_value "u8 list" | Uint32_value "32 word" | Int64_value "64 word"

definition List1 :: "venc_type type_list" where
  "List1 = make_list3 String_type Uint32_type Int64_type"

text \<open>The call operators of \<open>buffer_encoder<little_endian_codec>\<close> and of the decoder.\<close>

fun buffer_enc :: "venc_type \<Rightarrow> venc_value \<times> u8 list \<Rightarrow> u8 list res" where
  "buffer_enc String_type (String_value x, s) = le_string_encode buffer_encoder x s"
| "buffer_enc Uint32_type (Uint32_value x, s) = le_int_encode buffer_encoder drop_bit x s"
| "buffer_enc Int64_type (Int64_value x, s) = le_int_encode buffer_encoder signed_drop_bit x s"
| "buffer_enc _ _ = Inl Bad_access"

fun buffer_dec :: "venc_type \<Rightarrow> u8 list \<Rightarrow> (venc_value \<times> u8 list) res" where
  "buffer_dec String_type s = bind_res (le_string_decode buffer_decoder s) (\<lambda>(x, s). Inr (String_value x, s))"
| "buffer_dec Uint32_type s = bind_res (le_int_decode buffer_decoder s) (\<lambda>(x, s). Inr (Uint32_value x, s))"
| "buffer_dec Int64_type s = bind_res (le_int_decode buffer_decoder s) (\<lambda>(x, s). Inr (Int64_value x, s))"

text \<open>\<open>foo\<close> and \<open>bar\<close>, for any values of the three variables; \<open>enc\<close> and \<open>dec\<close> are the generated call operators.\<close>

definition venc_foo :: "(venc_type \<Rightarrow> venc_value \<times> u8 list \<Rightarrow> u8 list res option) \<Rightarrow> 32 word \<Rightarrow> u8 list \<Rightarrow> 64 word \<Rightarrow> u8 list \<Rightarrow> u8 list res option" where
  "venc_foo enc x s z buf =
     Option.bind (enc Uint32_type (Uint32_value x, buf)) (\<lambda>r. case r of Inl e \<Rightarrow> Some (Inl e) | Inr buf \<Rightarrow>
     Option.bind (enc String_type (String_value s, buf)) (\<lambda>r. case r of Inl e \<Rightarrow> Some (Inl e) | Inr buf \<Rightarrow>
     enc Int64_type (Int64_value z, buf)))"

definition venc_bar :: "(venc_type \<Rightarrow> u8 list \<Rightarrow> (venc_value \<times> u8 list) res option) \<Rightarrow> u8 list \<Rightarrow> (venc_value \<times> venc_value \<times> venc_value) res option" where
  "venc_bar dec buf =
     Option.bind (dec Uint32_type buf) (\<lambda>r. case r of Inl e \<Rightarrow> Some (Inl e) | Inr (x, buf) \<Rightarrow>
     Option.bind (dec String_type buf) (\<lambda>r. case r of Inl e \<Rightarrow> Some (Inl e) | Inr (s, buf) \<Rightarrow>
     Option.bind (dec Int64_type buf) (\<lambda>r. case r of Inl e \<Rightarrow> Some (Inl e) | Inr (z, buf) \<Rightarrow> Some (Inr (s, x, z)))))"

definition venc_enc :: "venc_type \<Rightarrow> venc_value \<times> u8 list \<Rightarrow> u8 list res option" where
  "venc_enc = EncoderType_call List1 (Some (CreateEncoderImpl buffer_enc List1))"

definition venc_dec :: "venc_type \<Rightarrow> u8 list \<Rightarrow> (venc_value \<times> u8 list) res option" where
  "venc_dec = DecoderType_call List1 (Some (CreateDecoderImpl buffer_dec List1))"

lemma venc_calls: "venc_enc T p = Some (buffer_enc T p)" "venc_dec T s = Some (buffer_dec T s)"
  by (cases T; simp add: venc_enc_def venc_dec_def decoder_is_encoder decoder_classes EncoderType_call_def List1_def make_list3_def make_list2_def make_list1_def)+

lemma i64_codes: "codes (le_int_encode buffer_encoder signed_drop_bit) (le_int_decode buffer_decoder) (v :: 64 word)"
  by (rule codes_buffer [OF buf_sink.emits_le [OF shr_ok_signed] buf_source.reads_le_all [OF whole_bytes_sizes(3)]]) simp

lemma u32_codes: "codes (le_int_encode buffer_encoder drop_bit) (le_int_decode buffer_decoder) (v :: 32 word)"
  by (rule codes_buffer [OF buf_sink.emits_le [OF shr_ok_unsigned] buf_source.reads_le_all [OF whole_bytes_sizes(2)]]) simp

lemma venc_roundtrip:
  assumes "length s < u32_max"
  shows "\<exists>buf. venc_foo venc_enc x s z [] = Some (Inr buf) \<and>
    venc_bar venc_dec buf = Some (Inr (String_value s, Uint32_value x, Int64_value z))"
proof -
  obtain a where a: "\<And>r. le_int_encode buffer_encoder drop_bit x r = Inr (r @ a)" "\<And>ys. le_int_decode buffer_decoder (a @ ys) = Inr (x, ys)"
    using u32_codes [of x] by (auto simp: codes_def)
  obtain b where b: "\<And>r. le_string_encode buffer_encoder s r = Inr (r @ b)" "\<And>ys. le_string_decode buffer_decoder (b @ ys) = Inr (s, ys)"
    using le_string_codes [OF assms] by (auto simp: codes_def)
  obtain c where c: "\<And>r. le_int_encode buffer_encoder signed_drop_bit z r = Inr (r @ c)" "\<And>ys. le_int_decode buffer_decoder (c @ ys) = Inr (z, ys)"
    using i64_codes [of z] by (auto simp: codes_def)
  have "le_int_decode buffer_decoder c = Inr (z, [])" using c(2) [of "[]"] by simp
  then show ?thesis using a b c by (simp add: venc_foo_def venc_bar_def venc_calls)
qed

section \<open>Properties\<close>

text \<open>
  C31. Calls through the generated classes, for every type list: the generated implementation overrides every pure virtual
  operator of the generated abstract class; a call for a type compiles exactly when the first element of the list with that type
  occurs only once in the list (twice, the cast to its base class is ambiguous) and has an operator of that kind, and then does
  what the hidden encoder or decoder does with the argument. In particular a different second element for the same type
  is never used: with \<open>__default<T>\<close> in front of \<open>__version<T>\<close> a call with a version does not compile.
\<close>

theorem pimpl_forwards:
  "instantiable es (create_class_impl foo es) \<and>
    class_type_call es (Some (create_class_impl foo es)) T v x = (case find (\<lambda>e. type_extractor e = T) (types_of es) of
      None \<Rightarrow> None
    | Some e \<Rightarrow> if count_list (types_of es) e = 1 \<and> (v \<noteq> None) \<in> set (virtual_function e) then Some (foo T v x) else None) \<and>
    class_type_call (make_list2 (Default T) (Version T)) (Some (create_class_impl foo (make_list2 (Default T) (Version T)))) T (Some n) x = None"
  using impl_instantiable class_type_call_eq [of es foo T v x]
    class_type_call_eq [of "make_list2 (Default T) (Version T)" foo T "Some n" x]
  by (simp add: make_list2_def make_list1_def)

text \<open>
  The old and the new generators agree: an \<open>EncoderType\<close> of \<open>virtual_encoder.h\<close> (or a \<open>DecoderType\<close>) over
  a list of types makes the same calls as the class generated by \<open>create_pimpl_set\<close> from the same
  list, does not compile for the same types (those not listed, or listed twice), and fails the
  same way without an implementation.
\<close>

theorem virtual_encoders_equivalent:
  "EncoderType_call Ts (Some (CreateEncoderImpl enc Ts)) T (x, s) = encoder_type_call (list_apply Plain Ts) (\<lambda>T _. enc T) T None x s \<and>
   DecoderType_call Ts (Some (CreateDecoderImpl dec Ts)) T r = decoder_type_call (list_apply Plain Ts) (\<lambda>T _. dec T) T None r \<and>
   EncoderType_call Ts None T y = class_type_call (list_apply Plain Ts) None T None y \<and>
   DecoderType_call Ts None T r' = class_type_call (list_apply Plain Ts) None T None r'"
  by (simp add: encoder_type_call_def decoder_type_call_def encoder_type_equivalent decoder_is_encoder decoder_classes)

end

