(* ===== verification/Versioning.thy ===== *)
theory Versioning
  imports Pimpl
begin

text \<open>
  \<open>src/serialization/version_test.cpp\<close>: structures whose encoding depends on a version, encoded directly
  and through the generated classes of \<open>encoders_pimpl.h\<close>. Everything is encoded by the little endian codec into
  a buffer. A \<open>for_each\<close> with a mutable object is a decoding, with a constant one an encoding. The generated
  encoders and decoders of this program own the buffer encoder or the pair of iterators (\<open>field_policy\<close>).
\<close>

section \<open>The structures\<close>

record A_old =
  ao_ax :: "u8 list"
  ao_ay :: "32 word"

record A_new =
  an_ax :: "u8 list"
  an_ay :: "32 word"
  an_az :: "64 word"

record B_new =
  b_v :: nat
  b_f1 :: "64 word"
  b_f2 :: "64 word"

abbreviation enc_string :: "u8 list \<Rightarrow> u8 list \<Rightarrow> u8 list res" where
  "enc_string \<equiv> le_string_encode buffer_encoder"

abbreviation enc_u32 :: "32 word \<Rightarrow> u8 list \<Rightarrow> u8 list res" where
  "enc_u32 \<equiv> le_int_encode buffer_encoder drop_bit"

abbreviation enc_u64 :: "64 word \<Rightarrow> u8 list \<Rightarrow> u8 list res" where
  "enc_u64 \<equiv> le_int_encode buffer_encoder drop_bit"

abbreviation enc_i64 :: "64 word \<Rightarrow> u8 list \<Rightarrow> u8 list res" where
  "enc_i64 \<equiv> le_int_encode buffer_encoder signed_drop_bit"

abbreviation dec_string :: "u8 list \<Rightarrow> (u8 list \<times> u8 list) res" where
  "dec_string \<equiv> le_string_decode buffer_decoder"

abbreviation dec_u32 :: "u8 list \<Rightarrow> (32 word \<times> u8 list) res" where
  "dec_u32 \<equiv> le_int_decode buffer_decoder"

abbreviation dec_u64 :: "u8 list \<Rightarrow> (64 word \<times> u8 list) res" where
  "dec_u64 \<equiv> le_int_decode buffer_decoder"

definition A_old_encode :: "A_old \<Rightarrow> u8 list \<Rightarrow> u8 list res" where
  "A_old_encode a s = bind_res (enc_string (ao_ax a) s) (enc_u32 (ao_ay a))"

definition A_old_decode :: "A_old \<Rightarrow> u8 list \<Rightarrow> (A_old \<times> u8 list) res" where
  "A_old_decode a r =
     bind_res (dec_string r) (\<lambda>(x, r). bind_res (dec_u32 r) (\<lambda>(y, r). Inr (a\<lparr>ao_ax := x, ao_ay := y\<rparr>, r)))"

definition A_encode :: "A_new \<Rightarrow> u8 list \<Rightarrow> u8 list res" where
  "A_encode a s = bind_res (enc_string (an_ax a) s) (\<lambda>s. bind_res (enc_u32 (an_ay a) s) (enc_u64 (an_az a)))"

definition A_encode_v :: "A_new \<Rightarrow> nat \<Rightarrow> u8 list \<Rightarrow> u8 list res" where
  "A_encode_v a v s = bind_res (enc_string (an_ax a) s) (\<lambda>s. bind_res (enc_u32 (an_ay a) s) (\<lambda>s.
     if v \<noteq> 0 then enc_u64 (an_az a) s else Inr s))"

definition A_decode_v :: "A_new \<Rightarrow> nat \<Rightarrow> u8 list \<Rightarrow> (A_new \<times> u8 list) res" where
  "A_decode_v a v r =
     bind_res (dec_string r) (\<lambda>(x, r). bind_res (dec_u32 r) (\<lambda>(y, r).
       let a = a\<lparr>an_ax := x, an_ay := y\<rparr> in
       if v \<noteq> 0 then bind_res (dec_u64 r) (\<lambda>(z, r). Inr (a\<lparr>an_az := z\<rparr>, r)) else Inr (a\<lparr>an_az := 7\<rparr>, r)))"

definition B_encode :: "B_new \<Rightarrow> u8 list \<Rightarrow> u8 list res" where
  "B_encode b s = bind_res (enc_i64 (b_f1 b) s) (enc_i64 (b_f2 b))"

definition B_decode_v :: "B_new \<Rightarrow> nat \<Rightarrow> u8 list \<Rightarrow> (B_new \<times> u8 list) res" where
  "B_decode_v b v r =
     bind_res (if v > 0 then bind_res (dec_u64 r) (\<lambda>(x, r). Inr (b\<lparr>b_f1 := x\<rparr>, r)) else Inr (b\<lparr>b_f1 := -1\<rparr>, r)) (\<lambda>(b, r).
     bind_res (if v > 1 then bind_res (dec_u64 r) (\<lambda>(x, r). Inr (b\<lparr>b_f2 := x\<rparr>, r)) else Inr (b\<lparr>b_f2 := -1\<rparr>, r)) (\<lambda>(b, r).
       Inr (b\<lparr>b_v := v\<rparr>, r)))"

section \<open>The generated classes of the program\<close>

datatype ver_type = String_ver | U32_ver | I64_ver | A_old_ver | A_ver | B_ver

datatype ver_value =
    String_val "u8 list" | U32_val "32 word" | I64_val "64 word" | A_old_val A_old | A_val A_new | B_val B_new

text \<open>
  The call operators of \<open>buffer_encoder<little_endian_codec>\<close> and \<open>buffer_decoder<little_endian_codec>\<close>; a decoder is given the
  object it fills. \<open>for_each\<close> of \<open>A\<close> and \<open>B\<close> without a version uses the default argument.
\<close>

definition ver_enc :: "ver_type \<Rightarrow> nat option \<Rightarrow> ver_value \<times> u8 list \<Rightarrow> u8 list res" where
  "ver_enc T v p = (case p of (x, s) \<Rightarrow> case x of
     String_val x \<Rightarrow> if T = String_ver \<and> v = None then enc_string x s else Inl Bad_access
   | U32_val x \<Rightarrow> if T = U32_ver \<and> v = None then enc_u32 x s else Inl Bad_access
   | I64_val x \<Rightarrow> if T = I64_ver \<and> v = None then enc_i64 x s else Inl Bad_access
   | A_old_val a \<Rightarrow> if T = A_old_ver \<and> v = None then A_old_encode a s else Inl Bad_access
   | A_val a \<Rightarrow> if T = A_ver then (case v of None \<Rightarrow> A_encode a s | Some v \<Rightarrow> A_encode_v a v s) else Inl Bad_access
   | B_val b \<Rightarrow> if T = B_ver \<and> v = None then B_encode b s else Inl Bad_access)"

definition ver_dec :: "ver_type \<Rightarrow> nat option \<Rightarrow> ver_value \<times> u8 list \<Rightarrow> (ver_value \<times> u8 list) res" where
  "ver_dec T v p = (case p of (x, r) \<Rightarrow> case x of
     String_val x \<Rightarrow> if T = String_ver \<and> v = None then bind_res (dec_string r) (\<lambda>(x, r). Inr (String_val x, r)) else Inl Bad_access
   | U32_val x \<Rightarrow> if T = U32_ver \<and> v = None then bind_res (dec_u32 r) (\<lambda>(x, r). Inr (U32_val x, r)) else Inl Bad_access
   | I64_val x \<Rightarrow> if T = I64_ver \<and> v = None then bind_res (dec_u64 r) (\<lambda>(x, r). Inr (I64_val x, r)) else Inl Bad_access
   | A_old_val a \<Rightarrow> if T = A_old_ver \<and> v = None then bind_res (A_old_decode a r) (\<lambda>(a, r). Inr (A_old_val a, r)) else Inl Bad_access
   | A_val a \<Rightarrow> if T = A_ver then bind_res (A_decode_v a (case v of None \<Rightarrow> 1 | Some v \<Rightarrow> v) r) (\<lambda>(a, r). Inr (A_val a, r)) else Inl Bad_access
   | B_val b \<Rightarrow> if T = B_ver then bind_res (B_decode_v b (case v of None \<Rightarrow> 2 | Some v \<Rightarrow> v) r) (\<lambda>(b, r). Inr (B_val b, r)) else Inl Bad_access)"

definition ver_List1 :: "ver_type entry type_list" where
  "ver_List1 = make_list5 (Plain String_ver) (Plain U32_ver) (Plain I64_ver) (Plain A_old_ver) (Version A_ver)"

definition ver_ListB1 :: "ver_type entry type_list" where
  "ver_ListB1 = make_list3 (Plain String_ver) (Plain B_ver) (Plain I64_ver)"

definition ver_ListB2 :: "ver_type entry type_list" where
  "ver_ListB2 = make_list2 (Plain String_ver) (Both B_ver)"

text \<open>A chain of calls; \<open>None\<close> when one of them does not compile.\<close>

fun enc_chain :: "ver_type entry type_list \<Rightarrow> (ver_type \<times> nat option \<times> ver_value) list \<Rightarrow> u8 list \<Rightarrow> u8 list res option" where
  "enc_chain es [] s = Some (Inr s)"
| "enc_chain es ((T, v, x) # calls) s =
     Option.bind (encoder_type_call es ver_enc T v x s) (\<lambda>r. case r of Inl e \<Rightarrow> Some (Inl e) | Inr s \<Rightarrow> enc_chain es calls s)"

fun dec_chain :: "ver_type entry type_list \<Rightarrow> (ver_type \<times> nat option \<times> ver_value) list \<Rightarrow> u8 list \<Rightarrow> (ver_value list \<times> u8 list) res option" where
  "dec_chain es [] r = Some (Inr ([], r))"
| "dec_chain es ((T, v, x) # calls) r =
     Option.bind (class_type_call es (Some (create_class_impl ver_dec es)) T v (x, r)) (\<lambda>q. case q of
       Inl e \<Rightarrow> Some (Inl e)
     | Inr (y, r) \<Rightarrow> map_option (\<lambda>q. bind_res q (\<lambda>(ys, r). Inr (y # ys, r))) (dec_chain es calls r))"

text \<open>\<open>bar\<close>, and the calls of \<open>foo\<close> and of the block about \<open>B\<close>, for any objects.\<close>

definition ver_bar :: "A_old \<Rightarrow> A_new \<Rightarrow> A_new \<Rightarrow> u8 list \<Rightarrow> u8 list res option" where
  "ver_bar ao ap az = enc_chain ver_List1 [(A_old_ver, None, A_old_val ao), (A_ver, Some 0, A_val ap), (A_ver, Some 1, A_val az)]"

definition ver_encode_B :: "u8 list \<Rightarrow> B_new \<Rightarrow> 64 word \<Rightarrow> 64 word \<Rightarrow> 64 word \<Rightarrow> u8 list \<Rightarrow> u8 list \<Rightarrow> u8 list res option" where
  "ver_encode_B hello b i j k bye = enc_chain ver_ListB1
     [(String_ver, None, String_val hello), (B_ver, None, B_val b), (I64_ver, None, I64_val i), (I64_ver, None, I64_val j),
      (I64_ver, None, I64_val k), (String_ver, None, String_val bye)]"

definition ver_decode_B :: "B_new \<Rightarrow> u8 list \<Rightarrow> (ver_value list \<times> u8 list) res option" where
  "ver_decode_B g = dec_chain ver_ListB2
     [(String_ver, None, String_val []), (B_ver, Some 5, B_val g), (B_ver, Some 1, B_val g), (B_ver, Some 0, B_val g), (B_ver, None, B_val g),
      (String_ver, None, String_val [])]"

text \<open>\<open>foo\<close>: an old object, a new one with version 1, and three plain values.\<close>

definition ver_foo :: "A_old \<Rightarrow> A_new \<Rightarrow> u8 list \<Rightarrow> (ver_value list \<times> u8 list) res option" where
  "ver_foo g0 g1 = dec_chain ver_List1
     [(A_old_ver, None, A_old_val g0), (A_ver, Some 1, A_val g1), (U32_ver, None, U32_val 0), (I64_ver, None, I64_val 0),
      (String_ver, None, String_val [])]"

text \<open>The first blocks of \<open>main\<close>: the calls on a \<open>buffer_encoder\<close>, the calls on a \<open>buffer_decoder\<close>, and the virtual encoder.\<close>

definition ver_write :: "A_old \<Rightarrow> A_new \<Rightarrow> 32 word \<Rightarrow> 64 word \<Rightarrow> u8 list \<Rightarrow> u8 list \<Rightarrow> u8 list res" where
  "ver_write ao an u z x s =
     bind_res (A_old_encode ao s) (\<lambda>s. bind_res (A_encode an s) (\<lambda>s. bind_res (enc_u32 u s) (\<lambda>s. bind_res (enc_i64 z s) (enc_string x))))"

definition ver_read :: "A_new \<Rightarrow> A_new \<Rightarrow> u8 list \<Rightarrow> (A_new \<times> A_new) res" where
  "ver_read g1 g2 r = bind_res (A_decode_v g1 0 r) (\<lambda>(a1, r). bind_res (A_decode_v g2 1 r) (\<lambda>(a2, r). Inr (a1, a2)))"

definition ver_virtual_write :: "A_old \<Rightarrow> A_new \<Rightarrow> A_new \<Rightarrow> u8 list \<Rightarrow> u8 list res option" where
  "ver_virtual_write ao a1 a2 = enc_chain ver_List1 [(A_old_ver, None, A_old_val ao), (A_ver, Some 0, A_val a1), (A_ver, Some 5, A_val a2)]"

section \<open>Versions\<close>

lemma string_bytes: "length x < u32_max \<Longrightarrow> \<exists>bs. (\<forall>s. enc_string x s = Inr (s @ bs)) \<and> (\<forall>ys. dec_string (bs @ ys) = Inr (x, ys))"
  using le_string_codes [of x] by (simp add: codes_def)

lemma u32_bytes: "\<exists>bs. (\<forall>s. enc_u32 x s = Inr (s @ bs)) \<and> (\<forall>ys. dec_u32 (bs @ ys) = Inr (x, ys))"
  using u32_codes [of x] by (simp add: codes_def)

lemma u64_bytes: "\<exists>bs. (\<forall>s. enc_u64 x s = Inr (s @ bs)) \<and> (\<forall>ys. dec_u64 (bs @ ys) = Inr (x, ys))"
  using le_u64_codes [of x] by (simp add: codes_def)

lemma i64_bytes: "\<exists>bs. (\<forall>s. enc_i64 x s = Inr (s @ bs)) \<and> (\<forall>ys. dec_u64 (bs @ ys) = Inr (x, ys))"
  using i64_codes [of x] by (simp add: codes_def)

lemma A_bytes:
  assumes "length (an_ax a) < u32_max"
  shows "\<exists>old new. (\<forall>s. A_old_encode \<lparr>ao_ax = an_ax a, ao_ay = an_ay a\<rparr> s = Inr (s @ old)) \<and> (\<forall>s. A_encode a s = Inr (s @ new)) \<and>
    (\<forall>v s. A_encode_v a v s = Inr (s @ (if v = 0 then old else new))) \<and>
    (\<forall>g ys. A_old_decode g (old @ ys) = Inr (\<lparr>ao_ax = an_ax a, ao_ay = an_ay a\<rparr>, ys)) \<and>
    (\<forall>v g ys. A_decode_v g v ((if v = 0 then old else new) @ ys) = Inr (if v = 0 then a\<lparr>an_az := 7\<rparr> else a, ys))"
proof -
  obtain b1 where b1: "\<And>s. enc_string (an_ax a) s = Inr (s @ b1)" "\<And>ys. dec_string (b1 @ ys) = Inr (an_ax a, ys)"
    using string_bytes [OF assms] by blast
  obtain b2 where b2: "\<And>s. enc_u32 (an_ay a) s = Inr (s @ b2)" "\<And>ys. dec_u32 (b2 @ ys) = Inr (an_ay a, ys)"
    using u32_bytes by blast
  obtain b3 where b3: "\<And>s. enc_u64 (an_az a) s = Inr (s @ b3)" "\<And>ys. dec_u64 (b3 @ ys) = Inr (an_az a, ys)"
    using u64_bytes by blast
  show ?thesis
    by (rule exI [of _ "b1 @ b2"], rule exI [of _ "b1 @ b2 @ b3"])
      (auto simp: A_old_encode_def A_encode_def A_encode_v_def A_old_decode_def A_decode_v_def b1 b2 b3 Let_def)
qed

text \<open>The same facts for an old object, for a new one and for an encoding with a version.\<close>

lemma A_old_bytes:
  assumes "length (ao_ax a) < u32_max"
  shows "\<exists>bs. (\<forall>s. A_old_encode a s = Inr (s @ bs)) \<and> (\<forall>g ys. A_old_decode g (bs @ ys) = Inr (a, ys)) \<and>
    (\<forall>g ys. A_decode_v g 0 (bs @ ys) = Inr (\<lparr>an_ax = ao_ax a, an_ay = ao_ay a, an_az = 7\<rparr>, ys))"
proof -
  define n where "n = \<lparr>an_ax = ao_ax a, an_ay = ao_ay a, an_az = 0\<rparr>"
  have a: "\<lparr>ao_ax = an_ax n, ao_ay = an_ay n\<rparr> = a" by (simp add: n_def)
  have "length (an_ax n) < u32_max" using assms by (simp add: n_def)
  from A_bytes [OF this, unfolded a]
  obtain old new where "\<forall>s. A_old_encode a s = Inr (s @ old)" "\<forall>g ys. A_old_decode g (old @ ys) = Inr (a, ys)"
    and v: "\<forall>v g ys. A_decode_v g v ((if v = 0 then old else new) @ ys) = Inr (if v = 0 then n\<lparr>an_az := 7\<rparr> else n, ys)"
    by (elim exE conjE) blast
  moreover have "A_decode_v g 0 (old @ ys) = Inr (\<lparr>an_ax = ao_ax a, an_ay = ao_ay a, an_az = 7\<rparr>, ys)" for g ys
    using v [rule_format, of g 0 ys] by (simp add: n_def)
  ultimately show ?thesis by blast
qed

lemma A_new_bytes:
  assumes "length (an_ax a) < u32_max"
  shows "\<exists>bs. (\<forall>s. A_encode a s = Inr (s @ bs)) \<and> (\<forall>g ys. A_decode_v g 1 (bs @ ys) = Inr (a, ys))"
proof -
  from A_bytes [OF assms]
  obtain old new where "\<forall>s. A_encode a s = Inr (s @ new)"
    and v: "\<forall>v g ys. A_decode_v g v ((if v = 0 then old else new) @ ys) = Inr (if v = 0 then a\<lparr>an_az := 7\<rparr> else a, ys)"
    by (elim exE conjE) blast
  moreover have "A_decode_v g 1 (new @ ys) = Inr (a, ys)" for g ys using v [rule_format, of g 1 ys] by simp
  ultimately show ?thesis by blast
qed

lemma A_v_appends:
  assumes "length (an_ax a) < u32_max"
  shows "\<exists>bs. \<forall>s. A_encode_v a v s = Inr (s @ bs)"
  using A_bytes [OF assms] by (elim exE conjE) blast

lemma B_bytes:
  "\<exists>b1 b2. (\<forall>s. B_encode b s = Inr (s @ b1 @ b2)) \<and> (\<forall>s. enc_i64 (b_f1 b) s = Inr (s @ b1)) \<and>
    (\<forall>g ys v. v > 1 \<longrightarrow> B_decode_v g v (b1 @ b2 @ ys) = Inr (\<lparr>b_v = v, b_f1 = b_f1 b, b_f2 = b_f2 b\<rparr>, ys)) \<and>
    (\<forall>g ys. B_decode_v g 1 (b1 @ ys) = Inr (\<lparr>b_v = 1, b_f1 = b_f1 b, b_f2 = -1\<rparr>, ys)) \<and>
    (\<forall>g ys. B_decode_v g 0 ys = Inr (\<lparr>b_v = 0, b_f1 = -1, b_f2 = -1\<rparr>, ys))"
proof -
  obtain b1 where b1: "\<And>s. enc_i64 (b_f1 b) s = Inr (s @ b1)" "\<And>ys. dec_u64 (b1 @ ys) = Inr (b_f1 b, ys)"
    using i64_bytes by blast
  obtain b2 where b2: "\<And>s. enc_i64 (b_f2 b) s = Inr (s @ b2)" "\<And>ys. dec_u64 (b2 @ ys) = Inr (b_f2 b, ys)"
    using i64_bytes by blast
  show ?thesis by (rule exI [of _ b1], rule exI [of _ b2]) (auto simp: B_encode_def B_decode_v_def b1 b2)
qed

lemma ver_calls:
  "T \<in> {String_ver, U32_ver, I64_ver, A_old_ver} \<Longrightarrow> encoder_type_call ver_List1 ver_enc T None x s = Some (ver_enc T None (x, s))"
  "encoder_type_call ver_List1 ver_enc A_ver (Some v) x s = Some (ver_enc A_ver (Some v) (x, s))"
  "T \<in> {String_ver, B_ver, I64_ver} \<Longrightarrow> encoder_type_call ver_ListB1 ver_enc T None x s = Some (ver_enc T None (x, s))"
  "class_type_call ver_ListB2 (Some (create_class_impl ver_dec ver_ListB2)) String_ver None y = Some (ver_dec String_ver None y)"
  "class_type_call ver_ListB2 (Some (create_class_impl ver_dec ver_ListB2)) B_ver w y = Some (ver_dec B_ver w y)"
  "T \<in> {String_ver, U32_ver, I64_ver, A_old_ver} \<Longrightarrow>
     class_type_call ver_List1 (Some (create_class_impl ver_dec ver_List1)) T None y = Some (ver_dec T None y)"
  "class_type_call ver_List1 (Some (create_class_impl ver_dec ver_List1)) A_ver (Some v) y = Some (ver_dec A_ver (Some v) y)"
  unfolding encoder_type_call_def
  by (subst class_type_call_eq;
      auto simp: ver_List1_def ver_ListB1_def ver_ListB2_def make_list5_def make_list4_def make_list3_def make_list2_def make_list1_def)+

lemma ver_values [simp]:
  "ver_enc String_ver None (String_val x, s) = enc_string x s" "ver_enc I64_ver None (I64_val i, s) = enc_i64 i s"
  "ver_enc B_ver None (B_val b, s) = B_encode b s"
  "ver_dec String_ver None (String_val x, r) = bind_res (dec_string r) (\<lambda>(x, r). Inr (String_val x, r))"
  "ver_dec B_ver v (B_val b, r) = bind_res (B_decode_v b (case v of None \<Rightarrow> 2 | Some v \<Rightarrow> v) r) (\<lambda>(b, r). Inr (B_val b, r))"
  by (simp_all add: ver_enc_def ver_dec_def)

lemma B_program:
  assumes "length hello < u32_max" and "length bye < u32_max"
  shows "\<exists>bs. ver_encode_B hello b i j k bye [] = Some (Inr bs) \<and>
    ver_decode_B g bs = Some (Inr ([String_val hello, B_val \<lparr>b_v = 5, b_f1 = b_f1 b, b_f2 = b_f2 b\<rparr>, B_val \<lparr>b_v = 1, b_f1 = i, b_f2 = -1\<rparr>,
      B_val \<lparr>b_v = 0, b_f1 = -1, b_f2 = -1\<rparr>, B_val \<lparr>b_v = 2, b_f1 = j, b_f2 = k\<rparr>, String_val bye], []))"
proof -
  obtain h where h: "\<And>s. enc_string hello s = Inr (s @ h)" "\<And>ys. dec_string (h @ ys) = Inr (hello, ys)"
    using string_bytes [OF assms(1)] by blast
  obtain y where y: "\<And>s. enc_string bye s = Inr (s @ y)" "\<And>ys. dec_string (y @ ys) = Inr (bye, ys)"
    using string_bytes [OF assms(2)] by blast
  have y0: "dec_string y = Inr (bye, [])" using y(2) [of "[]"] by simp
  have "\<exists>bs. (\<forall>s. enc_i64 x s = Inr (s @ bs)) \<and> (\<forall>ys. dec_u64 (bs @ ys) = Inr (x, ys))" for x by (rule i64_bytes)
  then obtain w where w: "\<And>x s. enc_i64 x s = Inr (s @ w x)" "\<And>x ys. dec_u64 (w x @ ys) = Inr (x, ys)" by metis
  show ?thesis
    by (simp add: ver_encode_B_def ver_decode_B_def ver_calls h y y0 B_encode_def B_decode_v_def w)
qed

section \<open>Properties\<close>

text \<open>
  C33. Versions of a structure: version 0 of \<open>A\<close> has exactly the bytes of the old structure, so what the old
  code wrote is read by the new code with version 0 (the new field gets its default 7), and the
  old code reads what the new code writes with version 0; every other version has the bytes of
  the encoding without a version and is read back exactly, whatever the object held before.
  Through the generated classes, objects of \<open>B\<close> are read from the fields their version has, in any
  mixture of versions, and fields a version lacks become -1.
\<close>

theorem versions_compatible:
  assumes "length (an_ax a) < u32_max" and "length hello < u32_max" and "length bye < u32_max"
  shows "(\<exists>old new. (\<forall>s. A_old_encode \<lparr>ao_ax = an_ax a, ao_ay = an_ay a\<rparr> s = Inr (s @ old)) \<and> (\<forall>s. A_encode a s = Inr (s @ new)) \<and>
      (\<forall>v s. A_encode_v a v s = Inr (s @ (if v = 0 then old else new))) \<and>
      (\<forall>g ys. A_old_decode g (old @ ys) = Inr (\<lparr>ao_ax = an_ax a, ao_ay = an_ay a\<rparr>, ys)) \<and>
      (\<forall>v g ys. A_decode_v g v ((if v = 0 then old else new) @ ys) = Inr (if v = 0 then a\<lparr>an_az := 7\<rparr> else a, ys))) \<and>
    (\<exists>bs. ver_encode_B hello b i j k bye [] = Some (Inr bs) \<and>
      ver_decode_B g bs = Some (Inr ([String_val hello, B_val \<lparr>b_v = 5, b_f1 = b_f1 b, b_f2 = b_f2 b\<rparr>, B_val \<lparr>b_v = 1, b_f1 = i, b_f2 = -1\<rparr>,
        B_val \<lparr>b_v = 0, b_f1 = -1, b_f2 = -1\<rparr>, B_val \<lparr>b_v = 2, b_f1 = j, b_f2 = k\<rparr>, String_val bye], [])))"
  using A_bytes [OF assms(1)] B_program [OF assms(2,3), of b i j k g] by (intro conjI)

theorem versions_compatible_witness:
  "\<exists>bs. A_encode_v \<lparr>an_ax = [65], an_ay = 2, an_az = 3\<rparr> 0 [] = Inr bs \<and>
     A_decode_v \<lparr>an_ax = [], an_ay = 0, an_az = 0\<rparr> 0 bs = Inr (\<lparr>an_ax = [65], an_ay = 2, an_az = 7\<rparr>, [])"
proof -
  have len: "length (an_ax \<lparr>an_ax = [65], an_ay = 2, an_az = 3\<rparr>) < u32_max" "length [72 :: u8] < u32_max" "length [98 :: u8] < u32_max" by (simp_all add: u32_max_def)
  from conjunct1 [OF versions_compatible [OF len, of "\<lparr>b_v = 0, b_f1 = 0, b_f2 = 0\<rparr>" 0 0 0 "\<lparr>b_v = 0, b_f1 = 0, b_f2 = 0\<rparr>"]]
  obtain old new where o: "\<And>v s. A_encode_v \<lparr>an_ax = [65], an_ay = 2, an_az = 3\<rparr> v s = Inr (s @ (if v = 0 then old else new))"
    "\<And>v g ys. A_decode_v g v ((if v = 0 then old else new) @ ys) =
       Inr (if v = 0 then \<lparr>an_ax = [65], an_ay = 2, an_az = 3\<rparr>\<lparr>an_az := 7\<rparr> else \<lparr>an_ax = [65], an_ay = 2, an_az = 3\<rparr>, ys)"
    by (elim exE conjE) blast
  show ?thesis using o(1) [of 0 "[]"] o(2) [of _ 0 "[]"] by simp
qed

text \<open>
  The part of \<open>main\<close> about \<open>A\<close>: what is written first is read with version 0 for the old object, and after the virtual
  encoder appended three more objects \<open>foo\<close> still reads the first five values.
\<close>

lemma A_program:
  assumes "length (ao_ax a0) < u32_max" and "length (an_ax a1) < u32_max" and "length x < u32_max"
    and "length (ao_ax c0) < u32_max" and "length (an_ax c1) < u32_max" and "length (an_ax c2) < u32_max"
  shows "\<exists>bs cs. ver_write a0 a1 u z x [] = Inr bs \<and>
    ver_read g1 g2 bs = Inr (\<lparr>an_ax = ao_ax a0, an_ay = ao_ay a0, an_az = 7\<rparr>, a1) \<and>
    ver_virtual_write c0 c1 c2 bs = Some (Inr (bs @ cs)) \<and>
    ver_foo g0 g1 (bs @ cs) = Some (Inr ([A_old_val a0, A_val a1, U32_val u, I64_val z, String_val x], cs))"
proof -
  obtain b1 where b1: "\<And>s. A_old_encode a0 s = Inr (s @ b1)" "\<And>g ys. A_old_decode g (b1 @ ys) = Inr (a0, ys)"
    "\<And>g ys. A_decode_v g 0 (b1 @ ys) = Inr (\<lparr>an_ax = ao_ax a0, an_ay = ao_ay a0, an_az = 7\<rparr>, ys)"
    using A_old_bytes [OF assms(1)] by blast
  obtain b2 where b2: "\<And>s. A_encode a1 s = Inr (s @ b2)" "\<And>g ys. A_decode_v g 1 (b2 @ ys) = Inr (a1, ys)"
    using A_new_bytes [OF assms(2)] by blast
  obtain b3 where b3: "\<And>s. enc_u32 u s = Inr (s @ b3)" "\<And>ys. dec_u32 (b3 @ ys) = Inr (u, ys)" using u32_bytes by blast
  obtain b4 where b4: "\<And>s. enc_i64 z s = Inr (s @ b4)" "\<And>ys. dec_u64 (b4 @ ys) = Inr (z, ys)" using i64_bytes by blast
  obtain b5 where b5: "\<And>s. enc_string x s = Inr (s @ b5)" "\<And>ys. dec_string (b5 @ ys) = Inr (x, ys)" using string_bytes [OF assms(3)] by blast
  obtain d0 where d0: "\<And>s. A_old_encode c0 s = Inr (s @ d0)" using A_old_bytes [OF assms(4)] by blast
  obtain d1 where d1: "\<And>s. A_encode_v c1 0 s = Inr (s @ d1)" using A_v_appends [OF assms(5)] by blast
  obtain d2 where d2: "\<And>s. A_encode_v c2 5 s = Inr (s @ d2)" using A_v_appends [OF assms(6)] by blast
  let ?bs = "b1 @ b2 @ b3 @ b4 @ b5" and ?cs = "d0 @ d1 @ d2"
  have "ver_write a0 a1 u z x [] = Inr ?bs" by (simp add: ver_write_def b1 b2 b3 b4 b5)
  moreover have "ver_read g1 g2 ?bs = Inr (\<lparr>an_ax = ao_ax a0, an_ay = ao_ay a0, an_az = 7\<rparr>, a1)"
    by (simp add: ver_read_def b1 b2(2) [unfolded One_nat_def])
  moreover have "ver_virtual_write c0 c1 c2 ?bs = Some (Inr (?bs @ ?cs))"
    by (simp add: ver_virtual_write_def ver_calls ver_enc_def d0 d1 d2)
  moreover have "ver_foo g0 g1 (?bs @ ?cs) = Some (Inr ([A_old_val a0, A_val a1, U32_val u, I64_val z, String_val x], ?cs))"
    by (simp add: ver_foo_def ver_calls b1(2) b2(2) [unfolded One_nat_def] b3 b4 b5 ver_dec_def)
  ultimately show ?thesis by blast
qed

end
