(* ===== verification/Serialize_Program.thy ===== *)
theory Serialize_Program
  imports Virtual_Class_Correct
begin

text \<open>
  \<open>src/serialization/serialize.cpp\<close>: the test and benchmark program of the serialization library. It puts
  the parts together: structures with integers, vectors and pointers to a class hierarchy go through the
  big endian, the little endian and the optimized codecs into buffers and files and back.

  \<^item> A codec of a structure calls \<open>for_each\<close>, which hands the members to the encoder or decoder in
    order; the encoder, the decoder and their states are arguments.
  \<^item> The vectors of \<open>Virtual_XA\<close> share one heap: a vector is the list of its pointers. Decoding
    starts with a default-constructed structure, whose pointers are null; the state of the decoder is paired
    with the heap (\<open>heap_decoder\<close>).
  \<^item> \<open>rand\<close> and \<open>boost::minstd_rand0\<close> are functions on a state of the generator; operands are evaluated from left to right.
  \<^item> Files are the file encoders and decoders over \<open>write\<close> and \<open>read\<close>; \<open>open\<close> and \<open>close\<close> succeed, and printing is not modelled.
\<close>

section \<open>The class hierarchy\<close>

datatype x_obj =
    X_1_obj "32 word" "32 word"
  | X_2_obj "32 word" "32 word"
  | X_2_1_obj "32 word" "32 word" "32 word"
  | X_2_2_obj "32 word" "32 word" "32 word"

fun x_get_tag :: "x_obj \<Rightarrow> int" where
  "x_get_tag (X_1_obj _ _) = 1"
| "x_get_tag (X_2_obj _ _) = 2"
| "x_get_tag (X_2_1_obj _ _ _) = 3"
| "x_get_tag (X_2_2_obj _ _ _) = 4"

text \<open>\<open>tag_type\<close> is \<open>uint8_t\<close>.\<close>

definition uint8_cast :: "int \<Rightarrow> int" where
  "uint8_cast x = x mod 256"

definition x_tag_encode :: "'s encoder \<Rightarrow> int \<Rightarrow> 's \<Rightarrow> 's res" where
  "x_tag_encode enc t = char_encode enc (word_of_int t)"

definition x_tag_decode :: "'r decoder \<Rightarrow> 'r \<Rightarrow> (int \<times> 'r) res" where
  "x_tag_decode dec r = bind_res (char_decode dec r) (\<lambda>(c, r). Inr (uint c, r))"

definition be_u32_encode :: "'s encoder \<Rightarrow> 32 word \<Rightarrow> 's \<Rightarrow> 's res" where
  "be_u32_encode enc = be_int_encode enc drop_bit"

definition XA_encode :: "'s encoder \<Rightarrow> 32 word \<Rightarrow> 's \<Rightarrow> 's res" where
  "XA_encode enc xa s = be_u32_encode enc xa s"

definition XA_decode :: "'r decoder \<Rightarrow> 'r \<Rightarrow> (32 word \<times> 'r) res" where
  "XA_decode dec r = be_int_decode dec r"

definition X_2_encode :: "'s encoder \<Rightarrow> 32 word \<Rightarrow> 32 word \<Rightarrow> 's \<Rightarrow> 's res" where
  "X_2_encode enc xa x_2 s = bind_res (XA_encode enc xa s) (be_u32_encode enc x_2)"

definition X_2_decode :: "'r decoder \<Rightarrow> 'r \<Rightarrow> ((32 word \<times> 32 word) \<times> 'r) res" where
  "X_2_decode dec r = bind_res (XA_decode dec r) (\<lambda>(xa, r). bind_res (be_int_decode dec r) (\<lambda>(x_2, r). Inr ((xa, x_2), r)))"

text \<open>\<open>g\<close> is what the members of a new object hold. A \<open>static_cast\<close> to the wrong class is a bad access.\<close>

definition X_1 :: "32 word \<Rightarrow> 's encoder \<Rightarrow> 'r decoder \<Rightarrow> (x_obj, 's, 'r) vtype" where
  "X_1 g enc dec = \<lparr>vt_TAG = 1, vt_new = X_1_obj g g,
     vt_encode = (\<lambda>x s. case x of X_1_obj xa x_1 \<Rightarrow> bind_res (XA_encode enc xa s) (be_u32_encode enc x_1) | _ \<Rightarrow> Inl Bad_access),
     vt_decode = (\<lambda>x r. case x of
        X_1_obj _ _ \<Rightarrow> bind_res (XA_decode dec r) (\<lambda>(xa, r). bind_res (be_int_decode dec r) (\<lambda>(x_1, r). Inr (X_1_obj xa x_1, r)))
      | _ \<Rightarrow> Inl Bad_access)\<rparr>"

definition X_2 :: "32 word \<Rightarrow> 's encoder \<Rightarrow> 'r decoder \<Rightarrow> (x_obj, 's, 'r) vtype" where
  "X_2 g enc dec = \<lparr>vt_TAG = 2, vt_new = X_2_obj g g,
     vt_encode = (\<lambda>x s. case x of X_2_obj xa x_2 \<Rightarrow> X_2_encode enc xa x_2 s | _ \<Rightarrow> Inl Bad_access),
     vt_decode = (\<lambda>x r. case x of
        X_2_obj _ _ \<Rightarrow> bind_res (X_2_decode dec r) (\<lambda>((xa, x_2), r). Inr (X_2_obj xa x_2, r)) | _ \<Rightarrow> Inl Bad_access)\<rparr>"

definition X_2_1 :: "32 word \<Rightarrow> 's encoder \<Rightarrow> 'r decoder \<Rightarrow> (x_obj, 's, 'r) vtype" where
  "X_2_1 g enc dec = \<lparr>vt_TAG = 3, vt_new = X_2_1_obj g g g,
     vt_encode = (\<lambda>x s. case x of
        X_2_1_obj xa x_2 x_2_1 \<Rightarrow> bind_res (X_2_encode enc xa x_2 s) (be_u32_encode enc x_2_1) | _ \<Rightarrow> Inl Bad_access),
     vt_decode = (\<lambda>x r. case x of
        X_2_1_obj _ _ _ \<Rightarrow> bind_res (X_2_decode dec r) (\<lambda>((xa, x_2), r). bind_res (be_int_decode dec r) (\<lambda>(y, r). Inr (X_2_1_obj xa x_2 y, r)))
      | _ \<Rightarrow> Inl Bad_access)\<rparr>"

definition X_2_2 :: "32 word \<Rightarrow> 's encoder \<Rightarrow> 'r decoder \<Rightarrow> (x_obj, 's, 'r) vtype" where
  "X_2_2 g enc dec = \<lparr>vt_TAG = 4, vt_new = X_2_2_obj g g g,
     vt_encode = (\<lambda>x s. case x of
        X_2_2_obj xa x_2 x_2_2 \<Rightarrow> bind_res (X_2_encode enc xa x_2 s) (be_u32_encode enc x_2_2) | _ \<Rightarrow> Inl Bad_access),
     vt_decode = (\<lambda>x r. case x of
        X_2_2_obj _ _ _ \<Rightarrow> bind_res (X_2_decode dec r) (\<lambda>((xa, x_2), r). bind_res (be_int_decode dec r) (\<lambda>(y, r). Inr (X_2_2_obj xa x_2 y, r)))
      | _ \<Rightarrow> Inl Bad_access)\<rparr>"

definition XList :: "32 word \<Rightarrow> 's encoder \<Rightarrow> 'r decoder \<Rightarrow> (x_obj, 's, 'r) vtype type_list" where
  "XList g enc dec = make_list4 (X_1 g enc dec) (X_2 g enc dec) (X_2_1 g enc dec) (X_2_2 g enc dec)"

type_synonym x_heap = "x_obj obj_heap"

text \<open>\<open>Virtual_XA\<close> with its default policy; each direction uses one half of the table of classes.\<close>

definition no_encoder :: "unit encoder" where
  "no_encoder = \<lparr>e_write_char = (\<lambda>_ _. Inl Bad_access), e_memcpy = (\<lambda>_ _. Inl Bad_access)\<rparr>"

definition no_decoder :: "unit decoder" where
  "no_decoder = \<lparr>d_get_char = (\<lambda>_. Inl Bad_access), d_memcpy = (\<lambda>_ _. Inl Bad_access)\<rparr>"

definition Virtual_XA_encode :: "32 word \<Rightarrow> 's encoder \<Rightarrow> x_heap \<Rightarrow> nat option \<Rightarrow> 's \<Rightarrow> 's res" where
  "Virtual_XA_encode g enc h p =
     virtual_encode (fold_list (XList g enc no_decoder)) uint8_cast (x_tag_encode enc) x_get_tag shared_ptr_policy (p, h)"

definition Virtual_XA_decode :: "32 word \<Rightarrow> 'r decoder \<Rightarrow> x_heap \<times> 'r \<Rightarrow> (nat option \<times> x_heap \<times> 'r) res" where
  "Virtual_XA_decode g dec st = (case st of (h, r) \<Rightarrow>
     bind_res (virtual_decode (fold_list (XList g no_encoder dec)) uint8_cast (x_tag_decode dec) shared_ptr_policy (None, h) r)
       (\<lambda>((p, h), r). Inr (p, h, r)))"

section \<open>The structures\<close>

record MyStruct =
  ms_a :: "64 word"
  ms_b :: "32 word"
  ms_c :: "16 word"
  ms_d :: "32 word"
  ms_s1 :: "u8 list"
  ms_s2 :: "u8 list"

definition be_bytes_encode :: "'s encoder \<Rightarrow> u8 list \<Rightarrow> 's \<Rightarrow> 's res" where
  "be_bytes_encode enc = sequence_encode (be_u32_encode enc) (char_encode enc)"

definition be_bytes_decode :: "'r decoder \<Rightarrow> 'r \<Rightarrow> (u8 list \<times> 'r) res" where
  "be_bytes_decode dec = sequence_decode (be_int_decode dec) (char_decode dec)"

definition MyStruct_encode :: "'s encoder \<Rightarrow> MyStruct \<Rightarrow> 's \<Rightarrow> 's res" where
  "MyStruct_encode enc ms s =
     bind_res (be_int_encode enc drop_bit (ms_a ms) s) (\<lambda>s.
     bind_res (be_u32_encode enc (ms_b ms) s) (\<lambda>s.
     bind_res (be_int_encode enc signed_drop_bit (ms_c ms) s) (\<lambda>s.
     bind_res (be_int_encode enc signed_drop_bit (ms_d ms) s) (\<lambda>s.
     bind_res (be_bytes_encode enc (ms_s1 ms) s) (be_bytes_encode enc (ms_s2 ms))))))"

definition MyStruct_decode :: "'r decoder \<Rightarrow> 'r \<Rightarrow> (MyStruct \<times> 'r) res" where
  "MyStruct_decode dec r =
     bind_res (be_int_decode dec r) (\<lambda>(a, r).
     bind_res (be_int_decode dec r) (\<lambda>(b, r).
     bind_res (be_int_decode dec r) (\<lambda>(c, r).
     bind_res (be_int_decode dec r) (\<lambda>(d, r).
     bind_res (be_bytes_decode dec r) (\<lambda>(s1, r).
     bind_res (be_bytes_decode dec r) (\<lambda>(s2, r).
       Inr (\<lparr>ms_a = a, ms_b = b, ms_c = c, ms_d = d, ms_s1 = s1, ms_s2 = s2\<rparr>, r)))))))"

record MyStruct2 =
  m2_id :: "64 word"
  m2_xav :: "nat option list"

definition MyStruct2_encode :: "32 word \<Rightarrow> 's encoder \<Rightarrow> x_heap \<Rightarrow> MyStruct2 \<Rightarrow> 's \<Rightarrow> 's res" where
  "MyStruct2_encode g enc h ms s =
     bind_res (be_int_encode enc drop_bit (m2_id ms) s)
       (sequence_encode (be_u32_encode enc) (Virtual_XA_encode g enc h) (m2_xav ms))"

text \<open>A decoder whose state also has the heap.\<close>

definition heap_decoder :: "'r decoder \<Rightarrow> ('h \<times> 'r) decoder" where
  "heap_decoder dec =
     \<lparr>d_get_char = (\<lambda>(h, r). bind_res (d_get_char dec r) (\<lambda>(c, r). Inr (c, h, r))),
      d_memcpy = (\<lambda>n (h, r). bind_res (d_memcpy dec n r) (\<lambda>(bs, r). Inr (bs, h, r)))\<rparr>"

definition MyStruct2_decode :: "32 word \<Rightarrow> 'r decoder \<Rightarrow> x_heap \<times> 'r \<Rightarrow> (MyStruct2 \<times> x_heap \<times> 'r) res" where
  "MyStruct2_decode g dec r =
     bind_res (be_int_decode (heap_decoder dec) r) (\<lambda>(i, r).
     bind_res (sequence_decode (be_int_decode (heap_decoder dec)) (Virtual_XA_decode g dec) r) (\<lambda>(xav, r).
       Inr (\<lparr>m2_id = i, m2_xav = xav\<rparr>, r)))"

section \<open>Random values\<close>

type_synonym 'g rand = "'g \<Rightarrow> nat \<times> 'g"

fun Misc_Rand_loop :: "'g rand \<Rightarrow> nat \<Rightarrow> nat \<Rightarrow> 'w::len word \<Rightarrow> 'g \<Rightarrow> 'w word \<times> 'g" where
  "Misc_Rand_loop rand 0 i x g = (x, g)"
| "Misc_Rand_loop rand (Suc n) i x g = (case rand g of (r, g) \<Rightarrow>
     let xr = word_of_nat r AND 0xff in Misc_Rand_loop rand n (i + 1) (x OR push_bit (i * 8) xr) g)"

definition Misc_Rand :: "'g rand \<Rightarrow> 'g \<Rightarrow> 'w::len word \<times> 'g" where
  "Misc_Rand rand g = Misc_Rand_loop rand (sizeof_word (0 :: 'w word)) 0 0 g"

text \<open>The letters that fill a resized vector: \<open>base + rand() % k\<close>.\<close>

fun rand_letters :: "'g rand \<Rightarrow> nat \<Rightarrow> nat \<Rightarrow> nat \<Rightarrow> 'g \<Rightarrow> u8 list \<times> 'g" where
  "rand_letters rand base k 0 g = ([], g)"
| "rand_letters rand base k (Suc n) g = (case rand g of (r, g) \<Rightarrow> case rand_letters rand base k n g of (cs, g) \<Rightarrow>
     (word_of_nat (base + r mod k) # cs, g))"

text \<open>\<open>int16_t % 30\<close> rounds towards zero.\<close>

definition MyStruct_Rand :: "'g rand \<Rightarrow> 'g \<Rightarrow> MyStruct \<times> 'g" where
  "MyStruct_Rand rand g =
     (case Misc_Rand rand g of (a, g) \<Rightarrow> case Misc_Rand rand g of (b, g) \<Rightarrow>
      case Misc_Rand rand g of (c :: 16 word, g) \<Rightarrow> case Misc_Rand rand g of (d, g) \<Rightarrow>
      case rand g of (r, g) \<Rightarrow>
      case rand_letters rand 97 (122 - 97 + 1) (5 + r mod 10) g of (s1, g) \<Rightarrow>
      case rand_letters rand 97 (102 - 97 + 1) 4 g of (s2, g) \<Rightarrow>
        (\<lparr>ms_a = a mod 200, ms_b = b mod 50, ms_c = word_of_int (sgn (sint c) * (\<bar>sint c\<bar> mod 30)), ms_d = d,
          ms_s1 = s1, ms_s2 = s2\<rparr>, g))"

text \<open>The \<open>switch\<close>: a new object for types 1 to 4, otherwise the pointer stays null.\<close>

definition rand_x_obj :: "'g rand \<Rightarrow> 'g \<Rightarrow> x_obj option \<times> 'g" where
  "rand_x_obj rand g = (case rand g of (r, g) \<Rightarrow>
     let ty = r mod 5 in
     if ty = 1 then case rand g of (xa, g) \<Rightarrow> case rand g of (x_1, g) \<Rightarrow> (Some (X_1_obj (word_of_nat xa) (word_of_nat x_1)), g)
     else if ty = 2 then case rand g of (xa, g) \<Rightarrow> case rand g of (x_2, g) \<Rightarrow> (Some (X_2_obj (word_of_nat xa) (word_of_nat x_2)), g)
     else if ty = 3 then case rand g of (xa, g) \<Rightarrow> case rand g of (x_2, g) \<Rightarrow> case rand g of (y, g) \<Rightarrow>
       (Some (X_2_1_obj (word_of_nat xa) (word_of_nat x_2) (word_of_nat y)), g)
     else if ty = 4 then case rand g of (xa, g) \<Rightarrow> case rand g of (x_2, g) \<Rightarrow> case rand g of (y, g) \<Rightarrow>
       (Some (X_2_2_obj (word_of_nat xa) (word_of_nat x_2) (word_of_nat y)), g)
     else (None, g))"

text \<open>\<open>set\<close> of a new object on a null pointer of the resized vector.\<close>

fun rand_xav :: "'g rand \<Rightarrow> nat \<Rightarrow> x_heap \<Rightarrow> 'g \<Rightarrow> ((nat option list \<times> x_heap) res) \<times> 'g" where
  "rand_xav rand 0 h g = (Inr ([], h), g)"
| "rand_xav rand (Suc n) h g = (case rand_x_obj rand g of (ob, g) \<Rightarrow>
     case (case ob of None \<Rightarrow> Inr (None, h) | Some x \<Rightarrow> pp_set_new shared_ptr_policy x (None, h)) of
       Inl e \<Rightarrow> (Inl e, g)
     | Inr (p, h) \<Rightarrow> (case rand_xav rand n h g of (q, g) \<Rightarrow> (bind_res q (\<lambda>(ps, h). Inr (p # ps, h)), g)))"

definition MyStruct2_Rand :: "'g rand \<Rightarrow> x_heap \<Rightarrow> 'g \<Rightarrow> ((MyStruct2 \<times> x_heap) res) \<times> 'g" where
  "MyStruct2_Rand rand h g = (case rand g of (i, g) \<Rightarrow> case rand g of (j, g) \<Rightarrow> case rand g of (r, g) \<Rightarrow>
     case rand_xav rand (r mod 20) h g of (q, g) \<Rightarrow>
       (bind_res q (\<lambda>(xav, h). Inr (\<lparr>m2_id = word_of_nat i + push_bit 32 (word_of_nat j), m2_xav = xav\<rparr>, h)), g))"

text \<open>
  The benchmark's \<open>get_rand\<close>. In the version for \<open>uint64_t\<close> the sum is shifted, because \<open>+\<close> binds tighter than
  \<open><<\<close>.
\<close>

definition get_rand_u8 :: "'g rand \<Rightarrow> 'g \<Rightarrow> u8 \<times> 'g" where
  "get_rand_u8 rand g = (case rand g of (r, g) \<Rightarrow> (word_of_nat (97 + r mod (122 - 97 + 1)), g))"

definition get_rand_u64 :: "'g rand \<Rightarrow> 'g \<Rightarrow> 64 word \<times> 'g" where
  "get_rand_u64 rand g = (case rand g of (a, g) \<Rightarrow> case rand g of (b, g) \<Rightarrow> (push_bit 32 (word_of_nat a + word_of_nat b), g))"

definition get_rand :: "'g rand \<Rightarrow> 'g \<Rightarrow> 'w::len word \<times> 'g" where
  "get_rand rand g = (case rand g of (r, g) \<Rightarrow> (word_of_nat r, g))"

fun random_vector :: "('g \<Rightarrow> 'a \<times> 'g) \<Rightarrow> nat \<Rightarrow> 'g \<Rightarrow> 'a list \<times> 'g" where
  "random_vector gen 0 g = ([], g)"
| "random_vector gen (Suc n) g = (case gen g of (x, g) \<Rightarrow> case random_vector gen n g of (xs, g) \<Rightarrow> (x # xs, g))"

text \<open>The strings of \<open>string_detail::random_vector\<close>.\<close>

definition random_string :: "'g rand \<Rightarrow> 'g \<Rightarrow> u8 list \<times> 'g" where
  "random_string rand g = (case rand g of (r, g) \<Rightarrow> rand_letters rand 97 (122 - 97 + 1) (r mod (1024 * 20 + 1)) g)"

section \<open>The tests\<close>

text \<open>\<open>SimpleTest::makeTest\<close> for both codecs of an unsigned type, and whether \<open>test\<close> reports a mismatch.\<close>

definition SimpleTest_test :: "'w::len word \<Rightarrow> bool res" where
  "SimpleTest_test x =
     bind_res (be_int_encode buffer_encoder drop_bit x []) (\<lambda>buff.
     bind_res (be_int_decode buffer_decoder buff) (\<lambda>(y_big, _).
     bind_res (le_int_encode buffer_encoder drop_bit x []) (\<lambda>buff.
     bind_res (le_int_decode buffer_decoder buff) (\<lambda>(y_lit, _).
       Inr (x \<noteq> y_big \<or> x \<noteq> y_lit)))))"

text \<open>\<open>Test1\<close> for any structure: encode into a buffer and decode again.\<close>

definition Test1 :: "MyStruct \<Rightarrow> MyStruct res" where
  "Test1 ms = bind_res (MyStruct_encode buffer_encoder ms []) (\<lambda>buff.
     bind_res (MyStruct_decode buffer_decoder buff) (\<lambda>(ms_back, _). Inr ms_back))"

definition Test2 :: "32 word \<Rightarrow> x_heap \<Rightarrow> MyStruct2 \<Rightarrow> (MyStruct2 \<times> x_heap) res" where
  "Test2 g h ms2 = bind_res (MyStruct2_encode g buffer_encoder h ms2 []) (\<lambda>buff.
     bind_res (MyStruct2_decode g buffer_decoder (h, buff)) (\<lambda>(ms2_back, h, _). Inr (ms2_back, h)))"

text \<open>The file encoder's and decoder's default buffer size; the decoder's position starts uninitialized.\<close>

definition default_buffer_size :: nat where
  "default_buffer_size = 4096"

definition open_encoder :: "'f \<Rightarrow> 'f file_encoder" where
  "open_encoder f = \<lparr>fe_fd = f, fe_bufferSize = default_buffer_size, fe_buffer = []\<rparr>"

definition open_decoder :: "nat \<Rightarrow> 'f \<Rightarrow> 'f file_decoder" where
  "open_decoder garbage f = \<lparr>fd_fd = f, fd_bufferSize = default_buffer_size, fd_buffer = [], fd_pos = garbage\<rparr>"

text \<open>
  \<open>Test3\<close>. Writing: twenty and ten random structures; the destructor of the encoder flushes. Reading gives back
  two vectors over the heap it is given.
\<close>

fun rand_ms2v :: "'g rand \<Rightarrow> nat \<Rightarrow> x_heap \<Rightarrow> 'g \<Rightarrow> ((MyStruct2 list \<times> x_heap) res) \<times> 'g" where
  "rand_ms2v rand 0 h g = (Inr ([], h), g)"
| "rand_ms2v rand (Suc n) h g = (case MyStruct2_Rand rand h g of
     (Inl e, g) \<Rightarrow> (Inl e, g)
   | (Inr (m, h), g) \<Rightarrow> (case rand_ms2v rand n h g of (q, g) \<Rightarrow> (bind_res q (\<lambda>(ms, h). Inr (m # ms, h)), g)))"

definition Test3_encode :: "'f kwrite \<Rightarrow> 32 word \<Rightarrow> x_heap \<Rightarrow> MyStruct list \<Rightarrow> MyStruct2 list \<Rightarrow> 'f \<Rightarrow> 'f res" where
  "Test3_encode kwrite g h msv ms2v f =
     (let enc = file_encoder kwrite in
      bind_res (sequence_encode (be_u32_encode enc) (MyStruct_encode enc) msv (open_encoder f)) (\<lambda>s.
      bind_res (sequence_encode (be_u32_encode enc) (MyStruct2_encode g enc h) ms2v s) (\<lambda>s.
      bind_res (fe_flush kwrite s) (\<lambda>s. Inr (fe_fd s)))))"

definition Test3_write :: "'f kwrite \<Rightarrow> 32 word \<Rightarrow> 'g rand \<Rightarrow> x_heap \<Rightarrow> 'g \<Rightarrow> 'f \<Rightarrow> (MyStruct list \<times> MyStruct2 list \<times> x_heap \<times> 'f) res" where
  "Test3_write kwrite g rand h gen f =
     (case random_vector (MyStruct_Rand rand) 20 gen of (msv, gen) \<Rightarrow>
      case rand_ms2v rand 10 h gen of (q, gen) \<Rightarrow>
        bind_res q (\<lambda>(ms2v, h). bind_res (Test3_encode kwrite g h msv ms2v f) (\<lambda>f. Inr (msv, ms2v, h, f))))"

definition Test3_read :: "'f kread \<Rightarrow> 32 word \<Rightarrow> nat \<Rightarrow> x_heap \<Rightarrow> 'f \<Rightarrow> (MyStruct list \<times> MyStruct2 list \<times> x_heap) res" where
  "Test3_read kread g garbage h f =
     (let dec = file_decoder kread in
      bind_res (sequence_decode (be_int_decode dec) (MyStruct_decode dec) (open_decoder garbage f)) (\<lambda>(msv, s).
      bind_res (sequence_decode (be_int_decode (heap_decoder dec)) (MyStruct2_decode g dec) (h, s)) (\<lambda>(ms2v, h, s).
        Inr (msv, ms2v, h))))"

text \<open>The command line of \<open>Test3\<close>; a thrown text is \<open>Runtime_error\<close>.\<close>

definition Test3 :: "'a res \<Rightarrow> 'a res \<Rightarrow> string list \<Rightarrow> 'a res" where
  "Test3 write read args = (case args of
     [] \<Rightarrow> Inl Runtime_error
   | a # _ \<Rightarrow> if a = ''-write'' then write else if a = ''-read'' then read else Inl Runtime_error)"

text \<open>
  \<open>Test4\<close>: a structure through the optimized little endian codec. \<open>repr\<close> and \<open>unrepr\<close> are the machine's layout of an
  \<open>int64_t\<close>.
\<close>

record MyStruct3 =
  m3_id :: "32 word"
  m3_vi :: "64 word list"
  m3_vs :: "u8 list list"

definition opt_string_encode :: "'s encoder \<Rightarrow> u8 list \<Rightarrow> 's \<Rightarrow> 's res" where
  "opt_string_encode enc = seq_opt_encode (le_u32_encode enc) (\<lambda>c. [c]) enc"

definition opt_string_decode :: "'r decoder \<Rightarrow> 'r \<Rightarrow> (u8 list \<times> 'r) res" where
  "opt_string_decode dec = seq_opt_decode (le_int_decode dec) hd 1 dec"

definition MyStruct3_encode :: "(64 word \<Rightarrow> u8 list) \<Rightarrow> 's encoder \<Rightarrow> MyStruct3 \<Rightarrow> 's \<Rightarrow> 's res" where
  "MyStruct3_encode repr enc ms s =
     bind_res (le_int_encode enc signed_drop_bit (m3_id ms) s) (\<lambda>s.
     bind_res (seq_opt_encode (le_u32_encode enc) repr enc (m3_vi ms) s)
       (sequence_encode (le_u32_encode enc) (opt_string_encode enc) (m3_vs ms)))"

definition MyStruct3_decode :: "(u8 list \<Rightarrow> 64 word) \<Rightarrow> 'r decoder \<Rightarrow> 'r \<Rightarrow> (MyStruct3 \<times> 'r) res" where
  "MyStruct3_decode unrepr dec r =
     bind_res (le_int_decode dec r) (\<lambda>(i, r).
     bind_res (seq_opt_decode (le_int_decode dec) unrepr 8 dec r) (\<lambda>(vi, r).
     bind_res (sequence_decode (le_int_decode dec) (opt_string_decode dec) r) (\<lambda>(vs, r).
       Inr (\<lparr>m3_id = i, m3_vi = vi, m3_vs = vs\<rparr>, r))))"

definition Test4_write :: "(64 word \<Rightarrow> u8 list) \<Rightarrow> 'f kwrite \<Rightarrow> MyStruct3 \<Rightarrow> 'f \<Rightarrow> 'f res" where
  "Test4_write repr kwrite ms3 f =
     bind_res (MyStruct3_encode repr (file_encoder kwrite) ms3 (open_encoder f)) (\<lambda>s. bind_res (fe_flush kwrite s) (\<lambda>s. Inr (fe_fd s)))"

definition Test4_read :: "(u8 list \<Rightarrow> 64 word) \<Rightarrow> 'f kread \<Rightarrow> nat \<Rightarrow> 'f \<Rightarrow> MyStruct3 res" where
  "Test4_read unrepr kread garbage f =
     bind_res (MyStruct3_decode unrepr (file_decoder kread) (open_decoder garbage f)) (\<lambda>(ms3, _). Inr ms3)"

text \<open>
  \<open>Test5_Helper\<close> for a vector type, given by its plain and its optimized codec; \<open>vs\<close> is the vector \<open>random_vector\<close> made, \<open>f\<close> the
  file \<open>open\<close> returned and \<open>qv\<close> the indices of the query.
\<close>

record ('v, 'f) test_codec =
  tc_le_encode :: "'v \<Rightarrow> 'f file_encoder \<Rightarrow> 'f file_encoder res"
  tc_ole_encode :: "'v \<Rightarrow> 'f file_encoder \<Rightarrow> 'f file_encoder res"
  tc_le_decode :: "'f file_decoder \<Rightarrow> ('v \<times> 'f file_decoder) res"
  tc_ole_decode :: "'f file_decoder \<Rightarrow> ('v \<times> 'f file_decoder) res"

definition Test5_write :: "'f kwrite \<Rightarrow> ('v, 'f) test_codec \<Rightarrow> string \<Rightarrow> 'v \<Rightarrow> 'f \<Rightarrow> 'f res" where
  "Test5_write kwrite T codec vs f =
     bind_res (if codec = ''le'' then bind_res (tc_le_encode T vs (open_encoder f)) (\<lambda>s. bind_res (fe_flush kwrite s) (\<lambda>s. Inr (fe_fd s)))
               else Inr f) (\<lambda>f.
       if codec = ''ole'' then bind_res (tc_ole_encode T vs (open_encoder f)) (\<lambda>s. bind_res (fe_flush kwrite s) (\<lambda>s. Inr (fe_fd s)))
       else Inr f)"

definition Test5_read :: "('v list, 'f) test_codec \<Rightarrow> string \<Rightarrow> nat \<Rightarrow> 'f \<Rightarrow> 'v list res" where
  "Test5_read T codec garbage f =
     bind_res (if codec = ''le'' then bind_res (tc_le_decode T (open_decoder garbage f)) (\<lambda>(vs, _). Inr vs) else Inr []) (\<lambda>vs.
       if codec = ''ole'' then bind_res (tc_ole_decode T (open_decoder garbage f)) (\<lambda>(vs, _). Inr vs) else Inr vs)"

fun Test5_query :: "'v list \<Rightarrow> nat list \<Rightarrow> 'v list res" where
  "Test5_query vs [] = Inr []"
| "Test5_query vs (i # qv) = (if i < length vs then bind_res (Test5_query vs qv) (\<lambda>ys. Inr (vs ! i # ys)) else Inl C_assert)"

definition Test5_Helper :: "'f kwrite \<Rightarrow> ('v list, 'f) test_codec \<Rightarrow> string \<Rightarrow> string \<Rightarrow> nat list \<Rightarrow> 'v list \<Rightarrow> nat \<Rightarrow> 'f \<Rightarrow> ('v list \<times> 'f) res" where
  "Test5_Helper kwrite T cmd codec qv vs garbage f =
     bind_res (if cmd = ''write'' then bind_res (Test5_write kwrite T codec vs f) (\<lambda>f. Inr (vs, f))
               else if cmd = ''read'' then bind_res (Test5_read T codec garbage f) (\<lambda>vs. Inr (vs, f))
               else Inl Runtime_error) (\<lambda>(vs, f).
       bind_res (Test5_query vs qv) (\<lambda>out. Inr (out, f)))"

text \<open>The codecs of \<open>std::vector<uint64_t>\<close>.\<close>

definition u64_vector_codec :: "(64 word \<Rightarrow> u8 list) \<Rightarrow> (u8 list \<Rightarrow> 64 word) \<Rightarrow> 'f kwrite \<Rightarrow> 'f kread \<Rightarrow> (64 word list, 'f) test_codec" where
  "u64_vector_codec repr unrepr kwrite kread =
     (let enc = file_encoder kwrite; dec = file_decoder kread in
      \<lparr>tc_le_encode = sequence_encode (le_u32_encode enc) (le_int_encode enc drop_bit),
       tc_ole_encode = seq_opt_encode (le_u32_encode enc) repr enc,
       tc_le_decode = sequence_decode (le_int_decode dec) (le_int_decode dec),
       tc_ole_decode = seq_opt_decode (le_int_decode dec) unrepr 8 dec\<rparr>)"

definition string_vector_codec :: "'f kwrite \<Rightarrow> 'f kread \<Rightarrow> (u8 list list, 'f) test_codec" where
  "string_vector_codec kwrite kread =
     (let enc = file_encoder kwrite; dec = file_decoder kread in
      \<lparr>tc_le_encode = sequence_encode (le_u32_encode enc) (le_string_encode enc),
       tc_ole_encode = sequence_encode (le_u32_encode enc) (opt_string_encode enc),
       tc_le_decode = sequence_decode (le_int_decode dec) (le_string_decode dec),
       tc_ole_decode = sequence_decode (le_int_decode dec) (opt_string_decode dec)\<rparr>)"

text \<open>
  \<open>Test5\<close> with the arguments after the program's name: the number it returns, or \<open>Test5_Helper\<close> (\<open>helper\<close>, for each type) on the command,
  the codec and the rest; and \<open>main\<close>, which answers 1 to every exception.
\<close>

definition Test5 :: "(string \<Rightarrow> string \<Rightarrow> string \<Rightarrow> string list \<Rightarrow> 'a res) \<Rightarrow> string list \<Rightarrow> int res" where
  "Test5 helper args = (case args of
     cmd # codec # ty # qv \<Rightarrow>
       if ty \<in> {''uint8_t'', ''uint16_t'', ''uint32_t'', ''uint64_t'', ''string''} then bind_res (helper ty cmd codec qv) (\<lambda>_. Inr 0)
       else Inl Runtime_error
   | _ \<Rightarrow> Inr 1)"

definition serialize_main :: "(string \<Rightarrow> string \<Rightarrow> string \<Rightarrow> string list \<Rightarrow> 'a res) \<Rightarrow> string list \<Rightarrow> int res" where
  "serialize_main helper args = (case Test5 helper args of
     Inl e \<Rightarrow> if e \<in> {D_assert, R_assert, C_assert, Bad_access, Diverges} then Inl e else Inr 1
   | Inr n \<Rightarrow> Inr n)"

end
