(* ===== verification/Serialize_Correct.thy ===== *)
theory Serialize_Correct
  imports Serialize_Program
begin

text \<open>
  Correctness of the program of \<open>serialize.cpp\<close>. The byte locales carry the structures: \<open>runs\<close> composes
  decoders, \<open>hruns\<close> does the same for decoders that also allocate objects on a heap.
\<close>

section \<open>Bytes of the structures\<close>

definition be_bytes_of :: "u8 list \<Rightarrow> u8 list" where
  "be_bytes_of = counted_bytes be_bytes (\<lambda>c. [c])"

definition MyStruct_bytes :: "MyStruct \<Rightarrow> u8 list" where
  "MyStruct_bytes ms = be_bytes (ms_a ms) @ be_bytes (ms_b ms) @ be_bytes (ms_c ms) @ be_bytes (ms_d ms) @
     be_bytes_of (ms_s1 ms) @ be_bytes_of (ms_s2 ms)"

definition MyStruct_ok :: "MyStruct \<Rightarrow> bool" where
  "MyStruct_ok ms \<longleftrightarrow> length (ms_s1 ms) < u32_max \<and> length (ms_s2 ms) < u32_max"

fun x_bytes :: "x_obj \<Rightarrow> u8 list" where
  "x_bytes (X_1_obj a b) = be_bytes a @ be_bytes b"
| "x_bytes (X_2_obj a b) = be_bytes a @ be_bytes b"
| "x_bytes (X_2_1_obj a b c) = be_bytes a @ be_bytes b @ be_bytes c"
| "x_bytes (X_2_2_obj a b c) = be_bytes a @ be_bytes b @ be_bytes c"

definition xval_bytes :: "x_obj option \<Rightarrow> u8 list" where
  "xval_bytes v = (case v of None \<Rightarrow> [0] | Some x \<Rightarrow> word_of_int (x_get_tag x) # x_bytes x)"

text \<open>What a structure with pointers means: its number and the objects its pointers lead to.\<close>

type_synonym ms2_value = "64 word \<times> x_obj option list"

definition MyStruct2_bytes :: "ms2_value \<Rightarrow> u8 list" where
  "MyStruct2_bytes v = be_bytes (fst v) @ counted_bytes be_bytes xval_bytes (snd v)"

definition ptr_ok :: "x_heap \<Rightarrow> nat option \<Rightarrow> bool" where
  "ptr_ok h p \<longleftrightarrow> (\<forall>a. p = Some a \<longrightarrow> a < oh_next h \<and> oh_obj h a \<noteq> None)"

definition ms2_value_of :: "x_heap \<Rightarrow> MyStruct2 \<Rightarrow> ms2_value" where
  "ms2_value_of h ms = (m2_id ms, map (\<lambda>p. ptr_val (p, h)) (m2_xav ms))"

definition MyStruct2_ok :: "x_heap \<Rightarrow> MyStruct2 \<Rightarrow> bool" where
  "MyStruct2_ok h ms \<longleftrightarrow> length (m2_xav ms) < u32_max \<and> (\<forall>p \<in> set (m2_xav ms). ptr_ok h p)"

section \<open>Encoding\<close>

context byte_sink
begin

lemma emits_seq: "emits e f \<Longrightarrow> emits e' f' \<Longrightarrow> emits (\<lambda>x s. bind_res (e x s) (e' x)) (\<lambda>x. f x @ f' x)"
proof (rule emitsI)
  fix x s assume e: "emits e f" "emits e' f'" and s: "ok s"
  from emitsD [OF e(1) s] obtain s1 where s1: "e x s = Inr s1" "ok s1" "out s1 = out s @ f x" by blast
  with emitsD [OF e(2) s1(2)] show "\<exists>s'. bind_res (e x s) (e' x) = Inr s' \<and> ok s' \<and> out s' = out s @ f x @ f' x" by auto
qed

lemma emits_be_u32: "emits (be_u32_encode enc) be_bytes"
  unfolding be_u32_encode_def by (rule emits_be) (rule shr_ok_unsigned)

lemma emits_MyStruct: "emits (MyStruct_encode enc) MyStruct_bytes"
proof -
  note emits_counts = emits_sequence [OF emits_be_u32 emits_char, folded be_bytes_encode_def be_bytes_of_def]
  show ?thesis unfolding MyStruct_encode_def [abs_def] MyStruct_bytes_def [abs_def]
    by (intro emits_seq emits_of [OF emits_be [OF shr_ok_unsigned], of ms_a] emits_of [OF emits_be_u32, of ms_b]
        emits_of [OF emits_be [OF shr_ok_signed], of ms_c] emits_of [OF emits_be [OF shr_ok_signed], of ms_d]
        emits_of [OF emits_counts, of ms_s1] emits_of [OF emits_counts, of ms_s2])
qed

lemma emits_at: "emits e f \<Longrightarrow> ok s \<Longrightarrow> e x s = e' s \<Longrightarrow> \<exists>s'. e' s = Inr s' \<and> ok s' \<and> out s' = out s @ f x"
  using emitsD [of e f s x] by metis

lemma x_encode_ok:
  assumes "ok s"
  shows "\<exists>T s'. find (\<lambda>T. uint8_cast (vt_TAG T) = x_get_tag x) (types_of (XList g enc no_decoder)) = Some T \<and>
    vt_encode T x s = Inr s' \<and> ok s' \<and> out s' = out s @ x_bytes x"
proof -
  have e2: "\<exists>s'. bind_res (be_u32_encode enc a s) (be_u32_encode enc b) = Inr s' \<and> ok s' \<and> out s' = out s @ be_bytes a @ be_bytes b"
    if "ok s" for a b s
    using emitsD [OF emits_then [OF emits_be_u32 emits_be_u32] that, of "(a, b)"] by simp
  have e3: "\<exists>s'. bind_res (bind_res (be_u32_encode enc a s) (be_u32_encode enc b)) (be_u32_encode enc c) = Inr s' \<and> ok s' \<and>
    out s' = out s @ be_bytes a @ be_bytes b @ be_bytes c" for a b c
    using e2 [OF assms, of a b] emitsD [OF emits_be_u32, where x = c] by fastforce
  show ?thesis
    by (cases x) (use e2 [OF assms] e3 in \<open>simp_all add: XList_def make_list4_def make_list3_def make_list2_def make_list1_def
      X_1_def X_2_def X_2_1_def X_2_2_def X_2_encode_def XA_encode_def uint8_cast_def\<close>)
qed

end

context byte_sink
begin

lemma emits_x_tag: "emits (x_tag_encode enc) (\<lambda>t. [word_of_int t])"
  unfolding x_tag_encode_def by (rule emits_of) (rule emits_char)

lemma Virtual_XA_emits:
  assumes p: "ptr_ok h p" and s: "ok s"
  shows "\<exists>s'. Virtual_XA_encode g enc h p s = Inr s' \<and> ok s' \<and> out s' = out s @ xval_bytes (ptr_val (p, h))"
proof (cases p)
  case None
  then show ?thesis using emitsD [OF emits_x_tag s, of 0]
    by (simp add: Virtual_XA_encode_def virtual_encode_def shared_ptr_policy_def ptr_is_null_def xval_bytes_def ptr_val_def)
next
  case (Some a)
  then obtain x where x: "oh_obj h a = Some x" using p by (auto simp: ptr_ok_def)
  obtain s1 where s1: "x_tag_encode enc (x_get_tag x) s = Inr s1" "ok s1" "out s1 = out s @ [word_of_int (x_get_tag x)]"
    using emitsD [OF emits_x_tag s] by blast
  obtain T s2 where T: "find (\<lambda>T. uint8_cast (vt_TAG T) = x_get_tag x) (types_of (XList g enc no_decoder)) = Some T"
    "vt_encode T x s1 = Inr s2" "ok s2" "out s2 = out s1 @ x_bytes x"
    using x_encode_ok [OF s1(2)] by blast
  have "uint8_cast (vt_TAG T) = x_get_tag x" using T(1) by (auto simp: find_Some_iff)
  then have "Virtual_XA_encode g enc h p s = Inr s2"
    using Some x T(1,2) s1(1)
    by (simp add: Virtual_XA_encode_def virtual_encode_def shared_ptr_policy_def ptr_is_null_def ptr_get_def
        te.fold_list_dispatch dispatch_def te_process_unchecked_def)
  then show ?thesis using Some x T(3,4) s1(3) by (simp add: xval_bytes_def ptr_val_def)
qed

text \<open>Elements that are only encoded when they are valid.\<close>

lemma encode_all_at:
  assumes "\<And>x s. x \<in> set xs \<Longrightarrow> ok s \<Longrightarrow> \<exists>s'. e x s = Inr s' \<and> ok s' \<and> out s' = out s @ f x" and "ok s"
  shows "\<exists>s'. encode_all e xs s = Inr s' \<and> ok s' \<and> out s' = out s @ concat (map f xs)"
  using assms
proof (induction xs arbitrary: s)
  case (Cons x xs)
  obtain s1 where "e x s = Inr s1" "ok s1" "out s1 = out s @ f x" using Cons.prems(1) [of x s] Cons.prems(2) by auto
  then show ?case using Cons.IH [of s1] Cons.prems(1) by auto
qed simp

lemma sequence_at:
  assumes "emits el fl" and "\<And>x s. x \<in> set xs \<Longrightarrow> ok s \<Longrightarrow> \<exists>s'. e x s = Inr s' \<and> ok s' \<and> out s' = out s @ f (v x)" and "ok s"
  shows "\<exists>s'. sequence_encode el e xs s = Inr s' \<and> ok s' \<and> out s' = out s @ counted_bytes fl f (map v xs)"
proof -
  obtain s1 where s1: "el (len_word xs) s = Inr s1" "ok s1" "out s1 = out s @ fl (len_word xs)"
    using emitsD [OF assms(1,3)] by blast
  then show ?thesis using encode_all_at [of xs e "\<lambda>x. f (v x)" s1] assms(2)
    by (auto simp: sequence_encode_def counted_bytes_def len_word_def comp_def)
qed

lemma MyStruct2_emits:
  assumes "MyStruct2_ok h ms" and "ok s"
  shows "\<exists>s'. MyStruct2_encode g enc h ms s = Inr s' \<and> ok s' \<and> out s' = out s @ MyStruct2_bytes (ms2_value_of h ms)"
proof -
  obtain s1 where s1: "be_int_encode enc drop_bit (m2_id ms) s = Inr s1" "ok s1" "out s1 = out s @ be_bytes (m2_id ms)"
    using emitsD [OF emits_be [OF shr_ok_unsigned] assms(2)] by blast
  have "\<exists>s'. sequence_encode (be_u32_encode enc) (Virtual_XA_encode g enc h) (m2_xav ms) s1 = Inr s' \<and> ok s' \<and>
      out s' = out s1 @ counted_bytes be_bytes xval_bytes (map (\<lambda>p. ptr_val (p, h)) (m2_xav ms))"
    by (rule sequence_at [OF emits_be_u32 _ s1(2)], rule Virtual_XA_emits) (use assms(1) in \<open>auto simp: MyStruct2_ok_def\<close>)
  then show ?thesis using s1 by (auto simp: MyStruct2_encode_def MyStruct2_bytes_def ms2_value_of_def)
qed

end

section \<open>Decoding\<close>

context byte_source
begin

definition runs :: "('s \<Rightarrow> ('a \<times> 's) res) \<Rightarrow> u8 list \<Rightarrow> 'a \<Rightarrow> bool" where
  "runs d bs v \<longleftrightarrow> (\<forall>s ys. ok s \<longrightarrow> rest s = bs @ ys \<longrightarrow> (\<exists>s'. d s = Inr (v, s') \<and> ok s' \<and> rest s' = ys))"

lemma reads_runs: "reads d f D \<Longrightarrow> D x \<Longrightarrow> runs d (f x) x"
  by (simp add: reads_def runs_def)

lemma runs_reads: "(\<And>x. D x \<Longrightarrow> runs d (f x) x) \<Longrightarrow> reads d f D"
  by (simp add: reads_def runs_def)

lemma runs_bind:
  assumes "runs d bs a" and "runs (\<lambda>s. k (a, s)) cs v"
  shows "runs (\<lambda>s. bind_res (d s) k) (bs @ cs) v"
  unfolding runs_def
proof (intro allI impI)
  fix s ys assume s: "ok s" "rest s = (bs @ cs) @ ys"
  then obtain s1 where s1: "d s = Inr (a, s1)" "ok s1" "rest s1 = cs @ ys"
    using assms(1) [unfolded runs_def, rule_format, OF s(1), of "cs @ ys"] by auto
  then show "\<exists>s'. bind_res (d s) k = Inr (v, s') \<and> ok s' \<and> rest s' = ys" using assms(2) by (simp add: runs_def)
qed

lemma runs_return: "runs (\<lambda>s. Inr (v, s)) [] v"
  by (simp add: runs_def)

lemma runs_last: "runs d bs a \<Longrightarrow> (\<And>s. k (a, s) = Inr (v, s)) \<Longrightarrow> runs (\<lambda>s. bind_res (d s) k) bs v"
  using runs_bind [of d bs a k "[]" v] by (simp add: runs_return)

lemma reads_be_all: "(\<And>x. whole_bytes (x :: 'w::len word)) \<Longrightarrow> reads (be_int_decode dec) (be_bytes :: 'w word \<Rightarrow> u8 list) (\<lambda>_. True)"
  using reads_be by (rule reads_weaken)

lemma runs_be:
  "runs (be_int_decode dec) (be_bytes a) (a :: 16 word)" "runs (be_int_decode dec) (be_bytes b) (b :: 32 word)"
  "runs (be_int_decode dec) (be_bytes c) (c :: 64 word)"
  by (rule reads_runs [OF reads_be_all [OF whole_bytes_sizes(1)]], rule TrueI)
    (rule reads_runs [OF reads_be_all [OF whole_bytes_sizes(2)]] reads_runs [OF reads_be_all [OF whole_bytes_sizes(3)]], rule TrueI)+

lemma runs_be_bytes: "length xs < u32_max \<Longrightarrow> runs (be_bytes_decode dec) (be_bytes_of xs) xs"
  unfolding be_bytes_decode_def be_bytes_of_def
  by (rule reads_runs [OF reads_sequence [OF reads_be_all [OF whole_bytes_sizes(2)] reads_char]]) (simp add: countable_def)

lemma reads_MyStruct: "reads (MyStruct_decode dec) MyStruct_bytes MyStruct_ok"
proof (rule runs_reads)
  fix ms assume "MyStruct_ok ms"
  then have s: "runs (be_bytes_decode dec) (be_bytes_of (ms_s1 ms)) (ms_s1 ms)" "runs (be_bytes_decode dec) (be_bytes_of (ms_s2 ms)) (ms_s2 ms)"
    by (simp_all add: MyStruct_ok_def runs_be_bytes)
  show "runs (MyStruct_decode dec) (MyStruct_bytes ms) ms"
    unfolding MyStruct_decode_def [abs_def] MyStruct_bytes_def
    by (rule runs_bind, rule runs_be, unfold prod.case)+ (rule runs_bind, rule s(1), unfold prod.case, rule runs_last, rule s(2), simp)
qed

end

section \<open>Decoding with a heap\<close>

definition grows :: "x_heap \<Rightarrow> x_heap \<Rightarrow> bool" where
  "grows h h' \<longleftrightarrow> oh_next h \<le> oh_next h' \<and> (\<forall>a < oh_next h. oh_obj h' a = oh_obj h a)"

definition holds :: "x_obj option \<Rightarrow> x_heap \<Rightarrow> nat option \<Rightarrow> bool" where
  "holds v h p \<longleftrightarrow> ptr_ok h p \<and> ptr_val (p, h) = v"

lemma grows_refl [simp]: "grows h h"
  by (simp add: grows_def)

lemma grows_trans: "grows h h' \<Longrightarrow> grows h' h'' \<Longrightarrow> grows h h''"
  unfolding grows_def by (metis order_less_le_trans order_trans)

lemma holds_grows: "holds v h p \<Longrightarrow> grows h h' \<Longrightarrow> holds v h' p"
  by (cases p) (auto simp: holds_def grows_def ptr_ok_def ptr_val_def)

context byte_source
begin

lemma heap_source: "byte_source (heap_decoder dec) (\<lambda>(h, s). rest s) (\<lambda>(h, s). h = h0 \<and> ok s)"
proof
  fix s c cs assume "case s of (h, s) \<Rightarrow> h = h0 \<and> ok s" and "(case s of (h, s) \<Rightarrow> rest s) = c # cs"
  then show "\<exists>s'. d_get_char (heap_decoder dec) s = Inr (c, s') \<and> (case s' of (h, s) \<Rightarrow> h = h0 \<and> ok s) \<and> (case s' of (h, s) \<Rightarrow> rest s) = cs"
    using get_ok [of "snd s" c cs] by (cases s) (auto simp: heap_decoder_def)
next
  fix s xs ys assume "case s of (h, s) \<Rightarrow> h = h0 \<and> ok s" and "(case s of (h, s) \<Rightarrow> rest s) = xs @ ys" and "xs \<noteq> []"
  then show "\<exists>s'. d_memcpy (heap_decoder dec) (length xs) s = Inr (xs, s') \<and> (case s' of (h, s) \<Rightarrow> h = h0 \<and> ok s) \<and> (case s' of (h, s) \<Rightarrow> rest s) = ys"
    using memcpy_ok [of "snd s" xs ys] by (cases s) (auto simp: heap_decoder_def)
qed

definition hruns :: "(x_heap \<Rightarrow> bool) \<Rightarrow> (x_heap \<times> 's \<Rightarrow> ('a \<times> x_heap \<times> 's) res) \<Rightarrow> u8 list \<Rightarrow> (x_heap \<Rightarrow> 'a \<Rightarrow> bool) \<Rightarrow> bool" where
  "hruns P d bs H \<longleftrightarrow> (\<forall>h s ys. P h \<longrightarrow> ok s \<longrightarrow> rest s = bs @ ys \<longrightarrow>
     (\<exists>x h' s'. d (h, s) = Inr (x, h', s') \<and> ok s' \<and> rest s' = ys \<and> grows h h' \<and> H h' x))"

lemma hrunsD:
  "hruns P d bs H \<Longrightarrow> P h \<Longrightarrow> ok s \<Longrightarrow> rest s = bs @ ys \<Longrightarrow>
     \<exists>x h' s'. d (h, s) = Inr (x, h', s') \<and> ok s' \<and> rest s' = ys \<and> grows h h' \<and> H h' x"
  by (simp add: hruns_def)

lemma hruns_bind:
  assumes "hruns P d bs A" and "\<And>a. hruns (\<lambda>h. A h a) (\<lambda>st. k (a, st)) cs H"
  shows "hruns P (\<lambda>st. bind_res (d st) k) (bs @ cs) H"
  unfolding hruns_def
proof (intro allI impI)
  fix h s ys assume s: "P h" "ok s" "rest s = (bs @ cs) @ ys"
  obtain a h1 s1 where 1: "d (h, s) = Inr (a, h1, s1)" "ok s1" "rest s1 = cs @ ys" "grows h h1" "A h1 a"
    using hrunsD [OF assms(1) s(1,2), of "cs @ ys"] s(3) by auto
  obtain x h2 s2 where 2: "k (a, h1, s1) = Inr (x, h2, s2)" "ok s2" "rest s2 = ys" "grows h1 h2" "H h2 x"
    using hrunsD [OF assms(2) 1(5,2,3)] by blast
  then show "\<exists>x h' s'. bind_res (d (h, s)) k = Inr (x, h', s') \<and> ok s' \<and> rest s' = ys \<and> grows h h' \<and> H h' x"
    using 1(1) grows_trans [OF 1(4) 2(4)] by simp
qed

text \<open>A decoder that does not touch the heap.\<close>

lemma hruns_runs:
  assumes "\<And>h0. byte_source.runs (\<lambda>(h, s). rest s) (\<lambda>(h, s). h = h0 \<and> ok s) d bs v"
  shows "hruns P d bs (\<lambda>h x. P h \<and> x = v)"
  unfolding hruns_def
proof (intro allI impI)
  fix h s ys assume "P h" "ok s" "rest s = bs @ ys"
  then show "\<exists>x h' s'. d (h, s) = Inr (x, h', s') \<and> ok s' \<and> rest s' = ys \<and> grows h h' \<and> P h' \<and> x = v"
    using assms [of h, unfolded byte_source.runs_def [OF heap_source], rule_format, of "(h, s)" ys] by auto
qed

lemma hruns_be:
  "hruns P (be_int_decode (heap_decoder dec)) (be_bytes b) (\<lambda>h x. P h \<and> x = (b :: 32 word))"
  "hruns P (be_int_decode (heap_decoder dec)) (be_bytes c) (\<lambda>h x. P h \<and> x = (c :: 64 word))"
  by (rule hruns_runs, rule byte_source.runs_be [OF heap_source])+

lemma x_decode_ok:
  "\<exists>T. find (\<lambda>T. uint8_cast (vt_TAG T) = x_get_tag x) (types_of (XList g no_encoder dec)) = Some T \<and>
     runs (vt_decode T (vt_new T)) (x_bytes x) x"
proof -
  note b = runs_bind [OF runs_be(2)] runs_last [OF runs_be(2)]
  show ?thesis
    by (cases x) (auto simp: XList_def make_list4_def make_list3_def make_list2_def make_list1_def
        X_1_def X_2_def X_2_1_def X_2_2_def X_2_decode_def XA_decode_def uint8_cast_def bind_res_assoc split_def
        intro!: b)
qed

end

context byte_source
begin

lemma runs_x_tag: "0 \<le> t \<Longrightarrow> t < 256 \<Longrightarrow> runs (x_tag_decode dec) [word_of_int t] t"
proof -
  assume "0 \<le> t" "t < 256"
  then have "uint (word_of_int t :: u8) = t" by (simp add: uint_word_of_int)
  then show ?thesis unfolding x_tag_decode_def [abs_def]
    by (intro runs_last [where a = "word_of_int t"] reads_runs [OF reads_char]) simp_all
qed

lemma Virtual_XA_runs: "hruns P (Virtual_XA_decode g dec) (xval_bytes v) (\<lambda>h p. holds v h p)"
  unfolding hruns_def
proof (intro allI impI)
  fix h s ys assume s: "ok s" "rest s = xval_bytes v @ ys"
  show "\<exists>p h' s'. Virtual_XA_decode g dec (h, s) = Inr (p, h', s') \<and> ok s' \<and> rest s' = ys \<and> grows h h' \<and> holds v h' p"
  proof (cases v)
    case None
    then obtain s1 where "x_tag_decode dec s = Inr (0, s1)" "ok s1" "rest s1 = ys"
      using runs_x_tag [of 0] s by (auto simp: runs_def xval_bytes_def)
    then show ?thesis using None
      by (auto simp: Virtual_XA_decode_def virtual_decode_def shared_ptr_policy_def shared_reset_def shared_release_def
          holds_def ptr_ok_def ptr_val_def)
  next
    case (Some x)
    have tag: "0 < x_get_tag x" "x_get_tag x < 256" by (cases x; simp)+
    obtain s1 where s1: "x_tag_decode dec s = Inr (x_get_tag x, s1)" "ok s1" "rest s1 = x_bytes x @ ys"
      using runs_x_tag [of "x_get_tag x"] tag s Some by (auto simp: runs_def xval_bytes_def)
    obtain T where T: "find (\<lambda>T. uint8_cast (vt_TAG T) = x_get_tag x) (types_of (XList g no_encoder dec)) = Some T"
      "runs (vt_decode T (vt_new T)) (x_bytes x) x"
      using x_decode_ok by blast
    obtain s2 where s2: "vt_decode T (vt_new T) s1 = Inr (x, s2)" "ok s2" "rest s2 = ys" using T(2) s1(2,3) by (auto simp: runs_def)
    define h1 where "h1 = h\<lparr>oh_obj := (oh_obj h)(oh_next h \<mapsto> x), oh_next := oh_next h + 1, oh_refs := (oh_refs h)(oh_next h := 1)\<rparr>"
    have "Virtual_XA_decode g dec (h, s) = Inr (Some (oh_next h), h1, s2)"
      using s1(1) tag(1) T(1) shared_decode_fresh [OF s2(1), of h]
      by (simp add: Virtual_XA_decode_def virtual_decode_def td.fold_list_dispatch dispatch_def h1_def)
    moreover have "grows h h1" "holds v h1 (Some (oh_next h))"
      using Some by (simp_all add: h1_def grows_def holds_def ptr_ok_def ptr_val_def)
    ultimately show ?thesis using s2(2,3) by blast
  qed
qed

lemma hruns_all:
  assumes "\<And>v. v \<in> set vs \<Longrightarrow> hruns (\<lambda>_. True) d (f v) (H v)"
    and "\<And>v h h' x. H v h x \<Longrightarrow> grows h h' \<Longrightarrow> H v h' x"
  shows "hruns (\<lambda>_. True) (decode_all d (length vs)) (concat (map f vs)) (\<lambda>h. list_all2 (\<lambda>v. H v h) vs)"
  using assms(1)
proof (induction vs)
  case (Cons v vs)
  show ?case unfolding hruns_def
  proof (intro allI impI)
    fix h s ys assume s: "ok s" "rest s = concat (map f (v # vs)) @ ys"
    obtain x h1 s1 where 1: "d (h, s) = Inr (x, h1, s1)" "ok s1" "rest s1 = concat (map f vs) @ ys" "grows h h1" "H v h1 x"
      using hrunsD [OF Cons.prems [of v], of s "concat (map f vs) @ ys" h] s by auto
    obtain xs h2 s2 where 2: "decode_all d (length vs) (h1, s1) = Inr (xs, h2, s2)" "ok s2" "rest s2 = ys" "grows h1 h2"
        "list_all2 (\<lambda>v. H v h2) vs xs"
      using hrunsD [OF Cons.IH, of s1 ys h1] Cons.prems 1(2,3) by auto
    show "\<exists>x h' s'. decode_all d (length (v # vs)) (h, s) = Inr (x, h', s') \<and> ok s' \<and> rest s' = ys \<and> grows h h' \<and>
        list_all2 (\<lambda>v. H v h') (v # vs) x"
      using 1(1) 2 grows_trans [OF 1(4) 2(4)] assms(2) [OF 1(5) 2(4)] by simp
  qed
qed (simp add: hruns_def)

lemma hruns_sequence:
  assumes "\<And>v. v \<in> set vs \<Longrightarrow> hruns (\<lambda>_. True) d (f v) (H v)"
    and "\<And>v h h' x. H v h x \<Longrightarrow> grows h h' \<Longrightarrow> H v h' x" and "length vs < u32_max"
  shows "hruns (\<lambda>_. True) (sequence_decode (be_int_decode (heap_decoder dec)) d) (counted_bytes be_bytes f vs) (\<lambda>h. list_all2 (\<lambda>v. H v h) vs)"
  unfolding hruns_def
proof (intro allI impI)
  fix h s ys assume s: "ok s" "rest s = counted_bytes be_bytes f vs @ ys"
  obtain h1 s1 where 1: "be_int_decode (heap_decoder dec) (h, s) = Inr (len_word vs, h1, s1)" "ok s1" "rest s1 = concat (map f vs) @ ys" "grows h h1"
    using hrunsD [OF hruns_be(1) [of "\<lambda>_. True" "len_word vs"], of s "concat (map f vs) @ ys" h] s by (auto simp: counted_bytes_def)
  obtain xs h2 s2 where 2: "decode_all d (length vs) (h1, s1) = Inr (xs, h2, s2)" "ok s2" "rest s2 = ys" "grows h1 h2"
      "list_all2 (\<lambda>v. H v h2) vs xs"
    using hrunsD [OF hruns_all [of vs d f H], of s1 ys h1] assms(1,2) 1(2,3) by auto
  then show "\<exists>x h' s'. sequence_decode (be_int_decode (heap_decoder dec)) d (h, s) = Inr (x, h', s') \<and> ok s' \<and> rest s' = ys \<and>
      grows h h' \<and> list_all2 (\<lambda>v. H v h') vs x"
    using 1(1) grows_trans [OF 1(4) 2(4)] by (simp add: sequence_decode_def unat_len_word [OF assms(3)])
qed

end

text \<open>A decoded structure has the value that was written, in its heap.\<close>

definition ms2_holds :: "ms2_value \<Rightarrow> x_heap \<Rightarrow> MyStruct2 \<Rightarrow> bool" where
  "ms2_holds v h ms \<longleftrightarrow> m2_id ms = fst v \<and> list_all2 (\<lambda>v. holds v h) (snd v) (m2_xav ms)"

lemma ms2_holds_grows: "ms2_holds v h ms \<Longrightarrow> grows h h' \<Longrightarrow> ms2_holds v h' ms"
  unfolding ms2_holds_def by (metis (mono_tags, lifting) holds_grows list_all2_mono)

lemma ms2_holds_value: "ms2_holds v h ms \<Longrightarrow> ms2_value_of h ms = v \<and> (\<forall>p \<in> set (m2_xav ms). ptr_ok h p)"
  by (cases v) (auto simp: ms2_holds_def ms2_value_of_def holds_def list_all2_conv_all_nth list_eq_iff_nth_eq in_set_conv_nth)

context byte_source
begin

lemma MyStruct2_runs:
  assumes "length (snd v) < u32_max"
  shows "hruns (\<lambda>_. True) (MyStruct2_decode g dec) (MyStruct2_bytes v) (ms2_holds v)"
proof -
  have seq: "hruns (\<lambda>_. True) (sequence_decode (be_int_decode (heap_decoder dec)) (Virtual_XA_decode g dec))
      (counted_bytes be_bytes xval_bytes (snd v)) (\<lambda>h. list_all2 (\<lambda>v. holds v h) (snd v))"
    by (rule hruns_sequence [OF Virtual_XA_runs holds_grows assms])
  show ?thesis unfolding hruns_def
  proof (intro allI impI)
    fix h s ys assume s: "ok s" "rest s = MyStruct2_bytes v @ ys"
    obtain h1 s1 where 1: "be_int_decode (heap_decoder dec) (h, s) = Inr (fst v, h1, s1)" "ok s1"
        "rest s1 = counted_bytes be_bytes xval_bytes (snd v) @ ys" "grows h h1"
      using hrunsD [OF hruns_be(2) [of "\<lambda>_. True" "fst v"], of s "counted_bytes be_bytes xval_bytes (snd v) @ ys" h] s
      by (auto simp: MyStruct2_bytes_def)
    obtain xs h2 s2 where 2: "sequence_decode (be_int_decode (heap_decoder dec)) (Virtual_XA_decode g dec) (h1, s1) = Inr (xs, h2, s2)"
        "ok s2" "rest s2 = ys" "grows h1 h2" "list_all2 (\<lambda>v. holds v h2) (snd v) xs"
      using hrunsD [OF seq _ 1(2,3), of h1] by auto
    then show "\<exists>x h' s'. MyStruct2_decode g dec (h, s) = Inr (x, h', s') \<and> ok s' \<and> rest s' = ys \<and> grows h h' \<and> ms2_holds v h' x"
      using 1(1) grows_trans [OF 1(4) 2(4)] by (simp add: MyStruct2_decode_def ms2_holds_def)
  qed
qed

lemma MyStruct2_vector_runs:
  assumes "length vs < u32_max" and "\<forall>v \<in> set vs. length (snd v) < u32_max"
  shows "hruns (\<lambda>_. True) (sequence_decode (be_int_decode (heap_decoder dec)) (MyStruct2_decode g dec))
    (counted_bytes be_bytes MyStruct2_bytes vs) (\<lambda>h. list_all2 (\<lambda>v. ms2_holds v h) vs)"
  by (rule hruns_sequence [OF MyStruct2_runs ms2_holds_grows assms(1)]) (use assms(2) in blast)

end

section \<open>Random structures are valid\<close>

lemma rand_letters_length: "length (fst (rand_letters rand base k n g)) = n"
  by (induction n arbitrary: g) (simp_all add: split_def)

lemma MyStruct_Rand_ok: "MyStruct_ok (fst (MyStruct_Rand rand g))"
  by (simp add: MyStruct_Rand_def split_def MyStruct_ok_def rand_letters_length u32_max_def)

lemma random_vector_all: "length (fst (random_vector gen n g)) = n" "(\<And>g. Q (fst (gen g))) \<Longrightarrow> \<forall>x \<in> set (fst (random_vector gen n g)). Q x"
  by (induction n arbitrary: g) (simp_all add: split_def)

lemma set_new_null:
  "\<exists>p h'. pp_set_new shared_ptr_policy x (None, h) = Inr (p, h') \<and> grows h h' \<and> ptr_ok h' p"
  by (simp add: shared_ptr_policy_def oh_new_def shared_reset_new_def shared_release_def grows_def ptr_ok_def)

lemma ptr_ok_grows: "ptr_ok h p \<Longrightarrow> grows h h' \<Longrightarrow> ptr_ok h' p"
  by (auto simp: ptr_ok_def grows_def)

lemma rand_xav_ok:
  "\<exists>ps h'. fst (rand_xav rand n h g) = Inr (ps, h') \<and> length ps = n \<and> grows h h' \<and> (\<forall>p \<in> set ps. ptr_ok h' p)"
proof (induction n arbitrary: h g)
  case (Suc n)
  define ob where "ob = rand_x_obj rand g"
  obtain p h1 where p: "(case fst ob of None \<Rightarrow> Inr (None, h) | Some x \<Rightarrow> pp_set_new shared_ptr_policy x (None, h)) = Inr (p, h1)"
    "grows h h1" "ptr_ok h1 p"
    using set_new_null by (cases "fst ob") (fastforce simp: ptr_ok_def)+
  obtain ps h2 where ps: "fst (rand_xav rand n h1 (snd ob)) = Inr (ps, h2)" "length ps = n" "grows h1 h2" "\<forall>p \<in> set ps. ptr_ok h2 p"
    using Suc.IH by blast
  then show ?case
    using p(1) grows_trans [OF p(2) ps(3)] ptr_ok_grows [OF p(3) ps(3)] by (simp add: ob_def split_def)
qed simp

lemma MyStruct2_Rand_ok: "\<exists>ms h'. fst (MyStruct2_Rand rand h g) = Inr (ms, h') \<and> MyStruct2_ok h' ms \<and> grows h h'"
proof -
  define r where "r = rand (snd (rand (snd (rand g))))"
  obtain ps h' where ps: "fst (rand_xav rand (fst r mod 20) h (snd r)) = Inr (ps, h')" "length ps = fst r mod 20" "grows h h'"
    "\<forall>p \<in> set ps. ptr_ok h' p"
    using rand_xav_ok [of rand "fst r mod 20" h "snd r"] by blast
  have "fst r mod 20 < u32_max" by (rule less_trans [of _ 20]) (simp_all add: u32_max_def)
  moreover have "fst (MyStruct2_Rand rand h g) = bind_res (fst (rand_xav rand (fst r mod 20) h (snd r))) (\<lambda>q.
      Inr (\<lparr>m2_id = word_of_nat (fst (rand g)) + push_bit 32 (word_of_nat (fst (rand (snd (rand g))))), m2_xav = fst q\<rparr>, snd q))"
    by (simp only: MyStruct2_Rand_def split_def r_def fst_conv)
  ultimately show ?thesis using ps unfolding ps(1) by (simp only: bind_res_Inr MyStruct2_ok_def MyStruct2.simps fst_conv snd_conv) auto
qed

lemma MyStruct2_ok_grows: "MyStruct2_ok h ms \<Longrightarrow> grows h h' \<Longrightarrow> MyStruct2_ok h' ms"
  by (auto simp: MyStruct2_ok_def intro: ptr_ok_grows)

lemma rand_ms2v_ok:
  "\<exists>ms h'. fst (rand_ms2v rand n h g) = Inr (ms, h') \<and> length ms = n \<and> grows h h' \<and> (\<forall>m \<in> set ms. MyStruct2_ok h' m)"
proof (induction n arbitrary: h g)
  case (Suc n)
  obtain m h1 where m: "fst (MyStruct2_Rand rand h g) = Inr (m, h1)" "MyStruct2_ok h1 m" "grows h h1"
    using MyStruct2_Rand_ok [of rand h g] by blast
  obtain ms h2 where ms: "fst (rand_ms2v rand n h1 (snd (MyStruct2_Rand rand h g))) = Inr (ms, h2)" "length ms = n" "grows h1 h2"
    "\<forall>m \<in> set ms. MyStruct2_ok h2 m"
    using Suc.IH by blast
  obtain q where q: "MyStruct2_Rand rand h g = (Inr (m, h1), q)" using m(1) by (cases "MyStruct2_Rand rand h g") simp
  show ?case
    using ms grows_trans [OF m(3) ms(3)] MyStruct2_ok_grows [OF m(2) ms(3)] by (simp add: q split_def)
qed simp

section \<open>Files\<close>

context posix_write
begin

lemma fe_ok_open: "fe_ok (open_encoder f)"
  by (simp add: fe_ok_def open_encoder_def default_buffer_size_def u64_max_def)

text \<open>Encoding into a new encoder and flushing it puts the emitted bytes into the file.\<close>

lemma flushed:
  assumes "\<exists>s. e (open_encoder f) = Inr s \<and> fe_ok s \<and> fe_out s = fe_out (open_encoder f) @ bs" and "contents f = []"
  shows "\<exists>f'. bind_res (e (open_encoder f)) (\<lambda>s. bind_res (fe_flush kwrite s) (\<lambda>s. Inr (fe_fd s))) = Inr f' \<and> contents f' = bs"
proof -
  obtain s where s: "e (open_encoder f) = Inr s" "fe_ok s" "fe_out s = bs" using assms by (auto simp: fe_out_def open_encoder_def)
  then obtain s' where "fe_flush kwrite s = Inr s'" "fe_buffer s' = []" "fe_out s' = bs" using fe_flush_ok [OF s(2)] by auto
  then show ?thesis using s by (auto simp: fe_out_def)
qed

lemma Test3_written:
  assumes "\<forall>m \<in> set ms2v. MyStruct2_ok h m" and "contents f = []"
  shows "\<exists>f'. Test3_encode kwrite g h msv ms2v f = Inr f' \<and>
    contents f' = counted_bytes be_bytes MyStruct_bytes msv @ counted_bytes be_bytes MyStruct2_bytes (map (ms2_value_of h) ms2v)"
proof -
  let ?enc = "file_encoder kwrite"
  let ?e = "\<lambda>s. bind_res (sequence_encode (be_u32_encode ?enc) (MyStruct_encode ?enc) msv s)
    (sequence_encode (be_u32_encode ?enc) (MyStruct2_encode g ?enc h) ms2v)"
  obtain s1 where s1: "sequence_encode (be_u32_encode ?enc) (MyStruct_encode ?enc) msv (open_encoder f) = Inr s1" "fe_ok s1"
      "fe_out s1 = fe_out (open_encoder f) @ counted_bytes be_bytes MyStruct_bytes msv"
    using file_sink.emitsD [OF file_sink.emits_sequence [OF file_sink.emits_be_u32 file_sink.emits_MyStruct] fe_ok_open] by blast
  have "\<exists>s. sequence_encode (be_u32_encode ?enc) (MyStruct2_encode g ?enc h) ms2v s1 = Inr s \<and> fe_ok s \<and>
      fe_out s = fe_out s1 @ counted_bytes be_bytes MyStruct2_bytes (map (ms2_value_of h) ms2v)"
    by (rule file_sink.sequence_at [OF file_sink.emits_be_u32 _ s1(2)], rule file_sink.MyStruct2_emits) (use assms(1) in auto)
  then have "\<exists>s. ?e (open_encoder f) = Inr s \<and> fe_ok s \<and> fe_out s = fe_out (open_encoder f) @
      counted_bytes be_bytes MyStruct_bytes msv @ counted_bytes be_bytes MyStruct2_bytes (map (ms2_value_of h) ms2v)"
    using s1 by auto
  from flushed [where e = ?e, OF this assms(2)] show ?thesis by (simp add: Test3_encode_def Let_def bind_res_assoc)
qed

end

context posix_read
begin

lemma open_decoder_ok: "fd_ok (open_decoder garbage f)" "fd_rest (open_decoder garbage f) = unread f"
  by (simp_all add: fd_ok_def fd_rest_def open_decoder_def default_buffer_size_def)

lemma Test3_read_ok:
  assumes "unread f = (counted_bytes be_bytes MyStruct_bytes msv @ counted_bytes be_bytes MyStruct2_bytes vs) @ ys"
    and "countable MyStruct_ok msv" and "length vs < u32_max" and "\<forall>v \<in> set vs. length (snd v) < u32_max"
  shows "\<exists>ms2v h'. Test3_read kread g garbage h f = Inr (msv, ms2v, h') \<and> map (ms2_value_of h') ms2v = vs"
proof -
  let ?dec = "file_decoder kread"
  have "fd_rest (open_decoder garbage f) = counted_bytes be_bytes MyStruct_bytes msv @ counted_bytes be_bytes MyStruct2_bytes vs @ ys"
    using assms(1) open_decoder_ok(2) by simp
  then obtain s1 where s1: "sequence_decode (be_int_decode ?dec) (MyStruct_decode ?dec) (open_decoder garbage f) = Inr (msv, s1)" "fd_ok s1"
      "fd_rest s1 = counted_bytes be_bytes MyStruct2_bytes vs @ ys"
    using file_source.readsD [OF file_source.reads_sequence [OF file_source.reads_be_all [OF whole_bytes_sizes(2)] file_source.reads_MyStruct]
        assms(2) open_decoder_ok(1)] by blast
  obtain ms2v h' s2 where ms2: "sequence_decode (be_int_decode (heap_decoder ?dec)) (MyStruct2_decode g ?dec) (h, s1) = Inr (ms2v, h', s2)"
      "list_all2 (\<lambda>v. ms2_holds v h') vs ms2v"
    using file_source.hrunsD [OF file_source.MyStruct2_vector_runs [OF assms(3,4)] TrueI s1(2,3)] by blast
  have "map (ms2_value_of h') ms2v = vs"
    using ms2(2) by (auto simp: list_all2_conv_all_nth list_eq_iff_nth_eq dest: ms2_holds_value)
  then show ?thesis using s1(1) ms2(1) by (simp add: Test3_read_def)
qed

end

section \<open>The optimized codecs\<close>

context byte_source
begin

lemma reads_seq_opt:
  assumes "reads dl fl (\<lambda>_. True)" and sz: "\<And>x. length (repr x) = sz" "0 < sz" and "\<And>x. unrepr (repr x) = x"
  shows "reads (seq_opt_decode dl unrepr sz dec) (counted_bytes fl repr) (\<lambda>xs. xs \<noteq> [] \<and> length xs < u32_max)"
  by (rule reads_weaken [OF reads_seq_opt_on [where D = "\<lambda>_. True", OF assms(1,3)]]) (use assms in \<open>simp_all add: countable_def\<close>)

lemma reads_opt_string: "reads (opt_string_decode dec) (counted_bytes le_bytes (\<lambda>c. [c])) (\<lambda>xs. xs \<noteq> [] \<and> length xs < u32_max)"
  unfolding opt_string_decode_def by (rule reads_seq_opt [OF reads_le_all [OF whole_bytes_sizes(2)]]) simp_all

end

text \<open>The value of an integer's memory on a little endian machine.\<close>

definition le_value :: "u8 list \<Rightarrow> 'w::len word" where
  "le_value bs = (case le_int_decode buffer_decoder bs of Inr (x, _) \<Rightarrow> x | Inl _ \<Rightarrow> 0)"

lemma le_value_bytes: "le_value (le_bytes (x :: 64 word)) = x"
  using buf_source.readsD [OF buf_source.reads_le_all [OF whole_bytes_sizes(3)], where x = x and s = "le_bytes x" and ys = "[]"]
  by (auto simp: le_value_def)

lemma length_le_bytes64: "length (le_bytes (x :: 64 word)) = 8"
  by (simp add: le_bytes_def sizeof_word_def word_size)

definition MyStruct3_bytes :: "MyStruct3 \<Rightarrow> u8 list" where
  "MyStruct3_bytes ms = le_bytes (m3_id ms) @ counted_bytes le_bytes le_bytes (m3_vi ms) @
     counted_bytes le_bytes (counted_bytes le_bytes (\<lambda>c. [c])) (m3_vs ms)"

text \<open>The optimized decoder cannot read empty sequences at the end of a file, so they are left out.\<close>

definition MyStruct3_ok :: "MyStruct3 \<Rightarrow> bool" where
  "MyStruct3_ok ms \<longleftrightarrow> m3_vi ms \<noteq> [] \<and> length (m3_vi ms) < u32_max \<and> length (m3_vs ms) < u32_max \<and>
     (\<forall>x \<in> set (m3_vs ms). x \<noteq> [] \<and> length x < u32_max)"

context byte_sink
begin

lemma emits_le_u32: "emits (le_u32_encode enc) le_bytes"
  unfolding le_u32_encode_def by (rule emits_le) (rule shr_ok_unsigned)

lemma emits_opt_string: "emits (opt_string_encode enc) (counted_bytes le_bytes (\<lambda>c. [c]))"
  unfolding opt_string_encode_def by (rule emits_seq_opt) (rule emits_le_u32)

lemma emits_MyStruct3: "emits (MyStruct3_encode le_bytes enc) MyStruct3_bytes"
  unfolding MyStruct3_encode_def [abs_def] MyStruct3_bytes_def [abs_def]
  by (intro emits_seq emits_of [OF emits_le [OF shr_ok_signed], of m3_id] 
      emits_of [OF emits_seq_opt [OF emits_le_u32, where repr = "le_bytes :: 64 word \<Rightarrow> u8 list"], of m3_vi]
      emits_of [OF emits_sequence [OF emits_le_u32 emits_opt_string], of m3_vs])

end

context byte_source
begin

lemmas reads_le32 = reads_le_all [OF whole_bytes_sizes(2)]

lemma reads_u64_vector: "reads (seq_opt_decode (le_int_decode dec) le_value 8 dec) (counted_bytes le_bytes (le_bytes :: 64 word \<Rightarrow> _))
    (\<lambda>xs. xs \<noteq> [] \<and> length xs < u32_max)"
  by (rule reads_seq_opt [OF reads_le32]) (simp_all add: length_le_bytes64 le_value_bytes)

lemma reads_MyStruct3: "reads (MyStruct3_decode le_value dec) MyStruct3_bytes MyStruct3_ok"
proof (rule runs_reads)
  fix ms assume ok: "MyStruct3_ok ms"
  have vi: "runs (seq_opt_decode (le_int_decode dec) le_value 8 dec) (counted_bytes le_bytes le_bytes (m3_vi ms)) (m3_vi ms)"
    by (rule reads_runs [OF reads_u64_vector]) (use ok in \<open>simp add: MyStruct3_ok_def\<close>)
  have vs: "runs (sequence_decode (le_int_decode dec) (opt_string_decode dec)) (counted_bytes le_bytes (counted_bytes le_bytes (\<lambda>c. [c])) (m3_vs ms)) (m3_vs ms)"
    by (rule reads_runs [OF reads_sequence [OF reads_le32 reads_opt_string]]) (use ok in \<open>simp add: MyStruct3_ok_def countable_def\<close>)
  show "runs (MyStruct3_decode le_value dec) (MyStruct3_bytes ms) ms"
    unfolding MyStruct3_decode_def [abs_def] MyStruct3_bytes_def
    by (rule runs_bind, rule reads_runs [OF reads_le32], rule TrueI, unfold prod.case)
      (rule runs_bind, rule vi, unfold prod.case, rule runs_last, rule vs, simp)
qed

end

text \<open>Any codec that emits and reads bytes works through files.\<close>

context posix_write
begin

lemma emits_flushed:
  assumes "file_sink.emits e b" and "contents f = []"
  shows "\<exists>f'. bind_res (e x (open_encoder f)) (\<lambda>s. bind_res (fe_flush kwrite s) (\<lambda>s. Inr (fe_fd s))) = Inr f' \<and> contents f' = b x"
  by (rule flushed [where e = "e x", OF file_sink.emitsD [OF assms(1) fe_ok_open] assms(2)])

lemma Test4_written:
  "contents f = [] \<Longrightarrow> \<exists>f'. Test4_write le_bytes kwrite ms f = Inr f' \<and> contents f' = MyStruct3_bytes ms"
  unfolding Test4_write_def by (rule emits_flushed [OF file_sink.emits_MyStruct3])

lemma Test5_written:
  assumes "contents f = []" and "codec = ''le'' \<or> codec = ''ole''"
  shows "\<exists>f'. Test5_write kwrite (u64_vector_codec le_bytes unrepr kwrite kread) codec vs f = Inr f' \<and> contents f' = counted_bytes le_bytes le_bytes vs"
  using emits_flushed [OF file_sink.emits_sequence [OF file_sink.emits_le_u32 file_sink.emits_le [OF shr_ok_unsigned, where 'a = 64]] assms(1), of vs]
    emits_flushed [OF file_sink.emits_seq_opt [OF file_sink.emits_le_u32, where repr = "le_bytes :: 64 word \<Rightarrow> u8 list"] assms(1), of vs] assms(2)
  by (auto simp: Test5_write_def u64_vector_codec_def Let_def)

end

context posix_read
begin

lemma reads_open:
  "file_source.reads d b D \<Longrightarrow> D x \<Longrightarrow> unread f = b x @ ys \<Longrightarrow> \<exists>s. d (open_decoder garbage f) = Inr (x, s)"
  using file_source.readsD [of d b D x "open_decoder garbage f" ys] open_decoder_ok by auto

lemma Test4_read_ok:
  "MyStruct3_ok ms \<Longrightarrow> unread f = MyStruct3_bytes ms @ ys \<Longrightarrow> Test4_read le_value kread garbage f = Inr ms"
  using reads_open [OF file_source.reads_MyStruct3, of ms f ys garbage] by (auto simp: Test4_read_def)

lemma Test5_read_ok:
  assumes "vs \<noteq> []" and "length vs < u32_max" and "unread f = counted_bytes le_bytes le_bytes vs @ ys" and "codec = ''le'' \<or> codec = ''ole''"
  shows "Test5_read (u64_vector_codec repr le_value kwrite kread) codec garbage f = Inr vs"
  using reads_open [OF file_source.reads_sequence [OF file_source.reads_le32 file_source.reads_le_all [OF whole_bytes_sizes(3)]], of vs f ys garbage]
    reads_open [OF file_source.reads_u64_vector, of vs f ys garbage] assms
  by (auto simp: Test5_read_def u64_vector_codec_def countable_def Let_def)

end

lemma Test5_query_ok: "\<forall>i \<in> set qv. i < length vs \<Longrightarrow> Test5_query vs qv = Inr (map (nth vs) qv)"
  by (induction qv) simp_all

lemma Test5_query_bad: "\<not> (\<forall>i \<in> set qv. i < length vs) \<Longrightarrow> Test5_query vs qv = Inl C_assert"
  by (induction qv) (auto simp: res_simps)

text \<open>The buffer tests: no mismatch is ever reported, and what is decoded has the value that was encoded.\<close>

lemma SimpleTest_ok: "SimpleTest_test (x :: 64 word) = Inr False"
  using buf_sink.emitsD [OF buf_sink.emits_be [OF shr_ok_unsigned], where s = "[]" and x = x]
    buf_sink.emitsD [OF buf_sink.emits_le [OF shr_ok_unsigned], where s = "[]" and x = x]
    buf_source.readsD [OF buf_source.reads_be_all [OF whole_bytes_sizes(3)] TrueI, where x = x and s = "be_bytes x" and ys = "[]"]
    buf_source.readsD [OF buf_source.reads_le_all [OF whole_bytes_sizes(3)] TrueI, where x = x and s = "le_bytes x" and ys = "[]"]
  by (auto simp: SimpleTest_test_def)

lemma Test1_ok: "MyStruct_ok ms \<Longrightarrow> Test1 ms = Inr ms"
  using buf_sink.emitsD [OF buf_sink.emits_MyStruct, where s = "[]" and x = ms]
    buf_source.readsD [OF buf_source.reads_MyStruct, of ms "MyStruct_bytes ms" "[]"]
  by (auto simp: Test1_def)

lemma Test2_ok:
  assumes "MyStruct2_ok h ms"
  shows "\<exists>ms' h'. Test2 g h ms = Inr (ms', h') \<and> ms2_value_of h' ms' = ms2_value_of h ms"
proof -
  let ?v = "ms2_value_of h ms"
  have "MyStruct2_encode g buffer_encoder h ms [] = Inr (MyStruct2_bytes ?v)"
    using buf_sink.MyStruct2_emits [OF assms, where s = "[]" and g = g] by auto
  moreover have "length (snd ?v) < u32_max" using assms by (simp add: ms2_value_of_def MyStruct2_ok_def)
  from buf_source.hrunsD [OF buf_source.MyStruct2_runs [OF this, of g], where h = h and s = "MyStruct2_bytes ?v" and ys = "[]"]
  obtain ms' h' s where "MyStruct2_decode g buffer_decoder (h, MyStruct2_bytes ?v) = Inr (ms', h', s)" "ms2_holds ?v h' ms'" by auto
  ultimately show ?thesis using ms2_holds_value by (auto simp: Test2_def)
qed

text \<open>The \<open>uint64_t\<close> values of the benchmark have a zero low half.\<close>

lemma get_rand_u64_low: "take_bit 32 (fst (get_rand_u64 rand g)) = 0"
  by (simp add: get_rand_u64_def split_def take_bit_push_bit)

section \<open>Properties\<close>

text \<open>
  C32. The test program's files: whatever the random numbers, \<open>Test3 -write\<close> writes its twenty plain structures and its
  ten structures with vectors of pointers to random classes (or null), and \<open>Test3 -read\<close> reads back equal
  structures, with pointers to equal objects of the same classes in its own heap. This holds for every way \<open>read\<close>
  cuts the bytes, and also when older bytes follow in the file, which is opened without truncation.
  Hypotheses: \<open>write\<close> writes what it is given and \<open>read\<close> returns at least one byte while there are any.
\<close>

theorem serialize_files_roundtrip:
  assumes "posix_write kwrite contents" and "posix_read kread unread" and "contents f0 = []"
  shows "\<exists>msv ms2v h1 f1. Test3_write kwrite g rand h gen f0 = Inr (msv, ms2v, h1, f1) \<and> length msv = 20 \<and> length ms2v = 10 \<and>
    (\<forall>f ys garbage k. unread f = contents f1 @ ys \<longrightarrow>
      (\<exists>ms2v' k'. Test3_read kread g' garbage k f = Inr (msv, ms2v', k') \<and> map (ms2_value_of k') ms2v' = map (ms2_value_of h1) ms2v))"
proof -
  define r where "r = random_vector (MyStruct_Rand rand) 20 gen"
  have msv: "length (fst r) = 20" "\<forall>m \<in> set (fst r). MyStruct_ok m"
    using random_vector_all(1) [where gen = "MyStruct_Rand rand" and n = 20 and g = gen] random_vector_all(2) [where Q = MyStruct_ok, OF MyStruct_Rand_ok]
    by (simp_all add: r_def)
  obtain ms2v h1 where ms2: "fst (rand_ms2v rand 10 h (snd r)) = Inr (ms2v, h1)" "length ms2v = 10" "\<forall>m \<in> set ms2v. MyStruct2_ok h1 m"
    using rand_ms2v_ok [of rand 10 h "snd r"] by blast
  obtain f1 where f1: "Test3_encode kwrite g h1 (fst r) ms2v f0 = Inr f1"
    "contents f1 = counted_bytes be_bytes MyStruct_bytes (fst r) @ counted_bytes be_bytes MyStruct2_bytes (map (ms2_value_of h1) ms2v)"
    using posix_write.Test3_written [OF assms(1) ms2(3) assms(3), of g "fst r"] by blast
  have fits: "countable MyStruct_ok (fst r)" "length (map (ms2_value_of h1) ms2v) < u32_max"
    "\<forall>v \<in> set (map (ms2_value_of h1) ms2v). length (snd v) < u32_max"
    using msv ms2(2,3) by (auto simp: countable_def u32_max_def ms2_value_of_def MyStruct2_ok_def)
  have "Test3_write kwrite g rand h gen f0 = Inr (fst r, ms2v, h1, f1)"
    using ms2(1) f1(1) by (simp add: Test3_write_def split_def r_def)
  moreover have "\<exists>ms2v' k'. Test3_read kread g' garbage k f = Inr (fst r, ms2v', k') \<and> map (ms2_value_of k') ms2v' = map (ms2_value_of h1) ms2v"
    if "unread f = contents f1 @ ys" for f ys garbage k
    using posix_read.Test3_read_ok [OF assms(2) that [unfolded f1(2)] fits] by blast
  ultimately show ?thesis using msv(1) ms2(2) by blast
qed

theorem serialize_files_roundtrip_witness:
  "\<exists>msv ms2v h1 f1 ms2v' k'. Test3_write mem_write 7 (\<lambda>n. (n * n, n + 1)) \<lparr>oh_obj = \<lambda>_. None, oh_refs = \<lambda>_. 0, oh_next = 0\<rparr> (3 :: nat) [] =
     Inr (msv, ms2v, h1, f1) \<and> length ms2v = 10 \<and>
     Test3_read mem_read 9 123 \<lparr>oh_obj = \<lambda>_. None, oh_refs = \<lambda>_. 0, oh_next = 5\<rparr> (f1 @ [1, 2]) = Inr (msv, ms2v', k') \<and>
     map (ms2_value_of k') ms2v' = map (ms2_value_of h1) ms2v"
proof -
  let ?h = "\<lparr>oh_obj = \<lambda>_. None, oh_refs = \<lambda>_. 0, oh_next = 0\<rparr> :: x_heap" and ?k = "\<lparr>oh_obj = \<lambda>_. None, oh_refs = \<lambda>_. 0, oh_next = 5\<rparr> :: x_heap"
  have "id [] = ([] :: u8 list)" by simp
  from serialize_files_roundtrip [OF mem_out.posix_write_axioms mem_in.posix_read_axioms this, of 7 "\<lambda>n. (n * n, n + 1)" ?h "3 :: nat" 9]
  obtain msv ms2v h1 f1 where w: "Test3_write mem_write 7 (\<lambda>n. (n * n, n + 1)) ?h (3 :: nat) [] = Inr (msv, ms2v, h1, f1)" "length ms2v = 10"
    and rd: "\<forall>f ys garbage k. id f = id f1 @ ys \<longrightarrow>
      (\<exists>ms2v' k'. Test3_read mem_read 9 garbage k f = Inr (msv, ms2v', k') \<and> map (ms2_value_of k') ms2v' = map (ms2_value_of h1) ms2v)"
    by (elim exE conjE) blast
  from rd [rule_format, of "f1 @ [1, 2]" "[1, 2]" 123 ?k] show ?thesis using w by (simp only: id_apply) blast
qed

text \<open>
  The benchmark's codecs are interchangeable on a little endian machine: a non-empty vector of \<open>uint64_t\<close> that
  \<open>Test5 write\<close> wrote with the plain or the optimized codec is read by \<open>Test5 read\<close> with either, and the same queries are
  answered with the same values; a query out of range fails the assertion in both. A structure that the
  optimized codec of \<open>Test4\<close> wrote is read back when it has no empty sequence.
\<close>

theorem benchmark_codecs_interchangeable:
  assumes "posix_write kwrite contents" and "posix_read kread unread" and "contents f0 = []"
    and "codec \<in> {''le'', ''ole''}" and "codec' \<in> {''le'', ''ole''}" and "vs \<noteq> []" "length vs < u32_max" and "MyStruct3_ok ms"
  shows "(\<exists>f1. (\<forall>qv. Test5_Helper kwrite (u64_vector_codec le_bytes le_value kwrite kread) ''write'' codec qv vs garbage f0 =
        (if \<forall>i \<in> set qv. i < length vs then Inr (map (nth vs) qv, f1) else Inl C_assert)) \<and>
      (\<forall>f ws qv. unread f = contents f1 \<longrightarrow> Test5_Helper kwrite (u64_vector_codec le_bytes le_value kwrite kread) ''read'' codec' qv ws garbage f =
        (if \<forall>i \<in> set qv. i < length vs then Inr (map (nth vs) qv, f) else Inl C_assert))) \<and>
    (\<exists>f1. Test4_write le_bytes kwrite ms f0 = Inr f1 \<and> (\<forall>f ys. unread f = contents f1 @ ys \<longrightarrow> Test4_read le_value kread garbage f = Inr ms))"
proof
  have c: "codec = ''le'' \<or> codec = ''ole''" "codec' = ''le'' \<or> codec' = ''ole''" using assms(4,5) by auto
  obtain f1 where f1: "Test5_write kwrite (u64_vector_codec le_bytes le_value kwrite kread) codec vs f0 = Inr f1"
    "contents f1 = counted_bytes le_bytes le_bytes vs"
    using posix_write.Test5_written [OF assms(1,3) c(1)] by blast
  have r: "Test5_read (u64_vector_codec le_bytes le_value kwrite kread) codec' garbage f = Inr vs" if "unread f = contents f1" for f
    using posix_read.Test5_read_ok [OF assms(2,6,7), of f "[]" codec'] that f1(2) c(2) by simp
  show "\<exists>f1. (\<forall>qv. Test5_Helper kwrite (u64_vector_codec le_bytes le_value kwrite kread) ''write'' codec qv vs garbage f0 =
        (if \<forall>i \<in> set qv. i < length vs then Inr (map (nth vs) qv, f1) else Inl C_assert)) \<and>
      (\<forall>f ws qv. unread f = contents f1 \<longrightarrow> Test5_Helper kwrite (u64_vector_codec le_bytes le_value kwrite kread) ''read'' codec' qv ws garbage f =
        (if \<forall>i \<in> set qv. i < length vs then Inr (map (nth vs) qv, f) else Inl C_assert))"
    by (rule exI [of _ f1]) (simp add: Test5_Helper_def f1(1) r Test5_query_ok Test5_query_bad)
next
  show "\<exists>f1. Test4_write le_bytes kwrite ms f0 = Inr f1 \<and> (\<forall>f ys. unread f = contents f1 @ ys \<longrightarrow> Test4_read le_value kread garbage f = Inr ms)"
    using posix_write.Test4_written [OF assms(1,3), of ms] posix_read.Test4_read_ok [OF assms(2,8)] by metis
qed

theorem benchmark_codecs_interchangeable_witness:
  "\<exists>f1. Test5_Helper mem_write (u64_vector_codec le_bytes le_value mem_write mem_read) ''write'' ''le'' [1] [10, 20, 30] 5 [] = Inr ([20], f1) \<and>
     Test5_Helper mem_write (u64_vector_codec le_bytes le_value mem_write mem_read) ''read'' ''ole'' [2] [] 5 f1 = Inr ([30], f1)"
proof -
  have c: "id [] = ([] :: u8 list)" "''le'' \<in> {''le'', ''ole''}" "''ole'' \<in> {''le'', ''ole''}" "[10, 20, 30 :: 64 word] \<noteq> []"
    "length [10, 20, 30 :: 64 word] < u32_max" "MyStruct3_ok \<lparr>m3_id = 1, m3_vi = [145], m3_vs = [[104]]\<rparr>"
    by (simp_all add: u32_max_def MyStruct3_ok_def)
  from conjunct1 [OF benchmark_codecs_interchangeable [OF mem_out.posix_write_axioms mem_in.posix_read_axioms c, of 5]]
  obtain f1 where w: "\<forall>qv. Test5_Helper mem_write (u64_vector_codec le_bytes le_value mem_write mem_read) ''write'' ''le'' qv [10, 20, 30] 5 [] =
        (if \<forall>i \<in> set qv. i < length [10, 20, 30 :: 64 word] then Inr (map (nth [10, 20, 30]) qv, f1) else Inl C_assert)"
    and r: "\<forall>f ws qv. id f = id f1 \<longrightarrow> Test5_Helper mem_write (u64_vector_codec le_bytes le_value mem_write mem_read) ''read'' ''ole'' qv ws 5 f =
        (if \<forall>i \<in> set qv. i < length [10, 20, 30 :: 64 word] then Inr (map (nth [10, 20, 30]) qv, f) else Inl C_assert)"
    by (elim exE conjE) blast
  show ?thesis using w [rule_format, of "[1]"] r [rule_format, of f1 "[2]" "[]"] by auto
qed

end
