(* ===== verification/Vc_Example.thy ===== *)
theory Vc_Example
  imports Virtual_Class_Correct
begin

text \<open>
  The program \<open>src/serialization/vc_example.cpp\<close>: objects of a class hierarchy are written through containers that hold a
  pointer to the base class, and the same bytes are read with a \<open>shared_ptr\<close> and the type tree, with a raw pointer, and with
  the table of callbacks. All containers live on one heap, which is passed from statement to statement; a block destroys
  its containers in the reverse order of their declarations. What \<open>std::cout\<close> gets is a list of lines. The line that
  \<open>CallBacks::go\<close> prints about its own address is left out.
\<close>

section \<open>Printing\<close>

definition chars :: "u8 list \<Rightarrow> string" where
  "chars = map (\<lambda>c. char_of (unat c))"

fun a_print :: "a_obj \<Rightarrow> string" where
  "a_print (A1_obj s) = ''A1('' @ chars s @ '')''"
| "a_print (A2_obj v) = ''A2('' @ decimal (unat v) @ '')''"

definition cont_print :: "a_obj ptr_state \<Rightarrow> string res" where
  "cont_print a = (if ptr_is_null a then Inr ''null'' else bind_res (ptr_get a) (\<lambda>x. Inr (a_print x)))"

definition hex_char :: "nat \<Rightarrow> char" where
  "hex_char d = char_of (if 9 < d then d - 10 + 97 else d + 48)"

definition print_byte :: "u8 \<Rightarrow> string" where
  "print_byte c =
     (if 32 \<le> unat c \<and> unat c < 127 then [char_of (unat c)]
      else [CHR 0x5C, hex_char (unat c div 16), hex_char (unat c mod 16)])"

definition print_buf :: "u8 list \<Rightarrow> string" where
  "print_buf buf = concat (map print_byte buf)"

section \<open>The program\<close>

definition bytes :: "string \<Rightarrow> u8 list" where
  "bytes = map (\<lambda>c. word_of_nat (of_char c))"

text \<open>\<open>a_.reset(new T(...))\<close> in a new container, and the end of its life.\<close>

definition acont_new :: "a_obj \<Rightarrow> a_obj obj_heap \<Rightarrow> a_obj ptr_state res" where
  "acont_new x h = shared_set_copy x (None, h)"

definition acont_ptr_dtor :: "a_obj ptr_state \<Rightarrow> a_obj obj_heap res" where
  "acont_ptr_dtor a = (case a of (p, h) \<Rightarrow> if p \<noteq> None then std_delete (p, h) else Inr h)"

text \<open>The first block: the line it prints, the buffer and the heap.\<close>

definition encode_objects :: "64 word \<Rightarrow> a_obj obj_heap \<Rightarrow> (string \<times> u8 list \<times> a_obj obj_heap) res" where
  "encode_objects g h =
     bind_res (acont_new (A1_obj (bytes ''obiekt klasy A1'')) h) (\<lambda>(ac1, h).
     bind_res (acont_new (A2_obj 777) h) (\<lambda>(ac2, h).
     bind_res (helper_encode (fold_tree (VTree g)) (ac1, h) []) (\<lambda>buf.
     bind_res (char_encode buffer_encoder (of_char (CHR ''x'')) buf) (\<lambda>buf.
     bind_res (helper_encode (fold_tree (VTree g)) (ac2, h) buf) (\<lambda>buf.
     bind_res (helper_encode (fold_tree (VTree g)) (None, h) buf) (\<lambda>buf.
     bind_res (cont_print (ac1, h)) (\<lambda>s1.
     bind_res (cont_print (ac2, h)) (\<lambda>s2.
     bind_res (cont_print (None, h)) (\<lambda>s3.
     bind_res (shared_release (None, h)) (\<lambda>h.
     bind_res (shared_release (ac2, h)) (\<lambda>h.
     bind_res (shared_release (ac1, h)) (\<lambda>h.
       Inr (s1 @ '' x '' @ s2 @ '' '' @ s3, buf, h)))))))))))))"

text \<open>The blocks that read: \<open>ac1\<close>, a character, \<open>ac2\<close> and \<open>ac3\<close>.\<close>

definition decode_shared :: "64 word \<Rightarrow> u8 list \<Rightarrow> a_obj obj_heap \<Rightarrow> (string \<times> a_obj obj_heap) res" where
  "decode_shared g buf h =
     bind_res (helper_decode (fold_tree (VTree g)) (None, h) buf) (\<lambda>((ac1, h), r).
     bind_res (char_decode buffer_decoder r) (\<lambda>(p, r).
     bind_res (helper_decode (fold_tree (VTree g)) (None, h) r) (\<lambda>((ac2, h), r).
     bind_res (helper_decode (fold_tree (VTree g)) (None, h) r) (\<lambda>((ac3, h), r).
     bind_res (cont_print (ac1, h)) (\<lambda>s1.
     bind_res (cont_print (ac2, h)) (\<lambda>s2.
     bind_res (cont_print (ac3, h)) (\<lambda>s3.
     bind_res (shared_release (ac3, h)) (\<lambda>h.
     bind_res (shared_release (ac2, h)) (\<lambda>h.
     bind_res (shared_release (ac1, h)) (\<lambda>h.
       Inr (s1 @ '' '' @ chars [p] @ '' '' @ s2 @ '' '' @ s3, h)))))))))))"

definition decode_raw :: "64 word \<Rightarrow> u8 list \<Rightarrow> a_obj obj_heap \<Rightarrow> (string \<times> a_obj obj_heap) res" where
  "decode_raw g buf h =
     bind_res (acont_ptr_decode g (None, h) buf) (\<lambda>((ac1, h), r).
     bind_res (char_decode buffer_decoder r) (\<lambda>(p, r).
     bind_res (acont_ptr_decode g (None, h) r) (\<lambda>((ac2, h), r).
     bind_res (acont_ptr_decode g (None, h) r) (\<lambda>((ac3, h), r).
     bind_res (cont_print (ac1, h)) (\<lambda>s1.
     bind_res (cont_print (ac2, h)) (\<lambda>s2.
     bind_res (cont_print (ac3, h)) (\<lambda>s3.
     bind_res (acont_ptr_dtor (ac3, h)) (\<lambda>h.
     bind_res (acont_ptr_dtor (ac2, h)) (\<lambda>h.
     bind_res (acont_ptr_dtor (ac1, h)) (\<lambda>h.
       Inr (s1 @ '' '' @ chars [p] @ '' '' @ s2 @ '' '' @ s3, h)))))))))))"

text \<open>The last block appends an object to the buffer before it reads.\<close>

definition decode_factory :: "64 word \<Rightarrow> u8 list \<Rightarrow> a_obj obj_heap \<Rightarrow> (string \<times> a_obj obj_heap) res" where
  "decode_factory g buf h =
     bind_res (acont_new (A1_obj (bytes ''czwarty obiekt'')) h) (\<lambda>(ac0, h).
     bind_res (helper_encode (AFactory g) (ac0, h) buf) (\<lambda>buf.
     bind_res (helper_decode (AFactory g) (None, h) buf) (\<lambda>((ac1, h), r).
     bind_res (char_decode buffer_decoder r) (\<lambda>(p, r).
     bind_res (helper_decode (AFactory g) (None, h) r) (\<lambda>((ac2, h), r).
     bind_res (helper_decode (AFactory g) (None, h) r) (\<lambda>((ac3, h), r).
     bind_res (helper_decode (AFactory g) (None, h) r) (\<lambda>((ac4, h), r).
     bind_res (cont_print (ac1, h)) (\<lambda>s1.
     bind_res (cont_print (ac2, h)) (\<lambda>s2.
     bind_res (cont_print (ac3, h)) (\<lambda>s3.
     bind_res (cont_print (ac4, h)) (\<lambda>s4.
     bind_res (shared_release (ac4, h)) (\<lambda>h.
     bind_res (shared_release (ac3, h)) (\<lambda>h.
     bind_res (shared_release (ac2, h)) (\<lambda>h.
     bind_res (shared_release (ac1, h)) (\<lambda>h.
     bind_res (shared_release (ac0, h)) (\<lambda>h.
       Inr (s1 @ '' '' @ chars [p] @ '' '' @ s2 @ '' '' @ s3 @ '' '' @ s4, h)))))))))))))))))"

definition vc_Main :: "64 word \<Rightarrow> a_obj obj_heap \<Rightarrow> (string list \<times> a_obj obj_heap) res" where
  "vc_Main g h =
     (if \<not> tc_ok vt_TAG (VTree g) then Inl C_assert
      else
       bind_res (encode_objects g h) (\<lambda>(l1, buf, h).
       bind_res (decode_shared g buf h) (\<lambda>(l3, h).
       bind_res (decode_raw g buf h) (\<lambda>(l4, h).
       bind_res (decode_factory g buf h) (\<lambda>(l5, h).
         Inr ([l1, print_buf buf, l3, l4, l5], h))))))"

definition vc_main :: "64 word \<Rightarrow> a_obj obj_heap \<Rightarrow> int res" where
  "vc_main g h = (case vc_Main g h of
     Inl e \<Rightarrow> if e \<in> {D_assert, R_assert, C_assert, Bad_access, Diverges} then Inl e else Inr 1
   | Inr _ \<Rightarrow> Inr 0)"

section \<open>What a container writes and reads\<close>

definition a_bytes :: "a_obj option \<Rightarrow> u8 list" where
  "a_bytes v = (case v of
     None \<Rightarrow> le_bytes (0 :: 32 word)
   | Some (A1_obj s) \<Rightarrow> le_bytes (1 :: 32 word) @ counted_bytes le_bytes (\<lambda>c. [c]) s
   | Some (A2_obj v) \<Rightarrow> le_bytes (2 :: 32 word) @ le_bytes v)"

text \<open>A fresh object with one reference.\<close>

definition place :: "a_obj option \<Rightarrow> a_obj obj_heap \<Rightarrow> a_obj ptr_state" where
  "place v h = (case v of
     None \<Rightarrow> (None, h)
   | Some x \<Rightarrow> (Some (oh_next h), h\<lparr>oh_obj := (oh_obj h)(oh_next h \<mapsto> x), oh_next := oh_next h + 1, oh_refs := (oh_refs h)(oh_next h := 1)\<rparr>))"

definition place_raw :: "a_obj option \<Rightarrow> a_obj obj_heap \<Rightarrow> a_obj ptr_state" where
  "place_raw v h = (case v of
     None \<Rightarrow> (None, h)
   | Some x \<Rightarrow> (Some (oh_next h), h\<lparr>oh_obj := (oh_obj h)(oh_next h \<mapsto> x), oh_next := oh_next h + 1\<rparr>))"

lemma int32_io:
  "int32_encode (sint w) s = Inr (s @ le_bytes w)"
  "int32_decode (le_bytes w @ ys) = Inr (sint (w :: 32 word), ys)"
proof -
  show "int32_encode (sint w) s = Inr (s @ le_bytes w)"
    using buf_sink.emitsD [OF buf_sink.emits_le [OF shr_ok_signed], where s = s and x = w] by (auto simp: int32_encode_def)
  show "int32_decode (le_bytes w @ ys) = Inr (sint w, ys)"
    using buf_source.readsD [OF buf_source.reads_le_all [OF whole_bytes_sizes(2)], where x = w and s = "le_bytes w @ ys" and ys = ys] by (auto simp: int32_decode_def)
qed

lemmas int32_tags [simp] = int32_io [of 0, simplified] int32_io [of 1, simplified] int32_io [of 2, simplified]

lemma le_string_io:
  "le_string_encode buffer_encoder xs s = Inr (s @ counted_bytes le_bytes (\<lambda>c. [c]) xs)"
  "length xs < u32_max \<Longrightarrow> le_string_decode buffer_decoder (counted_bytes le_bytes (\<lambda>c. [c]) xs @ ys) = Inr (xs, ys)"
proof -
  show "le_string_encode buffer_encoder xs s = Inr (s @ counted_bytes le_bytes (\<lambda>c. [c]) xs)"
    using buf_sink.emitsD [OF buf_sink.emits_sequence [OF buf_sink.emits_le [OF shr_ok_unsigned] buf_sink.emits_char], where s = s and x = xs]
    by (auto simp: le_string_encode_def le_u32_encode_def)
  show "le_string_decode buffer_decoder (counted_bytes le_bytes (\<lambda>c. [c]) xs @ ys) = Inr (xs, ys)" if "length xs < u32_max"
    using buf_source.readsD [OF buf_source.reads_sequence [OF buf_source.reads_le_all [OF whole_bytes_sizes(2)] buf_source.reads_char],
        where x = xs and s = "counted_bytes le_bytes (\<lambda>c. [c]) xs @ ys" and ys = ys] that
    by (auto simp: le_string_decode_def countable_def)
qed

lemma le_u64_io:
  "le_int_encode buffer_encoder drop_bit (v :: 64 word) s = Inr (s @ le_bytes v)"
  "le_int_decode buffer_decoder (le_bytes v @ ys) = Inr (v, ys)"
proof -
  show "le_int_encode buffer_encoder drop_bit v s = Inr (s @ le_bytes v)"
    using buf_sink.emitsD [OF buf_sink.emits_le [OF shr_ok_unsigned], where s = s and x = v] by auto
  show "le_int_decode buffer_decoder (le_bytes v @ ys) = Inr (v, ys)"
    using buf_source.readsD [OF buf_source.reads_le_all [OF whole_bytes_sizes(3)], where x = v and s = "le_bytes v @ ys" and ys = ys] by auto
qed

lemma char_io [simp]: "char_encode buffer_encoder c s = Inr (s @ [c])" "char_decode buffer_decoder (c # ys) = Inr (c, ys)"
  using buf_sink.emitsD [OF buf_sink.emits_char, where s = s and x = c]
    buf_source.readsD [OF buf_source.reads_char, where x = c and s = "c # ys" and ys = ys] by auto

lemma a_encode:
  "helper_encode (fold_tree (VTree g)) (None, h) s = Inr (s @ a_bytes None)"
  "oh_obj h a = Some x \<Longrightarrow> helper_encode (fold_tree (VTree g)) (Some a, h) s = Inr (s @ a_bytes (Some x))"
  "helper_encode (AFactory g) (None, h) s = Inr (s @ a_bytes None)"
  "oh_obj h a = Some x \<Longrightarrow> helper_encode (AFactory g) (Some a, h) s = Inr (s @ a_bytes (Some x))"
proof -
  have none: "helper_encode (fold_list (VList g)) (None, h) s = Inr (s @ a_bytes None)"
    by (simp add: helper_encode_def virtual_encode_def shared_ptr_policy_def ptr_is_null_def a_bytes_def)
  have some: "helper_encode (fold_list (VList g)) (Some a, h) s = Inr (s @ a_bytes (Some x))" if "oh_obj h a = Some x"
    using that by (cases x)
      (simp_all add: helper_encode_def virtual_encode_def shared_ptr_policy_def ptr_is_null_def ptr_get_def shared_acquire_def a_bytes_def
        VList_def make_list2_def make_list1_def tagged_encoder_def te_process_def A1_def A2_def le_string_io le_u64_io)
  show "helper_encode (fold_tree (VTree g)) (None, h) s = Inr (s @ a_bytes None)"
    and "helper_encode (AFactory g) (None, h) s = Inr (s @ a_bytes None)"
    and "oh_obj h a = Some x \<Longrightarrow> helper_encode (fold_tree (VTree g)) (Some a, h) s = Inr (s @ a_bytes (Some x))"
    and "oh_obj h a = Some x \<Longrightarrow> helper_encode (AFactory g) (Some a, h) s = Inr (s @ a_bytes (Some x))"
    by (simp_all only: a_folds_encode none some)
qed

lemma a_tag:
  "\<exists>tag r. int32_decode (a_bytes v @ ys) = Inr (tag, r) \<and> (tag = 0 \<or> tag = 1 \<or> tag = 2)"
  by (simp add: a_bytes_def split: option.split a_obj.split)

lemma a_decode:
  assumes "a_ok v"
  shows "helper_decode (fold_tree (VTree g)) (None, h) (a_bytes v @ ys) = Inr (place v h, ys)"
    and "helper_decode (AFactory g) (None, h) (a_bytes v @ ys) = Inr (place v h, ys)"
    and "acont_ptr_decode g (None, h) (a_bytes v @ ys) = Inr (place_raw v h, ys)"
proof -
  have *: "helper_decode (fold_list (VList g)) (None, h) (a_bytes v @ ys) = Inr (place v h, ys)"
    by (cases v; cases "the v") (use assms in \<open>simp_all add: a_bytes_def a_ok_def helper_decode_def virtual_decode_def shared_ptr_policy_def shared_reset_def shared_release_def
        shared_set_def shared_acquire_def place_def VList_def make_list2_def make_list1_def tagged_decoder_def td_process_def
        td_process_unchecked_def A1_def A2_def le_string_io le_u64_io shared_reset_new_def oh_new_def ptr_get_def ptr_put_def\<close>)
  obtain tag r where t: "int32_decode (a_bytes v @ ys) = Inr (tag, r)" "tag = 0 \<or> tag = 1 \<or> tag = 2" using a_tag by blast
  show "helper_decode (fold_tree (VTree g)) (None, h) (a_bytes v @ ys) = Inr (place v h, ys)"
    and "helper_decode (AFactory g) (None, h) (a_bytes v @ ys) = Inr (place v h, ys)"
    by (simp_all add: a_folds_decode [OF t] *)
  show "acont_ptr_decode g (None, h) (a_bytes v @ ys) = Inr (place_raw v h, ys)"
    by (cases v; cases "the v") (use assms in \<open>simp_all add: a_bytes_def a_ok_def acont_ptr_decode_def virtual_decode_def std_ptr_policy_def std_reset_def std_delete_def
        std_set_def place_raw_def VTree_def create_tree_node_def tagged_decoder_def td_process_node_def
        td_process_unchecked_def A1_def A2_def le_string_io le_u64_io oh_new_def ptr_get_def ptr_put_def\<close>)
qed

section \<open>The blocks of the program\<close>

lemma acont_new_place: "acont_new x h = Inr (place (Some x) h)"
  by (simp add: acont_new_def shared_set_copy_def oh_new_def shared_reset_new_def shared_release_def place_def)

lemma cont_print_null [simp]: "cont_print (None, h) = Inr ''null''"
  by (simp add: cont_print_def ptr_is_null_def)

lemma cont_print_obj: "oh_obj h a = Some x \<Longrightarrow> cont_print (Some a, h) = Inr (a_print x)"
  by (simp add: cont_print_def ptr_is_null_def ptr_get_def)

lemma release_null [simp]: "shared_release (None, h) = Inr h" "acont_ptr_dtor (None, h) = Inr h"
  by (simp_all add: shared_release_def acont_ptr_dtor_def)

lemma release_last:
  "oh_obj h a = Some x \<Longrightarrow> oh_refs h a = 1 \<Longrightarrow>
   shared_release (Some a, h) = Inr (h\<lparr>oh_obj := (oh_obj h)(a := None), oh_refs := (oh_refs h)(a := 0)\<rparr>)"
  "oh_obj h a = Some x \<Longrightarrow> acont_ptr_dtor (Some a, h) = Inr (h\<lparr>oh_obj := (oh_obj h)(a := None)\<rparr>)"
  by (simp_all add: shared_release_def acont_ptr_dtor_def std_delete_def oh_delete_def)

lemmas block_simps = acont_new_place a_encode a_decode cont_print_obj release_last place_def place_raw_def

text \<open>\<open>restored h h'\<close>: every object created since \<open>h\<close> is gone.\<close>

definition restored :: "a_obj obj_heap \<Rightarrow> a_obj obj_heap \<Rightarrow> bool" where
  "restored h h' \<longleftrightarrow> oh_obj h' = oh_obj h \<and> ptr_inv (None, h')"

definition three :: "a_obj \<Rightarrow> u8 \<Rightarrow> a_obj \<Rightarrow> u8 list" where
  "three x c y = a_bytes (Some x) @ c # a_bytes (Some y) @ a_bytes None"

definition three_line :: "a_obj \<Rightarrow> u8 \<Rightarrow> a_obj \<Rightarrow> string" where
  "three_line x c y = a_print x @ '' '' @ chars [c] @ '' '' @ a_print y @ '' null''"

lemma decode_shared_ok:
  assumes "ptr_inv (None, h)" and "a_ok (Some x)" and "a_ok (Some y)"
  shows "\<exists>h'. decode_shared g (three x c y @ ys) h = Inr (three_line x c y, h') \<and> restored h h'"
proof -
  have "a_ok None" by (simp add: a_ok_def)
  then show ?thesis using assms
    by (simp add: decode_shared_def three_def three_line_def block_simps restored_def ptr_inv_def fun_eq_iff)
qed

lemma decode_raw_ok:
  assumes "ptr_inv (None, h)" and "a_ok (Some x)" and "a_ok (Some y)"
  shows "\<exists>h'. decode_raw g (three x c y @ ys) h = Inr (three_line x c y, h') \<and> restored h h'"
proof -
  have "a_ok None" by (simp add: a_ok_def)
  then show ?thesis using assms
    by (simp add: decode_raw_def three_def three_line_def block_simps restored_def ptr_inv_def fun_eq_iff)
qed

lemma encode_objects_ok:
  assumes "ptr_inv (None, h)"
  shows "\<exists>h'. encode_objects g h = Inr (''A1(obiekt klasy A1) x A2(777) null'', three (A1_obj (bytes ''obiekt klasy A1'')) 120 (A2_obj 777), h') \<and>
    restored h h'"
proof -
  have "decimal 777 = ''777''" by code_simp
  moreover have "chars (bytes ''obiekt klasy A1'') = ''obiekt klasy A1''" by code_simp
  ultimately show ?thesis using assms
    by (simp add: encode_objects_def three_def block_simps restored_def ptr_inv_def fun_eq_iff)
qed

lemma decode_factory_ok:
  assumes "ptr_inv (None, h)" and "a_ok (Some x)" and "a_ok (Some y)"
  shows "\<exists>h'. decode_factory g (three x c y) h = Inr (three_line x c y @ '' A1(czwarty obiekt)'', h') \<and> restored h h'"
proof -
  have "a_ok None" "a_ok (Some (A1_obj (bytes ''czwarty obiekt'')))" by (simp_all add: a_ok_def bytes_def u32_max_def)
  moreover have "chars (bytes ''czwarty obiekt'') = ''czwarty obiekt''" by code_simp
  ultimately show ?thesis using assms a_decode [where ys = "[]"]
    by (simp add: decode_factory_def three_def three_line_def block_simps restored_def ptr_inv_def fun_eq_iff)
qed

lemma printed_buffer:
  "print_buf (three (A1_obj (bytes ''obiekt klasy A1'')) 120 (A2_obj 777)) =
     concat (map (\<lambda>s. CHR 0x5C # s)
       [''01'', ''00'', ''00'', ''00'', ''0f'', ''00'', ''00'', ''00obiekt klasy A1x'', ''02'', ''00'', ''00'', ''00'',
        ''09'', ''03'', ''00'', ''00'', ''00'', ''00'', ''00'', ''00'', ''00'', ''00'', ''00'', ''00''])"
  by code_simp

section \<open>Reading what \<open>PrintBuf\<close> printed\<close>

definition hex_value :: "char \<Rightarrow> nat" where
  "hex_value c = (if 97 \<le> (of_char c :: nat) then of_char c - 97 + 10 else of_char c - 48)"

fun read_buf :: "string \<Rightarrow> u8 list" where
  "read_buf [] = []"
| "read_buf (c # s) =
     (if c = CHR 0x5C then (case s of a # b # t \<Rightarrow> word_of_nat (16 * hex_value a + hex_value b) # read_buf t | _ \<Rightarrow> [])
      else word_of_nat (of_char c) # read_buf s)"

lemma of_char_small: "n < 256 \<Longrightarrow> of_char (char_of n) = (n :: nat)"
  by simp

lemma hex_value_char: "d < 16 \<Longrightarrow> hex_value (hex_char d) = d"
  by (auto simp: hex_value_def hex_char_def)

lemma char_is_backslash: "n < 256 \<Longrightarrow> char_of n = CHR 0x5C \<longleftrightarrow> n = (92 :: nat)"
proof -
  assume n: "n < 256"
  have "CHR 0x5C = char_of (92 :: nat)" by code_simp
  then show ?thesis using n of_char_small [of n] of_char_small [of 92] by auto
qed

lemma unat_u8: "unat (c :: u8) < 256"
  using unsigned_less [of c, where 'a = nat] by simp

lemma read_print_byte: "c \<noteq> 92 \<Longrightarrow> read_buf (print_byte c @ s) = c # read_buf s"
proof -
  assume "c \<noteq> 92"
  then have "unat c \<noteq> 92" by (simp add: word_unat_eq_iff)
  moreover have "word_of_nat (16 * (unat c div 16) + unat c mod 16) = c" by simp
  ultimately show ?thesis
    using unat_u8 [of c] by (simp add: print_byte_def char_is_backslash hex_value_char del: of_nat_add of_nat_mult)
qed

text \<open>The printed form determines a buffer without backslashes; a backslash is not escaped, so it does not in general.\<close>

lemma read_print_buf: "92 \<notin> set buf \<Longrightarrow> read_buf (print_buf buf) = buf"
  unfolding print_buf_def by (induction buf) (simp_all add: read_print_byte)

lemma print_buf_ambiguous: "print_buf [92, 48, 48] = print_buf [0]"
  by code_simp

section \<open>The run of the program\<close>

text \<open>
  The program prints the two objects and the null pointer from the containers, the bytes of the buffer, and then the same
  values three times, as each of the three kinds of container reads them; it leaves no object behind and exits with 0.
\<close>

theorem vc_example_run:
  assumes "ptr_inv (None, h)"
  shows "\<exists>h'. vc_Main g h = Inr ([
       ''A1(obiekt klasy A1) x A2(777) null'',
       concat (map (\<lambda>s. CHR 0x5C # s)
        [''01'', ''00'', ''00'', ''00'', ''0f'', ''00'', ''00'', ''00obiekt klasy A1x'', ''02'', ''00'', ''00'', ''00'',
         ''09'', ''03'', ''00'', ''00'', ''00'', ''00'', ''00'', ''00'', ''00'', ''00'', ''00'', ''00'']),
       ''A1(obiekt klasy A1) x A2(777) null'',
       ''A1(obiekt klasy A1) x A2(777) null'',
       ''A1(obiekt klasy A1) x A2(777) null A1(czwarty obiekt)''], h') \<and>
     oh_obj h' = oh_obj h \<and> vc_main g h = Inr 0"
proof -
  let ?x = "A1_obj (bytes ''obiekt klasy A1'')" and ?y = "A2_obj 777"
  have ok: "a_ok (Some ?x)" "a_ok (Some ?y)" by (simp_all add: a_ok_def bytes_def u32_max_def)
  have line: "three_line ?x 120 ?y = ''A1(obiekt klasy A1) x A2(777) null''" by code_simp
  obtain h1 where h1: "encode_objects g h = Inr (''A1(obiekt klasy A1) x A2(777) null'', three ?x 120 ?y, h1)" "restored h h1"
    using encode_objects_ok [OF assms] by blast
  obtain h2 where h2: "decode_shared g (three ?x 120 ?y) h1 = Inr (three_line ?x 120 ?y, h2)" "restored h1 h2"
    using decode_shared_ok [OF _ ok, where ys = "[]" and h = h1] h1(2) by (auto simp: restored_def)
  obtain h3 where h3: "decode_raw g (three ?x 120 ?y) h2 = Inr (three_line ?x 120 ?y, h3)" "restored h2 h3"
    using decode_raw_ok [OF _ ok, where ys = "[]" and h = h2] h2(2) by (auto simp: restored_def)
  obtain h4 where h4: "decode_factory g (three ?x 120 ?y) h3 = Inr (three_line ?x 120 ?y @ '' A1(czwarty obiekt)'', h4)" "restored h3 h4"
    using decode_factory_ok [OF _ ok, where h = h3] h3(2) by (auto simp: restored_def)
  have "tc_ok vt_TAG (VTree g)" by (simp add: VTree_def create_tree_node_def)
  then show ?thesis
    using h1 h2 h3 h4 by (simp add: vc_Main_def vc_main_def printed_buffer line restored_def)
qed

theorem vc_example_run_witness:
  "vc_main 7 \<lparr>oh_obj = (\<lambda>_. None), oh_refs = (\<lambda>_. 0), oh_next = 0\<rparr> = Inr 0"
  using vc_example_run [of "\<lparr>oh_obj = (\<lambda>_. None), oh_refs = (\<lambda>_. 0), oh_next = 0\<rparr>" 7] by (auto simp: ptr_inv_def)

end
