(* ===== verification/List_Example.thy ===== *)
theory List_Example
  imports Vc_Example
begin

text \<open>
  \<open>src/include/misc/demangle.h\<close>, \<open>src/include/misc/vector_output.h\<close> and the program \<open>src/serialization/list_example.cpp\<close>, which
  builds a list of types and prints one line for each. The names of \<open>typeid\<close> and \<open>abi::__cxa_demangle\<close> belong to the
  compiler and are arguments; so is the size of \<open>std::string\<close>.
\<close>

datatype cxx_type = Uint8_t | Uint16_t | Uint32_t | Int32_t | Int64_t | Std_string | Signed cxx_type | Unsigned cxx_type

fun sizeof_type :: "nat \<Rightarrow> cxx_type \<Rightarrow> nat" where
  "sizeof_type str Uint8_t = 1"
| "sizeof_type str Uint16_t = 2"
| "sizeof_type str Uint32_t = 4"
| "sizeof_type str Int32_t = 4"
| "sizeof_type str Int64_t = 8"
| "sizeof_type str Std_string = str"
| "sizeof_type str (Signed _) = 1"
| "sizeof_type str (Unsigned _) = 1"

section \<open>Printing\<close>

record cxx_abi =
  typeid_name :: "cxx_type \<Rightarrow> string"
  cxa_demangle :: "string \<Rightarrow> string option"
  string_size :: nat

definition demangle :: "cxx_abi \<Rightarrow> cxx_type \<Rightarrow> string" where
  "demangle abi T = (case cxa_demangle abi (typeid_name abi T) of
     Some s \<Rightarrow> s
   | None \<Rightarrow> ''Failed['' @ typeid_name abi T @ '']'')"

text \<open>\<open>operator<<\<close> of a vector; \<open>pr\<close> prints an element and \<open>first\<close> tells whether the iterator is \<open>begin()\<close>.\<close>

fun vector_loop :: "('a \<Rightarrow> string) \<Rightarrow> bool \<Rightarrow> 'a list \<Rightarrow> string \<Rightarrow> string" where
  "vector_loop pr first [] os = os"
| "vector_loop pr first (x # xs) os =
     vector_loop pr False xs ((if first then os else os @ '', '') @ pr x)"

definition vector_output :: "('a \<Rightarrow> string) \<Rightarrow> 'a list \<Rightarrow> string \<Rightarrow> string" where
  "vector_output pr vec os = vector_loop pr True vec (os @ ''['') @ '']''"

section \<open>The program\<close>

definition List1_types :: "cxx_type type_list" where
  "List1_types =
     list_join
       (list_join (list_apply Unsigned (make_list3 Uint8_t Uint16_t Uint32_t)) (make_list1 Std_string))
       (list_apply Signed (make_list2 Int32_t Int64_t))"

fun TPrint_type :: "cxx_abi \<Rightarrow> cxx_type \<Rightarrow> string" where
  "TPrint_type abi (Signed T) =
     ''SignedType['' @ demangle abi T @ '', '' @ decimal (sizeof_type (string_size abi) T) @ '' bytes]''"
| "TPrint_type abi (Unsigned T) =
     ''UnsignedType['' @ demangle abi T @ '', '' @ decimal (sizeof_type (string_size abi) T) @ '' bytes]''"
| "TPrint_type abi T = ''UnknownType['' @ demangle abi T @ '']''"

text \<open>\<open>Printer\<close>: its 32-bit counter and the lines on standard output.\<close>

definition Printer_apply :: "cxx_abi \<Rightarrow> cxx_type \<Rightarrow> 32 word \<times> string list \<Rightarrow> 32 word \<times> string list" where
  "Printer_apply abi T st = (case st of (count, out) \<Rightarrow>
     let count = count + 1 in
     (count, out @ [''Type '' @ decimal (unat count) @ '' is '' @ TPrint_type abi T @ ''.'']))"

definition list_example_main :: "cxx_abi \<Rightarrow> int \<times> string list" where
  "list_example_main abi = (case list_apply_fn (Printer_apply abi) List1_types (0, []) of (_, out) \<Rightarrow> (0, out))"

section \<open>What is printed\<close>

definition type_line :: "cxx_abi \<Rightarrow> nat \<times> cxx_type \<Rightarrow> string" where
  "type_line abi p = ''Type '' @ decimal (fst p) @ '' is '' @ TPrint_type abi (snd p) @ ''.''"

text \<open>The elements are separated by commas, whatever was printed before.\<close>

lemma vector_loop_eq:
  "vector_loop pr first xs os = os @ concat (map (\<lambda>x. '', '' @ pr x) xs)" if "\<not> first"
  using that by (induction xs arbitrary: os) auto

lemma vector_output_eq:
  "vector_output pr xs os =
     os @ ''['' @ (case xs of [] \<Rightarrow> [] | x # ys \<Rightarrow> pr x @ concat (map (\<lambda>y. '', '' @ pr y) ys)) @ '']''"
  by (cases xs) (simp_all add: vector_output_def vector_loop_eq)

text \<open>One line for every type, in the order of the list, numbered from 1 as long as the counter does not wrap.\<close>

lemma printer_lines:
  assumes "unat n + length (types_of L) < u32_max"
  shows "snd (list_apply_fn (Printer_apply abi) L (n, out)) = out @ map (type_line abi) (enumerate (unat n + 1) (types_of L))"
  using assms
proof (induction L arbitrary: n out)
  case (List_elem T Ts)
  have "unat (n + 1) = unat n + 1" using List_elem.prems by (simp add: unat_word_ariths u32_max_def)
  then show ?case using List_elem.IH [of "n + 1"] List_elem.prems by (simp add: Printer_apply_def type_line_def)
qed simp

theorem list_example_lines:
  "list_example_main abi = (0, map (type_line abi)
     [(1, Unsigned Uint8_t), (2, Unsigned Uint16_t), (3, Unsigned Uint32_t), (4, Std_string), (5, Signed Int32_t), (6, Signed Int64_t)])"
proof -
  have t: "types_of List1_types = [Unsigned Uint8_t, Unsigned Uint16_t, Unsigned Uint32_t, Std_string, Signed Int32_t, Signed Int64_t]"
    by (simp add: List1_types_def make_list3_def make_list2_def make_list1_def)
  have "unat (0 :: 32 word) + length (types_of List1_types) < u32_max" by (simp add: t u32_max_def)
  from printer_lines [OF this, of abi "[]"]
  have "snd (list_apply_fn (Printer_apply abi) List1_types (0, [])) = map (type_line abi)
     [(1, Unsigned Uint8_t), (2, Unsigned Uint16_t), (3, Unsigned Uint32_t), (4, Std_string), (5, Signed Int32_t), (6, Signed Int64_t)]"
    by (simp add: t numeral_eq_Suc)
  then show ?thesis by (simp only: list_example_main_def split_beta)
qed

end
