(* ===== verification/Netserver.thy ===== *)
theory Netserver
  imports Write_Queue
begin

text \<open>
  \<open>src/netserver/threadpool.cpp\<close>, \<open>connection.cpp\<close>, \<open>server.cpp\<close>, \<open>timeout.cpp\<close> and the echo server of
  \<open>echo.cpp\<close>. A task of the thread pool is data; \<open>task_actions\<close> gives the calls its function makes,
  in order, and a worker executes them one at a time, interleaved with the other workers, with
  the completions of the sockets and with new connections. Every connection has its own
  \<open>write_queue\<close>. Objects behind pointers are numbered: connections in the order of
  their construction, join points by their position in \<open>ns_joins\<close>. \<open>ns_called\<close> records the join
  points whose callback has been called.

  The results of accepting and reading and the bytes received are those of the events.
\<close>

section \<open>Time-outs\<close>

definition TIMEOUT_INFTY :: int where "TIMEOUT_INFTY = -1"

text \<open>\<open>now\<close> is the result of \<open>time(NULL)\<close>.\<close>

definition from_now :: "int \<Rightarrow> int \<Rightarrow> int" where
  "from_now now time_delta = (if time_delta = TIMEOUT_INFTY then 0 else now + time_delta)"

section \<open>Join points\<close>

record 'cb join_point =
  jp_counter :: int
  jp_callback :: 'cb

definition join_point_create :: "int \<Rightarrow> 'cb \<Rightarrow> 'cb join_point" where
  "join_point_create number_to_join all_joined_callback = \<lparr>jp_counter = number_to_join, jp_callback = all_joined_callback\<rparr>"

text \<open>
  The decision of \<open>join\<close> and of \<open>lazy_join\<close>: the callback to call or to defer, if any.
\<close>

definition jp_join :: "'cb join_point \<Rightarrow> 'cb option \<times> 'cb join_point" where
  "jp_join j =
     (let j = j\<lparr>jp_counter := jp_counter j - 1\<rparr>
      in (if jp_counter j = 0 then Some (jp_callback j) else None, j))"

section \<open>Tasks\<close>

datatype task =
    Echo_responder nat "u8 list"
  | T1 nat nat
  | T2 nat

datatype action =
    Conn_write nat "u8 list"
  | Conn_read nat
  | Create_joined nat
  | Defer task
  | Join nat
  | Lazy_join nat

definition t1_message :: "u8 list" where
  "t1_message = map of_char ''t1 done'' @ [10, 0]"

definition t2_message :: "u8 list" where
  "t2_message = map of_char ''2 tasks joined'' @ [10, 0]"

fun task_actions :: "task \<Rightarrow> action list" where
  "task_actions (Echo_responder conn buf) = [Conn_write conn buf, Conn_read conn, Create_joined conn]"
| "task_actions (T1 conn join_p) = [Conn_write conn t1_message, Join join_p]"
| "task_actions (T2 conn) = [Conn_write conn t2_message]"

section \<open>The server\<close>

record netserver =
  ns_threads_num :: nat
  ns_task_queue :: "task list"
  ns_running :: "action list list"
  ns_joins :: "task join_point list"
  ns_connections :: nat
  ns_accepting :: "nat list"
  ns_reading :: "nat list"
  ns_out :: "nat \<Rightarrow> write_queue"
  ns_called :: "nat list"

definition server_ctor :: "nat \<Rightarrow> netserver" where
  "server_ctor workers_num =
     \<lparr>ns_threads_num = workers_num, ns_task_queue = [], ns_running = [], ns_joins = [], ns_connections = 0, ns_accepting = [],
      ns_reading = [], ns_out = (\<lambda>_. write_queue_ctor), ns_called = []\<rparr>"

text \<open>\<open>new connection(*this)\<close> starts an asynchronous accept.\<close>

definition new_connection :: "netserver \<Rightarrow> netserver" where
  "new_connection s = s\<lparr>ns_connections := ns_connections s + 1, ns_accepting := ns_accepting s @ [ns_connections s]\<rparr>"

text \<open>\<open>run\<close> constructs the first connection and starts the workers; a worker without a task is not listed in \<open>ns_running\<close>.\<close>

definition server_run :: "netserver \<Rightarrow> netserver" where
  "server_run s = (new_connection s)\<lparr>ns_running := []\<rparr>"

definition schedule :: "task \<Rightarrow> netserver \<Rightarrow> netserver" where
  "schedule t s = s\<lparr>ns_task_queue := nq_push t (ns_task_queue s)\<rparr>"

definition conn_read :: "nat \<Rightarrow> netserver \<Rightarrow> netserver" where
  "conn_read c s = s\<lparr>ns_reading := ns_reading s @ [c]\<rparr>"

definition conn_write :: "nat \<Rightarrow> u8 list \<Rightarrow> netserver \<Rightarrow> netserver" where
  "conn_write c message s = s\<lparr>ns_out := (ns_out s)(c := wq_write message 1 0 (ns_out s c))\<rparr>"

definition echo_acceptor :: "nat \<Rightarrow> netserver \<Rightarrow> netserver" where
  "echo_acceptor c s = conn_read c s"

definition handle_accept :: "nat \<Rightarrow> bool \<Rightarrow> netserver \<Rightarrow> netserver" where
  "handle_accept c error s = (if \<not> error then new_connection (echo_acceptor c s) else s)"

definition handle_read :: "nat \<Rightarrow> bool \<Rightarrow> u8 list \<Rightarrow> netserver \<Rightarrow> netserver" where
  "handle_read c error buf s = (if \<not> error then schedule (Echo_responder c buf) s else s)"

definition join_at :: "nat \<Rightarrow> netserver \<Rightarrow> task option \<times> netserver" where
  "join_at n s = (case jp_join (ns_joins s ! n) of (cb, j) \<Rightarrow>
     (cb, s\<lparr>ns_joins := (ns_joins s)[n := j], ns_called := (if cb = None then ns_called s else ns_called s @ [n])\<rparr>))"

text \<open>One call of a task: the calls it makes inline and the new state.\<close>

fun exec_action :: "action \<Rightarrow> netserver \<Rightarrow> action list \<times> netserver" where
  "exec_action (Conn_write c m) s = ([], conn_write c m s)"
| "exec_action (Conn_read c) s = ([], conn_read c s)"
| "exec_action (Create_joined c) s =
     (let n = length (ns_joins s)
      in ([Defer (T1 c n), Defer (T1 c n)], s\<lparr>ns_joins := ns_joins s @ [join_point_create 2 (T2 c)]\<rparr>))"
| "exec_action (Defer t) s = ([], schedule t s)"
| "exec_action (Join n) s = (case join_at n s of (cb, s) \<Rightarrow> (case cb of None \<Rightarrow> [] | Some t \<Rightarrow> task_actions t, s))"
| "exec_action (Lazy_join n) s = (case join_at n s of (cb, s) \<Rightarrow> ([], case cb of None \<Rightarrow> s | Some t \<Rightarrow> schedule t s))"

definition MAX_BYTES :: nat where "MAX_BYTES = 42"

datatype ns_event = Accepted nat bool | Received nat bool "u8 list" | Take_task task | Exec action | Socket nat wq_event

inductive ns_step :: "netserver \<Rightarrow> ns_event \<Rightarrow> netserver \<Rightarrow> bool" where
  accepted: "ns_accepting s = xs @ c # ys \<Longrightarrow> ns_step s (Accepted c error) (handle_accept c error (s\<lparr>ns_accepting := xs @ ys\<rparr>))"
| received: "ns_reading s = xs @ c # ys \<Longrightarrow> length buf \<le> MAX_BYTES \<Longrightarrow>
    ns_step s (Received c error buf) (handle_read c error buf (s\<lparr>ns_reading := xs @ ys\<rparr>))"
| take_task: "length (ns_running s) < ns_threads_num s \<Longrightarrow> nq_pop (ns_task_queue s) = Some (t, q) \<Longrightarrow>
    ns_step s (Take_task t) (s\<lparr>ns_task_queue := q, ns_running := ns_running s @ [task_actions t]\<rparr>)"
| exec: "ns_running s = xs @ (a # rest) # ys \<Longrightarrow> exec_action a s = (inline, s') \<Longrightarrow>
    ns_step s (Exec a) (s'\<lparr>ns_running := xs @ (if inline @ rest = [] then [] else [inline @ rest]) @ ys\<rparr>)"
| socket: "wq_step (ns_out s c) ev w \<Longrightarrow> (\<And>m. ev \<noteq> Write m) \<Longrightarrow> ns_step s (Socket c ev) (s\<lparr>ns_out := (ns_out s)(c := w)\<rparr>)"

section \<open>Join points fire once\<close>

fun task_weight :: "nat \<Rightarrow> task \<Rightarrow> nat" where
  "task_weight n (T1 c m) = of_bool (m = n)"
| "task_weight n _ = 0"

fun action_weight :: "nat \<Rightarrow> action \<Rightarrow> nat" where
  "action_weight n (Defer t) = task_weight n t"
| "action_weight n (Join m) = of_bool (m = n)"
| "action_weight n (Lazy_join m) = of_bool (m = n)"
| "action_weight n _ = 0"

definition outstanding :: "nat \<Rightarrow> netserver \<Rightarrow> nat" where
  "outstanding n s = sum_list (map (task_weight n) (ns_task_queue s)) + sum_list (map (action_weight n) (concat (ns_running s)))"

lemma weight_task_actions [simp]: "sum_list (map (action_weight n) (task_actions t)) = task_weight n t"
  by (cases t) simp_all

definition joins_inv :: "netserver \<Rightarrow> bool" where
  "joins_inv s \<longleftrightarrow>
     (\<forall>n < length (ns_joins s).
        jp_counter (ns_joins s ! n) = int (outstanding n s) \<and> outstanding n s \<le> 2 \<and>
        count_list (ns_called s) n = (if outstanding n s = 0 then 1 else 0) \<and> (\<exists>c. jp_callback (ns_joins s ! n) = T2 c)) \<and>
     (\<forall>n \<ge> length (ns_joins s). outstanding n s = 0 \<and> count_list (ns_called s) n = 0)"

lemma join_at_inv:
  assumes "joins_inv s" and "m < length (ns_joins s)" and "join_at m s = (cb, s')" and "outstanding m s \<noteq> 0"
    and "\<And>n. outstanding n s'' = outstanding n s - of_bool (n = m)"
    and "ns_joins s'' = ns_joins s'" and "ns_called s'' = ns_called s'"
  shows "joins_inv s''"
proof -
  let ?j = "ns_joins s ! m"
  have m: "jp_counter ?j = int (outstanding m s)" "outstanding m s \<le> 2" "count_list (ns_called s) m = 0" "\<exists>c. jp_callback ?j = T2 c"
    using assms(1,2,4) by (auto simp: joins_inv_def)
  have j': "ns_joins s'' = (ns_joins s)[m := ?j\<lparr>jp_counter := int (outstanding m s) - 1\<rparr>]"
    "ns_called s'' = ns_called s @ (if outstanding m s = 1 then [m] else [])"
    using assms(3,6,7) m(1) by (auto simp: join_at_def jp_join_def Let_def)
  show ?thesis unfolding joins_inv_def
  proof (intro conjI allI impI)
    fix n assume n: "n < length (ns_joins s'')"
    then have *: "n < length (ns_joins s)" by (simp add: j')
    show "jp_counter (ns_joins s'' ! n) = int (outstanding n s'')"
      using assms(1,4) * by (cases "n = m") (auto simp: j' assms(5) joins_inv_def)
    show "outstanding n s'' \<le> 2" using assms(1) * m(2) by (auto simp: assms(5) joins_inv_def)
    show "count_list (ns_called s'') n = (if outstanding n s'' = 0 then 1 else 0)"
      using assms(1,4) * m(3) by (cases "n = m") (auto simp: j' assms(5) joins_inv_def)
    show "\<exists>c. jp_callback (ns_joins s'' ! n) = T2 c" using assms(1) * m(4) by (cases "n = m") (auto simp: j' joins_inv_def)
  next
    fix n assume "length (ns_joins s'') \<le> n"
    then have *: "length (ns_joins s) \<le> n" "n \<noteq> m" using assms(2) by (auto simp: j')
    then show "outstanding n s'' = 0" "count_list (ns_called s'') n = 0" using assms(1) by (auto simp: j' assms(5) joins_inv_def)
  qed
qed

text \<open>Steps that keep the join points and only move what is outstanding.\<close>

lemma joins_inv_cong:
  assumes "joins_inv s" and "\<And>n. outstanding n s' = outstanding n s" and "ns_joins s' = ns_joins s" and "ns_called s' = ns_called s"
  shows "joins_inv s'"
  using assms(1) unfolding joins_inv_def assms(2-4) .

lemma exec_inv:
  assumes inv: "joins_inv s" and run: "ns_running s = xs @ (a # rest) # ys" and ex: "exec_action a s = (inline, s')"
  shows "joins_inv (s'\<lparr>ns_running := xs @ (if inline @ rest = [] then [] else [inline @ rest]) @ ys\<rparr>)"
    (is "joins_inv ?s")
proof -
  have join: "joins_inv ?s" if m: "\<And>n. action_weight n a = of_bool (m = n)" and j: "join_at m s = (cb, s1)"
      "ns_joins s' = ns_joins s1" "ns_called s' = ns_called s1"
      and o: "\<And>n. sum_list (map (task_weight n) (ns_task_queue s')) + sum_list (map (action_weight n) inline) =
         sum_list (map (task_weight n) (ns_task_queue s))" for m cb s1
  proof (rule join_at_inv [OF inv _ j(1)])
    have out: "outstanding n s = outstanding n ?s + of_bool (m = n)" for n
      using o [of n] m [of n] by (auto simp: outstanding_def run)
    show "outstanding n ?s = outstanding n s - of_bool (n = m)" for n using out [of n] by auto
    show "outstanding m s \<noteq> 0" using out [of m] by simp
    then show "m < length (ns_joins s)" using inv unfolding joins_inv_def by (meson not_le)
    show "ns_joins ?s = ns_joins s1" "ns_called ?s = ns_called s1" using j by simp_all
  qed
  have cb: "\<exists>c. jp_callback (ns_joins s ! m) = T2 c" if "a = Join m \<or> a = Lazy_join m" for m
  proof -
    have "outstanding m s \<noteq> 0" using that run by (auto simp: outstanding_def)
    then show ?thesis using inv unfolding joins_inv_def by (meson not_le)
  qed
  show ?thesis
  proof (cases a)
    case (Create_joined c)
    let ?n = "length (ns_joins s)"
    have s': "inline = [Defer (T1 c ?n), Defer (T1 c ?n)]" "s' = s\<lparr>ns_joins := ns_joins s @ [join_point_create 2 (T2 c)]\<rparr>"
      using ex by (auto simp: Create_joined Let_def)
    have out: "outstanding n ?s = outstanding n s + (if n = ?n then 2 else 0)" for n
      by (simp add: outstanding_def s' run Create_joined)
    have z: "outstanding ?n s = 0" "count_list (ns_called s) ?n = 0" using inv by (auto simp: joins_inv_def)
    show ?thesis unfolding joins_inv_def out using inv z by (auto simp: s' joins_inv_def nth_append join_point_create_def)
  next
    case (Join m)
    obtain t s1 where j: "join_at m s = (t, s1)" by (cases "join_at m s")
    have "t = None \<or> (\<exists>c. t = Some (T2 c))" using j cb [of m] by (auto simp: Join join_at_def jp_join_def Let_def)
    moreover have "ns_task_queue s1 = ns_task_queue s" using j by (auto simp: join_at_def split: prod.splits)
    ultimately show ?thesis using ex j by (intro join [of m t s1]) (auto simp: Join)
  next
    case (Lazy_join m)
    obtain t s1 where j: "join_at m s = (t, s1)" by (cases "join_at m s")
    have "t = None \<or> (\<exists>c. t = Some (T2 c))" using j cb [of m] by (auto simp: Lazy_join join_at_def jp_join_def Let_def)
    moreover have "ns_task_queue s1 = ns_task_queue s" using j by (auto simp: join_at_def split: prod.splits)
    ultimately show ?thesis using ex j by (intro join [of m t s1]) (auto simp: Lazy_join schedule_def nq_push_def)
  qed (use ex inv in \<open>auto simp: outstanding_def run schedule_def nq_push_def conn_write_def conn_read_def intro!: joins_inv_cong [OF inv]\<close>)
qed

interpretation ns_joins: step_invariant ns_step joins_inv
proof
  fix s ev s' assume inv: "joins_inv s" and "ns_step s ev s'"
  from this(2) show "joins_inv s'"
  proof (cases rule: ns_step.cases)
    case (take_task t q)
    then have "ns_task_queue s = t # q" by (auto simp: nq_pop_def split: list.splits)
    then show ?thesis by (intro joins_inv_cong [OF inv]) (simp_all add: take_task(2) outstanding_def)
  next
    case (exec xs a rest ys inline s1)
    then show ?thesis using exec_inv [OF inv exec(3,4)] by simp
  qed (auto intro!: joins_inv_cong [OF inv] simp: handle_accept_def new_connection_def echo_acceptor_def conn_read_def handle_read_def
      schedule_def nq_push_def outstanding_def)
qed

lemma joins_inv_start: "joins_inv (server_run (server_ctor k))"
  by (simp add: joins_inv_def server_run_def server_ctor_def new_connection_def outstanding_def)

section \<open>Every connection's queue is used as its contract says\<close>

fun conn_writes :: "nat \<Rightarrow> ns_event list \<Rightarrow> u8 list list" where
  "conn_writes c [] = []"
| "conn_writes c (Exec (Conn_write d m) # evs) = (if d = c then m # conn_writes c evs else conn_writes c evs)"
| "conn_writes c (_ # evs) = conn_writes c evs"

lemma conn_writes_append: "conn_writes c (evs @ evs') = conn_writes c evs @ conn_writes c evs'"
  by (induction c evs rule: conn_writes.induct) auto

definition queues_reached :: "ns_event list \<Rightarrow> netserver \<Rightarrow> bool" where
  "queues_reached evs s \<longleftrightarrow> (\<forall>c. \<exists>h. run wq_step write_queue_ctor h (ns_out s c) \<and> written h = conn_writes c evs)"

lemma queues_reached_same:
  assumes "queues_reached evs s" and "ns_out s' = ns_out s" and "\<And>c. conn_writes c [ev] = []"
  shows "queues_reached (evs @ [ev]) s'"
  using assms by (simp add: queues_reached_def conn_writes_append)

lemma queues_reached_step:
  assumes "queues_reached evs s" and "wq_step (ns_out s c) ev w" and "ns_out s' = (ns_out s)(c := w)"
    and "written [ev] = conn_writes c [nev]" and "\<And>d. d \<noteq> c \<Longrightarrow> conn_writes d [nev] = []"
  shows "queues_reached (evs @ [nev]) s'"
  unfolding queues_reached_def
proof
  fix d
  obtain h where h: "run wq_step write_queue_ctor h (ns_out s d)" "written h = conn_writes d evs"
    using assms(1) by (auto simp: queues_reached_def)
  show "\<exists>h. run wq_step write_queue_ctor h (ns_out s' d) \<and> written h = conn_writes d (evs @ [nev])"
  proof (cases "d = c")
    case True
    then have "run wq_step write_queue_ctor (h @ [ev]) (ns_out s' d)"
      using run_append [OF h(1)] assms(2,3) by (simp add: run_Cons_iff)
    then show ?thesis using True h(2) assms(4) by (metis conn_writes_append written_append)
  qed (use h assms(3,5) in \<open>auto simp: conn_writes_append\<close>)
qed

interpretation ns_queues: history_invariant ns_step queues_reached
proof
  fix evs s ev s' assume inv: "queues_reached evs s" and "ns_step s ev s'"
  from this(2) show "queues_reached (evs @ [ev]) s'"
  proof (cases rule: ns_step.cases)
    case (exec xs a rest ys inline s1)
    show ?thesis
    proof (cases a)
      case (Conn_write c m)
      then have "ns_out s' = (ns_out s)(c := wq_write m 1 0 (ns_out s c))" using exec by (auto simp: conn_write_def)
      then show ?thesis using Conn_write exec(1) by (intro queues_reached_step [OF inv wq_step.write_call]) auto
    next
      case (Join n)
      then show ?thesis using exec by (intro queues_reached_same [OF inv]) (auto simp: join_at_def split: prod.splits)
    next
      case (Lazy_join n)
      then show ?thesis using exec
        by (intro queues_reached_same [OF inv]) (auto simp: join_at_def schedule_def split: prod.splits option.splits)
    qed (use exec in \<open>auto intro!: queues_reached_same [OF inv] simp: conn_read_def schedule_def Let_def\<close>)
  next
    case (socket c wev w)
    then have "written [wev] = []" by (cases wev) auto
    then show ?thesis using socket by (intro queues_reached_step [OF inv socket(3)]) auto
  qed (auto intro!: queues_reached_same [OF inv] simp: handle_accept_def new_connection_def echo_acceptor_def conn_read_def handle_read_def
      schedule_def)
qed

lemma queues_reached_start: "queues_reached [] (server_run (server_ctor k))"
  by (auto simp: queues_reached_def server_run_def server_ctor_def new_connection_def intro!: exI [of _ "[]"])

text \<open>Once an accept has failed, no connection is waiting to be accepted any more.\<close>

interpretation ns_accepts: history_invariant ns_step
  "\<lambda>evs s. length (ns_accepting s) = (if \<exists>c. Accepted c True \<in> set evs then 0 else 1)"
proof
  fix evs s ev s'
  assume inv: "length (ns_accepting s) = (if \<exists>c. Accepted c True \<in> set evs then 0 else 1)" and "ns_step s ev s'"
  from this(2) show "length (ns_accepting s') = (if \<exists>c. Accepted c True \<in> set (evs @ [ev]) then 0 else 1)"
  proof (cases rule: ns_step.cases)
    case (accepted xs c ys error)
    then show ?thesis using inv
      by (auto simp: handle_accept_def new_connection_def echo_acceptor_def conn_read_def split: if_splits)
  next
    case (exec xs a rest ys inline s1)
    have "ns_accepting s1 = ns_accepting s" using exec(4)
      by (cases a) (auto simp: join_at_def schedule_def conn_read_def conn_write_def Let_def split: prod.splits option.splits)
    then show ?thesis using inv exec by auto
  qed (use inv in \<open>auto simp: handle_read_def schedule_def split: if_splits\<close>)
qed

section \<open>Properties\<close>

text \<open>
  C29. The join points of the echo server: in every interleaving of connections, received data, workers
  and socket completions, the counter of every join point is the number of its joins that are
  still to come, its callback is called exactly when that number reaches zero and never again;
  so when no task is queued or running, every join point has called its callback exactly once.
\<close>

theorem echo_joins_once:
  assumes "run ns_step (server_run (server_ctor workers_num)) evs s"
  shows "(\<forall>n < length (ns_joins s). jp_counter (ns_joins s ! n) = int (outstanding n s) \<and>
      count_list (ns_called s) n = (if outstanding n s = 0 then 1 else 0)) \<and>
    (ns_task_queue s = [] \<and> ns_running s = [] \<longrightarrow> (\<forall>n < length (ns_joins s). count_list (ns_called s) n = 1))"
proof -
  have "joins_inv s" using ns_joins.invar_run [OF assms joins_inv_start] .
  then show ?thesis by (auto simp: joins_inv_def outstanding_def)
qed

text \<open>A run in which one connection sends a byte.\<close>

definition sample_server :: "task list \<Rightarrow> action list list \<Rightarrow> task join_point list \<Rightarrow> nat list \<Rightarrow> nat list \<Rightarrow> nat \<Rightarrow> write_queue \<Rightarrow> netserver" where
  "sample_server q progs joins acc reading conns w =
     \<lparr>ns_threads_num = 1, ns_task_queue = q, ns_running = progs, ns_joins = joins, ns_connections = conns, ns_accepting = acc,
      ns_reading = reading, ns_out = (\<lambda>_. write_queue_ctor)(0 := w), ns_called = []\<rparr>"

lemma sample_server_run:
  "run ns_step (server_run (server_ctor 1))
     [Accepted 0 False, Received 0 False [7], Take_task (Echo_responder 0 [7]), Exec (Conn_write 0 [7]), Exec (Conn_read 0), Exec (Create_joined 0)]
     (sample_server [] [[Defer (T1 0 0), Defer (T1 0 0)]] [join_point_create 2 (T2 0)] [1] [0] 2 (wq_write [7] 1 0 write_queue_ctor))"
proof -
  let ?w = "wq_write [7] 1 0 write_queue_ctor"
  note d = sample_server_def handle_accept_def new_connection_def echo_acceptor_def conn_read_def handle_read_def schedule_def nq_push_def
    nq_pop_def MAX_BYTES_def conn_write_def
  have s0: "server_run (server_ctor 1) = sample_server [] [] [] [0] [] 1 write_queue_ctor"
    by (simp add: sample_server_def server_run_def server_ctor_def new_connection_def fun_eq_iff)
  have s1: "ns_step (sample_server [] [] [] [0] [] 1 write_queue_ctor) (Accepted 0 False) (sample_server [] [] [] [1] [0] 2 write_queue_ctor)"
    using ns_step.accepted [of "sample_server [] [] [] [0] [] 1 write_queue_ctor" "[]" 0 "[]" False] by (simp add: d numeral_2_eq_2)
  have s2: "ns_step (sample_server [] [] [] [1] [0] 2 write_queue_ctor) (Received 0 False [7])
      (sample_server [Echo_responder 0 [7]] [] [] [1] [] 2 write_queue_ctor)"
    using ns_step.received [of "sample_server [] [] [] [1] [0] 2 write_queue_ctor" "[]" 0 "[]" "[7]" False] by (simp add: d)
  have s3: "ns_step (sample_server [Echo_responder 0 [7]] [] [] [1] [] 2 write_queue_ctor) (Take_task (Echo_responder 0 [7]))
      (sample_server [] [[Conn_write 0 [7], Conn_read 0, Create_joined 0]] [] [1] [] 2 write_queue_ctor)"
    using ns_step.take_task [of "sample_server [Echo_responder 0 [7]] [] [] [1] [] 2 write_queue_ctor" "Echo_responder 0 [7]" "[]"] by (simp add: d)
  have s4: "ns_step (sample_server [] [[Conn_write 0 [7], Conn_read 0, Create_joined 0]] [] [1] [] 2 write_queue_ctor) (Exec (Conn_write 0 [7]))
      (sample_server [] [[Conn_read 0, Create_joined 0]] [] [1] [] 2 ?w)"
    using ns_step.exec [OF _ exec_action.simps(1), of "sample_server [] [[Conn_write 0 [7], Conn_read 0, Create_joined 0]] [] [1] [] 2 write_queue_ctor" "[]" 0 "[7]" "[Conn_read 0, Create_joined 0]" "[]"] by (simp add: d)
  have s5: "ns_step (sample_server [] [[Conn_read 0, Create_joined 0]] [] [1] [] 2 ?w) (Exec (Conn_read 0))
      (sample_server [] [[Create_joined 0]] [] [1] [0] 2 ?w)"
    using ns_step.exec [OF _ exec_action.simps(2), of "sample_server [] [[Conn_read 0, Create_joined 0]] [] [1] [] 2 ?w" "[]" 0 "[Create_joined 0]" "[]"] by (simp add: d)
  have s6: "ns_step (sample_server [] [[Create_joined 0]] [] [1] [0] 2 ?w) (Exec (Create_joined 0))
      (sample_server [] [[Defer (T1 0 0), Defer (T1 0 0)]] [join_point_create 2 (T2 0)] [1] [0] 2 ?w)"
    using ns_step.exec [OF _ exec_action.simps(3) [unfolded Let_def], of "sample_server [] [[Create_joined 0]] [] [1] [0] 2 ?w" "[]" 0 "[]" "[]"] by (simp add: d Let_def)
  show ?thesis unfolding s0
    by (rule run.run_Cons, rule s1, rule run.run_Cons, rule s2, rule run.run_Cons, rule s3, rule run.run_Cons, rule s4, rule run.run_Cons,
      rule s5, rule run.run_Cons, rule s6, rule run.run_Nil)
qed

theorem echo_joins_once_witness:
  "\<exists>evs s. run ns_step (server_run (server_ctor 1)) evs s \<and> length (ns_joins s) = 1 \<and> jp_counter (ns_joins s ! 0) = int (outstanding 0 s) \<and>
     outstanding 0 s = 2"
proof -
  have "length (ns_joins (sample_server [] [[Defer (T1 0 0), Defer (T1 0 0)]] [join_point_create 2 (T2 0)] [1] [0] 2
      (wq_write [7] 1 0 write_queue_ctor))) = 1" by (simp add: sample_server_def)
  moreover have "outstanding 0 (sample_server [] [[Defer (T1 0 0), Defer (T1 0 0)]] [join_point_create 2 (T2 0)] [1] [0] 2
      (wq_write [7] 1 0 write_queue_ctor)) = 2" by (simp add: sample_server_def outstanding_def)
  ultimately show ?thesis using echo_joins_once [OF sample_server_run] sample_server_run by fastforce
qed

text \<open>
  C30. The server and its write queues: every connection's queue goes through a run of its own in which the
  messages written are exactly those the tasks wrote to that connection, in their order; so on
  the wire of a connection appear only whole messages of its own (the last perhaps cut), each at
  most as often as it was written, never one of another connection.
\<close>

theorem connection_streams:
  assumes "run ns_step (server_run (server_ctor workers_num)) evs s"
  shows "\<exists>h rest. run wq_step write_queue_ctor h (ns_out s c) \<and> written h = conn_writes c evs \<and>
    wq_sent (ns_out s c) @ rest = concat (begun h) \<and> mset (begun h) \<subseteq># mset (conn_writes c evs)"
proof -
  have "queues_reached evs s" using ns_queues.hinv_run_start [OF assms queues_reached_start] .
  then obtain h where h: "run wq_step write_queue_ctor h (ns_out s c)" "written h = conn_writes c evs"
    by (auto simp: queues_reached_def)
  have "wq_inv h (ns_out s c)" using wq.hinv_run_start [OF h(1) wq_inv_ctor] .
  then have "\<exists>rest. wq_sent (ns_out s c) @ rest = concat (begun h)" "mset (begun h) \<subseteq># mset (written h)"
    by (auto simp: wq_inv_def)
  then show ?thesis using h by metis
qed

theorem connection_streams_witness:
  "\<exists>evs s h. run ns_step (server_run (server_ctor 1)) evs s \<and> conn_writes 0 evs = [[7]] \<and> conn_writes 1 evs = [] \<and>
     run wq_step write_queue_ctor h (ns_out s 0) \<and> written h = [[7]]"
  using connection_streams [OF sample_server_run, of 0] sample_server_run by fastforce

end
