(* ===== verification/Thread_Pool.thy ===== *)
theory Thread_Pool
  imports Write_Queue
begin

text \<open>
  \<open>src/netserver/threadpool.cpp\<close> with its synchronized queue: workers that take tasks, scheduling, and \<open>interrupt\<close>. A worker is
  where its loop stands and its interruption flag. A step is a critical section of the queue, a call of \<open>notify_one\<close>, a passed
  interruption point or the return of a task; waiting for a task and the task itself may be interruption points.

  What the code uses of Boost.Thread: \<open>interrupt_all\<close> sets the flag of every thread; an interruption point, and so also a wait that
  begins or returns, throws in a thread whose flag is set, which here leaves \<open>worker_thread_body\<close>. When a thread ends, the object
  behind its \<open>thread_specific_ptr\<close> is deleted; \<open>my_thread_pool\<close> points to the pool itself, so the end of a worker is the end of
  the pool: \<open>tp_deleted\<close> records it, and nothing can be said about what follows.
\<close>

section \<open>The pool\<close>

datatype 'task worker_pc = Loop_head | Popping | Waiting | Running 'task

record 'task pool_worker =
  w_pc :: "'task worker_pc"
  w_interrupt :: bool

record 'task thread_pool =
  tp_threads_num :: int
  tp_task_queue :: "'task list"
  tp_notifying :: nat
  tp_threads :: "'task pool_worker list"
  tp_deleted :: bool

definition thread_pool_ctor :: "int \<Rightarrow> 'task thread_pool" where
  "thread_pool_ctor pool_size =
     \<lparr>tp_threads_num = pool_size, tp_task_queue = [], tp_notifying = 0, tp_threads = [], tp_deleted = False\<rparr>"

definition tp_run :: "'task thread_pool \<Rightarrow> 'task thread_pool" where
  "tp_run s = s\<lparr>tp_threads := tp_threads s @ replicate (nat (tp_threads_num s)) \<lparr>w_pc = Loop_head, w_interrupt = False\<rparr>\<rparr>"

definition tp_interrupt :: "'task thread_pool \<Rightarrow> 'task thread_pool" where
  "tp_interrupt s = s\<lparr>tp_threads := map (w_interrupt_update (\<lambda>_. True)) (tp_threads s)\<rparr>"

text \<open>\<open>push\<close> up to the end of its critical section; the call of \<open>notify_one\<close> is still to come.\<close>

definition tp_schedule :: "'task \<Rightarrow> 'task thread_pool \<Rightarrow> 'task thread_pool" where
  "tp_schedule t s = s\<lparr>tp_task_queue := nq_push t (tp_task_queue s), tp_notifying := tp_notifying s + 1\<rparr>"

text \<open>How a worker goes on, with the queue after it; \<open>None\<close> when an interruption point throws.\<close>

definition worker_next :: "'task pool_worker \<Rightarrow> 'task list \<Rightarrow> ('task worker_pc \<times> 'task list) option" where
  "worker_next w q = (case w_pc w of
     Loop_head \<Rightarrow> if w_interrupt w then None else Some (Popping, q)
   | Popping \<Rightarrow> (case nq_pop q of
       Some (t, q') \<Rightarrow> Some (Running t, q')
     | None \<Rightarrow> if w_interrupt w then None else Some (Waiting, q))
   | Waiting \<Rightarrow> if w_interrupt w then None else Some (Popping, q)
   | Running t \<Rightarrow> Some (Loop_head, q))"

definition worker_move :: "nat \<Rightarrow> 'task worker_pc \<Rightarrow> 'task list \<Rightarrow> 'task thread_pool \<Rightarrow> 'task thread_pool" where
  "worker_move i pc q s = s\<lparr>tp_task_queue := q, tp_threads := (tp_threads s)[i := (tp_threads s ! i)\<lparr>w_pc := pc\<rparr>]\<rparr>"

definition worker_leaves :: "'task thread_pool \<Rightarrow> 'task thread_pool" where
  "worker_leaves s = s\<lparr>tp_deleted := True\<rparr>"

datatype 'task tp_event =
    Schedule 'task
  | Notify
  | Interrupt
  | Move nat "'task worker_pc" "'task worker_pc"
  | Leave nat

text \<open>A wait may return without a notification; a notification wakes a waiting worker if there is one.\<close>

inductive tp_step :: "'task thread_pool \<Rightarrow> 'task tp_event \<Rightarrow> 'task thread_pool \<Rightarrow> bool" where
  schedule: "\<not> tp_deleted s \<Longrightarrow> tp_step s (Schedule t) (tp_schedule t s)"
| interrupt: "\<not> tp_deleted s \<Longrightarrow> tp_step s Interrupt (tp_interrupt s)"
| move: "\<not> tp_deleted s \<Longrightarrow> i < length (tp_threads s) \<Longrightarrow> worker_next (tp_threads s ! i) (tp_task_queue s) = Some (pc, q) \<Longrightarrow>
    tp_step s (Move i (w_pc (tp_threads s ! i)) pc) (worker_move i pc q s)"
| leave: "\<not> tp_deleted s \<Longrightarrow> i < length (tp_threads s) \<Longrightarrow> worker_next (tp_threads s ! i) (tp_task_queue s) = None \<Longrightarrow>
    tp_step s (Leave i) (worker_leaves s)"
| task_interrupted: "\<not> tp_deleted s \<Longrightarrow> i < length (tp_threads s) \<Longrightarrow> w_pc (tp_threads s ! i) = Running t \<Longrightarrow>
    w_interrupt (tp_threads s ! i) \<Longrightarrow> tp_step s (Leave i) (worker_leaves s)"
| notify_nobody: "\<not> tp_deleted s \<Longrightarrow> tp_notifying s = Suc k \<Longrightarrow> \<forall>w \<in> set (tp_threads s). w_pc w \<noteq> Waiting \<Longrightarrow>
    tp_step s Notify (s\<lparr>tp_notifying := k\<rparr>)"
| notify_wakes: "\<not> tp_deleted s \<Longrightarrow> tp_notifying s = Suc k \<Longrightarrow> i < length (tp_threads s) \<Longrightarrow> w_pc (tp_threads s ! i) = Waiting \<Longrightarrow>
    worker_next (tp_threads s ! i) (tp_task_queue s) = Some (pc, q) \<Longrightarrow>
    tp_step s Notify (worker_move i pc q (s\<lparr>tp_notifying := k\<rparr>))"
| notify_interrupted: "\<not> tp_deleted s \<Longrightarrow> tp_notifying s = Suc k \<Longrightarrow> i < length (tp_threads s) \<Longrightarrow> w_pc (tp_threads s ! i) = Waiting \<Longrightarrow>
    worker_next (tp_threads s ! i) (tp_task_queue s) = None \<Longrightarrow>
    tp_step s Notify (worker_leaves (s\<lparr>tp_notifying := k\<rparr>))"

section \<open>Histories\<close>

fun scheduled :: "'task tp_event list \<Rightarrow> 'task list" where
  "scheduled [] = []"
| "scheduled (Schedule t # evs) = t # scheduled evs"
| "scheduled (_ # evs) = scheduled evs"

fun taken :: "'task tp_event list \<Rightarrow> 'task list" where
  "taken [] = []"
| "taken (Move _ _ (Running t) # evs) = t # taken evs"
| "taken (_ # evs) = taken evs"

fun finished :: "'task tp_event list \<Rightarrow> 'task list" where
  "finished [] = []"
| "finished (Move _ (Running t) _ # evs) = t # finished evs"
| "finished (_ # evs) = finished evs"

lemma histories_append:
  "scheduled (xs @ ys) = scheduled xs @ scheduled ys" "taken (xs @ ys) = taken xs @ taken ys" "finished (xs @ ys) = finished xs @ finished ys"
proof -
  show "scheduled (xs @ ys) = scheduled xs @ scheduled ys" by (induction xs rule: scheduled.induct) auto
  show "taken (xs @ ys) = taken xs @ taken ys" by (induction xs rule: taken.induct) auto
  show "finished (xs @ ys) = finished xs @ finished ys" by (induction xs rule: finished.induct) auto
qed

fun pc_tasks :: "'task worker_pc \<Rightarrow> 'task multiset" where
  "pc_tasks (Running t) = {#t#}"
| "pc_tasks _ = {#}"

definition running_tasks :: "'task thread_pool \<Rightarrow> 'task multiset" where
  "running_tasks s = (\<Sum>w \<leftarrow> tp_threads s. pc_tasks (w_pc w))"

definition at_pc :: "'task worker_pc \<Rightarrow> 'task thread_pool \<Rightarrow> nat" where
  "at_pc pc s = (\<Sum>w \<leftarrow> tp_threads s. of_bool (w_pc w = pc))"

lemma sum_list_upd:
  fixes f :: "'a \<Rightarrow> 'b :: comm_monoid_add"
  shows "i < length xs \<Longrightarrow> sum_list (map f (xs[i := x])) + f (xs ! i) = sum_list (map f xs) + f x"
proof (induction xs arbitrary: i)
  case (Cons y ys)
  then show ?case by (cases i) (auto simp: ac_simps)
qed simp

lemma running_move:
  assumes "i < length (tp_threads s)"
  shows "running_tasks (worker_move i pc q s) + pc_tasks (w_pc (tp_threads s ! i)) = running_tasks s + pc_tasks pc"
  using sum_list_upd [OF assms, of "\<lambda>w. pc_tasks (w_pc w)" "(tp_threads s ! i)\<lparr>w_pc := pc\<rparr>"]
  by (simp add: running_tasks_def worker_move_def)

lemma at_pc_move:
  assumes "i < length (tp_threads s)"
  shows "at_pc c (worker_move i pc q s) + of_bool (w_pc (tp_threads s ! i) = c) = at_pc c s + of_bool (pc = c)"
  using sum_list_upd [OF assms, of "\<lambda>w. of_bool (w_pc w = c) :: nat" "(tp_threads s ! i)\<lparr>w_pc := pc\<rparr>"]
  by (simp add: at_pc_def worker_move_def)

lemma at_pc_0_iff: "at_pc c s = 0 \<longleftrightarrow> (\<forall>w \<in> set (tp_threads s). w_pc w \<noteq> c)"
  by (auto simp: at_pc_def)

lemma pool_frame [simp]:
  "running_tasks (tp_schedule t s) = running_tasks s" "running_tasks (s\<lparr>tp_notifying := k\<rparr>) = running_tasks s"
  "running_tasks (worker_leaves s) = running_tasks s" "running_tasks (tp_interrupt s) = running_tasks s"
  "at_pc c (tp_schedule t s) = at_pc c s" "at_pc c (s\<lparr>tp_notifying := k\<rparr>) = at_pc c s"
  "at_pc c (worker_leaves s) = at_pc c s" "at_pc c (tp_interrupt s) = at_pc c s"
  by (simp_all add: running_tasks_def at_pc_def tp_schedule_def worker_leaves_def tp_interrupt_def comp_def)

lemma pool_fields [simp]:
  "tp_task_queue (worker_move i pc q s) = q" "tp_notifying (worker_move i pc q s) = tp_notifying s" "tp_deleted (worker_move i pc q s) = tp_deleted s"
  "length (tp_threads (worker_move i pc q s)) = length (tp_threads s)"
  "tp_task_queue (worker_leaves s) = tp_task_queue s" "tp_deleted (worker_leaves s)" "tp_threads (worker_leaves s) = tp_threads s"
  "tp_task_queue (tp_interrupt s) = tp_task_queue s" "tp_notifying (tp_interrupt s) = tp_notifying s" "tp_deleted (tp_interrupt s) = tp_deleted s"
  "length (tp_threads (tp_interrupt s)) = length (tp_threads s)"
  "tp_task_queue (tp_schedule t s) = tp_task_queue s @ [t]" "tp_notifying (tp_schedule t s) = Suc (tp_notifying s)"
  "tp_deleted (tp_schedule t s) = tp_deleted s" "tp_threads (tp_schedule t s) = tp_threads s"
  by (simp_all add: worker_move_def worker_leaves_def tp_interrupt_def tp_schedule_def nq_push_def)

text \<open>The moves of a worker.\<close>

lemma worker_next_cases:
  assumes "worker_next w q = Some (pc, q')"
  obtains "w_pc w = Loop_head" "pc = Popping" "q' = q" "\<not> w_interrupt w"
  | t where "w_pc w = Popping" "pc = Running t" "q = t # q'"
  | "w_pc w = Popping" "pc = Waiting" "q = []" "q' = []" "\<not> w_interrupt w"
  | "w_pc w = Waiting" "pc = Popping" "q' = q" "\<not> w_interrupt w"
  | t where "w_pc w = Running t" "pc = Loop_head" "q' = q"
  using assms by (auto simp: worker_next_def nq_pop_def split: worker_pc.splits if_splits list.splits)

lemma worker_next_None:
  "worker_next w q = None \<longleftrightarrow> w_interrupt w \<and> (w_pc w = Loop_head \<or> w_pc w = Waiting \<or> w_pc w = Popping \<and> q = [])"
  by (auto simp: worker_next_def nq_pop_def split: worker_pc.splits list.splits)

section \<open>Tasks run once, in order\<close>

definition tp_hist :: "'task tp_event list \<Rightarrow> 'task thread_pool \<Rightarrow> bool" where
  "tp_hist evs s \<longleftrightarrow> scheduled evs = taken evs @ tp_task_queue s \<and> mset (taken evs) = mset (finished evs) + running_tasks s"

lemma tp_hist_move:
  assumes "tp_hist evs s" and "i < length (tp_threads s)" and "worker_next (tp_threads s ! i) (tp_task_queue s) = Some (pc, q)"
  shows "tp_hist (evs @ [Move i (w_pc (tp_threads s ! i)) pc]) (worker_move i pc q s)"
  using assms(3)
  by (rule worker_next_cases) (use assms(1) running_move [OF assms(2), of pc q] in \<open>auto simp: tp_hist_def histories_append\<close>)

interpretation tp_hist: history_invariant tp_step tp_hist
proof
  fix evs s ev s' assume inv: "tp_hist evs s" and "tp_step s ev (s' :: 'a thread_pool)"
  from this(2) show "tp_hist (evs @ [ev]) s'"
  proof (cases rule: tp_step.cases)
    case (move i pc q)
    then show ?thesis using tp_hist_move [OF inv move(4,5)] by simp
  next
    case (notify_wakes k i pc q)
    then have "pc = Popping" "q = tp_task_queue s" by (auto elim!: worker_next_cases)
    then show ?thesis using notify_wakes inv running_move [of i "s\<lparr>tp_notifying := k\<rparr>" pc q]
      by (simp add: tp_hist_def histories_append)
  qed (use inv in \<open>auto simp: tp_hist_def histories_append\<close>)
qed

lemma tp_hist_start: "tp_hist [] (tp_run (thread_pool_ctor n))"
proof -
  have "sum_list (replicate k {#}) = {#}" for k by (induction k) simp_all
  then show ?thesis by (simp add: tp_hist_def tp_run_def thread_pool_ctor_def running_tasks_def)
qed

section \<open>No lost wake-up\<close>

text \<open>While a worker waits, every queued task has a notification to come or a worker that will look at the queue.\<close>

definition tp_wakeup :: "'task thread_pool \<Rightarrow> bool" where
  "tp_wakeup s \<longleftrightarrow> tp_deleted s \<or> at_pc Waiting s = 0 \<or> length (tp_task_queue s) \<le> tp_notifying s + at_pc Popping s"

lemma tp_wakeup_move:
  assumes "tp_wakeup s" and "i < length (tp_threads s)" and "worker_next (tp_threads s ! i) (tp_task_queue s) = Some (pc, q)"
  shows "tp_wakeup (worker_move i pc q s)"
  using assms(3)
  by (rule worker_next_cases)
    (use assms(1) at_pc_move [OF assms(2), of Waiting pc q] at_pc_move [OF assms(2), of Popping pc q] in \<open>auto simp: tp_wakeup_def\<close>)

interpretation tp_wakeup: step_invariant tp_step tp_wakeup
proof
  fix s ev s' assume inv: "tp_wakeup s" and "tp_step s ev (s' :: 'a thread_pool)"
  from this(2) show "tp_wakeup s'"
  proof (cases rule: tp_step.cases)
    case (move i pc q)
    then show ?thesis using tp_wakeup_move [OF inv move(4,5)] by simp
  next
    case (notify_wakes k i pc q)
    then have "pc = Popping" "q = tp_task_queue s" by (auto elim!: worker_next_cases)
    then show ?thesis using notify_wakes inv at_pc_move [of i "s\<lparr>tp_notifying := k\<rparr>" Waiting pc q] at_pc_move [of i "s\<lparr>tp_notifying := k\<rparr>" Popping pc q]
      by (auto simp: tp_wakeup_def at_pc_0_iff)
  next
    case (notify_nobody k)
    then show ?thesis by (simp add: tp_wakeup_def at_pc_0_iff)
  qed (use inv in \<open>auto simp: tp_wakeup_def\<close>)
qed

lemma tp_wakeup_start: "tp_wakeup (tp_run (thread_pool_ctor n))"
  by (simp add: tp_wakeup_def tp_run_def thread_pool_ctor_def)

section \<open>Interruption\<close>

fun worker_moves :: "'task tp_event list \<Rightarrow> nat" where
  "worker_moves [] = 0"
| "worker_moves (Move _ _ _ # evs) = Suc (worker_moves evs)"
| "worker_moves (_ # evs) = worker_moves evs"

lemma worker_moves_append: "worker_moves (xs @ ys) = worker_moves xs + worker_moves ys"
  by (induction xs rule: worker_moves.induct) simp_all

definition all_interrupted :: "'task thread_pool \<Rightarrow> bool" where
  "all_interrupted s \<longleftrightarrow> (\<forall>w \<in> set (tp_threads s). w_interrupt w)"

lemma all_interrupted_frame [simp]:
  "all_interrupted (tp_schedule t s) = all_interrupted s" "all_interrupted (s\<lparr>tp_notifying := k\<rparr>) = all_interrupted s"
  "all_interrupted (worker_leaves s) = all_interrupted s" "all_interrupted (tp_interrupt s)"
  by (simp_all add: all_interrupted_def tp_interrupt_def)

text \<open>The moves an interrupted worker can still make.\<close>

fun pc_moves :: "'task worker_pc \<Rightarrow> nat" where
  "pc_moves Popping = 2"
| "pc_moves (Running t) = 1"
| "pc_moves _ = 0"

definition moves_left :: "'task thread_pool \<Rightarrow> nat" where
  "moves_left s = (\<Sum>w \<leftarrow> tp_threads s. pc_moves (w_pc w))"

lemma moves_left_move:
  assumes "i < length (tp_threads s)"
  shows "moves_left (worker_move i pc q s) + pc_moves (w_pc (tp_threads s ! i)) = moves_left s + pc_moves pc"
  using sum_list_upd [OF assms, of "\<lambda>w. pc_moves (w_pc w)" "(tp_threads s ! i)\<lparr>w_pc := pc\<rparr>"]
  by (simp add: moves_left_def worker_move_def)

lemma moves_left_frame [simp]:
  "moves_left (tp_schedule t s) = moves_left s" "moves_left (s\<lparr>tp_notifying := k\<rparr>) = moves_left s"
  "moves_left (worker_leaves s) = moves_left s" "moves_left (tp_interrupt s) = moves_left s"
  by (simp_all add: moves_left_def tp_schedule_def worker_leaves_def tp_interrupt_def comp_def)

lemma moves_left_le: "moves_left s \<le> 2 * length (tp_threads s)"
proof -
  have "pc_moves pc \<le> 2" for pc :: "'a worker_pc" by (cases pc) simp_all
  then show ?thesis unfolding moves_left_def using sum_list_mono [of "tp_threads s" "\<lambda>w. pc_moves (w_pc w)" "\<lambda>_. 2"]
    by (simp add: sum_list_triv)
qed

definition tp_stopping :: "nat \<Rightarrow> nat \<Rightarrow> nat \<Rightarrow> 'task tp_event list \<Rightarrow> 'task thread_pool \<Rightarrow> bool" where
  "tp_stopping n p m evs s \<longleftrightarrow> all_interrupted s \<and> length (tp_threads s) = n \<and>
     length (taken evs) + at_pc Popping s \<le> p \<and> worker_moves evs + moves_left s \<le> m"

lemma all_interrupted_move:
  assumes "all_interrupted s" and "i < length (tp_threads s)"
  shows "all_interrupted (worker_move i pc q s)"
  using assms set_update_subset_insert [of "tp_threads s" i] by (fastforce simp: all_interrupted_def worker_move_def)

lemma tp_stopping_move:
  assumes "tp_stopping n p m evs s" and "i < length (tp_threads s)" and "worker_next (tp_threads s ! i) (tp_task_queue s) = Some (pc, q)"
  shows "tp_stopping n p m (evs @ [Move i (w_pc (tp_threads s ! i)) pc]) (worker_move i pc q s)"
proof -
  have "w_interrupt (tp_threads s ! i)" using assms(1,2) by (simp add: tp_stopping_def all_interrupted_def)
  with assms(3) show ?thesis
    by (elim worker_next_cases)
      (use assms(1) all_interrupted_move [OF _ assms(2), of pc q] at_pc_move [OF assms(2), of Popping pc q] moves_left_move [OF assms(2), of pc q]
        in \<open>auto simp: tp_stopping_def histories_append worker_moves_append\<close>)
qed

interpretation tp_stopping: history_invariant tp_step "tp_stopping n p m"
proof
  fix evs s ev s' assume inv: "tp_stopping n p m evs s" and "tp_step s ev (s' :: 'a thread_pool)"
  from this(2) show "tp_stopping n p m (evs @ [ev]) s'"
  proof (cases rule: tp_step.cases)
    case (move i pc q)
    then show ?thesis using tp_stopping_move [OF inv move(4,5)] by simp
  next
    case (notify_wakes k i pc q)
    then have "w_interrupt (tp_threads s ! i)" using inv by (simp add: tp_stopping_def all_interrupted_def)
    then show ?thesis using notify_wakes(6,7) by (auto elim!: worker_next_cases)
  qed (use inv in \<open>auto simp: tp_stopping_def histories_append worker_moves_append\<close>)
qed

lemma worker_enabled:
  assumes "\<not> tp_deleted s" and "i < length (tp_threads s)"
  shows "\<exists>ev s'. tp_step s ev s' \<and> (ev = Leave i \<or> (\<exists>pc pc'. ev = Move i pc pc'))"
proof (cases "worker_next (tp_threads s ! i) (tp_task_queue s)")
  case None
  then show ?thesis using tp_step.leave [OF assms] by blast
next
  case (Some p)
  then show ?thesis using tp_step.move [OF assms, of "fst p" "snd p"] by (metis prod.collapse)
qed

section \<open>Properties\<close>

text \<open>
  C38. The thread pool: in every interleaving of schedulers, notifications, interruptions and workers, the tasks are taken in the
  order in which they were scheduled, each once and by one worker, and what was taken is finished or running; and until the
  pool is deleted no wake-up is lost: while a worker waits and tasks are queued, a notification is on its way or a worker is
  about to look at the queue.
\<close>

theorem thread_pool_fifo_no_lost_wakeup:
  assumes "run tp_step (tp_run (thread_pool_ctor n)) evs s"
  shows "scheduled evs = taken evs @ tp_task_queue s \<and> mset (taken evs) = mset (finished evs) + running_tasks s \<and>
    (\<not> tp_deleted s \<and> tp_task_queue s \<noteq> [] \<and> at_pc Waiting s \<noteq> 0 \<longrightarrow> tp_notifying s \<noteq> 0 \<or> at_pc Popping s \<noteq> 0)"
proof -
  have "tp_hist evs s" using tp_hist.hinv_run_start [OF assms tp_hist_start] .
  moreover have "tp_wakeup s" using tp_wakeup.invar_run [OF assms tp_wakeup_start] .
  ultimately show ?thesis by (auto simp: tp_hist_def tp_wakeup_def simp flip: length_greater_0_conv)
qed

text \<open>A pool of one worker that waits, is notified and runs a task.\<close>

definition sample_pool :: "nat list \<Rightarrow> nat \<Rightarrow> nat worker_pc \<Rightarrow> bool \<Rightarrow> nat thread_pool" where
  "sample_pool q k pc flag =
     \<lparr>tp_threads_num = 1, tp_task_queue = q, tp_notifying = k, tp_threads = [\<lparr>w_pc = pc, w_interrupt = flag\<rparr>], tp_deleted = False\<rparr>"

lemma sample_pool_simps [simp]:
  "tp_deleted (sample_pool q k pc flag) = False" "tp_threads (sample_pool q k pc flag) = [\<lparr>w_pc = pc, w_interrupt = flag\<rparr>]"
  "tp_task_queue (sample_pool q k pc flag) = q" "tp_notifying (sample_pool q k pc flag) = k"
  "worker_move 0 pc' q' (sample_pool q k pc flag) = sample_pool q' k pc' flag"
  "(sample_pool q k pc flag)\<lparr>tp_notifying := k'\<rparr> = sample_pool q k' pc flag"
  "tp_schedule t (sample_pool q k pc flag) = sample_pool (q @ [t]) (Suc k) pc flag"
  "tp_interrupt (sample_pool q k pc flag) = sample_pool q k pc True"
  by (simp_all add: sample_pool_def worker_move_def tp_schedule_def tp_interrupt_def nq_push_def)

lemma sample_move:
  assumes "worker_next \<lparr>w_pc = pc, w_interrupt = flag\<rparr> q = Some (pc', q')"
  shows "tp_step (sample_pool q k pc flag) (Move 0 pc pc') (sample_pool q' k pc' flag)"
  using tp_step.move [of "sample_pool q k pc flag" 0 pc' q'] assms by simp

lemma sample_pool_run:
  "run tp_step (tp_run (thread_pool_ctor 1)) [Move 0 Loop_head Popping, Move 0 Popping Waiting, Schedule 7, Notify, Move 0 Popping (Running 7)]
     (sample_pool [] 0 (Running 7) False)"
proof -
  note n = worker_next_def nq_pop_def
  have s0: "tp_run (thread_pool_ctor 1) = sample_pool [] 0 Loop_head False"
    by (simp add: tp_run_def thread_pool_ctor_def sample_pool_def)
  have "tp_step (sample_pool [7] 1 Waiting False) Notify (sample_pool [7] 0 Popping False)"
    using tp_step.notify_wakes [of "sample_pool [7] 1 Waiting False" 0 0 Popping "[7]"] by (simp add: n)
  moreover have "tp_step (sample_pool [] 0 Waiting False) (Schedule 7) (sample_pool [7] 1 Waiting False)"
    using tp_step.schedule [of "sample_pool [] 0 Waiting False" 7] by simp
  ultimately show ?thesis unfolding s0
    by (auto simp: run_Cons_iff n intro!: exI sample_move)
qed

theorem thread_pool_fifo_no_lost_wakeup_witness:
  "\<exists>evs s. run tp_step (tp_run (thread_pool_ctor 1)) evs s \<and> scheduled evs = [7 :: nat] \<and> taken evs = [7] \<and> running_tasks s = {#7#}"
  using thread_pool_fifo_no_lost_wakeup [OF sample_pool_run] sample_pool_run by (auto intro!: exI)

text \<open>
  C39. Interrupting the thread pool: afterwards the workers take at most as many tasks as there were workers about to look at the
  queue, and all of them together make at most two moves each, whatever is scheduled in the meantime; a worker can always go on
  or leave, no task is taken once none is looking, and the first worker that leaves deletes the pool, which ends the run.
\<close>

theorem interrupt_stops_pool:
  assumes "run tp_step (tp_interrupt s) evs s'"
  shows "length (taken evs) \<le> at_pc Popping s \<and> worker_moves evs \<le> 2 * length (tp_threads s) \<and>
    (\<not> tp_deleted s' \<longrightarrow> (\<forall>i < length (tp_threads s). \<exists>ev s''. tp_step s' ev s'' \<and> (ev = Leave i \<or> (\<exists>pc pc'. ev = Move i pc pc')))) \<and>
    (\<forall>i s''. tp_step s' (Leave i) s'' \<longrightarrow> tp_deleted s'' \<and> \<not> (\<exists>ev s3. tp_step s'' ev s3))"
proof -
  let ?n = "length (tp_threads s)"
  have "tp_stopping ?n (at_pc Popping s) (moves_left s) [] (tp_interrupt s)" by (simp add: tp_stopping_def)
  from tp_stopping.hinv_run_start [OF assms this] have st: "tp_stopping ?n (at_pc Popping s) (moves_left s) evs s'" .
  have "\<exists>ev s''. tp_step s' ev s'' \<and> (ev = Leave i \<or> (\<exists>pc pc'. ev = Move i pc pc'))" if "\<not> tp_deleted s'" "i < ?n" for i
    using worker_enabled [OF that(1), of i] that(2) st by (simp add: tp_stopping_def)
  moreover have "tp_deleted s''" if "tp_step s' (Leave i) s''" for i s'' using that by (cases rule: tp_step.cases) simp_all
  moreover have "\<not> tp_step s'' ev s3" if "tp_deleted s''" for s'' :: "'a thread_pool" and ev s3 using that by (auto elim: tp_step.cases)
  ultimately show ?thesis using st moves_left_le [of s] by (fastforce simp: tp_stopping_def)
qed

theorem interrupt_stops_pool_witness:
  "\<exists>s evs s'. run tp_step (tp_interrupt s) evs s' \<and> at_pc Popping s = 1 \<and> taken evs = [7 :: nat] \<and> length (taken evs) \<le> at_pc Popping s"
proof -
  have r: "run tp_step (tp_interrupt (sample_pool [7, 8] 0 Popping False)) [Move 0 Popping (Running 7)] (sample_pool [8] 0 (Running 7) True)"
    by (auto simp: run_Cons_iff worker_next_def nq_pop_def intro!: sample_move)
  show ?thesis using interrupt_stops_pool [OF r] r
    by (intro exI [of _ "sample_pool [7, 8] 0 Popping False"] exI) (auto simp: at_pc_def)
qed

text \<open>No worker leaves, and the pool is not deleted, unless it was interrupted.\<close>

lemma no_interrupt_no_delete:
  assumes "run tp_step (tp_run (thread_pool_ctor n)) evs s" and "Interrupt \<notin> set evs"
  shows "\<not> tp_deleted s \<and> (\<forall>w \<in> set (tp_threads s). \<not> w_interrupt w)"
proof -
  have "run tp_step s0 evs s \<Longrightarrow> Interrupt \<notin> set evs \<Longrightarrow> \<not> tp_deleted s0 \<and> (\<forall>w \<in> set (tp_threads s0). \<not> w_interrupt w) \<Longrightarrow> ?thesis" for s0
  proof (induction rule: run.induct)
    case (run_Cons s0 l s1 ls s2)
    have quiet: "\<not> w_interrupt (tp_threads s0 ! i)" if "i < length (tp_threads s0)" for i using run_Cons.prems that by simp
    have "\<not> tp_deleted s1 \<and> (\<forall>w \<in> set (tp_threads s1). \<not> w_interrupt w)"
      using run_Cons.hyps(1)
    proof (cases rule: tp_step.cases)
      case (move i pc q)
      then show ?thesis using run_Cons.prems quiet set_update_subset_insert [of "tp_threads s0" i] by (fastforce simp: worker_move_def)
    next
      case (notify_wakes k i pc q)
      then show ?thesis using run_Cons.prems quiet set_update_subset_insert [of "tp_threads s0" i] by (fastforce simp: worker_move_def)
    qed (use run_Cons.prems quiet in \<open>auto simp: worker_next_None\<close>)
    then show ?case using run_Cons by simp
  qed simp
  then show ?thesis using assms by (simp add: tp_run_def thread_pool_ctor_def)
qed

end
