(* ===== verification/Netserver_Main.thy ===== *)
theory Netserver_Main
  imports Netserver Thread_Pool
begin

text \<open>
  The main program of the network server (\<open>src/netserver/main.cpp\<close>), the blocking echo loop of \<open>server.cpp\<close>, \<open>connection::close\<close>,
  and the link between the two views of the thread pool: the tasks that the workers of \<open>Thread_Pool\<close> run are those that
  \<open>Netserver\<close> lists as running.

  Opening the acceptor and running the \<open>io_service\<close> are arguments; whether they throw is their result.
\<close>

section \<open>Command line\<close>

definition is_space :: "char \<Rightarrow> bool" where
  "is_space c \<longleftrightarrow> (of_char c :: nat) = 32 \<or> (9 \<le> (of_char c :: nat) \<and> (of_char c :: nat) \<le> 13)"

definition is_digit :: "char \<Rightarrow> bool" where
  "is_digit c \<longleftrightarrow> 48 \<le> (of_char c :: nat) \<and> (of_char c :: nat) \<le> 57"

fun digits_value :: "nat \<Rightarrow> string \<Rightarrow> nat" where
  "digits_value acc [] = acc"
| "digits_value acc (c # cs) = (if is_digit c then digits_value (10 * acc + (of_char c - 48)) cs else acc)"

text \<open>\<open>atoi\<close>: white space, a sign, digits, and whatever follows is ignored. The result of a number that does not fit is not defined in C; here it is the number.\<close>

definition atoi :: "string \<Rightarrow> int" where
  "atoi s = (case dropWhile is_space s of
     [] \<Rightarrow> 0
   | c # cs \<Rightarrow> if c = CHR ''-'' then - int (digits_value 0 cs)
       else if c = CHR ''+'' then int (digits_value 0 cs)
       else int (digits_value 0 (c # cs)))"

text \<open>\<open>tcp::endpoint\<close> takes the port as \<open>unsigned short\<close>.\<close>

definition endpoint_port :: "int \<Rightarrow> 16 word" where
  "endpoint_port port_num = word_of_int port_num"

record ns_main_env =
  open_acceptor :: "16 word \<Rightarrow> bool"
  io_service_run :: "netserver \<Rightarrow> bool"

definition netserver_main :: "ns_main_env \<Rightarrow> string list \<Rightarrow> int \<times> string list" where
  "netserver_main env argv =
     (if length argv \<noteq> 2 then (1, [''Usage: netserver <port>''])
      else
       let port_number = atoi (argv ! 1) in
       if \<not> open_acceptor env (endpoint_port port_number) then (1, [''Exception''])
       else if \<not> io_service_run env (server_run (server_ctor 4)) then (1, [''Exception''])
       else (0, []))"

lemma char_digit: "d < 10 \<Longrightarrow> (of_char (char_of (d + 48)) :: nat) = d + 48"
  by simp

lemma digits_value_append:
  "\<forall>c \<in> set cs. is_digit c \<Longrightarrow> digits_value acc (cs @ [c]) = (if is_digit c then 10 * digits_value acc cs + (of_char c - 48) else digits_value acc cs)"
  by (induction cs arbitrary: acc) auto

lemma digits_value_low_digits:
  "(\<forall>c \<in> set (rev (map (\<lambda>d. char_of (d + 48)) (low_digits n))). is_digit c) \<and>
   digits_value 0 (rev (map (\<lambda>d. char_of (d + 48)) (low_digits n))) = n"
proof (induction n rule: low_digits.induct)
  case (1 n)
  have d: "is_digit (char_of (n mod 10 + 48))" "(of_char (char_of (n mod 10 + 48)) :: nat) = n mod 10 + 48"
    using char_digit [of "n mod 10"] by (auto simp: is_digit_def)
  show ?case
  proof (cases "n < 10")
    case True
    then show ?thesis using d by (simp add: low_digits.simps [of n])
  next
    case False
    then have IH: "\<forall>c \<in> set (rev (map (\<lambda>d. char_of (d + 48)) (low_digits (n div 10)))). is_digit c"
      "digits_value 0 (rev (map (\<lambda>d. char_of (d + 48)) (low_digits (n div 10)))) = n div 10" using 1 by simp_all
    show ?thesis unfolding low_digits.simps [of n]
      using False d digits_value_append [OF IH(1), of 0] IH by simp
  qed
qed

text \<open>A port given in decimal is the port that is opened, modulo 65536.\<close>

lemma atoi_decimal: "atoi (decimal n) = int n"
proof -
  have v: "digits_value 0 (decimal n) = n" and dig: "\<forall>c \<in> set (decimal n). is_digit c"
    using digits_value_low_digits [of n] by (simp_all add: decimal_def)
  have "decimal n \<noteq> []" by (simp add: decimal_def low_digits.simps [of n])
  then obtain c cs where c: "decimal n = c # cs" by (cases "decimal n") auto
  then have "is_digit c" using dig by simp
  then have "\<not> is_space c" "c \<noteq> CHR ''-''" "c \<noteq> CHR ''+''" by (auto simp: is_digit_def is_space_def)
  then show ?thesis using v c by (simp add: atoi_def)
qed

lemma netserver_main_exit:
  assumes "netserver_main env argv = (code, err)"
  shows "code = (if length argv = 2 \<and> open_acceptor env (endpoint_port (atoi (argv ! 1))) \<and> io_service_run env (server_run (server_ctor 4)) then 0 else 1)"
    and "err = [] \<longleftrightarrow> code = 0"
  using assms by (auto simp: netserver_main_def Let_def split: if_splits)

text \<open>A port beyond 65535 silently opens another one.\<close>

lemma port_truncated: "endpoint_port (atoi ''65616'') = endpoint_port (atoi ''80'')"
  by (simp add: atoi_def is_space_def is_digit_def endpoint_port_def)

section \<open>The blocking echo loop\<close>

datatype sock_read = Read_some "u8 list" | Read_eof | Read_error

text \<open>
  \<open>f\<close> of \<open>server.cpp\<close>, on the results of \<open>read_some\<close> and, for every block, whether \<open>write\<close> succeeded; \<open>None\<close> while it still waits
  for the next result.
\<close>

fun blocking_echo :: "(sock_read \<times> bool) list \<Rightarrow> u8 list \<Rightarrow> u8 list res option" where
  "blocking_echo [] wire = None"
| "blocking_echo ((Read_eof, _) # rs) wire = Some (Inr wire)"
| "blocking_echo ((Read_error, _) # rs) wire = Some (Inl Runtime_error)"
| "blocking_echo ((Read_some bs, sent) # rs) wire = (if sent then blocking_echo rs (wire @ bs) else Some (Inl Runtime_error))"

lemma blocking_echo_blocks:
  "blocking_echo (map (\<lambda>bs. (Read_some bs, True)) blocks @ (Read_eof, b) # rs) wire = Some (Inr (wire @ concat blocks))"
  "blocking_echo (map (\<lambda>bs. (Read_some bs, True)) blocks @ (Read_error, b) # rs) wire = Some (Inl Runtime_error)"
  "blocking_echo (map (\<lambda>bs. (Read_some bs, True)) blocks) wire = None"
  by (induction blocks arbitrary: wire) simp_all

section \<open>Closing a connection\<close>

text \<open>\<open>socket.close()\<close>: the reads that are pending on the socket complete with an error.\<close>

definition conn_close :: "nat \<Rightarrow> netserver \<Rightarrow> netserver" where
  "conn_close c s =
     fold (\<lambda>d. handle_read d True []) (filter (\<lambda>d. d = c) (ns_reading s)) (s\<lparr>ns_reading := filter (\<lambda>d. d \<noteq> c) (ns_reading s)\<rparr>)"

lemma conn_close_quiet: "conn_close c s = s\<lparr>ns_reading := filter (\<lambda>d. d \<noteq> c) (ns_reading s)\<rparr>"
proof -
  have "fold (\<lambda>d. handle_read d True []) ds s' = s'" for ds s' by (induction ds) (simp_all add: handle_read_def)
  then show ?thesis by (simp add: conn_close_def)
qed

text \<open>Closing keeps what the join points of the echo server rely on.\<close>

lemma conn_close_joins: "joins_inv s \<Longrightarrow> joins_inv (conn_close c s)"
  by (rule joins_inv_cong) (simp_all add: conn_close_quiet outstanding_def)

section \<open>The pool of the server\<close>

lemma size_running: "size (running_tasks s) \<le> length (tp_threads s)"
proof -
  have one: "size (pc_tasks pc) \<le> 1" for pc :: "'a worker_pc" by (cases pc) simp_all
  have "size (\<Sum>w \<leftarrow> ws. pc_tasks (w_pc w)) \<le> length ws" for ws :: "'a pool_worker list"
  proof (induction ws)
    case (Cons w ws)
    then show ?case using one [of "w_pc w"] by simp
  qed simp
  then show ?thesis by (simp add: running_tasks_def)
qed

text \<open>A worker that takes a task does what \<open>take_task\<close> of the server allows: it takes the first one, and not all workers were busy.\<close>

lemma pool_takes:
  assumes "tp_step s (Move i pc (Running t)) s'"
  shows "nq_pop (tp_task_queue s) = Some (t, tp_task_queue s') \<and> size (running_tasks s) < length (tp_threads s) \<and>
    running_tasks s' = add_mset t (running_tasks s)"
  using assms
proof (cases rule: tp_step.cases)
  case (move q)
  then have *: "w_pc (tp_threads s ! i) = Popping" "tp_task_queue s = t # q" by (auto elim: worker_next_cases)
  have r: "running_tasks s' = add_mset t (running_tasks s)" using running_move [OF move(4), of "Running t" q] move(2) * by simp
  have "length (tp_threads s') = length (tp_threads s)" using move(2) by simp
  then have "size (running_tasks s) < length (tp_threads s)" using size_running [of s'] r by simp
  then show ?thesis using r * move(2) by (simp add: nq_pop_def)
qed

end
