(* ===== verification/Diagnostics.thy ===== *)
theory Diagnostics
  imports Coh_Prelude
begin

text \<open>
  \<open>src/log/log.cpp\<close>, \<open>src/debug/stacktrace.cpp\<close> and \<open>src/debug/common.cpp\<close>: the logger's name for the current function,
  stack traces and the handlers for fatal signals.

  \<^item> A C string is the list of its characters without the final NUL, so reading one past the list
    reads the NUL. A char array is the list of the characters written so far with its capacity;
    a write at or past the capacity is \<open>Bad_access\<close>.
  \<^item> The compiler's \<open>__builtin_return_address\<close> and \<open>__builtin_frame_address\<close>, \<open>dladdr\<close>, the text of a pointer and \<open>sigaction\<close> are
    parameters. A fault while reading a frame raises \<open>SIGSEGV\<close> or \<open>SIGBUS\<close>, whose handler jumps to the \<open>setjmp\<close>.
\<close>

section \<open>The name of the current function\<close>

definition put_at :: "nat \<Rightarrow> nat \<Rightarrow> char \<Rightarrow> string \<Rightarrow> string res" where
  "put_at cap i c out = (if i < cap then Inr (take i out @ c # drop (Suc i) out) else Inl Bad_access)"

fun pf_loop :: "nat \<Rightarrow> string \<Rightarrow> string \<Rightarrow> nat \<Rightarrow> nat \<Rightarrow> nat \<Rightarrow> string res" where
  "pf_loop cap [] out out_off in_templ last_off = Inl C_assert"
| "pf_loop cap (c # s) out out_off in_templ last_off =
     (if c = CHR ''('' then put_at cap last_off (CHR 0x00) out
      else if in_templ \<noteq> 0 then
        (if c = CHR ''<'' then pf_loop cap s out out_off (in_templ + 1) last_off
         else if c = CHR ''>'' then pf_loop cap s out out_off (in_templ - 1) last_off
         else pf_loop cap s out out_off in_templ last_off)
      else if c = CHR ''<'' then pf_loop cap s out out_off (in_templ + 1) last_off
      else if c = CHR '':'' then
        bind_res (put_at cap out_off (CHR ''.'') out) (\<lambda>out.
          case s of
            d # s' \<Rightarrow> if d = CHR '':'' then pf_loop cap s' out (out_off + 1) in_templ out_off else Inl C_assert
          | [] \<Rightarrow> Inl C_assert)
      else if c = CHR '' '' then pf_loop cap s out 0 in_templ 0
      else bind_res (put_at cap out_off c out) (\<lambda>out. pf_loop cap s out (out_off + 1) in_templ last_off))"

definition c_str :: "string \<Rightarrow> string" where
  "c_str arr = takeWhile (\<lambda>c. c \<noteq> CHR 0x00) arr"

definition convert_pretty_function :: "nat \<Rightarrow> string \<Rightarrow> string res" where
  "convert_pretty_function cap s = bind_res (pf_loop cap s [] 0 0 0) (\<lambda>out. Inr (c_str out))"

text \<open>The array that \<open>LOG\<close> passes.\<close>

definition log_pf_buf_size :: nat where
  "log_pf_buf_size = 131072"

section \<open>Stack traces\<close>

text \<open>
  What the compiler's builtins give for a level: a fault, or the pointer (0 is null). The walk
  \<open>stacktrace_internal\<close> of systems without \<open>backtrace\<close> stores the return addresses and stops at the first
  level that is out of the array, null or faults; \<open>one_return_address\<close> is the macro.
\<close>

record stack_view =
  sv_return_address :: "nat \<Rightarrow> nat option"
  sv_frame_address :: "nat \<Rightarrow> nat option"

datatype walk = Go_on "nat list" | Stopped "nat list"

definition one_return_address :: "stack_view \<Rightarrow> nat \<Rightarrow> nat \<Rightarrow> nat list \<Rightarrow> walk" where
  "one_return_address sv sz x tb =
     (if x \<ge> sz then Stopped tb
      else case sv_return_address sv x of
        None \<Rightarrow> Stopped tb
      | Some a \<Rightarrow> (case sv_frame_address sv x of
          None \<Rightarrow> Stopped (tb[x := a])
        | Some frame \<Rightarrow> if a = 0 \<or> frame = 0 then Stopped (tb[x := 0]) else Go_on (tb[x := a])))"

fun walk_levels :: "stack_view \<Rightarrow> nat \<Rightarrow> nat list \<Rightarrow> nat list \<Rightarrow> walk" where
  "walk_levels sv sz [] tb = Go_on tb"
| "walk_levels sv sz (x # xs) tb =
     (case one_return_address sv sz x tb of Stopped tb \<Rightarrow> Stopped tb | Go_on tb \<Rightarrow> walk_levels sv sz xs tb)"

partial_function (option) walk_loop :: "stack_view \<Rightarrow> nat \<Rightarrow> nat list \<Rightarrow> nat list option" where
  "walk_loop sv sz tb =
     (case walk_levels sv sz [0..<40] tb of Stopped tb \<Rightarrow> Some tb | Go_on tb \<Rightarrow> walk_loop sv sz tb)"

definition stacktrace_internal :: "stack_view \<Rightarrow> nat \<Rightarrow> nat list option" where
  "stacktrace_internal sv sz =
     map_option (takeWhile (\<lambda>a. a \<noteq> 0)) (walk_loop sv sz (replicate sz 0))"

text \<open>
  \<open>dladdr\<close> finds no object (\<open>None\<close>), or an object with or without the name of a symbol; inserting a
  null name into a stream is an access through a null pointer.
\<close>

definition stack_line :: "(nat \<Rightarrow> string option option) \<Rightarrow> (nat \<Rightarrow> string) \<Rightarrow> nat \<Rightarrow> string res" where
  "stack_line dladdr show_ptr adr = (case dladdr adr of
     None \<Rightarrow> Inr (show_ptr adr)
   | Some None \<Rightarrow> Inl Bad_access
   | Some (Some dli_sname) \<Rightarrow> Inr (dli_sname @ '' ('' @ show_ptr adr @ '')''))"

fun stack_lines :: "(nat \<Rightarrow> string option option) \<Rightarrow> (nat \<Rightarrow> string) \<Rightarrow> nat list \<Rightarrow> string list res" where
  "stack_lines dladdr show_ptr [] = Inr []"
| "stack_lines dladdr show_ptr (adr # adrs) =
     bind_res (stack_line dladdr show_ptr adr) (\<lambda>l. bind_res (stack_lines dladdr show_ptr adrs) (\<lambda>ls. Inr (l # ls)))"

definition stacktrace :: "(nat \<Rightarrow> string option option) \<Rightarrow> (nat \<Rightarrow> string) \<Rightarrow> nat list \<Rightarrow> string list res" where
  "stacktrace dladdr show_ptr adrs =
     bind_res (stack_lines dladdr show_ptr adrs) (\<lambda>res. Inr (if res = [] then [''(backtrace not available)''] else res))"

fun join_lines :: "string list \<Rightarrow> string" where
  "join_lines [] = []"
| "join_lines [l] = l"
| "join_lines (l # ls) = l @ CHR 0x0A # join_lines ls"

definition stacktrace_as_string :: "(nat \<Rightarrow> string option option) \<Rightarrow> (nat \<Rightarrow> string) \<Rightarrow> nat list \<Rightarrow> string res" where
  "stacktrace_as_string dladdr show_ptr adrs = bind_res (stacktrace dladdr show_ptr adrs) (\<lambda>ls. Inr (join_lines ls))"

section \<open>Signal handlers\<close>

datatype signal =
    SIGHUP | SIGILL | SIGINT | SIGQUIT | SIGFPE | SIGSEGV | SIGPIPE | SIGALRM | SIGTERM | SIGUSR1 | SIGUSR2 | SIGBUS
  | SIGPROF | SIGSYS | SIGTRAP | SIGVTALRM | SIGXCPU | SIGXFSZ | SIGCHLD | SIGKILL

datatype disposition = Default_action | Signal_hndlr

record process_handlers =
  ph_terminate :: bool
  ph_unexpected :: bool
  ph_signals :: "signal \<Rightarrow> disposition"

definition affected_signals :: "signal list" where
  "affected_signals = [SIGHUP, SIGILL, SIGINT, SIGQUIT, SIGFPE, SIGSEGV, SIGPIPE, SIGALRM, SIGTERM, SIGUSR1, SIGUSR2, SIGBUS,
     SIGPROF, SIGSYS, SIGTRAP, SIGVTALRM, SIGXCPU, SIGXFSZ]"

text \<open>\<open>sigaction\<close> succeeds or leaves the disposition as it was; a failure is only logged.\<close>

fun set_signals :: "(signal \<Rightarrow> bool) \<Rightarrow> signal list \<Rightarrow> process_handlers \<Rightarrow> process_handlers" where
  "set_signals sigaction_ok [] p = p"
| "set_signals sigaction_ok (g # gs) p =
     set_signals sigaction_ok gs (if sigaction_ok g then p\<lparr>ph_signals := (ph_signals p)(g := Signal_hndlr)\<rparr> else p)"

text \<open>\<open>abort\<close> when the levels of the logger do not exist yet.\<close>

definition set_terminate_handler :: "bool \<Rightarrow> (signal \<Rightarrow> bool) \<Rightarrow> process_handlers \<Rightarrow> process_handlers res" where
  "set_terminate_handler log_ready sigaction_ok p =
     (let p = p\<lparr>ph_terminate := True, ph_unexpected := True\<rparr> in
      if \<not> log_ready then Inl C_assert else Inr (set_signals sigaction_ok affected_signals p))"

text \<open>A delivered signal: \<open>SA_RESETHAND\<close> restores the default action, then the handler fails its assertion.\<close>

definition deliver_signal :: "signal \<Rightarrow> process_handlers \<Rightarrow> process_handlers \<times> unit res option" where
  "deliver_signal g p = (case ph_signals p g of
     Default_action \<Rightarrow> (p, None)
   | Signal_hndlr \<Rightarrow> (p\<lparr>ph_signals := (ph_signals p)(g := Default_action)\<rparr>, Some (r_assert False (Inr ()))))"

section \<open>Function names\<close>

text \<open>
  The shape of \<open>__PRETTY_FUNCTION__\<close>: words separated by blanks, the last one followed by the argument list; a word is a path of
  components separated by \<open>::\<close>, and a component consists of plain text and of template arguments. The name of an
  operator may end in \<open><\<close> signs.
\<close>

datatype piece = Txt string | Targs string

type_synonym component = "piece list"

fun nested :: "nat \<Rightarrow> string \<Rightarrow> nat option" where
  "nested d [] = Some d"
| "nested d (c # s) =
     (if c = CHR ''('' then None
      else if c = CHR ''<'' then nested (d + 1) s
      else if c = CHR ''>'' then (if d \<le> 1 then None else nested (d - 1) s)
      else nested d s)"

fun piece_ok :: "piece \<Rightarrow> bool" where
  "piece_ok (Txt t) \<longleftrightarrow> (\<forall>c \<in> set t. c \<notin> {CHR ''('', CHR ''<'', CHR '':'', CHR '' '', CHR 0x00})"
| "piece_ok (Targs t) \<longleftrightarrow> nested 1 t = Some 1"

fun render_piece :: "piece \<Rightarrow> string" where
  "render_piece (Txt t) = t"
| "render_piece (Targs t) = ''<'' @ t @ ''>''"

fun plain_piece :: "piece \<Rightarrow> string" where
  "plain_piece (Txt t) = t"
| "plain_piece (Targs t) = []"

definition render_comp :: "component \<Rightarrow> string" where
  "render_comp c = concat (map render_piece c)"

definition plain_comp :: "component \<Rightarrow> string" where
  "plain_comp c = concat (map plain_piece c)"

fun join_with :: "string \<Rightarrow> string list \<Rightarrow> string" where
  "join_with sep [] = []"
| "join_with sep [x] = x"
| "join_with sep (x # xs) = x @ sep @ join_with sep xs"

definition render_path :: "component list \<Rightarrow> string" where
  "render_path p = join_with ''::'' (map render_comp p)"

definition plain_path :: "component list \<Rightarrow> string" where
  "plain_path p = join_with ''.'' (map plain_comp p)"

definition pretty_function :: "component list list \<Rightarrow> component list \<Rightarrow> nat \<Rightarrow> string \<Rightarrow> string" where
  "pretty_function ws p k args = concat (map (\<lambda>w. render_path w @ '' '') ws) @ render_path p @ replicate k (CHR ''<'') @ ''('' @ args"

definition path_ok :: "component list \<Rightarrow> bool" where
  "path_ok p \<longleftrightarrow> (\<forall>c \<in> set p. \<forall>x \<in> set c. piece_ok x)"

lemma put_at_end: "length d < cap \<Longrightarrow> put_at cap (length d) c (d @ e) = Inr ((d @ [c]) @ drop 1 e)"
  by (simp add: put_at_def)

lemma pf_txt:
  "(\<forall>c \<in> set t. c \<notin> {CHR ''('', CHR ''<'', CHR '':'', CHR '' '', CHR 0x00}) \<Longrightarrow> length d + length t \<le> cap \<Longrightarrow>
   \<exists>e'. pf_loop cap (t @ s) (d @ e) (length d) 0 l = pf_loop cap s ((d @ t) @ e') (length (d @ t)) 0 l"
proof (induction t arbitrary: d e)
  case (Cons c t)
  have "pf_loop cap ((c # t) @ s) (d @ e) (length d) 0 l = pf_loop cap (t @ s) ((d @ [c]) @ drop 1 e) (length (d @ [c])) 0 l"
    using Cons.prems by (simp add: put_at_end)
  then show ?case using Cons.IH [of "d @ [c]" "drop 1 e"] Cons.prems by auto
qed auto

lemma pf_nested:
  "nested d t = Some k \<Longrightarrow> d \<noteq> 0 \<Longrightarrow> pf_loop cap (t @ s) out off d l = pf_loop cap s out off k l \<and> k \<noteq> 0"
proof (induction t arbitrary: d)
  case (Cons c t)
  then show ?case by (auto split: if_splits)
qed simp

lemma pf_piece:
  assumes "piece_ok x" and "length d + length (render_piece x) \<le> cap"
  shows "\<exists>e'. pf_loop cap (render_piece x @ s) (d @ e) (length d) 0 l =
    pf_loop cap s ((d @ plain_piece x) @ e') (length (d @ plain_piece x)) 0 l"
proof (cases x)
  case (Targs t)
  then have "nested 1 t = Some 1" using assms(1) by simp
  from pf_nested [OF this, of cap "CHR ''>'' # s"] show ?thesis using Targs by auto
qed (use assms pf_txt in auto)

lemma pf_comp:
  "\<forall>x \<in> set c. piece_ok x \<Longrightarrow> length d + length (render_comp c) \<le> cap \<Longrightarrow>
   \<exists>e'. pf_loop cap (render_comp c @ s) (d @ e) (length d) 0 l =
     pf_loop cap s ((d @ plain_comp c) @ e') (length (d @ plain_comp c)) 0 l"
proof (induction c arbitrary: d e)
  case (Cons x c)
  obtain e1 where e1: "pf_loop cap (render_piece x @ render_comp c @ s) (d @ e) (length d) 0 l =
      pf_loop cap (render_comp c @ s) ((d @ plain_piece x) @ e1) (length (d @ plain_piece x)) 0 l"
    using pf_piece [of x d cap "render_comp c @ s" e l] Cons.prems by (auto simp: render_comp_def)
  have "length (plain_piece x) \<le> length (render_piece x)" by (cases x) simp_all
  then show ?case
    using Cons.IH [of "d @ plain_piece x" e1] Cons.prems e1 by (auto simp: render_comp_def plain_comp_def)
qed (auto simp: render_comp_def plain_comp_def)

lemma plain_le_render: "length (plain_comp c) \<le> length (render_comp c)"
proof -
  have "length (plain_piece x) \<le> length (render_piece x)" for x by (cases x) simp_all
  then show ?thesis unfolding plain_comp_def render_comp_def by (induction c) (simp_all add: add_mono)
qed

lemma path_simps [simp]:
  "render_path [c] = render_comp c" "plain_path [c] = plain_comp c" "plain_path [] = []"
  "render_path (c # c' # p) = render_comp c @ ''::'' @ render_path (c' # p)"
  "plain_path (c # c' # p) = plain_comp c @ ''.'' @ plain_path (c' # p)"
  by (simp_all add: render_path_def plain_path_def)

text \<open>A path is copied with dots, and \<open>last_off\<close> is the place of the last dot.\<close>

lemma pf_path:
  "path_ok p \<Longrightarrow> p \<noteq> [] \<Longrightarrow> length d + length (render_path p) \<le> cap \<Longrightarrow>
   \<exists>e'. pf_loop cap (render_path p @ s) (d @ e) (length d) 0 l =
     pf_loop cap s ((d @ plain_path p) @ e') (length (d @ plain_path p)) 0
       (if length p = 1 then l else length (d @ plain_path (butlast p)))"
proof (induction p arbitrary: d e l rule: induct_list012)
  case (2 c)
  then show ?case using pf_comp [of c d cap s e l] by (simp add: path_ok_def)
next
  case (3 c c' p)
  let ?q = "c' # p"
  define d' where "d' = d @ plain_comp c @ ''.''"
  note le = plain_le_render [of c]
  obtain e1 where e1: "pf_loop cap (render_comp c @ ''::'' @ render_path ?q @ s) (d @ e) (length d) 0 l =
      pf_loop cap (''::'' @ render_path ?q @ s) ((d @ plain_comp c) @ e1) (length (d @ plain_comp c)) 0 l"
    using pf_comp [of c d cap "''::'' @ render_path ?q @ s" e l] "3.prems" by (auto simp: path_ok_def)
  have "length (d @ plain_comp c) < cap" using "3.prems"(3) le by simp
  then have e2: "pf_loop cap (''::'' @ render_path ?q @ s) ((d @ plain_comp c) @ e1) (length (d @ plain_comp c)) 0 l =
      pf_loop cap (render_path ?q @ s) (d' @ drop 1 e1) (length d') 0 (length (d @ plain_comp c))"
    using put_at_end [of "d @ plain_comp c" cap "CHR ''.''" e1] by (simp add: d'_def)
  obtain e3 where e3: "pf_loop cap (render_path ?q @ s) (d' @ drop 1 e1) (length d') 0 (length (d @ plain_comp c)) =
      pf_loop cap s ((d' @ plain_path ?q) @ e3) (length (d' @ plain_path ?q)) 0
       (if length ?q = 1 then length (d @ plain_comp c) else length (d' @ plain_path (butlast ?q)))"
    using "3.IH"(2) [of d' "drop 1 e1" "length (d @ plain_comp c)"] "3.prems" le by (auto simp: path_ok_def d'_def)
  have "pf_loop cap (render_path (c # ?q) @ s) (d @ e) (length d) 0 l =
      pf_loop cap s ((d @ plain_path (c # ?q)) @ e3) (length (d @ plain_path (c # ?q))) 0 (length (d @ plain_path (butlast (c # ?q))))"
    using e1 e2 e3 by (cases p) (simp_all add: d'_def)
  then show ?case by auto
qed simp

text \<open>The words before the last one leave nothing but what they wrote into the array.\<close>

lemma pf_words:
  "\<forall>w \<in> set ws. path_ok w \<and> w \<noteq> [] \<and> length (render_path w) \<le> cap \<Longrightarrow>
   \<exists>e'. pf_loop cap (concat (map (\<lambda>w. render_path w @ '' '') ws) @ s) e 0 0 0 = pf_loop cap s e' 0 0 0"
proof (induction ws arbitrary: e)
  case (Cons w ws)
  obtain e1 l where "pf_loop cap (render_path w @ '' '' @ concat (map (\<lambda>w. render_path w @ '' '') ws) @ s) e 0 0 0 =
      pf_loop cap ('' '' @ concat (map (\<lambda>w. render_path w @ '' '') ws) @ s) e1 (length (plain_path w)) 0 l"
    using pf_path [of w "[]" cap "'' '' @ concat (map (\<lambda>w. render_path w @ '' '') ws) @ s" e 0] Cons.prems by auto
  then show ?case using Cons.IH [of e1] Cons.prems by auto
qed auto

lemma pf_operator: "pf_loop cap (replicate k (CHR ''<'') @ ''('' @ args) out off j l = put_at cap l (CHR 0x00) out"
  by (induction k arbitrary: j) auto

lemma piece_no_nul: "piece_ok x \<Longrightarrow> c \<in> set (plain_piece x) \<Longrightarrow> c \<noteq> CHR 0x00"
  by (cases x) auto

lemma plain_no_nul: "path_ok p \<Longrightarrow> c \<in> set (plain_path p) \<Longrightarrow> c \<noteq> CHR 0x00"
proof (induction p rule: induct_list012)
  case (2 x)
  then show ?case by (force simp: path_ok_def plain_comp_def dest: piece_no_nul)
next
  case (3 x y p)
  then show ?case by (force simp: path_ok_def plain_comp_def dest: piece_no_nul)
qed simp

lemma take_plain_path: "p \<noteq> [] \<Longrightarrow> take (if length p = 1 then 0 else length (plain_path (butlast p))) (plain_path p @ e) = plain_path (butlast p)"
proof (induction p rule: induct_list012)
  case (3 c c' p)
  then show ?case by (cases p) auto
qed simp_all

lemma plain_path_le: "length (plain_path p) \<le> length (render_path p)"
proof (induction p rule: induct_list012)
  case (2 c)
  then show ?case by (simp add: plain_le_render)
next
  case (3 c c' p)
  then show ?case using plain_le_render [of c] by simp
qed (simp add: render_path_def)

lemma butlast_path_le: "length (plain_path (butlast p)) \<le> length (plain_path p)"
proof (induction p rule: induct_list012)
  case (3 c c' p)
  then show ?case by (cases p) auto
qed simp_all

lemma words_fit: "w \<in> set ws \<Longrightarrow> length (render_path w) \<le> length (concat (map (\<lambda>w. render_path w @ '' '') ws))"
  by (induction ws) auto

text \<open>No string makes the conversion write past an array that is longer than the string.\<close>

lemma pf_safe: "out_off + length s < cap \<Longrightarrow> last_off \<le> out_off \<Longrightarrow> pf_loop cap s out out_off in_templ last_off \<noteq> Inl Bad_access"
proof (induction cap s out out_off in_templ last_off rule: pf_loop.induct)
  case (2 cap c s out out_off in_templ last_off)
  then show ?case by (auto simp: put_at_def res_simps split: list.splits)
qed simp

text \<open>A parenthesis in a template argument ends the scan early: the class is lost.\<close>

lemma paren_in_template_argument: "convert_pretty_function 100 ''void a::b<int ()>::f()'' = Inr ''a''"
  by (simp add: convert_pretty_function_def put_at_def c_str_def)

section \<open>The walk\<close>

definition stops :: "stack_view \<Rightarrow> nat \<Rightarrow> nat \<Rightarrow> bool" where
  "stops sv sz x \<longleftrightarrow> sz \<le> x \<or> sv_return_address sv x \<in> {None, Some 0} \<or> sv_frame_address sv x \<in> {None, Some 0}"

text \<open>The addresses of the first \<open>k\<close> levels in an array of \<open>sz\<close> elements.\<close>

definition walked :: "stack_view \<Rightarrow> nat \<Rightarrow> nat list" where
  "walked sv k = map (\<lambda>x. the (sv_return_address sv x)) [0..<k]"

text \<open>The level the walk stops at still counts when only its frame address faults.\<close>

definition last_level :: "stack_view \<Rightarrow> nat \<Rightarrow> nat \<Rightarrow> nat list" where
  "last_level sv sz m = (if m < sz \<and> sv_return_address sv m \<notin> {None, Some 0} \<and> sv_frame_address sv m = None
     then [the (sv_return_address sv m)] else [])"

lemma walk_one:
  assumes "\<not> stops sv sz k"
  shows "one_return_address sv sz k (walked sv k @ replicate (sz - k) 0) = Go_on (walked sv (Suc k) @ replicate (sz - Suc k) 0)"
proof -
  have "replicate (sz - k) (0 :: nat) = 0 # replicate (sz - Suc k) 0" using assms by (simp add: stops_def Suc_diff_Suc flip: replicate_Suc)
  then show ?thesis using assms by (auto simp: stops_def one_return_address_def walked_def list_update_append)
qed

lemma walk_last:
  assumes "stops sv sz m"
  shows "\<exists>z. one_return_address sv sz m (walked sv m @ replicate (sz - m) 0) = Stopped (walked sv m @ last_level sv sz m @ replicate z 0)"
proof (cases "m < sz")
  case True
  then have r: "replicate (sz - m) (0 :: nat) = 0 # replicate (sz - Suc m) 0" by (simp add: Suc_diff_Suc flip: replicate_Suc)
  have "\<exists>z. 0 # replicate (sz - Suc m) (0 :: nat) = replicate z 0" by (rule exI [of _ "Suc (sz - Suc m)"]) simp
  then show ?thesis unfolding r using assms True
    by (cases "sv_return_address sv m"; cases "sv_frame_address sv m")
      (auto simp: stops_def one_return_address_def walked_def list_update_append last_level_def simp del: replicate_Suc)
next
  case False
  then have "sz - m = 0" by simp
  then show ?thesis using False by (auto simp: one_return_address_def last_level_def intro: exI [of _ 0])
qed

lemma walk_levels_stop:
  "(\<forall>x < m. \<not> stops sv sz x) \<Longrightarrow> stops sv sz m \<Longrightarrow> m < n \<Longrightarrow> k \<le> m \<Longrightarrow>
   \<exists>z. walk_levels sv sz [k..<n] (walked sv k @ replicate (sz - k) 0) = Stopped (walked sv m @ last_level sv sz m @ replicate z 0)"
proof (induction "m - k" arbitrary: k)
  case 0
  then have "k = m" by simp
  then show ?case using walk_last [OF "0.prems"(2)] "0.prems"(3) by (auto simp: upt_conv_Cons)
next
  case (Suc d)
  then have "k < m" by linarith
  then show ?case using walk_one [of sv sz k] Suc.hyps(1) [of "Suc k"] Suc.hyps(2) Suc.prems by (simp add: upt_conv_Cons)
qed

lemma walk_levels_all: "\<forall>x \<in> set xs. \<not> stops sv sz x \<Longrightarrow> \<exists>tb'. walk_levels sv sz xs tb = Go_on tb'"
  by (induction xs arbitrary: tb) (fastforce simp: stops_def one_return_address_def split: option.splits)+

lemma walk_loop_diverges:
  assumes "walk_loop sv sz tb = Some y"
  shows "\<exists>x < 40. stops sv sz x"
proof (rule walk_loop.raw_induct [where P = "\<lambda>sv sz tb y. \<exists>x < 40. stops sv sz x", OF _ assms])
  fix f sv sz tb y
  assume IH: "\<And>sv sz tb y. f sv sz tb = Some y \<Longrightarrow> \<exists>x < 40. stops sv sz x"
    and y: "(case walk_levels sv sz [0..<40] tb of Go_on tb \<Rightarrow> f sv sz tb | Stopped tb \<Rightarrow> Some tb) = Some y"
  show "\<exists>x < 40. stops sv sz x"
  proof (rule ccontr)
    assume n: "\<not> (\<exists>x < 40. stops sv sz x)"
    then obtain tb' where "walk_levels sv sz [0..<40] tb = Go_on tb'"
      using walk_levels_all [of "[0..<40]" sv sz tb] by auto
    then show False using y IH n by auto
  qed
qed

lemma stacktrace_internal_stops:
  assumes "\<forall>x < m. \<not> stops sv sz x" and "stops sv sz m" and "m < 40"
  shows "stacktrace_internal sv sz = Some (walked sv m @ last_level sv sz m)"
proof -
  obtain z where z: "walk_levels sv sz [0..<40] (replicate sz 0) = Stopped (walked sv m @ last_level sv sz m @ replicate z 0)"
    using walk_levels_stop [OF assms(1-3), of 0] by (auto simp: walked_def)
  have "\<forall>a \<in> set (walked sv m @ last_level sv sz m). a \<noteq> 0"
    using assms(1) by (fastforce simp: walked_def last_level_def stops_def)
  then have "takeWhile (\<lambda>a. a \<noteq> 0) (walked sv m @ last_level sv sz m @ replicate z 0) = walked sv m @ last_level sv sz m"
    using takeWhile_append2 [of "walked sv m @ last_level sv sz m" "\<lambda>a. a \<noteq> 0" "replicate z 0"] by (cases z) auto
  then show ?thesis by (subst stacktrace_internal_def, subst walk_loop.simps) (simp add: z)
qed

text \<open>After \<open>set_terminate_handler\<close> every affected signal whose handler could be set ends the process.\<close>

lemma set_signals_all:
  "ph_signals (set_signals ok gs p) g = (if g \<in> set gs \<and> ok g then Signal_hndlr else ph_signals p g)"
  by (induction gs arbitrary: p) auto

lemma fatal_signals_abort:
  assumes "set_terminate_handler True sigaction_ok p = Inr p'" and "g \<in> set affected_signals" and "sigaction_ok g"
  shows "snd (deliver_signal g p') = Some (Inl R_assert)"
  using assms by (auto simp: set_terminate_handler_def set_signals_all deliver_signal_def Let_def)

section \<open>Properties\<close>

text \<open>
  The logger's name of a function: for a signature of words, namespaces, classes and balanced template
  arguments without parentheses (the name may be an operator ending in \<open><\<close>) the conversion gives the
  enclosing namespaces and classes, without template arguments and separated by dots. Whatever
  the text, no write leaves an array longer than the text.
\<close>

theorem pretty_function_converted:
  "((\<forall>w \<in> set ws. path_ok w \<and> w \<noteq> []) \<and> path_ok p \<and> p \<noteq> [] \<and> length (pretty_function ws p k args) < cap \<longrightarrow>
     convert_pretty_function cap (pretty_function ws p k args) = Inr (plain_path (butlast p))) \<and>
   (length s < cap \<longrightarrow> convert_pretty_function cap s \<noteq> Inl Bad_access)"
proof (intro conjI impI)
  assume a: "(\<forall>w \<in> set ws. path_ok w \<and> w \<noteq> []) \<and> path_ok p \<and> p \<noteq> [] \<and> length (pretty_function ws p k args) < cap"
  let ?rest = "replicate k (CHR ''<'') @ ''('' @ args"
  let ?l = "if length p = 1 then 0 else length (plain_path (butlast p))"
  have len: "length (render_path p) < cap" "\<forall>w \<in> set ws. length (render_path w) \<le> cap"
    using a words_fit [of _ ws] by (fastforce simp: pretty_function_def)+
  obtain e1 where e1: "pf_loop cap (pretty_function ws p k args) [] 0 0 0 = pf_loop cap (render_path p @ ?rest) e1 0 0 0"
    using pf_words [of ws cap "render_path p @ ?rest" "[]"] a len(2) by (auto simp: pretty_function_def)
  obtain e2 where e2: "pf_loop cap (render_path p @ ?rest) e1 0 0 0 =
      pf_loop cap ?rest (plain_path p @ e2) (length (plain_path p)) 0 ?l"
    using pf_path [of p "[]" cap ?rest e1 0, unfolded append_Nil list.size(3) add_0] a less_imp_le [OF len(1)] by blast
  have "?l \<le> length (plain_path (butlast p))" by simp
  also have "\<dots> \<le> length (render_path p)" using a plain_path_le [of p] by (simp add: le_trans [OF butlast_path_le])
  finally have "?l < cap" using len(1) by linarith
  then have "pf_loop cap (pretty_function ws p k args) [] 0 0 0 = Inr (plain_path (butlast p) @ CHR 0x00 # drop (Suc ?l) (plain_path p @ e2))"
    using a unfolding e1 e2 pf_operator put_at_def by (simp only: take_plain_path if_True simp_thms)
  moreover have "path_ok (butlast p)" using a by (auto simp: path_ok_def dest: in_set_butlastD)
  ultimately show "convert_pretty_function cap (pretty_function ws p k args) = Inr (plain_path (butlast p))"
    using plain_no_nul [of "butlast p"] by (simp add: convert_pretty_function_def c_str_def takeWhile_append2)
next
  assume "length s < cap"
  then show "convert_pretty_function cap s \<noteq> Inl Bad_access"
    using pf_safe [of 0 s cap 0 "[]" 0] by (simp add: convert_pretty_function_def res_simps)
qed

theorem pretty_function_converted_witness:
  "convert_pretty_function log_pf_buf_size ''static void coherent::map<int, set<int> >::put(int)'' = Inr ''coherent.map''"
proof -
  let ?ws = "[[[Txt ''static'']], [[Txt ''void'']]]" and ?p = "[[Txt ''coherent''], [Txt ''map'', Targs ''int, set<int> ''], [Txt ''put'']]"
  have "pretty_function ?ws ?p 0 ''int)'' = ''static void coherent::map<int, set<int> >::put(int)''"
    by (simp add: pretty_function_def render_comp_def)
  moreover have "path_ok ?p" "\<forall>w \<in> set ?ws. path_ok w \<and> w \<noteq> []" by (auto simp: path_ok_def)
  ultimately show ?thesis
    using conjunct1 [OF pretty_function_converted [of ?ws ?p 0 "''int)''" log_pf_buf_size "[]"]]
    by (simp add: log_pf_buf_size_def plain_comp_def)
qed

text \<open>
  The stack walk of systems without \<open>backtrace\<close> returns exactly when some level among the first forty is
  outside the array, has a null address or faults; it then returns the addresses of the levels before
  the first such level. A readable stack of forty levels and an array of forty, which is
  what \<open>stacktrace\<close> passes, make it loop for ever.
\<close>

theorem stack_walk_returns:
  "(stacktrace_internal sv sz \<noteq> None \<longleftrightarrow> (\<exists>x < 40. stops sv sz x)) \<and>
   (\<forall>m < 40. stops sv sz m \<and> (\<forall>x < m. \<not> stops sv sz x) \<longrightarrow>
      stacktrace_internal sv sz = Some (walked sv m @ last_level sv sz m))"
proof (intro conjI allI impI iffI)
  assume "stacktrace_internal sv sz \<noteq> None"
  then show "\<exists>x < 40. stops sv sz x" using walk_loop_diverges [of sv sz "replicate sz 0"] by (auto simp: stacktrace_internal_def)
next
  assume "\<exists>x < 40. stops sv sz x"
  then obtain x where x: "x < 40" "stops sv sz x" by blast
  have "(LEAST m. stops sv sz m) < 40" using Least_le [of "stops sv sz", OF x(2)] x(1) by linarith
  from stacktrace_internal_stops [OF _ LeastI [of "stops sv sz", OF x(2)] this]
  have "stacktrace_internal sv sz = Some (walked sv (LEAST m. stops sv sz m) @ last_level sv sz (LEAST m. stops sv sz m))"
    using not_less_Least [of _ "stops sv sz"] by blast
  then show "stacktrace_internal sv sz \<noteq> None" by (simp only: option.distinct not_False_eq_True)
next
  fix m assume "m < 40" "stops sv sz m \<and> (\<forall>x < m. \<not> stops sv sz x)"
  then show "stacktrace_internal sv sz = Some (walked sv m @ last_level sv sz m)"
    using stacktrace_internal_stops [of m sv sz] by blast
qed

theorem stack_walk_returns_witness:
  "stacktrace_internal \<lparr>sv_return_address = \<lambda>x. Some (if x < 2 then 7 else 0), sv_frame_address = \<lambda>x. Some 1\<rparr> 40 = Some [7, 7] \<and>
   stacktrace_internal \<lparr>sv_return_address = \<lambda>x. Some 7, sv_frame_address = \<lambda>x. Some 1\<rparr> 40 = None"
proof
  let ?v = "\<lparr>sv_return_address = \<lambda>x. Some (if x < 2 then 7 else 0), sv_frame_address = \<lambda>x. Some 1\<rparr> :: stack_view"
  have "stops ?v 40 2 \<and> (\<forall>x < 2. \<not> stops ?v 40 x)" by (simp add: stops_def)
  then have "stacktrace_internal ?v 40 = Some (walked ?v 2 @ last_level ?v 40 2)"
    using conjunct2 [OF stack_walk_returns [of ?v 40], rule_format, of 2] by simp
  then show "stacktrace_internal ?v 40 = Some [7, 7]" by (simp add: walked_def last_level_def upt_conv_Cons)
next
  let ?v = "\<lparr>sv_return_address = \<lambda>x. Some 7, sv_frame_address = \<lambda>x. Some 1\<rparr> :: stack_view"
  show "stacktrace_internal ?v 40 = None" using conjunct1 [OF stack_walk_returns [of ?v 40]] by (auto simp: stops_def)
qed

end
