(* ===== verification/Server_Main.thy ===== *)
theory Server_Main
  imports Ini_Config_Correct Diagnostics
begin

text \<open>
  \<open>src/server/server.cpp\<close>, the main program of the server, and \<open>scoped_test_enabler\<close> of \<open>src/config/config.cpp\<close>, which prepares a test
  program.

  \<^item> \<open>boost::program_options\<close> is the parameter \<open>parse\<close>: the text of an exception, or the options with their values (a flag has
    the empty value). What \<open>parse\<close> needs of the description of the options is its names.
  \<^item> Leaving the process with \<open>exit\<close> or by returning from \<open>main\<close> is a \<open>server_end\<close>: the lines on standard output and on
    the error output, the exit code, and the log file once the logger is set up.
  \<^item> The content of files, \<open>realpath\<close> and the system calls of the test enabler are parameters.
\<close>

section \<open>Command line\<close>

record server_end =
  se_out :: "string list"
  se_err :: "string list"
  se_code :: nat
  se_log :: "string option"

type_synonym variables_map = "string \<Rightarrow> string option"

text \<open>\<open>gen_opt_desc\<close>: the options with their short names and descriptions.\<close>

definition gen_opt_desc :: "(string \<times> string \<times> string) list" where
  "gen_opt_desc = [(''version'', ''v'', ''print version and exit''), (''help'', ''h'', ''print this message and exit''),
     (''log_path'', ''l'', ''log file path''), (''conf_path'', ''c'', ''config file path'')]"

definition usage_exit :: "((string \<times> string \<times> string) list \<Rightarrow> string) \<Rightarrow> string list \<Rightarrow> string \<Rightarrow> nat \<Rightarrow> server_end" where
  "usage_exit show_desc out desc ret =
     \<lparr>se_out = out @ (if desc \<noteq> '''' then [desc] else []) @ [show_desc gen_opt_desc], se_err = [], se_code = ret, se_log = None\<rparr>"

definition gen_vm :: "((string \<times> string \<times> string) list \<Rightarrow> string) \<Rightarrow> string list \<Rightarrow> (string list \<Rightarrow> string + variables_map) \<Rightarrow>
    string list \<Rightarrow> server_end + variables_map" where
  "gen_vm show_desc out parse argv = (case parse argv of Inl what \<Rightarrow> Inl (usage_exit show_desc out what 1) | Inr vm \<Rightarrow> Inr vm)"

definition extract_req_opt :: "((string \<times> string \<times> string) list \<Rightarrow> string) \<Rightarrow> string list \<Rightarrow> variables_map \<Rightarrow> bool \<Rightarrow> bool \<Rightarrow> string \<Rightarrow>
    server_end + string" where
  "extract_req_opt show_desc out vm help version opt = (case vm opt of
     None \<Rightarrow> if \<not> help \<and> \<not> version then Inl (usage_exit show_desc out (''Error: option '' @ opt @ '' not specified'') 1) else Inr ''''
   | Some v \<Rightarrow> Inr v)"

record user_args =
  ua_help :: bool
  ua_version :: bool
  ua_log_path :: string
  ua_conf_path :: string

text \<open>The constructor: the members in the order of their declaration, then the test for help.\<close>

definition user_args_ctor :: "((string \<times> string \<times> string) list \<Rightarrow> string) \<Rightarrow> string list \<Rightarrow> (string list \<Rightarrow> string + variables_map) \<Rightarrow>
    string list \<Rightarrow> server_end + user_args" where
  "user_args_ctor show_desc out parse argv = (case gen_vm show_desc out parse argv of
     Inl e \<Rightarrow> Inl e
   | Inr vm \<Rightarrow>
       let help = vm ''help'' \<noteq> None; version = vm ''version'' \<noteq> None in
       case extract_req_opt show_desc out vm help version ''log_path'' of
         Inl e \<Rightarrow> Inl e
       | Inr log_path \<Rightarrow> (case extract_req_opt show_desc out vm help version ''conf_path'' of
           Inl e \<Rightarrow> Inl e
         | Inr conf_path \<Rightarrow>
             if help then Inl (usage_exit show_desc out '''' 0)
             else Inr \<lparr>ua_help = help, ua_version = version, ua_log_path = log_path, ua_conf_path = conf_path\<rparr>))"

section \<open>The main program\<close>

text \<open>
  The build: the version string, the build information and the output of \<open>uname -a\<close> (\<open>None\<close> when \<open>system\<close> fails), the regular
  expressions and conversions of the configuration, the files, and how the options are shown.
\<close>

record server_env =
  sv_version_string :: string
  sv_build_information :: string
  sv_uname :: "string option"
  sv_regex_match :: "string \<Rightarrow> regex \<Rightarrow> bool"
  sv_cast :: "nat \<Rightarrow> string \<Rightarrow> nat option"
  sv_int_to_string :: "int \<Rightarrow> string"
  sv_files :: "string \<Rightarrow> string option"
  sv_show_desc :: "(string \<times> string \<times> string) list \<Rightarrow> string"
  sv_parse :: "string list \<Rightarrow> string + variables_map"

definition welcome_string :: "server_env \<Rightarrow> string list" where
  "welcome_string env = [sv_version_string env, '''', ''Copyright (C) 2010 Marek Dopiera'',
     ''This is free software; see the source for copying conditions.  There is NO'',
     ''warranty; not even for MERCHANTABILITY or FITNESS FOR A PARTICULAR PURPOSE.'', '''']"

definition print_running_information :: "server_env \<Rightarrow> string list" where
  "print_running_information env = ''Running on:'' # (case sv_uname env of None \<Rightarrow> [''(unable to obtain)''] | Some u \<Rightarrow> [u])"

text \<open>A \<open>config_exception\<close> is caught; a failed assertion is not an exception and aborts.\<close>

definition server_main :: "server_env \<Rightarrow> string list \<Rightarrow> server_end res" where
  "server_main env argv =
     (let out = welcome_string env in
      case user_args_ctor (sv_show_desc env) out (sv_parse env) argv of
        Inl e \<Rightarrow> Inr e
      | Inr u_args \<Rightarrow>
          if ua_version u_args then
            Inr \<lparr>se_out = out @ [sv_build_information env] @ print_running_information env, se_err = [], se_code = 0, se_log = None\<rparr>
          else
            (case global_config_ctor (sv_regex_match env) (sv_cast env) (ua_conf_path u_args) (sv_files env (ua_conf_path u_args)) of
               Inr conf \<Rightarrow> Inr \<lparr>se_out = out, se_err = [], se_code = 0, se_log = Some (ua_log_path u_args)\<rparr>
             | Inl e \<Rightarrow> (case e of
                 Config_exception l d \<Rightarrow>
                   Inr \<lparr>se_out = out, se_err = [''Reading config file failed'', config_exception_to_string (sv_int_to_string env) l d],
                     se_code = 1, se_log = Some (ua_log_path u_args)\<rparr>
               | _ \<Rightarrow> Inl e)))"

section \<open>Preparing a test program\<close>

text \<open>
  \<open>scoped_test_enabler\<close>: the results of the system calls it checks are parameters. \<open>Te_exec\<close> is the \<open>execvp\<close> of the same or of a
  wrapping program, \<open>Te_ready\<close> the end of the constructor.
\<close>

record te_env =
  te_realpath :: "string \<Rightarrow> string option"
  te_tests_dir :: string
  te_exists_file :: "string \<Rightarrow> bool"
  te_chdir_ok :: bool
  te_dup_ok :: bool
  te_close_ok :: bool

datatype te_result = Te_abort | Te_exec string "string list" | Te_ready string

fun contains :: "string \<Rightarrow> string \<Rightarrow> bool" where
  "contains p [] \<longleftrightarrow> p = []"
| "contains p (c # s) \<longleftrightarrow> take (length p) (c # s) = p \<or> contains p s"

text \<open>\<open>substr(rfind('/'))\<close>, from the beginning when there is none; the slash belongs to it.\<close>

definition from_last_slash :: "string \<Rightarrow> string" where
  "from_last_slash s = (if CHR ''/'' \<in> set s then CHR ''/'' # rev (takeWhile (\<lambda>c. c \<noteq> CHR ''/'') (rev s)) else s)"

text \<open>\<open>te_exists_file\<close>: the directory's name exists and is not a directory. The results of \<open>open\<close> are not checked.\<close>

definition test_enabler :: "te_env \<Rightarrow> string list \<Rightarrow> te_result" where
  "test_enabler env argv = (case argv of
     [] \<Rightarrow> Te_abort
   | arg0 # args \<Rightarrow> (case te_realpath env arg0 of
       None \<Rightarrow> Te_abort
     | Some full_path \<Rightarrow>
         if \<not> contains ''/bin/test/'' full_path then Te_abort
         else let target = te_tests_dir env @ ''/'' @ from_last_slash full_path in
           if args = [''ready''] then Te_ready target
           else if te_exists_file env target then Te_abort
           else if \<not> te_chdir_ok env \<or> \<not> te_dup_ok env \<or> \<not> te_close_ok env then Te_abort
           else Te_exec (case args of [] \<Rightarrow> full_path | a # _ \<Rightarrow> a) (args @ [full_path, ''ready''])))"

section \<open>Lemmas\<close>

text \<open>A test program that is started without arguments executes itself once and is then ready in its own directory.\<close>

lemma test_enabler_ready:
  assumes "te_realpath env p = Some q" and "te_realpath env q = Some q" and "contains ''/bin/test/'' q"
    and "\<not> te_exists_file env (te_tests_dir env @ ''/'' @ from_last_slash q)" and "te_chdir_ok env" "te_dup_ok env" "te_close_ok env"
  shows "test_enabler env [p] = Te_exec q [q, ''ready''] \<and> test_enabler env [q, ''ready''] = Te_ready (te_tests_dir env @ ''/'' @ from_last_slash q)"
  using assms by (simp add: test_enabler_def Let_def)

text \<open>What the command line alone decides.\<close>

definition wants_run :: "variables_map \<Rightarrow> bool" where
  "wants_run vm \<longleftrightarrow> vm ''help'' = None \<and> vm ''version'' = None"

lemma user_args_cases:
  "user_args_ctor sd out parse argv = (case parse argv of
     Inl what \<Rightarrow> Inl (usage_exit sd out what 1)
   | Inr vm \<Rightarrow>
       if vm ''help'' \<noteq> None then Inl (usage_exit sd out '''' 0)
       else if vm ''version'' \<noteq> None then
         Inr \<lparr>ua_help = False, ua_version = True, ua_log_path = (case vm ''log_path'' of None \<Rightarrow> '''' | Some v \<Rightarrow> v),
           ua_conf_path = (case vm ''conf_path'' of None \<Rightarrow> '''' | Some v \<Rightarrow> v)\<rparr>
       else case vm ''log_path'' of
         None \<Rightarrow> Inl (usage_exit sd out (''Error: option '' @ ''log_path'' @ '' not specified'') 1)
       | Some l \<Rightarrow> (case vm ''conf_path'' of
           None \<Rightarrow> Inl (usage_exit sd out (''Error: option '' @ ''conf_path'' @ '' not specified'') 1)
         | Some c \<Rightarrow> Inr \<lparr>ua_help = False, ua_version = False, ua_log_path = l, ua_conf_path = c\<rparr>))"
  by (auto simp: user_args_ctor_def gen_vm_def extract_req_opt_def Let_def split: sum.split option.split)

lemma global_config_result:
  assumes "regex_engine rm"
  obtains conf where "global_config_ctor rm cast path in_f = Inr conf"
  | l d where "global_config_ctor rm cast path in_f = Inl (Config_exception l d)"
  using global_config_good [OF assms, of cast path in_f] that
  by (cases "global_config_ctor rm cast path in_f") (auto simp: is_config_error_def)

section \<open>Properties\<close>

text \<open>
  C35. The exit code of the server: whatever the command line and the files, the program ends without a failed
  assertion and with code 0 or 1. The code is 0 exactly when the command line could be parsed and asks for help or
  the version, or gives both paths and the configuration is accepted. The log file is set up exactly
  when neither help nor version is asked for and both paths are given; the error output is used exactly when
  the configuration is rejected. Hypothesis: \<open>regex_match\<close> decides the language of the patterns.
\<close>

theorem server_exit_code:
  assumes "regex_engine (sv_regex_match env)"
  shows "\<exists>e. server_main env argv = Inr e \<and> (se_code e = 0 \<or> se_code e = 1) \<and>
    (se_code e = 0 \<longleftrightarrow> (\<exists>vm. sv_parse env argv = Inr vm \<and> (wants_run vm \<longrightarrow> (\<exists>l c conf. vm ''log_path'' = Some l \<and> vm ''conf_path'' = Some c \<and>
       global_config_ctor (sv_regex_match env) (sv_cast env) c (sv_files env c) = Inr conf)))) \<and>
    (se_log e = None \<longleftrightarrow> \<not> (\<exists>vm l c. sv_parse env argv = Inr vm \<and> wants_run vm \<and> vm ''log_path'' = Some l \<and> vm ''conf_path'' = Some c)) \<and>
    (se_err e \<noteq> [] \<longleftrightarrow> se_log e \<noteq> None \<and> se_code e = 1)"
proof (cases "sv_parse env argv")
  case (Inl what)
  then show ?thesis by (simp add: server_main_def user_args_cases usage_exit_def Let_def)
next
  case (Inr vm)
  show ?thesis
  proof (cases "wants_run vm \<and> vm ''log_path'' \<noteq> None \<and> vm ''conf_path'' \<noteq> None")
    case True
    then obtain l c where lc: "vm ''log_path'' = Some l" "vm ''conf_path'' = Some c" by blast
    show ?thesis
      by (cases rule: global_config_result [OF assms, of "sv_cast env" c "sv_files env c"])
        (use True Inr lc in \<open>simp_all add: server_main_def user_args_cases wants_run_def Let_def\<close>)
  qed (use Inr in \<open>auto simp: server_main_def user_args_cases usage_exit_def wants_run_def Let_def split: option.splits\<close>)
qed

definition sample_server :: server_env where
  "sample_server = \<lparr>sv_version_string = ''CoherentDB'', sv_build_information = '''', sv_uname = None, sv_regex_match = re_match,
     sv_cast = dec_cast, sv_int_to_string = (\<lambda>_. ''1''), sv_files = (\<lambda>_. None), sv_show_desc = (\<lambda>_. ''options''),
     sv_parse = (\<lambda>argv. Inr (if argv = [''-h''] then [''help'' \<mapsto> ''''] else [''log_path'' \<mapsto> ''l'', ''conf_path'' \<mapsto> ''c'']))\<rparr>"

theorem server_exit_code_witness:
  "\<exists>e. server_main sample_server [] = Inr e \<and> se_code e = 1 \<and> se_log e \<noteq> None \<and> se_err e \<noteq> []"
proof -
  have r: "regex_engine (sv_regex_match sample_server)" using matcher.regex_engine_axioms by (simp add: sample_server_def)
  have no: "global_config_ctor re_match dec_cast ''c'' None \<noteq> Inr conf" for conf
    by (simp add: global_config_ctor_def ini_config_def)
  show ?thesis using server_exit_code [OF r, of "[]"] no by (auto simp: sample_server_def wants_run_def)
qed

end
