(* ===== verification/Codec_Dispatch.thy ===== *)
theory Codec_Dispatch
  imports Codecs_Correct
begin

text \<open>
  The codec of a type, as the specializations of \<open>little_endian_codec\<close>, \<open>big_endian_codec\<close> and of the optimizers select it
  (\<open>src/include/serialization/codecs/little_endian.h\<close>, \<open>big_endian.h\<close>, \<open>optimizers.h\<close>). A C++ type is data here, and so is a
  value; \<open>codec_encode\<close> and \<open>codec_decode\<close> go through the type the way the compiler does when it instantiates \<open>enc(x)\<close>.
  Sets and maps are not among the types, they need the order of their keys.

  The byte order of the machine is an argument: \<open>int_bytes host\<close> are the bytes of an integer in memory.
\<close>

section \<open>Types and values\<close>

datatype byte_order = Little | Big

datatype int_type = Char_ty | Uint8_ty | Uint16_ty | Uint32_ty | Uint64_ty | Int8_ty | Int16_ty | Int32_ty | Int64_ty

datatype cty = Int_ty int_type | String_ty | Vector_ty cty | List_ty cty | Pair_ty cty cty

datatype cval = VInt int | VSeq "cval list" | VPair cval cval

fun as_int :: "cval \<Rightarrow> int" where
  "as_int (VInt i) = i"
| "as_int _ = 0"

fun as_seq :: "cval \<Rightarrow> cval list" where
  "as_seq (VSeq vs) = vs"
| "as_seq _ = []"

fun as_pair :: "cval \<Rightarrow> cval \<times> cval" where
  "as_pair (VPair a b) = (a, b)"
| "as_pair v = (v, v)"

fun int_size :: "int_type \<Rightarrow> nat" where
  "int_size Uint16_ty = 2" | "int_size Int16_ty = 2"
| "int_size Uint32_ty = 4" | "int_size Int32_ty = 4"
| "int_size Uint64_ty = 8" | "int_size Int64_ty = 8"
| "int_size _ = 1"

fun cpp_type_of :: "cty \<Rightarrow> cpp_type" where
  "cpp_type_of (Int_ty it) = Integral (int_size it)"
| "cpp_type_of String_ty = Cpp_string"
| "cpp_type_of (Vector_ty t) = Cpp_vector (cpp_type_of t)"
| "cpp_type_of _ = Other_type"

section \<open>Integers\<close>

definition word_encode :: "byte_order \<Rightarrow> 's encoder \<Rightarrow> (nat \<Rightarrow> 'w::len word \<Rightarrow> 'w word) \<Rightarrow> 'w word \<Rightarrow> 's \<Rightarrow> 's res" where
  "word_encode c enc shr = (case c of Little \<Rightarrow> le_int_encode enc shr | Big \<Rightarrow> be_int_encode enc shr)"

definition word_decode :: "byte_order \<Rightarrow> 's decoder \<Rightarrow> 's \<Rightarrow> ('w::len word \<times> 's) res" where
  "word_decode c dec = (case c of Little \<Rightarrow> le_int_decode dec | Big \<Rightarrow> be_int_decode dec)"

definition word_bytes :: "byte_order \<Rightarrow> 'w::len word \<Rightarrow> u8 list" where
  "word_bytes c = (case c of Little \<Rightarrow> le_bytes | Big \<Rightarrow> be_bytes)"

fun int_encode :: "byte_order \<Rightarrow> int_type \<Rightarrow> 's encoder \<Rightarrow> int \<Rightarrow> 's \<Rightarrow> 's res" where
  "int_encode c Char_ty enc i = char_encode enc (word_of_int i)"
| "int_encode c Uint8_ty enc i = char_encode enc (word_of_int i)"
| "int_encode c Uint16_ty enc i = word_encode c enc drop_bit (word_of_int i :: 16 word)"
| "int_encode c Uint32_ty enc i = word_encode c enc drop_bit (word_of_int i :: 32 word)"
| "int_encode c Uint64_ty enc i = word_encode c enc drop_bit (word_of_int i :: 64 word)"
| "int_encode c Int8_ty enc i = word_encode c enc signed_drop_bit (word_of_int i :: 8 word)"
| "int_encode c Int16_ty enc i = word_encode c enc signed_drop_bit (word_of_int i :: 16 word)"
| "int_encode c Int32_ty enc i = word_encode c enc signed_drop_bit (word_of_int i :: 32 word)"
| "int_encode c Int64_ty enc i = word_encode c enc signed_drop_bit (word_of_int i :: 64 word)"

definition map_result :: "('a \<Rightarrow> 'b) \<Rightarrow> ('a \<times> 's) res \<Rightarrow> ('b \<times> 's) res" where
  "map_result f r = bind_res r (\<lambda>(x, s). Inr (f x, s))"

fun int_decode :: "byte_order \<Rightarrow> int_type \<Rightarrow> 's decoder \<Rightarrow> 's \<Rightarrow> (int \<times> 's) res" where
  "int_decode c Char_ty dec s = map_result uint (char_decode dec s)"
| "int_decode c Uint8_ty dec s = map_result uint (char_decode dec s)"
| "int_decode c Uint16_ty dec s = map_result uint (word_decode c dec s :: (16 word \<times> 's) res)"
| "int_decode c Uint32_ty dec s = map_result uint (word_decode c dec s :: (32 word \<times> 's) res)"
| "int_decode c Uint64_ty dec s = map_result uint (word_decode c dec s :: (64 word \<times> 's) res)"
| "int_decode c Int8_ty dec s = map_result sint (word_decode c dec s :: (8 word \<times> 's) res)"
| "int_decode c Int16_ty dec s = map_result sint (word_decode c dec s :: (16 word \<times> 's) res)"
| "int_decode c Int32_ty dec s = map_result sint (word_decode c dec s :: (32 word \<times> 's) res)"
| "int_decode c Int64_ty dec s = map_result sint (word_decode c dec s :: (64 word \<times> 's) res)"

fun int_bytes :: "byte_order \<Rightarrow> int_type \<Rightarrow> int \<Rightarrow> u8 list" where
  "int_bytes c Uint16_ty i = word_bytes c (word_of_int i :: 16 word)"
| "int_bytes c Uint32_ty i = word_bytes c (word_of_int i :: 32 word)"
| "int_bytes c Uint64_ty i = word_bytes c (word_of_int i :: 64 word)"
| "int_bytes c Int16_ty i = word_bytes c (word_of_int i :: 16 word)"
| "int_bytes c Int32_ty i = word_bytes c (word_of_int i :: 32 word)"
| "int_bytes c Int64_ty i = word_bytes c (word_of_int i :: 64 word)"
| "int_bytes c _ i = [word_of_int i]"

fun int_ok :: "int_type \<Rightarrow> int \<Rightarrow> bool" where
  "int_ok Int8_ty i \<longleftrightarrow> - (2 ^ 7) \<le> i \<and> i < 2 ^ 7"
| "int_ok Int16_ty i \<longleftrightarrow> - (2 ^ 15) \<le> i \<and> i < 2 ^ 15"
| "int_ok Int32_ty i \<longleftrightarrow> - (2 ^ 31) \<le> i \<and> i < 2 ^ 31"
| "int_ok Int64_ty i \<longleftrightarrow> - (2 ^ 63) \<le> i \<and> i < 2 ^ 63"
| "int_ok it i \<longleftrightarrow> 0 \<le> i \<and> i < 2 ^ (8 * int_size it)"

text \<open>The integer that lies in memory.\<close>

definition from_memory :: "byte_order \<Rightarrow> int_type \<Rightarrow> u8 list \<Rightarrow> int" where
  "from_memory host it bs = (case int_decode host it buffer_decoder bs of Inr (i, _) \<Rightarrow> i | Inl _ \<Rightarrow> 0)"

section \<open>The codec of a type\<close>

text \<open>With \<open>opt\<close> the codec is \<open>make_codec_with_default_optimizer\<close> of the plain one.\<close>

definition selected :: "bool \<Rightarrow> cty \<Rightarrow> codec_choice" where
  "selected opt t = (if opt then default_optimizer (cpp_type_of t) else Use_codec)"

fun element_int :: "cty \<Rightarrow> int_type" where
  "element_int (Vector_ty (Int_ty it)) = it"
| "element_int _ = Char_ty"

definition length_encode :: "byte_order \<Rightarrow> 's encoder \<Rightarrow> 32 word \<Rightarrow> 's \<Rightarrow> 's res" where
  "length_encode c enc = word_encode c enc drop_bit"

definition length_decode :: "byte_order \<Rightarrow> 's decoder \<Rightarrow> 's \<Rightarrow> (32 word \<times> 's) res" where
  "length_decode c dec = word_decode c dec"

fun codec_encode :: "byte_order \<Rightarrow> bool \<Rightarrow> byte_order \<Rightarrow> 's encoder \<Rightarrow> cty \<Rightarrow> cval \<Rightarrow> 's \<Rightarrow> 's res" where
  "codec_encode c opt host enc (Int_ty it) v s =
     (if selected opt (Int_ty it) = Use_general then general_encode (int_bytes host it) enc (as_int v) s
      else int_encode c it enc (as_int v) s)"
| "codec_encode c opt host enc String_ty v s =
     (if selected opt String_ty = Use_sequence
      then seq_opt_encode (length_encode c enc) (int_bytes host Char_ty) enc (map as_int (as_seq v)) s
      else sequence_encode (length_encode c enc) (\<lambda>v. int_encode c Char_ty enc (as_int v)) (as_seq v) s)"
| "codec_encode c opt host enc (Vector_ty t) v s =
     (if selected opt (Vector_ty t) = Use_sequence
      then seq_opt_encode (length_encode c enc) (int_bytes host (element_int (Vector_ty t))) enc (map as_int (as_seq v)) s
      else sequence_encode (length_encode c enc) (\<lambda>v. codec_encode c opt host enc t v) (as_seq v) s)"
| "codec_encode c opt host enc (List_ty t) v s =
     sequence_encode (length_encode c enc) (\<lambda>v. codec_encode c opt host enc t v) (as_seq v) s"
| "codec_encode c opt host enc (Pair_ty a b) v s =
     pair_encode (\<lambda>v. codec_encode c opt host enc a v) (\<lambda>v. codec_encode c opt host enc b v) (as_pair v) s"

fun codec_decode :: "byte_order \<Rightarrow> bool \<Rightarrow> byte_order \<Rightarrow> 's decoder \<Rightarrow> cty \<Rightarrow> 's \<Rightarrow> (cval \<times> 's) res" where
  "codec_decode c opt host dec (Int_ty it) s = map_result VInt
     (if selected opt (Int_ty it) = Use_general then general_decode (from_memory host it) (int_size it) dec s
      else int_decode c it dec s)"
| "codec_decode c opt host dec String_ty s = map_result (VSeq \<circ> map VInt)
     (if selected opt String_ty = Use_sequence
      then seq_opt_decode (length_decode c dec) (from_memory host Char_ty) 1 dec s
      else sequence_decode (length_decode c dec) (int_decode c Char_ty dec) s)"
| "codec_decode c opt host dec (Vector_ty t) s =
     (if selected opt (Vector_ty t) = Use_sequence
      then map_result (VSeq \<circ> map VInt) (seq_opt_decode (length_decode c dec) (from_memory host (element_int (Vector_ty t)))
             (int_size (element_int (Vector_ty t))) dec s)
      else map_result VSeq (sequence_decode (length_decode c dec) (\<lambda>s. codec_decode c opt host dec t s) s))"
| "codec_decode c opt host dec (List_ty t) s =
     map_result VSeq (sequence_decode (length_decode c dec) (\<lambda>s. codec_decode c opt host dec t s) s)"
| "codec_decode c opt host dec (Pair_ty a b) s =
     map_result (\<lambda>(x, y). VPair x y) (pair_decode (\<lambda>s. codec_decode c opt host dec a s) (\<lambda>s. codec_decode c opt host dec b s) s)"

text \<open>
  \<open>make_codec_with_optimization_for\<close>: one optimizer replaces the codec of the type it names as its \<open>optimized_type\<close>. For
  \<open>sequence_optimizer\<close> that is its own class, which is none of the types here. \<open>string_z_optimizer\<close> copies a string with the
  zero behind it; its \<open>decode\<close> is only declared.
\<close>

datatype optimizer = General_optimizer cty | Sequence_optimizer cty | String_z_optimizer

fun optimized_type :: "optimizer \<Rightarrow> cty option" where
  "optimized_type (General_optimizer t) = Some t"
| "optimized_type (Sequence_optimizer t) = None"
| "optimized_type String_z_optimizer = Some String_ty"

definition optimization_helper :: "optimizer \<Rightarrow> cty \<Rightarrow> optimizer option" where
  "optimization_helper optim t = (if optimized_type optim = Some t then Some optim else None)"

definition string_z_encode :: "'s encoder \<Rightarrow> u8 list \<Rightarrow> 's \<Rightarrow> 's res" where
  "string_z_encode enc str s = e_memcpy enc (str @ [0]) s"

section \<open>The bytes of a value\<close>

fun val_bytes :: "byte_order \<Rightarrow> bool \<Rightarrow> byte_order \<Rightarrow> cty \<Rightarrow> cval \<Rightarrow> u8 list" where
  "val_bytes c opt host (Int_ty it) v = int_bytes (if selected opt (Int_ty it) = Use_general then host else c) it (as_int v)"
| "val_bytes c opt host String_ty v = counted_bytes (word_bytes c) (\<lambda>v. int_bytes c Char_ty (as_int v)) (as_seq v)"
| "val_bytes c opt host (Vector_ty t) v = counted_bytes (word_bytes c)
     (if selected opt (Vector_ty t) = Use_sequence then \<lambda>v. int_bytes host (element_int (Vector_ty t)) (as_int v)
      else (\<lambda>v. val_bytes c opt host t v)) (as_seq v)"
| "val_bytes c opt host (List_ty t) v = counted_bytes (word_bytes c) (\<lambda>v. val_bytes c opt host t v) (as_seq v)"
| "val_bytes c opt host (Pair_ty a b) v = val_bytes c opt host a (fst (as_pair v)) @ val_bytes c opt host b (snd (as_pair v))"

text \<open>
  The values of a type. With \<open>ne\<close> the strings and vectors that the optimizers copy as memory must not be empty: an
  empty one is read back only by a decoder that copies nothing when asked for nothing.
\<close>

fun val_ok :: "bool \<Rightarrow> cty \<Rightarrow> cval \<Rightarrow> bool" where
  "val_ok ne (Int_ty it) v \<longleftrightarrow> (case v of VInt i \<Rightarrow> int_ok it i | _ \<Rightarrow> False)"
| "val_ok ne String_ty v \<longleftrightarrow> (case v of
     VSeq vs \<Rightarrow> length vs < u32_max \<and> list_all (\<lambda>v. case v of VInt i \<Rightarrow> int_ok Char_ty i | _ \<Rightarrow> False) vs \<and> (ne \<longrightarrow> vs \<noteq> []) | _ \<Rightarrow> False)"
| "val_ok ne (Vector_ty t) v \<longleftrightarrow> (case v of
     VSeq vs \<Rightarrow> length vs < u32_max \<and> list_all (\<lambda>v. val_ok ne t v) vs \<and> (selected ne (Vector_ty t) = Use_sequence \<longrightarrow> vs \<noteq> []) | _ \<Rightarrow> False)"
| "val_ok ne (List_ty t) v \<longleftrightarrow> (case v of VSeq vs \<Rightarrow> length vs < u32_max \<and> list_all (\<lambda>v. val_ok ne t v) vs | _ \<Rightarrow> False)"
| "val_ok ne (Pair_ty a b) v \<longleftrightarrow> (case v of VPair x y \<Rightarrow> val_ok ne a x \<and> val_ok ne b y | _ \<Rightarrow> False)"

lemma le_bytes_8: "le_bytes (x :: 8 word) = [x]" "be_bytes (x :: 8 word) = [x]"
proof -
  have "[0..<1] = [0 :: nat]" by simp
  then show "le_bytes x = [x]" by (simp add: le_bytes_def byte_at_def sizeof_word_def word_size del: upt_Suc)
  then show "be_bytes x = [x]" by (simp add: be_bytes_def)
qed

lemma word_bytes_8 [simp]: "word_bytes c (x :: 8 word) = [x]"
  by (cases c) (simp_all add: word_bytes_def le_bytes_8)

lemma length_int_bytes: "length (int_bytes c it i) = int_size it"
  by (cases it; cases c) (simp_all add: word_bytes_def le_bytes_def be_bytes_def sizeof_word_def word_size)

lemma counted_map: "counted_bytes fl f (map g xs) = counted_bytes fl (\<lambda>x. f (g x)) xs"
  by (simp add: counted_bytes_def len_word_def comp_def)

lemma int_size_pos: "0 < int_size it"
  by (cases it) simp_all

lemma selected_simps [simp]:
  "selected False t = Use_codec" "selected True String_ty = Use_sequence"
  "selected opt (Int_ty it) \<noteq> Use_sequence"
  "selected opt (Vector_ty t) = Use_sequence \<Longrightarrow> t = Int_ty (element_int (Vector_ty t))"
  by (cases t; auto simp: selected_def default_optimizer_def split: cpp_type.splits if_splits)+

context byte_sink
begin

lemma emits_word: "shr_ok shr \<Longrightarrow> emits (word_encode c enc shr) (word_bytes c)"
  by (cases c) (simp_all add: word_encode_def word_bytes_def emits_le emits_be)

lemma emits_int: "emits (\<lambda>i. int_encode c it enc i) (\<lambda>i. int_bytes c it i)"
proof (rule emitsI)
  fix i s assume s: "ok s"
  note b = emitsD [OF emits_word [OF shr_ok_signed] s, where x = "word_of_int i :: 8 word", unfolded word_bytes_8]
  show "\<exists>s'. int_encode c it enc i s = Inr s' \<and> ok s' \<and> out s' = out s @ int_bytes c it i"
    by (cases it; simp only: int_encode.simps int_bytes.simps)
      (rule emitsD [OF emits_char s] b emitsD [OF emits_word [OF shr_ok_unsigned] s] emitsD [OF emits_word [OF shr_ok_signed] s])+
qed

lemma emits_length: "emits (length_encode c enc) (word_bytes c)"
  unfolding length_encode_def by (rule emits_word) (rule shr_ok_unsigned)

lemma emits_codec: "emits (\<lambda>v. codec_encode c opt host enc t v) (\<lambda>v. val_bytes c opt host t v)"
proof (induction t)
  case (Int_ty it)
  show ?case using emits_of [OF emits_int, of c it as_int] emits_of [OF emits_general, of "int_bytes host it" as_int]
    by (simp add: emits_def)
next
  case String_ty
  show ?case using emits_of [OF emits_seq_opt [OF emits_length, of c "int_bytes host Char_ty"], of "\<lambda>v. map as_int (as_seq v)"]
      emits_of [OF emits_sequence [OF emits_length emits_of [OF emits_int, of c Char_ty as_int]], of c as_seq]
    by (simp add: emits_def counted_map)
next
  case (Vector_ty t)
  show ?case using emits_of [OF emits_seq_opt [OF emits_length, of c "int_bytes host (element_int (Vector_ty t))"], of "\<lambda>v. map as_int (as_seq v)"]
      emits_of [OF emits_sequence [OF emits_length Vector_ty], of c as_seq]
    by (simp add: emits_def counted_map)
next
  case (List_ty t)
  show ?case using emits_of [OF emits_sequence [OF emits_length List_ty], of c as_seq] by (simp add: emits_def)
next
  case (Pair_ty a b)
  show ?case using emits_of [OF emits_pair [OF Pair_ty], of as_pair] by (simp add: emits_def)
qed

end

lemma uint_of_int_ok:
  "0 \<le> i \<Longrightarrow> i < 2 ^ 8 \<Longrightarrow> uint (word_of_int i :: 8 word) = i" "0 \<le> i \<Longrightarrow> i < 2 ^ 16 \<Longrightarrow> uint (word_of_int i :: 16 word) = i"
  "0 \<le> i \<Longrightarrow> i < 2 ^ 32 \<Longrightarrow> uint (word_of_int i :: 32 word) = i" "0 \<le> i \<Longrightarrow> i < 2 ^ 64 \<Longrightarrow> uint (word_of_int i :: 64 word) = i"
  by (simp_all add: unsigned_of_int take_bit_int_eq_self)

lemma sint_of_int_ok:
  "- (2 ^ 7) \<le> i \<Longrightarrow> i < 2 ^ 7 \<Longrightarrow> sint (word_of_int i :: 8 word) = i" "- (2 ^ 15) \<le> i \<Longrightarrow> i < 2 ^ 15 \<Longrightarrow> sint (word_of_int i :: 16 word) = i"
  "- (2 ^ 31) \<le> i \<Longrightarrow> i < 2 ^ 31 \<Longrightarrow> sint (word_of_int i :: 32 word) = i" "- (2 ^ 63) \<le> i \<Longrightarrow> i < 2 ^ 63 \<Longrightarrow> sint (word_of_int i :: 64 word) = i"
  by (simp_all add: signed_of_int signed_take_bit_int_eq_self)

context byte_source
begin

lemma reads_map_result:
  assumes "reads d f D" and "\<And>v. D' v \<Longrightarrow> D (h v) \<and> g (h v) = v"
  shows "reads (\<lambda>s. map_result g (d s)) (\<lambda>v. f (h v)) D'"
proof (rule readsI)
  fix v s ys assume v: "D' v" and s: "ok s" "rest s = f (h v) @ ys"
  then obtain s' where "d s = Inr (h v, s')" "ok s'" "rest s' = ys" using readsD [OF assms(1) _ s] assms(2) by blast
  then show "\<exists>s'. map_result g (d s) = Inr (v, s') \<and> ok s' \<and> rest s' = ys" using assms(2) [OF v] by (simp add: map_result_def)
qed

lemma reads_word: "(\<And>x. whole_bytes (x :: 'w::len word)) \<Longrightarrow> reads (word_decode c dec) (word_bytes c :: 'w word \<Rightarrow> u8 list) (\<lambda>_. True)"
  by (cases c) (simp_all add: word_decode_def word_bytes_def reads_le_all reads_weaken [OF reads_be])

lemma reads_length: "reads (length_decode c dec) (word_bytes c) (\<lambda>_. True)"
  unfolding length_decode_def by (rule reads_word) (rule whole_bytes_sizes)

lemma reads_int: "reads (\<lambda>s. int_decode c it dec s) (\<lambda>i. int_bytes c it i) (int_ok it)"
proof -
  note r8 = reads_word [OF whole_bytes_sizes(4), of c, unfolded word_bytes_8 [abs_def]]
  note rs = reads_map_result [OF reads_char, where h = word_of_int and g = uint] reads_map_result [OF r8, where h = word_of_int and g = sint]
    reads_map_result [OF reads_word [OF whole_bytes_sizes(1)], where h = word_of_int and g = uint]
    reads_map_result [OF reads_word [OF whole_bytes_sizes(2)], where h = word_of_int and g = uint]
    reads_map_result [OF reads_word [OF whole_bytes_sizes(3)], where h = word_of_int and g = uint]
    reads_map_result [OF reads_word [OF whole_bytes_sizes(1)], where h = word_of_int and g = sint]
    reads_map_result [OF reads_word [OF whole_bytes_sizes(2)], where h = word_of_int and g = sint]
    reads_map_result [OF reads_word [OF whole_bytes_sizes(3)], where h = word_of_int and g = sint]
  show ?thesis
    by (cases it; simp only: int_decode.simps int_bytes.simps; rule rs; simp add: uint_of_int_ok sint_of_int_ok)
qed

end

lemma from_memory_bytes:
  assumes "int_ok it i"
  shows "from_memory host it (int_bytes host it i) = i"
  using buf_source.readsD [OF buf_source.reads_int assms, of "int_bytes host it i" host "[]"] by (auto simp: from_memory_def)

definition is_int :: "int_type \<Rightarrow> cval \<Rightarrow> bool" where
  "is_int it v = (case v of VInt i \<Rightarrow> int_ok it i | _ \<Rightarrow> False)"

lemma is_int_iff: "is_int it v \<longleftrightarrow> v = VInt (as_int v) \<and> int_ok it (as_int v)"
  by (cases v) (simp_all add: is_int_def)

lemma val_ok_seq:
  "(case v of VSeq vs \<Rightarrow> length vs < u32_max \<and> list_all P vs \<and> Q vs | _ \<Rightarrow> False) \<longleftrightarrow>
     v = VSeq (as_seq v) \<and> countable P (as_seq v) \<and> Q (as_seq v)"
  "(case v of VSeq vs \<Rightarrow> length vs < u32_max \<and> list_all P vs | _ \<Rightarrow> False) \<longleftrightarrow> v = VSeq (as_seq v) \<and> countable P (as_seq v)"
  by (cases v; auto simp: countable_def list_all_iff)+

lemma ints_of_seq: "\<forall>v \<in> set vs. is_int it v \<Longrightarrow> map VInt (map as_int vs) = vs"
  by (induction vs) (auto simp: is_int_iff)

lemma int_seq_value:
  assumes "v = VSeq (as_seq v)" and "countable (is_int it) (as_seq v)"
  shows "countable (int_ok it) (map as_int (as_seq v))" and "(VSeq \<circ> map VInt) (map as_int (as_seq v)) = v"
proof -
  have v: "\<forall>x \<in> set (as_seq v). is_int it x" using assms(2) by (simp add: countable_def)
  show "countable (int_ok it) (map as_int (as_seq v))" using assms(2) by (auto simp: countable_def is_int_iff)
  show "(VSeq \<circ> map VInt) (map as_int (as_seq v)) = v" using ints_of_seq [OF v] assms(1) by simp
qed

context byte_source
begin

lemma reads_int_seq:
  "reads (\<lambda>s. map_result (VSeq \<circ> map VInt) (seq_opt_decode (length_decode c dec) (from_memory host it) (int_size it) dec s))
     (\<lambda>v. counted_bytes (word_bytes c) (\<lambda>v. int_bytes host it (as_int v)) (as_seq v))
     (\<lambda>v. v = VSeq (as_seq v) \<and> countable (is_int it) (as_seq v) \<and> (as_seq v \<noteq> [] \<or> copies_nothing dec rest ok))"
proof -
  have "reads (seq_opt_decode (length_decode c dec) (from_memory host it) (int_size it) dec) (counted_bytes (word_bytes c) (int_bytes host it))
      (\<lambda>xs. (xs \<noteq> [] \<or> copies_nothing dec rest ok) \<and> countable (int_ok it) xs)"
    by (rule reads_seq_opt_on [OF reads_length int_size_pos]) (simp add: length_int_bytes from_memory_bytes)
  then have "reads (\<lambda>s. map_result (VSeq \<circ> map VInt) (seq_opt_decode (length_decode c dec) (from_memory host it) (int_size it) dec s))
     (\<lambda>v. counted_bytes (word_bytes c) (int_bytes host it) (map as_int (as_seq v)))
     (\<lambda>v. v = VSeq (as_seq v) \<and> countable (is_int it) (as_seq v) \<and> (as_seq v \<noteq> [] \<or> copies_nothing dec rest ok))"
    by (rule reads_map_result) (use int_seq_value in \<open>simp; blast\<close>)
  then show ?thesis by (simp add: counted_map)
qed

end

context byte_source
begin

lemma reads_seq_of:
  assumes "reads d f P"
  shows "reads (\<lambda>s. map_result VSeq (sequence_decode (length_decode c dec) d s)) (\<lambda>v. counted_bytes (word_bytes c) f (as_seq v))
    (\<lambda>v. v = VSeq (as_seq v) \<and> countable P (as_seq v))"
  by (rule reads_map_result [OF reads_sequence [OF reads_length assms]]) auto

lemma reads_codec: "reads (\<lambda>s. codec_decode c opt host dec t s) (\<lambda>v. val_bytes c opt host t v) 
    (\<lambda>v. val_ok (opt \<and> \<not> copies_nothing dec rest ok) t v)" (is "reads _ _ (val_ok ?ne t)")
proof (induction t)
  case (Int_ty it)
  have "reads (\<lambda>s. map_result VInt (general_decode (from_memory host it) (int_size it) dec s)) (\<lambda>v. int_bytes host it (as_int v)) (is_int it)"
    by (rule reads_map_result [OF reads_general [OF int_size_pos, where D = "int_ok it"]])
      (auto simp: length_int_bytes from_memory_bytes is_int_iff)
  moreover have "reads (\<lambda>s. map_result VInt (int_decode c it dec s)) (\<lambda>v. int_bytes c it (as_int v)) (is_int it)"
    by (rule reads_map_result [OF reads_int]) (auto simp: is_int_iff)
  ultimately show ?case by (simp add: reads_def is_int_def)
next
  case String_ty
  have D: "val_ok ?ne String_ty v \<longleftrightarrow> v = VSeq (as_seq v) \<and> countable (is_int Char_ty) (as_seq v) \<and> (?ne \<longrightarrow> as_seq v \<noteq> [])" for v
    unfolding val_ok.simps val_ok_seq by (simp add: is_int_def [abs_def])
  show ?case
  proof (cases opt)
    case True
    show ?thesis using reads_int_seq [of c host Char_ty] True D by (auto simp: reads_def simp del: val_ok.simps)
  next
    case False
    have "reads (\<lambda>s. map_result (VSeq \<circ> map VInt) (sequence_decode (length_decode c dec) (int_decode c Char_ty dec) s))
        (\<lambda>v. counted_bytes (word_bytes c) (int_bytes c Char_ty) (map as_int (as_seq v)))
        (\<lambda>v. v = VSeq (as_seq v) \<and> countable (is_int Char_ty) (as_seq v))"
      by (rule reads_map_result [OF reads_sequence [OF reads_length reads_int]])
        (use int_seq_value in blast)
    then show ?thesis using False D by (auto simp: reads_def counted_map simp del: val_ok.simps)
  qed
next
  case (Vector_ty t)
  let ?it = "element_int (Vector_ty t)"
  have D: "val_ok ?ne (Vector_ty t) v \<longleftrightarrow> v = VSeq (as_seq v) \<and> countable (val_ok ?ne t) (as_seq v) \<and>
      (selected ?ne (Vector_ty t) = Use_sequence \<longrightarrow> as_seq v \<noteq> [])" for v
    unfolding val_ok.simps val_ok_seq ..
  show ?case
  proof (cases "selected opt (Vector_ty t) = Use_sequence")
    case True
    obtain it where it: "t = Int_ty it" using selected_simps(4) [OF True] by blast
    have "val_ok ?ne t = is_int ?it" by (rule ext) (simp add: it is_int_def)
    then show ?thesis using reads_int_seq [of c host ?it] True by (auto simp: D reads_def selected_def simp del: val_ok.simps)
  next
    case False
    then have "selected ?ne (Vector_ty t) \<noteq> Use_sequence" by (auto simp: selected_def)
    then show ?thesis using False reads_seq_of [OF Vector_ty, of c] by (simp add: D reads_def del: val_ok.simps)
  qed
next
  case (List_ty t)
  show ?case using reads_seq_of [OF List_ty, of c] by (simp add: val_ok_seq reads_def)
next
  case (Pair_ty a b)
  have "reads (\<lambda>s. map_result (\<lambda>(x, y). VPair x y)
        (pair_decode (\<lambda>s. codec_decode c opt host dec a s) (\<lambda>s. codec_decode c opt host dec b s) s))
      (\<lambda>v. val_bytes c opt host a (fst (as_pair v)) @ val_bytes c opt host b (snd (as_pair v))) (\<lambda>v. val_ok ?ne (Pair_ty a b) v)"
    by (rule reads_map_result [OF reads_pair [OF Pair_ty]]) (auto split: cval.splits)
  then show ?case by simp
qed

end

section \<open>The optimized codec\<close>

lemma counted_cong: "(\<And>x. f x = g x) \<Longrightarrow> counted_bytes fl f xs = counted_bytes fl g xs"
  by (metis ext)

lemma optimized_bytes: "val_bytes c True c t v = val_bytes c False c t v"
proof (induction t arbitrary: v)
  case (Vector_ty t)
  have "int_bytes c (element_int (Vector_ty t)) (as_int v) = val_bytes c False c t v" if sel: "selected True (Vector_ty t) = Use_sequence" for v
  proof -
    obtain it where "t = Int_ty it" using selected_simps(4) [OF sel] by blast
    then show ?thesis by simp
  qed
  then show ?case using Vector_ty by (auto intro!: counted_cong)
qed (auto intro!: counted_cong)

text \<open>On a machine whose byte order is not the codec's, the optimizers change what is written.\<close>

lemma optimized_big_on_little:
  "codec_encode Big True Little buffer_encoder (Int_ty Uint64_ty) (VInt 1) [] = Inr [1, 0, 0, 0, 0, 0, 0, 0]"
  "codec_encode Big False Little buffer_encoder (Int_ty Uint64_ty) (VInt 1) [] = Inr [0, 0, 0, 0, 0, 0, 0, 1]"
  by code_simp+

lemma sequence_optimizer_never_selected: "optimization_helper (Sequence_optimizer t) t' = None"
  by (simp add: optimization_helper_def)

text \<open>A string with a zero in it cannot be told from a shorter one by what \<open>string_z_optimizer\<close> writes for a following value.\<close>

lemma string_z_ambiguous:
  "bind_res (string_z_encode buffer_encoder [65, 0, 66] []) (string_z_encode buffer_encoder []) =
   bind_res (string_z_encode buffer_encoder [65] []) (\<lambda>s. bind_res (string_z_encode buffer_encoder [66] s) (string_z_encode buffer_encoder []))"
  by code_simp

section \<open>Properties\<close>

text \<open>
  C36. The codec the compiler selects for a type, little or big endian, plain or optimized, on a machine of either byte order and
  over any encoder and decoder that keep their contracts: for every type built of integers, strings, vectors, lists and pairs,
  encoding a value appends bytes in front of which decoding returns the value and stops behind them. The plain codec does so for
  every value whose lengths fit their 32-bit fields. With the optimizers strings and vectors of integers that are empty are excluded unless the decoder
  can copy zero bytes: the buffer decoder can, the file decoder throws at the end of its file.
\<close>

theorem codec_dispatch_roundtrip:
  assumes "byte_sink enc out ok" and "ok s" and "byte_source dec rest ok'" and "val_ok (opt \<and> \<not> copies_nothing dec rest ok') t v"
  shows "\<exists>bs s'. codec_encode c opt host enc t v s = Inr s' \<and> ok s' \<and> out s' = out s @ bs \<and>
    (\<forall>r ys. ok' r \<and> rest r = bs @ ys \<longrightarrow> (\<exists>r'. codec_decode c opt host dec t r = Inr (v, r') \<and> ok' r' \<and> rest r' = ys))"
  using byte_sink.emitsD [OF assms(1) byte_sink.emits_codec [OF assms(1)] assms(2), of c opt host t v]
    byte_source.readsD [OF assms(3) byte_source.reads_codec [OF assms(3)] assms(4), of _ c host] by blast

theorem codec_dispatch_roundtrip_witness:
  "\<exists>bs. codec_encode Big True Little buffer_encoder (Vector_ty (Pair_ty String_ty (Int_ty Int16_ty)))
      (VSeq [VPair (VSeq [VInt 104, VInt 105]) (VInt (-2)), VPair (VSeq []) (VInt 3)]) [] = Inr bs \<and>
    codec_decode Big True Little buffer_decoder (Vector_ty (Pair_ty String_ty (Int_ty Int16_ty))) (bs @ [7]) =
      Inr (VSeq [VPair (VSeq [VInt 104, VInt 105]) (VInt (-2)), VPair (VSeq []) (VInt 3)], [7])"
proof -
  have "val_ok (True \<and> \<not> copies_nothing buffer_decoder id (\<lambda>_. True)) (Vector_ty (Pair_ty String_ty (Int_ty Int16_ty)))
      (VSeq [VPair (VSeq [VInt 104, VInt 105]) (VInt (-2)), VPair (VSeq []) (VInt 3)])"
    by (simp add: u32_max_def buffer_copies_nothing)
  from codec_dispatch_roundtrip [OF buf_sink.byte_sink_axioms _ buf_source.byte_source_axioms this, where s = "[]" and c = Big and host = Little]
  show ?thesis by auto
qed

text \<open>
  C37. Over buffers the default set of optimizers changes nothing where it may be used: when the machine has the byte order of the codec, the
  optimized codec of every type writes into a buffer the bytes of the plain one, and what either wrote is read back from the buffer by both, empty
  strings and vectors included.
\<close>

theorem optimized_codec_equivalent:
  "codec_encode c True c buffer_encoder t v buf = codec_encode c False c buffer_encoder t v buf \<and>
   (val_ok False t v \<longrightarrow> (\<exists>bs. codec_encode c False c buffer_encoder t v buf = Inr (buf @ bs) \<and>
     (\<forall>ys. codec_decode c True c buffer_decoder t (bs @ ys) = Inr (v, ys) \<and> codec_decode c False c buffer_decoder t (bs @ ys) = Inr (v, ys))))"
proof -
  have enc: "codec_encode c opt c buffer_encoder t v buf = Inr (buf @ val_bytes c opt c t v)" for opt
    using buf_sink.emitsD [OF buf_sink.emits_codec, where s = buf] by fastforce
  have dec: "codec_decode c opt c buffer_decoder t (val_bytes c opt c t v @ ys) = Inr (v, ys)" if "val_ok False t v" for opt ys
    using buf_source.readsD [OF buf_source.reads_codec, of opt t v "val_bytes c opt c t v @ ys" c c ys] that
    by (auto simp: buffer_copies_nothing)
  show ?thesis using enc dec [of True] dec [of False] by (auto simp: optimized_bytes)
qed

theorem optimized_codec_equivalent_witness:
  "codec_encode Little True Little buffer_encoder (Vector_ty (Int_ty Uint64_ty)) (VSeq [VInt 5]) [] =
   codec_encode Little False Little buffer_encoder (Vector_ty (Int_ty Uint64_ty)) (VSeq [VInt 5]) [] \<and>
   (\<exists>bs. codec_decode Little True Little buffer_decoder (Vector_ty (Int_ty Uint64_ty)) bs = Inr (VSeq [VInt 5], []))"
proof -
  have "val_ok False (Vector_ty (Int_ty Uint64_ty)) (VSeq [VInt 5])" by (simp add: u32_max_def)
  then show ?thesis using optimized_codec_equivalent [of Little "Vector_ty (Int_ty Uint64_ty)" "VSeq [VInt 5]" "[]"]
    by (metis append_Nil2)
qed

end
