(* ===== verification/Logger.thy ===== *)
theory Logger
  imports Diagnostics
begin

text \<open>
  The set-up of the logger in \<open>src/log/log.cpp\<close> and the macro \<open>LOG\<close> of \<open>src/include/log/log.h\<close>. The levels of log4cxx are ordered;
  a logger without a level of its own uses the level of the root logger. An appender is the file it writes to and whether it
  flushes after every message; appenders that are no files are left alone by \<open>flush_logger\<close>. \<open>global_log_limit\<close> is null before
  the set-up, and comparing with a null level is a bad access.
\<close>

section \<open>Levels\<close>

datatype log_level = TRACE | DEBUG | INFO | WARN | ERROR | FATAL

fun level_to_int :: "log_level \<Rightarrow> nat" where
  "level_to_int TRACE = 5000"
| "level_to_int DEBUG = 10000"
| "level_to_int INFO = 20000"
| "level_to_int WARN = 30000"
| "level_to_int ERROR = 40000"
| "level_to_int FATAL = 50000"

instantiation log_level :: linorder
begin

definition less_eq_log_level :: "log_level \<Rightarrow> log_level \<Rightarrow> bool" where
  "less_eq_log_level a b \<longleftrightarrow> level_to_int a \<le> level_to_int b"

definition less_log_level :: "log_level \<Rightarrow> log_level \<Rightarrow> bool" where
  "less_log_level a b \<longleftrightarrow> level_to_int a < level_to_int b"

instance
proof
  fix a b c :: log_level
  show "(a < b) = (a \<le> b \<and> \<not> b \<le> a)" by (auto simp: less_eq_log_level_def less_log_level_def)
  show "a \<le> a" by (simp add: less_eq_log_level_def)
  show "a \<le> c" if "a \<le> b" "b \<le> c" using that by (simp add: less_eq_log_level_def)
  show "a = b" if "a \<le> b" "b \<le> a" using that by (cases a; cases b) (simp_all add: less_eq_log_level_def)
  show "a \<le> b \<or> b \<le> a" by (auto simp: less_eq_log_level_def)
qed

end

section \<open>The state of the logger\<close>

record appender =
  ap_file :: "string option"
  ap_immediate_flush :: bool
  ap_lines :: "string list"

record logger =
  lg_root_level :: log_level
  lg_levels :: "string \<Rightarrow> log_level option"
  lg_appenders :: "appender list"
  lg_global_log_limit :: "log_level option"

definition setup_logger :: "string \<Rightarrow> log_level \<Rightarrow> log_level \<Rightarrow> logger \<Rightarrow> logger" where
  "setup_logger log_path level global_log_limit_arg l =
     l\<lparr>lg_root_level := level, lg_global_log_limit := Some global_log_limit_arg,
       lg_appenders := lg_appenders l @ [\<lparr>ap_file = Some log_path, ap_immediate_flush = False, ap_lines = []\<rparr>]\<rparr>"

definition setup_logger_test :: "string \<Rightarrow> log_level \<Rightarrow> logger \<Rightarrow> logger" where
  "setup_logger_test log_path level l = setup_logger log_path level TRACE l"

definition setup_logger_prod :: "bool \<Rightarrow> string \<Rightarrow> logger \<Rightarrow> logger" where
  "setup_logger_prod ndebug log_path l =
     (if \<not> ndebug then setup_logger log_path DEBUG TRACE l else setup_logger log_path INFO INFO l)"

definition flush_logger :: "logger \<Rightarrow> logger" where
  "flush_logger l = l\<lparr>lg_appenders := map (\<lambda>a. if ap_file a \<noteq> None then a\<lparr>ap_immediate_flush := True\<rparr> else a) (lg_appenders l)\<rparr>"

definition effective_level :: "string \<Rightarrow> logger \<Rightarrow> log_level" where
  "effective_level name l = (case lg_levels l name of Some lv \<Rightarrow> lv | None \<Rightarrow> lg_root_level l)"

text \<open>\<open>LOG(level, message)\<close> in the function \<open>pretty\<close>: the compile-time name of the level, then log4cxx's own test.\<close>

definition LOG :: "log_level \<Rightarrow> string \<Rightarrow> string \<Rightarrow> logger \<Rightarrow> logger res" where
  "LOG level pretty message l = (case lg_global_log_limit l of
     None \<Rightarrow> Inl Bad_access
   | Some limit \<Rightarrow>
       if limit \<le> level
       then bind_res (convert_pretty_function log_pf_buf_size pretty) (\<lambda>name.
         Inr (if effective_level name l \<le> level
              then l\<lparr>lg_appenders := map (ap_lines_update (\<lambda>ls. ls @ [message])) (lg_appenders l)\<rparr> else l))
       else Inr l)"

section \<open>What is logged\<close>

text \<open>Logging before the set-up reads through a null pointer.\<close>

lemma LOG_before_setup: "lg_global_log_limit l = None \<Longrightarrow> LOG level pretty m l = Inl Bad_access"
  by (simp add: LOG_def)

text \<open>
  After the set-up for production a message from a function without a logger of its own goes to every appender exactly when its
  level is at least \<open>INFO\<close>, in a debug build at least \<open>DEBUG\<close>; all others change nothing.
\<close>

lemma prod_logging:
  assumes "convert_pretty_function log_pf_buf_size pretty = Inr name" and "lg_levels l name = None"
  shows "LOG level pretty m (setup_logger_prod ndebug path l) = Inr (let l' = setup_logger_prod ndebug path l in
    if (if ndebug then INFO else DEBUG) \<le> level
    then l'\<lparr>lg_appenders := map (ap_lines_update (\<lambda>ls. ls @ [m])) (lg_appenders l')\<rparr> else l')"
proof -
  have "TRACE \<le> lv" for lv by (cases lv) (simp_all add: less_eq_log_level_def)
  then show ?thesis using assms
    by (auto simp: LOG_def setup_logger_prod_def setup_logger_def effective_level_def Let_def)
qed

text \<open>A level below the global limit is dropped before the name of the function is built.\<close>

lemma LOG_below_limit: "lg_global_log_limit l = Some limit \<Longrightarrow> level < limit \<Longrightarrow> LOG level pretty m l = Inr l"
  by (auto simp: LOG_def dest: leD)

text \<open>\<open>flush_logger\<close> makes every file flush and loses no line; doing it again changes nothing.\<close>

lemma flush_logger_ok:
  "\<forall>a \<in> set (lg_appenders (flush_logger l)). ap_file a \<noteq> None \<longrightarrow> ap_immediate_flush a"
  "map ap_lines (lg_appenders (flush_logger l)) = map ap_lines (lg_appenders l)"
  "flush_logger (flush_logger l) = flush_logger l"
  by (auto simp: flush_logger_def comp_def)

end
