(* ===== verification/Spec2Isabelle.thy ===== *)
theory Spec2Isabelle
  imports Session_Correct Codecs_Correct File_IO Ini_Config_Correct Threads Aio Buffer_Cache Write_Queue Journal_Runs
    Gen_Tree Versioning Serialize_Correct List_Example Netserver_Main Server_Main
    Codec_Dispatch Logger
begin

text \<open>
  A verification library for CoherentDB (C++ sources under \<open>src/src\<close>): a memory manager with
  sessions, a serialization library, file and asynchronous i/o, a buffer cache, a journal,
  an ini configuration, thread primitives and a network server.

  \<^bold>\<open>The parts and how they interact.\<close> The memory manager bounds what the sessions of the process may
  use; a session owns sub-sessions, and the C++ allocator of a container takes its memory from the
  sub-session that is current in its thread. Encoders turn values into bytes with a codec and put
  them into a buffer or a file; \<open>Virtual\<close> adds objects behind base class pointers. Multi-buffers
  share copy-on-write buffers; files read and write them with vectored, page-aligned i/o, and the
  asynchronous files hand such requests to a worker pool. The buffer cache binds frames of such
  buffers to files. The journal has a thread that takes requests from the worker pool's queue and
  a pool for its callbacks. The network server's tasks write to the write queues of its
  connections. The configuration supplies the limits of memory manager and buffer cache.

  \<^bold>\<open>Conventions.\<close> A class is a record with the source's members, an enumeration or a family of
  request classes a datatype, a member function a definition of the same name on the state it
  changes. Fallible operations return \<open>exn + 'a\<close>; a failed assertion and a thrown exception are
  values of \<open>exn\<close>. \<open>uint32_t\<close>, \<open>uint64_t\<close> and \<open>size_t\<close> are natural numbers with the operators that wrap written out
  (\<open>Coh_Prelude\<close>); the integer codecs work on words. Concurrent code is a step relation whose steps
  are the critical sections (or single atomic instructions, for the spin locks), labelled with
  what happened; a theorem about it holds for every interleaving. Accesses that the code does not
  protect by a lock (the journal's map of requests) are intervals, and an overlap ends the run as a race. A wait on a condition variable
  ends a step, and a woken thread tries again in a later one. System calls, sockets, \<open>mmap\<close>, \<open>boost::regex\<close> and
  \<open>lexical_cast\<close> are parameters, and what the code relies on in them are the assumptions of
  locales or of the theorem; every locale is interpreted on the model or on a concrete system.

  \<^bold>\<open>Shared theories.\<close> \<open>Coh_Prelude\<close>: results, assertions, unsigned arithmetic. \<open>Std_Containers\<close>: \<open>std::map\<close>
  and \<open>std::set\<close> as sorted lists, with the laws of the ordered map as a locale. \<open>Simulation\<close>: runs of
  step relations and the locales for invariants, history invariants and simulations.

  \<^bold>\<open>Memory manager\<close> (\<open>memory_manager/*.cpp\<close>). \<open>Memory_Manager\<close>: reservations, time-outs and frees; the
  counters equal the outstanding reservations and stay within the limits, and over any history blocked
  reservations leave their queue in order, none overtaking an earlier one. \<open>Sub_Session\<close>, \<open>Chunk_Tiling\<close>, \<open>Sub_Session_Correct\<close>,
  \<open>Sub_Session_Release\<close>, \<open>Sub_Session_Spec\<close>: the small-chunk allocator, the invariant that free and used chunks tile the
  mapped regions, correctness of allocation and release (best fit, merging, unmapping), the
  accounting, and the refinement to an abstract heap of disjoint blocks. A release of a block at the boundary of two adjacent regions
  merges across it; the release theorem excludes exactly this case, the refinement holds up to the first such release, and a
  theorem of its own says what is lost then. \<open>Session\<close>, \<open>Session_Correct\<close>: sessions and
  sub-sessions in an object store, freezing and unfreezing, destruction, the allocator.

  \<^bold>\<open>Serialization\<close> (\<open>include/serialization\<close>, \<open>include/misc\<close>). \<open>Encoders\<close>: buffer and file encoders and
  decoders as interpretations of the byte sink and byte source locales. \<open>Codecs\<close>, \<open>Codecs_Correct\<close>: little and
  big endian integers, containers, optimizers (maps are only encoded: their decoding does not compile); round trips, equivalence of the optimized
  routines, termination of the copy loops. \<open>Codec_Dispatch\<close>: the codec that the compiler selects for a nested type, plain or
  with the default optimizers; it round-trips, empty sequences under the optimizers only where the decoder can copy zero bytes,
  and the optimizers change no byte where codec and machine agree on the byte order.
  \<open>Virtual_Class\<close>, \<open>Virtual_Class_Correct\<close>: type lists and trees, the
  tree check, pointer policies, \<open>Virtual\<close> and the hierarchy of \<open>vc_example.cpp\<close>; a checked tree behaves like the
  list of its types, and objects and null pointers survive a round trip. \<open>Vc_Example\<close> is the whole program \<open>vc_example.cpp\<close>:
  what it prints, and that it leaves no object behind; \<open>List_Example\<close> the program \<open>list_example.cpp\<close>. \<open>Pimpl\<close>: the classes generated from a
  type list (\<open>pimpl_generator.h\<close>, \<open>encoders_pimpl.h\<close>) and the older virtual encoders; which calls compile and what they do.
  \<open>Gen_Tree\<close> (\<open>vc_gen_test.cpp\<close>): the generator of balanced type trees; it returns, and its tree is in order and of
  logarithmic height. \<open>Versioning\<close> (\<open>version_test.cpp\<close>): structures with versions, compatible in both directions.
  \<open>Serialize_Program\<close>, \<open>Serialize_Correct\<close> (\<open>serialize.cpp\<close>): the test program, which composes all of these; what it writes to
  files it reads back, whatever the random data, and its codecs are interchangeable.

  \<^bold>\<open>Files and buffers\<close> (\<open>util/multi_buffer.cpp\<close>, \<open>util/file.cpp\<close>, \<open>util/aio.cpp\<close>, \<open>buffercache\<close>). \<open>Multi_Buffer\<close>,
  \<open>Multi_Buffer_Correct\<close>: buffers with use counts; sharing multi-buffers behave like independent byte arrays, and a write that runs out of memory
  has written a prefix. \<open>File_IO\<close>: for every behaviour of the system calls, which transfers and errors make a read or a write
  return or throw; reads that return give the requested range, a written multi-buffer is read back. \<open>Aio\<close>:
  requests, completions and \<open>async_file\<close>; every request completes once. \<open>Buffer_Cache\<close>: the frame lists
  and least recently used replacement, the exact outcome of taking a frame, and the state a failed call leaves.

  \<^bold>\<open>Configuration\<close> (\<open>config/config.cpp\<close>). \<open>Ini_Config\<close>, \<open>Ini_Config_Correct\<close>: the ini parser, typed sections and the
  global configuration; errors are reported and never assertion failures, printed configurations are read back.

  \<^bold>\<open>Threads\<close> (\<open>util/thread.cpp\<close>, \<open>include/util/thread.h\<close>, \<open>worker_pool.h\<close>). \<open>Threads\<close>: two spin lock implementations (mutual
  exclusion, equivalence), completions (no lost wake-up). \<open>Worker_Pool\<close>: items are handled once and in
  order, and stopping the pool drains it.

  \<^bold>\<open>Journal\<close> (\<open>journal/*.cpp\<close>). \<open>Journal\<close>: requests, the journal thread, callbacks; inserting cannot succeed
  because the block operations are stubs. \<open>Journal_Runs\<close>: the interleavings of erase calls, the journal thread and the
  callback workers; every erase call is answered once in the runs without a race on the unlocked map, and the race is
  reachable.

  \<^bold>\<open>Network server\<close> (\<open>netserver\<close>). \<open>Write_Queue\<close>: the synchronized queue and the write queue, whose bytes
  on the wire are whole messages; an interleaving that strands a message. \<open>Thread_Pool\<close>: the
  pool of threads with its blocked threads and interruption; tasks are taken in order, no wake-up is lost, an interrupt stops
  the threads. \<open>Netserver\<close>: join points, connections and the echo server over the write queues. \<open>Netserver_Main\<close>: the main
  program, closing a connection and the blocking echo function.

  \<^bold>\<open>Server and diagnostics\<close> (\<open>server/server.cpp\<close>, \<open>log\<close>, \<open>debug\<close>). \<open>Diagnostics\<close>: the logger's name for a function, which is the
  path of its namespaces and classes, the stack walk and when it returns, the handlers of fatal signals. \<open>Logger\<close>: the set-up of the logger and the \<open>LOG\<close> macro.
  \<open>Server_Main\<close>: the command line, the main program and its exit codes on top of the configuration, and the
  preparation of test programs.

  \<^bold>\<open>Fuel and partial loops.\<close> The copy loops of the file encoders get one round per byte and one more, which
  is proved enough (\<open>file_memcpy_terminates\<close>). The retry of an interrupted \<open>preadv\<close> gets its fuel as an argument; the
  read theorem says that the read runs out of it exactly when \<open>preadv\<close> has been interrupted that many times.
  The loop over the records of a journal block is a partial function, because nothing bounds it, and so are
  the recursion of the tree generator and the stack walk; for these it is proved when they return.

  \<^bold>\<open>Not modelled.\<close> The log messages of the other components, the compiler's demangler, and the printing in the other test
  programs. Daemon start. The programs that are only read as
  compiled code (\<open>inline_int64_t.cpp\<close>, \<open>gen_main.cpp\<close>). The random
  data server, which does not compile. The recovery file of the journal, which has only stubs.
\<close>

end
